(* ===== verification/Prelude.thy ===== *)
theory Prelude
  imports Main "HOL-Library.Word" "HOL-Library.Multiset" "HOL-Library.Monad_Syntax"
begin

unbundle bit_operations_syntax

text \<open>
  Shared ground of the development: names for the machine types the code uses, the
  collections of rewrite rules the component theories fill, and generic facts on lists,
  options and words that several components need. Nothing here models code of its own.
\<close>

section \<open>Machine types\<close>

text \<open>\<open>size_t\<close> on the 64-bit targets the code is written for (it shifts a \<open>size_t\<close>
  by 32 bits), \<open>TopicId = uint32_t\<close>, \<open>SubscriptionId = uint64_t\<close>.\<close>

type_synonym size_t = "64 word"
type_synonym topic_id = "32 word"
type_synonym sub_id = "64 word"

text \<open>Message types (\<open>std::type_info\<close>), heap addresses, slot pointers and client handlers
  are compared or followed but never computed with: they are numbers.\<close>

type_synonym type_info = nat
type_synonym addr = nat
type_synonym slot_ref = nat
type_synonym handler_ref = nat

section \<open>Collections of rewrite rules\<close>

named_theorems queue_laws \<open>functional laws of the queue operations\<close>
named_theorems trie_simps \<open>views of a trie after an operation\<close>
named_theorems mem_simps \<open>heap and reference-count effects\<close>

section \<open>Lists\<close>

lemma nth_append_snoc [simp]: "(xs @ [x]) ! length xs = x"
  by simp

lemma nth_snoc_less: "i < length xs \<Longrightarrow> (xs @ [x]) ! i = xs ! i"
  by (simp add: nth_append)

lemma filter_nth_eq_map:
  "map (\<lambda>i. f (xs ! i)) [0..<length xs] = map f xs"
  by (rule nth_equalityI) simp_all

lemma upt_Suc_hd: "0 < n \<Longrightarrow> [0..<n] = 0 # map Suc [0..<n - 1]"
  by (simp add: map_Suc_upt upt_conv_Cons)

lemma drop_nth_Cons: "i < length xs \<Longrightarrow> drop i xs = xs ! i # drop (Suc i) xs"
  by (simp add: Cons_nth_drop_Suc)

section \<open>Options\<close>

lemma map_option_eq_Some_iff: "map_option f x = Some y \<longleftrightarrow> (\<exists>z. x = Some z \<and> y = f z)"
  by auto

lemma option_bind_Some_iff: "(Option.bind x f = Some y) = (\<exists>z. x = Some z \<and> f z = Some y)"
  by (cases x) auto

section \<open>Words\<close>

lemma unat_of_nat_small: "n < 2 ^ 64 \<Longrightarrow> unat (of_nat n :: size_t) = n"
  by (simp add: take_bit_nat_eq_self unat_of_nat)

lemma mod_pow2_unat_of_nat:
  assumes "k \<le> 64"
  shows "unat (of_nat n :: size_t) mod 2 ^ k = n mod 2 ^ k"
proof -
  have "unat (of_nat n :: size_t) = n mod 2 ^ 64"
    by (simp add: unat_of_nat)
  moreover have "(2::nat) ^ k dvd 2 ^ 64"
    using assms by (rule le_imp_power_dvd)
  ultimately show ?thesis
    by (metis mod_mod_cancel)
qed

lemma unat_add_mod_pow2:
  assumes "k \<le> 64"
  shows "unat (a + of_nat n :: size_t) mod 2 ^ k = (unat a + n) mod 2 ^ k"
proof -
  have "a + of_nat n = of_nat (unat a + n)"
    by simp
  then show ?thesis
    using mod_pow2_unat_of_nat[OF assms, of "unat a + n"] by metis
qed

lemma and_mask_mod:
  assumes "k < 64" and "m + 1 = (2::size_t) ^ k"
  shows "unat (p AND m) = unat p mod 2 ^ k"
proof -
  have "m = mask k"
    using assms(2) by (simp add: mask_eq_decr_exp) (metis add_diff_cancel_right')
  then have "p AND m = take_bit k p"
    by (simp add: take_bit_eq_mask)
  moreover have "unat (take_bit k p) = take_bit k (unat p)"
    by (rule unsigned_take_bit_eq)
  ultimately show ?thesis
    by (metis take_bit_eq_mod)
qed

lemma unat_two_power: "k < 64 \<Longrightarrow> unat ((2::size_t) ^ k) = 2 ^ k"
proof -
  assume "k < 64"
  then have "(2::nat) ^ k < 2 ^ 64"
    by (rule power_strict_increasing) simp
  then show ?thesis
    using unat_of_nat_small[of "2 ^ k"] by simp
qed

lemma mod_add_inj:
  fixes a j j' n :: nat
  assumes eq: "(a + j) mod n = (a + j') mod n" and "j < n" "j' < n"
  shows "j = j'"
proof (rule ccontr)
  assume "j \<noteq> j'"
  have *: "False" if "(a + j) mod n = (a + j') mod n" "j < j'" "j' < n" for j j' :: nat
  proof -
    have "n dvd (a + j') - (a + j)"
      using that(1,2) mod_eq_dvd_iff_nat[of "a + j" "a + j'" n] by simp
    then have "n dvd j' - j" by simp
    then show False
      using that(2,3) by (auto dest: dvd_imp_le)
  qed
  from \<open>j \<noteq> j'\<close> show False
    using *[of j j'] *[of j' j] assms by (cases "j < j'") auto
qed

lemma two_power_ge_2: "0 < k \<Longrightarrow> 2 \<le> (2::nat) ^ k"
  by (cases k) auto

end
