(* ===== verification/Bounded_Fifo.thy ===== *)
theory Bounded_Fifo
  imports Prelude
begin

text \<open>
  The contract between a bounded queue and its users (object pool, message bus, dispatchers):
  \<open>enq\<close> appends or reports a full queue, \<open>deq\<close> hands out the oldest element or reports an
  empty one, and both return. \<open>None\<close> as a result is a call that does not return. The locale
  derives what the users need: inversion rules, a drain loop, batches.
\<close>

text \<open>The loop \<^verbatim>\<open>while (q.try_dequeue(x)) f(x);\<close> that destructors run.\<close>

partial_function (option) drain ::
  "('q \<Rightarrow> ('q \<times> bool \<times> 'a option) option) \<Rightarrow> ('a option \<Rightarrow> 's \<Rightarrow> 's) \<Rightarrow> 'q \<Rightarrow> 's \<Rightarrow> ('q \<times> 's) option"
where
  "drain deq f q s =
     Option.bind (deq q) (\<lambda>r. case r of (q', ok, x) \<Rightarrow>
       if ok then drain deq f q' (f x s) else Some (q', s))"

declare drain.simps [code]

locale bounded_fifo =
  fixes enq :: "'q \<Rightarrow> 'a \<Rightarrow> ('q \<times> bool) option"
    and deq :: "'q \<Rightarrow> ('q \<times> bool \<times> 'a option) option"
    and cap :: "'q \<Rightarrow> nat"
    and contents :: "'q \<Rightarrow> 'a list"
    and invar :: "'q \<Rightarrow> bool"
  assumes enq_free: "invar q \<Longrightarrow> length (contents q) < cap q \<Longrightarrow>
      \<exists>q'. enq q v = Some (q', True) \<and> invar q' \<and> cap q' = cap q \<and> contents q' = contents q @ [v]"
    and enq_full: "invar q \<Longrightarrow> length (contents q) = cap q \<Longrightarrow> enq q v = Some (q, False)"
    and deq_some: "invar q \<Longrightarrow> contents q = v # vs \<Longrightarrow>
      \<exists>q'. deq q = Some (q', True, Some v) \<and> invar q' \<and> cap q' = cap q \<and> contents q' = vs"
    and deq_none: "invar q \<Longrightarrow> contents q = [] \<Longrightarrow> deq q = Some (q, False, None)"
    and bounded: "invar q \<Longrightarrow> length (contents q) \<le> cap q"
    and cap_pos: "invar q \<Longrightarrow> 0 < cap q"
begin

lemma enq_cases:
  assumes "invar q"
  obtains (free) q' where "length (contents q) < cap q" "enq q v = Some (q', True)"
      "invar q'" "cap q' = cap q" "contents q' = contents q @ [v]"
    | (full) "length (contents q) = cap q" "enq q v = Some (q, False)"
proof (cases "length (contents q) < cap q")
  case True
  then show thesis
    using enq_free[OF assms True, of v] free by blast
next
  case False
  then have "length (contents q) = cap q"
    using bounded[OF assms] by simp
  then show thesis
    using enq_full[OF assms, of v] full by blast
qed

lemma deq_cases:
  assumes "invar q"
  obtains (some) q' v where "contents q = v # contents q'" "deq q = Some (q', True, Some v)"
      "invar q'" "cap q' = cap q"
    | (none) "contents q = []" "deq q = Some (q, False, None)"
proof (cases "contents q")
  case Nil
  then show thesis
    using deq_none[OF assms] none by blast
next
  case (Cons v vs)
  then show thesis
    using deq_some[OF assms Cons] some by auto
qed

lemma enq_Some_iff:
  assumes "invar q" "enq q v = Some (q', ok)"
  shows "invar q' \<and> cap q' = cap q \<and> (ok \<longleftrightarrow> length (contents q) < cap q) \<and>
    contents q' = (if ok then contents q @ [v] else contents q)"
proof (cases "length (contents q) < cap q")
  case True
  then show ?thesis
    using enq_free[OF assms(1) True, of v] assms(2) by auto
next
  case False
  then have "length (contents q) = cap q"
    using bounded[OF assms(1)] by simp
  then show ?thesis
    using enq_full[OF assms(1), of v] assms by auto
qed

lemma deq_Some_iff:
  assumes "invar q" "deq q = Some (q', ok, x)"
  shows "invar q' \<and> cap q' = cap q \<and> (ok \<longleftrightarrow> contents q \<noteq> []) \<and> (ok \<longleftrightarrow> x \<noteq> None) \<and>
    contents q' = tl (contents q) \<and> (\<forall>v. x = Some v \<longrightarrow> contents q = v # contents q')"
proof (cases "contents q")
  case Nil
  then show ?thesis
    using deq_none[OF assms(1) Nil] assms by auto
next
  case (Cons v vs)
  then show ?thesis
    using deq_some[OF assms(1) Cons] assms by auto
qed

lemmas enq_SomeD = enq_Some_iff[THEN conjunct1]
  enq_Some_iff[THEN conjunct2, THEN conjunct1]
  enq_Some_iff[THEN conjunct2, THEN conjunct2, THEN conjunct1]
  enq_Some_iff[THEN conjunct2, THEN conjunct2, THEN conjunct2]

lemma enq_total: "invar q \<Longrightarrow> \<exists>q' ok. enq q v = Some (q', ok)"
  by (rule enq_cases[of q v]) auto

lemma deq_total: "invar q \<Longrightarrow> \<exists>q' ok x. deq q = Some (q', ok, x)"
  by (rule deq_cases[of q]) auto

text \<open>A full queue accepts one more element right after one was taken out.\<close>

lemma deq_then_enq:
  assumes "invar q" "deq q = Some (q', True, x)"
  shows "\<exists>q''. enq q' v = Some (q'', True) \<and> invar q'' \<and> cap q'' = cap q \<and>
    contents q'' = tl (contents q) @ [v]"
proof -
  have "contents q \<noteq> []" "contents q' = tl (contents q)" "cap q' = cap q" "invar q'"
    using deq_Some_iff[OF assms] by auto
  moreover have "length (contents q) \<le> cap q"
    using bounded[OF assms(1)] .
  ultimately have "length (contents q') < cap q'"
    by (cases "contents q") auto
  then show ?thesis
    using enq_free[OF \<open>invar q'\<close>, of v] \<open>contents q' = tl (contents q)\<close> \<open>cap q' = cap q\<close> by auto
qed

lemma drain_all:
  "invar q \<Longrightarrow>
   \<exists>q'. drain deq f q s = Some (q', fold (\<lambda>v. f (Some v)) (contents q) s) \<and>
     invar q' \<and> cap q' = cap q \<and> contents q' = []"
proof (induction "contents q" arbitrary: q s)
  case Nil
  then show ?case
    using deq_none[OF Nil.prems] by (simp add: drain.simps[of deq f q])
next
  case (Cons v vs)
  obtain q' where q': "deq q = Some (q', True, Some v)" "invar q'" "cap q' = cap q"
    "contents q' = vs"
    using deq_some[OF Cons.prems] Cons.hyps(2) by metis
  have "drain deq f q s = drain deq f q' (f (Some v) s)"
    using q'(1) by (simp add: drain.simps[of deq f q])
  then show ?case
    using Cons.hyps(1)[of q' "f (Some v) s"] Cons.hyps(2) q' by (metis fold_simps(2))
qed

end

end
