(* ===== verification/Lock_Free_Queue.thy ===== *)
theory Lock_Free_Queue
  imports Bounded_Fifo
begin

text \<open>
  \<open>LockFreeQueue<T>\<close> (\<open>include/livioark/msgbus/lock_free_queue.h\<close>): the bounded queue of
  cells with sequence numbers. A thread inside \<open>try_enqueue\<close> or \<open>try_dequeue\<close> is a program
  point \<open>pc\<close>; \<open>tstep\<close> is one access of that thread to the shared memory. Running one thread
  alone gives the sequential operations \<open>try_enqueue\<close> and \<open>try_dequeue\<close>; the interleaved
  runs of many threads are in \<open>Lock_Free_Queue_Concurrent\<close>.

  The queue is used at nullable pointer types only (\<open>MessagePtr\<close>, \<open>T*\<close>): a cell holds an
  \<open>'a option\<close>, \<open>None\<close> being the null pointer, which is also what a default-constructed or
  a moved-from \<open>MessagePtr\<close> is. Accesses are sequentially consistent (the acquire and release
  orders of the source are not modelled); the signed difference of two positions is taken on
  64 bits.
\<close>

section \<open>Data\<close>

record 'a cell =
  sequence :: size_t
  cell_data :: "'a option"

record 'a lfq =
  qcapacity :: size_t
  qmask :: size_t
  qbuffer :: "'a cell list"
  enqueue_pos :: size_t
  dequeue_pos :: size_t

definition roundUpPowerOf2 :: "size_t \<Rightarrow> size_t" where
  "roundUpPowerOf2 v0 =
     (let v = v0 - 1;
          v = v OR drop_bit 1 v;
          v = v OR drop_bit 2 v;
          v = v OR drop_bit 4 v;
          v = v OR drop_bit 8 v;
          v = v OR drop_bit 16 v;
          v = v OR drop_bit 32 v;
          v = v + 1
      in if v < 2 then 2 else v)"

definition lfq_new :: "size_t \<Rightarrow> 'a lfq" where
  "lfq_new capacity =
     (let cap = roundUpPowerOf2 (if capacity < 2 then 2 else capacity)
      in \<lparr>qcapacity = cap, qmask = cap - 1,
          qbuffer = map (\<lambda>i. \<lparr>sequence = of_nat i, cell_data = None\<rparr>) [0..<unat cap],
          enqueue_pos = 0, dequeue_pos = 0\<rparr>)"

definition cell_index :: "'a lfq \<Rightarrow> size_t \<Rightarrow> nat" where
  "cell_index q pos = unat (pos AND qmask q)"

section \<open>One thread\<close>

text \<open>
  Program points of a thread. \<open>EnqLoad\<close> is about to load \<open>enqueue_pos\<close> (at the start, or
  after the cell was found ahead of the position), \<open>EnqSeq\<close> about to load the sequence number
  of its cell, \<open>EnqCas\<close> about to claim the position, \<open>EnqWrite\<close> owns the cell and is about to
  write the value, \<open>EnqPublish\<close> about to store the new sequence number; the dequeuing side is
  the same. \<open>EnqRet\<close> and \<open>DeqRet\<close> carry what the call returns.
\<close>

datatype 'a pc =
    Idle
  | EnqLoad 'a
  | EnqSeq 'a size_t
  | EnqCas 'a size_t
  | EnqWrite 'a size_t
  | EnqPublish size_t
  | EnqRet bool
  | DeqLoad
  | DeqSeq size_t
  | DeqCas size_t
  | DeqRead size_t
  | DeqRelease size_t "'a option"
  | DeqRet bool "'a option"

definition seq_diff :: "size_t \<Rightarrow> size_t \<Rightarrow> int" where
  "seq_diff seq pos = sint (seq - pos)"

definition set_cell_data :: "'a lfq \<Rightarrow> nat \<Rightarrow> 'a option \<Rightarrow> 'a lfq" where
  "set_cell_data q i x = q\<lparr>qbuffer := (qbuffer q)[i := (qbuffer q ! i)\<lparr>cell_data := x\<rparr>]\<rparr>"

definition set_cell_seq :: "'a lfq \<Rightarrow> nat \<Rightarrow> size_t \<Rightarrow> 'a lfq" where
  "set_cell_seq q i s = q\<lparr>qbuffer := (qbuffer q)[i := (qbuffer q ! i)\<lparr>sequence := s\<rparr>]\<rparr>"

text \<open>
  The boolean of \<open>tstep\<close> says that a \<open>compare_exchange_weak\<close> that could succeed fails
  spuriously instead. A failed exchange loads the current position into \<open>pos\<close>.
\<close>

fun tstep :: "'a lfq \<Rightarrow> bool \<Rightarrow> 'a pc \<Rightarrow> 'a lfq \<times> 'a pc" where
  "tstep q _ (EnqLoad v) = (q, EnqSeq v (enqueue_pos q))"
| "tstep q _ (EnqSeq v pos) =
     (let diff = seq_diff (sequence (qbuffer q ! cell_index q pos)) pos
      in if diff = 0 then (q, EnqCas v pos)
         else if diff < 0 then (q, EnqRet False)
         else (q, EnqLoad v))"
| "tstep q spurious (EnqCas v pos) =
     (if enqueue_pos q = pos \<and> \<not> spurious
      then (q\<lparr>enqueue_pos := pos + 1\<rparr>, EnqWrite v pos)
      else (q, EnqSeq v (enqueue_pos q)))"
| "tstep q _ (EnqWrite v pos) = (set_cell_data q (cell_index q pos) (Some v), EnqPublish pos)"
| "tstep q _ (EnqPublish pos) = (set_cell_seq q (cell_index q pos) (pos + 1), EnqRet True)"
| "tstep q _ DeqLoad = (q, DeqSeq (dequeue_pos q))"
| "tstep q _ (DeqSeq pos) =
     (let diff = seq_diff (sequence (qbuffer q ! cell_index q pos)) (pos + 1)
      in if diff = 0 then (q, DeqCas pos)
         else if diff < 0 then (q, DeqRet False None)
         else (q, DeqLoad))"
| "tstep q spurious (DeqCas pos) =
     (if dequeue_pos q = pos \<and> \<not> spurious
      then (q\<lparr>dequeue_pos := pos + 1\<rparr>, DeqRead pos)
      else (q, DeqSeq (dequeue_pos q)))"
| "tstep q _ (DeqRead pos) =
     (set_cell_data q (cell_index q pos) None,
      DeqRelease pos (cell_data (qbuffer q ! cell_index q pos)))"
| "tstep q _ (DeqRelease pos x) =
     (set_cell_seq q (cell_index q pos) (pos + qmask q + 1), DeqRet True x)"
| "tstep q _ Idle = (q, Idle)"
| "tstep q _ (EnqRet b) = (q, EnqRet b)"
| "tstep q _ (DeqRet b x) = (q, DeqRet b x)"

fun returned :: "'a pc \<Rightarrow> bool" where
  "returned (EnqRet _) = True"
| "returned (DeqRet _ _) = True"
| "returned Idle = True"
| "returned _ = False"

section \<open>The operations run by one thread alone\<close>

text \<open>The \<open>for (;;)\<close> loop and the code after it: \<open>None\<close> means that the call never returns.\<close>

partial_function (option) run_alone :: "'a lfq \<Rightarrow> 'a pc \<Rightarrow> ('a lfq \<times> 'a pc) option" where
  "run_alone q p =
     (if returned p then Some (q, p)
      else (case tstep q False p of (q', p') \<Rightarrow> run_alone q' p'))"

declare run_alone.simps [code]

definition try_enqueue :: "'a lfq \<Rightarrow> 'a \<Rightarrow> ('a lfq \<times> bool) option" where
  "try_enqueue q v = map_option (\<lambda>(q', p). (q', p = EnqRet True)) (run_alone q (EnqLoad v))"

text \<open>The result of \<open>try_dequeue\<close>: the returned flag and what is moved into \<open>value\<close>.\<close>

definition try_dequeue :: "'a lfq \<Rightarrow> ('a lfq \<times> bool \<times> 'a option) option" where
  "try_dequeue q =
     map_option (\<lambda>(q', p). case p of DeqRet b x \<Rightarrow> (q', b, x) | _ \<Rightarrow> (q', False, None))
       (run_alone q DeqLoad)"

section \<open>Rounding the capacity\<close>

text \<open>Each line of \<open>roundUpPowerOf2\<close> doubles the distance over which the bits are smeared to
  the right; after the last one every bit below the highest set bit is set.\<close>

lemma smear_step:
  assumes "\<And>i. bit w i \<longleftrightarrow> (\<exists>j<n. bit v (i + j))"
  shows "bit (w OR drop_bit n w) i \<longleftrightarrow> (\<exists>j<2 * n. bit v (i + j))"
proof -
  have "bit (w OR drop_bit n w) i \<longleftrightarrow> (\<exists>j<n. bit v (i + j)) \<or> (\<exists>j<n. bit v (i + (n + j)))"
    using assms[of i] assms[of "n + i"] by (simp add: bit_simps ac_simps)
  also have "\<dots> \<longleftrightarrow> (\<exists>j<2 * n. bit v (i + j))" (is "?l \<longleftrightarrow> ?r")
  proof
    assume ?l
    then show ?r
    proof
      assume "\<exists>j<n. bit v (i + (n + j))"
      then obtain j where "j < n" "bit v (i + (n + j))" by blast
      then show ?r by (intro exI[of _ "n + j"]) simp
    next
      assume "\<exists>j<n. bit v (i + j)"
      then obtain j where "j < n" "bit v (i + j)" by blast
      then show ?r by (intro exI[of _ j]) simp
    qed
  next
    assume ?r
    then obtain j where j: "j < 2 * n" "bit v (i + j)" by blast
    show ?l
    proof (cases "j < n")
      case False
      then have "j - n < n" "i + (n + (j - n)) = i + j" using j(1) by auto
      then show ?l using j(2) by metis
    qed (use j in blast)
  qed
  finally show ?thesis .
qed

definition smear :: "size_t \<Rightarrow> size_t" where
  "smear v =
     (let v = v OR drop_bit 1 v;
          v = v OR drop_bit 2 v;
          v = v OR drop_bit 4 v;
          v = v OR drop_bit 8 v;
          v = v OR drop_bit 16 v
      in v OR drop_bit 32 v)"

lemma bit_smear: "bit (smear v) i \<longleftrightarrow> (\<exists>j<64. bit v (i + j))"
  unfolding smear_def Let_def
  using smear_step[OF smear_step[OF smear_step[OF smear_step[OF smear_step[OF
    smear_step[of v 1 v]]]]]]
  by simp

lemma bit_smear_ge: "bit (smear v) i \<longleftrightarrow> (\<exists>j\<ge>i. bit v j)"
proof
  assume "\<exists>j\<ge>i. bit v j"
  then obtain j where j: "i \<le> j" "bit v j" by blast
  then have "j < 64" using bit_imp_le_length[OF j(2)] by simp
  with j show "bit (smear v) i"
    unfolding bit_smear by (intro exI[of _ "j - i"]) simp
next
  assume "bit (smear v) i"
  then obtain j where "bit v (i + j)"
    unfolding bit_smear by blast
  then show "\<exists>j\<ge>i. bit v j"
    by (intro exI[of _ "i + j"]) simp
qed

lemma smear_mask:
  fixes v :: size_t
  assumes "0 < v" "v < 2 ^ 63"
  shows "\<exists>k. 0 < k \<and> k < 64 \<and> smear v = mask k \<and> 2 ^ (k - 1) \<le> unat v \<and> unat v < 2 ^ k"
proof -
  define m where "m = Max {j. bit v j}"
  have fin: "finite {j. bit v j}"
    by (rule finite_subset[of _ "{..<64}"]) (auto dest: bit_imp_le_length)
  have ne: "{j. bit v j} \<noteq> {}"
  proof
    assume "{j. bit v j} = {}"
    then have "v = 0" by (intro bit_eqI) auto
    then show False using assms(1) by simp
  qed
  have mbit: "bit v m" and mmax: "\<And>j. bit v j \<Longrightarrow> j \<le> m"
    using Max_in[OF fin ne] Max_ge[OF fin] by (auto simp: m_def)
  have "smear v = mask (Suc m)"
    by (rule bit_eqI)
      (use mbit mmax in \<open>auto simp: bit_smear_ge bit_mask_iff less_Suc_eq_le dest: le_trans\<close>)
  moreover have lt: "unat v < 2 ^ Suc m"
  proof -
    have "v = take_bit (Suc m) v"
      by (rule bit_eqI) (use mmax in \<open>auto simp: bit_take_bit_iff less_Suc_eq_le\<close>)
    then have "unat v = take_bit (Suc m) (unat v)"
      by (metis unsigned_take_bit_eq)
    then show ?thesis
      by (metis take_bit_nat_less_exp)
  qed
  moreover have ge: "2 ^ m \<le> unat v"
  proof (rule ccontr)
    assume "\<not> 2 ^ m \<le> unat v"
    then have "\<not> bit (unat v) m"
      by (simp add: bit_iff_odd)
    then show False
      using mbit by (simp add: bit_unsigned_iff)
  qed
  moreover have "m < 63"
  proof -
    have "unat v < 2 ^ 63"
      using assms(2) by (simp add: word_less_nat_alt)
    then have "(2::nat) ^ m < 2 ^ 63"
      using ge by (rule le_less_trans[rotated])
    then show ?thesis
      by (simp only: power_strict_increasing_iff)
  qed
  ultimately show ?thesis
    by (intro exI[of _ "Suc m"]) simp
qed

lemma roundUpPowerOf2_smear:
  "roundUpPowerOf2 v = (let r = smear (v - 1) + 1 in if r < 2 then 2 else r)"
  by (simp only: roundUpPowerOf2_def smear_def Let_def)

lemma roundUpPowerOf2_correct:
  assumes "2 \<le> v" "v \<le> 2 ^ 63"
  shows "\<exists>k. 0 < k \<and> k < 64 \<and> roundUpPowerOf2 v = 2 ^ k \<and> unat v \<le> 2 ^ k \<and> 2 ^ k < 2 * unat v"
proof -
  have uv: "unat (v - 1) = unat v - 1"
    using assms(1) by (intro unat_minus_one) auto
  have v2: "2 \<le> unat v"
    using assms(1) by (simp add: word_le_nat_alt)
  have v63: "unat v \<le> 2 ^ 63"
    using assms(2) by (simp add: word_le_nat_alt)
  have "0 < v - 1" "v - 1 < 2 ^ 63"
    using uv v2 v63 by (simp_all add: word_less_nat_alt)
  then obtain k where k: "0 < k" "k < 64" "smear (v - 1) = mask k"
    "2 ^ (k - 1) \<le> unat (v - 1)" "unat (v - 1) < 2 ^ k"
    using smear_mask by blast
  have "mask k + 1 = (2 :: size_t) ^ k"
    by (simp add: mask_eq_decr_exp)
  moreover have "\<not> (2 :: size_t) ^ k < 2"
    using two_power_ge_2[OF k(1)] unat_two_power[OF k(2)] by (simp add: word_less_nat_alt)
  ultimately have "roundUpPowerOf2 v = 2 ^ k"
    by (simp add: roundUpPowerOf2_smear k(3) Let_def)
  moreover have "2 ^ k = 2 * (2::nat) ^ (k - 1)"
    using k(1) by (simp flip: power_Suc)
  ultimately show ?thesis
    using k uv v2 by (intro exI[of _ k]) auto
qed

section \<open>The representation invariant and the abstract queue\<close>

text \<open>
  The cells are seen from the dequeuing end: cell \<open>j\<close> is the one of position
  \<open>dequeue_pos + j\<close>. The first \<open>lfq_count\<close> of them are full (their sequence number is their
  position plus one), the others are free for exactly that position. All of it is modulo
  \<open>2 ^ 64\<close>: the invariant does not bound the number of operations.
\<close>

definition lfq_cap :: "'a lfq \<Rightarrow> nat" where
  "lfq_cap q = unat (qcapacity q)"

definition lfq_count :: "'a lfq \<Rightarrow> nat" where
  "lfq_count q = unat (enqueue_pos q - dequeue_pos q)"

definition lfq_cell :: "'a lfq \<Rightarrow> nat \<Rightarrow> 'a cell" where
  "lfq_cell q j = qbuffer q ! cell_index q (dequeue_pos q + of_nat j)"

definition lfq_list :: "'a lfq \<Rightarrow> 'a list" where
  "lfq_list q = map (\<lambda>j. the (cell_data (lfq_cell q j))) [0..<lfq_count q]"

definition lfq_shape :: "'a lfq \<Rightarrow> nat \<Rightarrow> bool" where
  "lfq_shape q k \<longleftrightarrow> 0 < k \<and> k < 64 \<and> qcapacity q = 2 ^ k \<and> qmask q = 2 ^ k - 1 \<and>
     length (qbuffer q) = 2 ^ k"

definition lfq_cell_ok :: "'a lfq \<Rightarrow> nat \<Rightarrow> bool" where
  "lfq_cell_ok q j \<longleftrightarrow>
     (let c = lfq_cell q j; pos = dequeue_pos q + of_nat j
      in if j < lfq_count q then sequence c = pos + 1 \<and> cell_data c \<noteq> None
         else sequence c = pos)"

definition lfq_inv :: "'a lfq \<Rightarrow> bool" where
  "lfq_inv q \<longleftrightarrow> (\<exists>k. lfq_shape q k) \<and> lfq_count q \<le> lfq_cap q \<and>
     (\<forall>j<lfq_cap q. lfq_cell_ok q j)"

lemma length_lfq_list [simp]: "length (lfq_list q) = lfq_count q"
  by (simp add: lfq_list_def)

lemma shape_cap: "lfq_shape q k \<Longrightarrow> lfq_cap q = 2 ^ k"
  by (simp add: lfq_shape_def lfq_cap_def unat_two_power)

lemma shape_index:
  assumes "lfq_shape q k"
  shows "cell_index q pos = unat pos mod 2 ^ k"
  using assms and_mask_mod[of k "qmask q" pos] by (simp add: lfq_shape_def cell_index_def)

lemma shape_index_less: "lfq_shape q k \<Longrightarrow> cell_index q pos < length (qbuffer q)"
  by (simp add: shape_index) (simp add: lfq_shape_def)

lemma shape_index_add:
  assumes "lfq_shape q k"
  shows "cell_index q (pos + of_nat j) = (unat pos + j) mod 2 ^ k"
  unfolding shape_index[OF assms]
  by (rule unat_add_mod_pow2) (use assms in \<open>simp add: lfq_shape_def\<close>)

lemma shape_index_inj:
  assumes "lfq_shape q k" "j < 2 ^ k" "j' < 2 ^ k"
  shows "cell_index q (pos + of_nat j) = cell_index q (pos + of_nat j') \<longleftrightarrow> j = j'"
  using mod_add_inj[OF _ assms(2,3)] by (auto simp: shape_index_add[OF assms(1)])

lemma enqueue_pos_eq: "enqueue_pos q = dequeue_pos q + of_nat (lfq_count q)"
  by (simp add: lfq_count_def)

section \<open>What the two operations do alone\<close>

lemma seq_diff_of_int:
  assumes "- (2 ^ 63) \<le> i" "i < 2 ^ 63" "seq = pos + of_int i"
  shows "seq_diff seq pos = i"
proof -
  have "sint (of_int i :: size_t) = signed_take_bit 63 i"
    by (simp add: signed_of_int)
  also have "\<dots> = i"
    using assms(1,2) by (simp add: signed_take_bit_int_eq_self)
  finally show ?thesis
    using assms(3) by (simp add: seq_diff_def)
qed

lemma seq_diff_self [simp]: "seq_diff p p = 0"
  by (simp add: seq_diff_def)

lemma seq_diff_behind: "seq_diff p (p + 1) < 0"
  using seq_diff_of_int[of "-1" p "p + 1"] by simp

lemma seq_diff_full:
  assumes "0 < k" "k < 64"
  shows "seq_diff (p + 1) (p + 2 ^ k) < 0"
proof -
  have "(2::int) ^ k \<le> 2 ^ 63"
    using assms(2) by (intro power_increasing) auto
  moreover have "2 \<le> (2::int) ^ k"
    using assms(1) by (cases k) auto
  ultimately show ?thesis
    using seq_diff_of_int[of "1 - 2 ^ k" "p + 1" "p + 2 ^ k"] by simp
qed

lemma run_alone_returned: "returned p \<Longrightarrow> run_alone q p = Some (q, p)"
  by (subst run_alone.simps) simp

lemma run_alone_step:
  "\<not> returned p \<Longrightarrow> run_alone q p = run_alone (fst (tstep q False p)) (snd (tstep q False p))"
  by (subst run_alone.simps) (simp add: case_prod_beta)

lemma cell_index_update [simp]:
  "cell_index (q\<lparr>enqueue_pos := e\<rparr>) = cell_index q"
  "cell_index (q\<lparr>dequeue_pos := d\<rparr>) = cell_index q"
  "cell_index (set_cell_data q i x) = cell_index q"
  "cell_index (set_cell_seq q i s) = cell_index q"
  by (simp_all add: cell_index_def fun_eq_iff set_cell_data_def set_cell_seq_def)

definition enqueued :: "'a lfq \<Rightarrow> 'a \<Rightarrow> 'a lfq" where
  "enqueued q v =
     (let i = cell_index q (enqueue_pos q)
      in q\<lparr>enqueue_pos := enqueue_pos q + 1,
           qbuffer := (qbuffer q)[i := \<lparr>sequence = enqueue_pos q + 1, cell_data = Some v\<rparr>]\<rparr>)"

definition dequeued :: "'a lfq \<Rightarrow> 'a lfq" where
  "dequeued q =
     (let i = cell_index q (dequeue_pos q)
      in q\<lparr>dequeue_pos := dequeue_pos q + 1,
           qbuffer := (qbuffer q)[i := \<lparr>sequence = dequeue_pos q + qmask q + 1, cell_data = None\<rparr>]\<rparr>)"

lemma cell_overwrite: "c\<lparr>cell_data := x, sequence := s\<rparr> = \<lparr>sequence = s, cell_data = x\<rparr>"
  by (cases c) simp

lemma try_enqueue_eq:
  assumes "cell_index q (enqueue_pos q) < length (qbuffer q)"
    and "diff = seq_diff (sequence (qbuffer q ! cell_index q (enqueue_pos q))) (enqueue_pos q)"
  shows "diff = 0 \<Longrightarrow> try_enqueue q v = Some (enqueued q v, True)"
    and "diff < 0 \<Longrightarrow> try_enqueue q v = Some (q, False)"
  using assms
  by (simp_all add: try_enqueue_def run_alone_step run_alone_returned Let_def set_cell_data_def
      set_cell_seq_def enqueued_def cell_index_def cell_overwrite)

lemma try_dequeue_eq:
  assumes "cell_index q (dequeue_pos q) < length (qbuffer q)"
    and "diff = seq_diff (sequence (qbuffer q ! cell_index q (dequeue_pos q))) (dequeue_pos q + 1)"
  shows "diff = 0 \<Longrightarrow> try_dequeue q =
      Some (dequeued q, True, cell_data (qbuffer q ! cell_index q (dequeue_pos q)))"
    and "diff < 0 \<Longrightarrow> try_dequeue q = Some (q, False, None)"
  using assms
  by (simp_all add: try_dequeue_def run_alone_step run_alone_returned Let_def set_cell_data_def
      set_cell_seq_def dequeued_def cell_index_def cell_overwrite)

lemma enqueued_fields [simp]:
  "enqueue_pos (enqueued q v) = enqueue_pos q + 1" "dequeue_pos (enqueued q v) = dequeue_pos q"
  "qcapacity (enqueued q v) = qcapacity q" "qmask (enqueued q v) = qmask q"
  "length (qbuffer (enqueued q v)) = length (qbuffer q)"
  by (simp_all add: enqueued_def Let_def)

lemma dequeued_fields [simp]:
  "enqueue_pos (dequeued q) = enqueue_pos q" "dequeue_pos (dequeued q) = dequeue_pos q + 1"
  "qcapacity (dequeued q) = qcapacity q" "qmask (dequeued q) = qmask q"
  "length (qbuffer (dequeued q)) = length (qbuffer q)"
  by (simp_all add: dequeued_def Let_def)

lemma shape_enqueued [simp]: "lfq_shape (enqueued q v) k = lfq_shape q k"
  and shape_dequeued [simp]: "lfq_shape (dequeued q) k = lfq_shape q k"
  by (simp_all add: lfq_shape_def)

lemma cap_enqueued [simp]: "lfq_cap (enqueued q v) = lfq_cap q"
  and cap_dequeued [simp]: "lfq_cap (dequeued q) = lfq_cap q"
  by (simp_all add: lfq_cap_def)

lemma cell_index_enqueued [simp]: "cell_index (enqueued q v) = cell_index q"
  and cell_index_dequeued [simp]: "cell_index (dequeued q) = cell_index q"
  by (simp_all add: cell_index_def fun_eq_iff)

lemma lfq_cell_enqueued:
  assumes "lfq_shape q k" "j < 2 ^ k" "lfq_count q < 2 ^ k"
  shows "lfq_cell (enqueued q v) j =
    (if j = lfq_count q then \<lparr>sequence = enqueue_pos q + 1, cell_data = Some v\<rparr> else lfq_cell q j)"
proof -
  have "cell_index q (enqueue_pos q) = cell_index q (dequeue_pos q + of_nat j) \<longleftrightarrow> j = lfq_count q"
    using shape_index_inj[OF assms(1) assms(2,3), of "dequeue_pos q"] enqueue_pos_eq[of q] by auto
  then show ?thesis
    using shape_index_less[OF assms(1)]
    by (auto simp: lfq_cell_def cell_index_enqueued) (auto simp: enqueued_def Let_def)
qed

lemma lfq_cell_dequeued:
  assumes "lfq_shape q k" "j < 2 ^ k"
  shows "lfq_cell (dequeued q) j =
    (if Suc j = 2 ^ k then \<lparr>sequence = dequeue_pos q + 2 ^ k, cell_data = None\<rparr>
     else lfq_cell q (Suc j))"
proof -
  have nxt: "dequeue_pos (dequeued q) + of_nat j = dequeue_pos q + of_nat (Suc j)"
    by simp
  have mask: "qmask q + 1 = 2 ^ k"
    using assms(1) by (simp add: lfq_shape_def)
  show ?thesis
  proof (cases "Suc j = 2 ^ k")
    case True
    then have "cell_index q (dequeue_pos q + of_nat (Suc j)) = cell_index q (dequeue_pos q)"
      using shape_index_add[OF assms(1), of "dequeue_pos q" "2 ^ k"] shape_index[OF assms(1)] by simp
    then have idx: "cell_index q (dequeue_pos q + (1 + of_nat j)) = cell_index q (dequeue_pos q)"
      by simp
    show ?thesis
      using True shape_index_less[OF assms(1)] mask
      by (simp add: lfq_cell_def add.assoc idx) (simp add: dequeued_def Let_def add.assoc)
  next
    case False
    then have lt: "Suc j < 2 ^ k" using assms(2) by simp
    then have "cell_index q (dequeue_pos q + of_nat (Suc j)) \<noteq> cell_index q (dequeue_pos q)"
      using shape_index_inj[OF assms(1) lt, of 0 "dequeue_pos q"] by simp
    then show ?thesis
      using False
      by (simp add: lfq_cell_def nxt del: of_nat_Suc) (simp add: dequeued_def Let_def add.assoc)
  qed
qed

lemma exp_le_half: "k < 64 \<Longrightarrow> (2::nat) ^ k \<le> 2 ^ 63"
  by (intro power_increasing) auto

lemma count_enqueued:
  assumes "lfq_shape q k" "lfq_count q < 2 ^ k"
  shows "lfq_count (enqueued q v) = Suc (lfq_count q)"
proof -
  have "enqueue_pos q + 1 - dequeue_pos q = of_nat (Suc (lfq_count q))"
    by (simp add: lfq_count_def)
  moreover have "Suc (lfq_count q) < 2 ^ 64"
    using assms exp_le_half[of k] by (simp add: lfq_shape_def)
  ultimately show ?thesis
    using unat_of_nat_small by (simp add: lfq_count_def del: of_nat_Suc)
qed

lemma count_dequeued:
  assumes "0 < lfq_count q"
  shows "lfq_count (dequeued q) = lfq_count q - 1"
proof -
  have "enqueue_pos q - (dequeue_pos q + 1) = enqueue_pos q - dequeue_pos q - 1"
    by simp
  moreover have "enqueue_pos q - dequeue_pos q \<noteq> 0"
    using assms by (auto simp: lfq_count_def)
  ultimately show ?thesis
    using unat_minus_one by (metis lfq_count_def dequeued_fields(1,2))
qed

lemma inv_cell:
  assumes "lfq_inv q" "j < lfq_cap q"
  shows "j < lfq_count q \<Longrightarrow> sequence (lfq_cell q j) = dequeue_pos q + of_nat j + 1"
    and "j < lfq_count q \<Longrightarrow> \<exists>v. cell_data (lfq_cell q j) = Some v"
    and "\<not> j < lfq_count q \<Longrightarrow> sequence (lfq_cell q j) = dequeue_pos q + of_nat j"
proof -
  have "lfq_cell_ok q j"
    using assms by (simp add: lfq_inv_def)
  then show "j < lfq_count q \<Longrightarrow> sequence (lfq_cell q j) = dequeue_pos q + of_nat j + 1"
    and "j < lfq_count q \<Longrightarrow> \<exists>v. cell_data (lfq_cell q j) = Some v"
    and "\<not> j < lfq_count q \<Longrightarrow> sequence (lfq_cell q j) = dequeue_pos q + of_nat j"
    by (auto simp: lfq_cell_ok_def Let_def)
qed

lemma enqueued_inv:
  assumes "lfq_inv q" "lfq_count q < lfq_cap q"
  shows "lfq_inv (enqueued q v)" "lfq_list (enqueued q v) = lfq_list q @ [v]"
proof -
  obtain k where k: "lfq_shape q k" using assms(1) by (auto simp: lfq_inv_def)
  note cap = shape_cap[OF k]
  have cnt: "lfq_count (enqueued q v) = Suc (lfq_count q)"
    using count_enqueued[OF k] assms(2) cap by simp
  have cell: "lfq_cell (enqueued q v) j =
      (if j = lfq_count q then \<lparr>sequence = enqueue_pos q + 1, cell_data = Some v\<rparr>
       else lfq_cell q j)" if "j < lfq_cap q" for j
    using lfq_cell_enqueued[OF k] that assms(2) cap by simp
  have "lfq_cell_ok (enqueued q v) j" if "j < lfq_cap q" for j
    using inv_cell[OF assms(1) that] cell[OF that] cnt enqueue_pos_eq[of q]
    by (cases "j < lfq_count q"; cases "j = lfq_count q") (auto simp: lfq_cell_ok_def Let_def)
  then show "lfq_inv (enqueued q v)"
    using k cnt assms(2) by (auto simp: lfq_inv_def)
  have "map (\<lambda>j. the (cell_data (lfq_cell (enqueued q v) j))) [0..<lfq_count q] = lfq_list q"
    unfolding lfq_list_def using assms(2) cell by (intro map_cong) auto
  then show "lfq_list (enqueued q v) = lfq_list q @ [v]"
    using cell[OF assms(2)] by (simp add: lfq_list_def[of "enqueued q v"] cnt)
qed

lemma dequeued_inv:
  assumes "lfq_inv q" "0 < lfq_count q"
  shows "lfq_inv (dequeued q)" "lfq_list q = the (cell_data (lfq_cell q 0)) # lfq_list (dequeued q)"
proof -
  obtain k where k: "lfq_shape q k" using assms(1) by (auto simp: lfq_inv_def)
  note cap = shape_cap[OF k]
  have le: "lfq_count q \<le> lfq_cap q" using assms(1) by (simp add: lfq_inv_def)
  note cnt = count_dequeued[OF assms(2)]
  have cell: "lfq_cell (dequeued q) j =
    (if Suc j = lfq_cap q then \<lparr>sequence = dequeue_pos q + 2 ^ k, cell_data = None\<rparr>
     else lfq_cell q (Suc j))" if "j < lfq_cap q" for j
    using lfq_cell_dequeued[OF k] that cap by simp
  have "lfq_cell_ok (dequeued q) j" if j: "j < lfq_cap q" for j
  proof (cases "Suc j = lfq_cap q")
    case True
    then have "(2::size_t) ^ k = 1 + of_nat j"
      using cap by (metis of_nat_Suc of_nat_numeral of_nat_power)
    then show ?thesis
      using cell[OF j] True le cnt by (auto simp: lfq_cell_ok_def Let_def)
  next
    case False
    then have "Suc j < lfq_cap q" using j by simp
    then show ?thesis
      using inv_cell[OF assms(1), of "Suc j"] cell[OF j] False cnt
      by (cases "Suc j < lfq_count q") (auto simp: lfq_cell_ok_def Let_def)
  qed
  then show "lfq_inv (dequeued q)"
    using k cnt le by (auto simp: lfq_inv_def)
  have "map (\<lambda>j. the (cell_data (lfq_cell (dequeued q) j))) [0..<lfq_count q - 1] =
      map (\<lambda>j. the (cell_data (lfq_cell q (Suc j)))) [0..<lfq_count q - 1]"
    using le cell by (intro map_cong) auto
  then show "lfq_list q = the (cell_data (lfq_cell q 0)) # lfq_list (dequeued q)"
    using upt_Suc_hd[OF assms(2)] by (simp add: lfq_list_def cnt comp_def)
qed

lemma lfq_new_inv:
  assumes "unat capacity \<le> 2 ^ 63"
  shows "lfq_inv (lfq_new capacity :: 'a lfq)" "lfq_list (lfq_new capacity :: 'a lfq) = []"
    "unat capacity \<le> lfq_cap (lfq_new capacity :: 'a lfq)"
    "lfq_cap (lfq_new capacity :: 'a lfq) = unat (roundUpPowerOf2 (max 2 capacity))"
proof -
  define c where "c = (if capacity < 2 then 2 else capacity)"
  have "2 \<le> c" "c \<le> 2 ^ 63"
    using assms by (auto simp: c_def word_le_nat_alt word_less_nat_alt)
  then obtain k where k: "0 < k" "k < 64" "roundUpPowerOf2 c = 2 ^ k" "unat c \<le> 2 ^ k"
    using roundUpPowerOf2_correct[of c] by blast
  define q where "q = (lfq_new capacity :: 'a lfq)"
  have q: "qcapacity q = 2 ^ k" "qmask q = 2 ^ k - 1" "enqueue_pos q = 0" "dequeue_pos q = 0"
    "qbuffer q = map (\<lambda>i. \<lparr>sequence = of_nat i, cell_data = None\<rparr>) [0..<2 ^ k]"
    using k(3) unat_two_power[OF k(2)] by (auto simp: q_def lfq_new_def Let_def c_def split: if_splits)
  have shape: "lfq_shape q k"
    using q k by (simp add: lfq_shape_def)
  have cnt: "lfq_count q = 0"
    by (simp add: lfq_count_def q)
  have "lfq_cell_ok q j" if "j < lfq_cap q" for j
  proof -
    have lt: "j < 2 ^ k" using that shape_cap[OF shape] by simp
    then have "cell_index q (dequeue_pos q + of_nat j) = j"
      using shape_index_add[OF shape, of "0" j] by (simp add: q)
    then show ?thesis
      using lt by (simp add: lfq_cell_ok_def lfq_cell_def cnt q Let_def)
  qed
  then show "lfq_inv (lfq_new capacity :: 'a lfq)"
    using shape cnt by (auto simp: lfq_inv_def q_def)
  show "lfq_list (lfq_new capacity :: 'a lfq) = []"
    using cnt by (simp add: lfq_list_def q_def)
  show "unat capacity \<le> lfq_cap (lfq_new capacity :: 'a lfq)"
    using k(4) shape_cap[OF shape] by (auto simp: q_def c_def word_less_nat_alt split: if_splits)
  have "max 2 capacity = c"
    by (auto simp: c_def max_def)
  then show "lfq_cap (lfq_new capacity :: 'a lfq) = unat (roundUpPowerOf2 (max 2 capacity))"
    using k(2,3) shape_cap[OF shape] unat_two_power by (simp add: q_def)
qed

section \<open>The sequential operations meet the contract of a bounded queue\<close>

lemma try_enqueue_law:
  assumes "lfq_inv q"
  shows "try_enqueue q v =
    Some (if lfq_count q < lfq_cap q then (enqueued q v, True) else (q, False))"
proof -
  obtain k where k: "lfq_shape q k" using assms by (auto simp: lfq_inv_def)
  note cap = shape_cap[OF k]
  have le: "lfq_count q \<le> lfq_cap q" using assms by (simp add: lfq_inv_def)
  have cell: "qbuffer q ! cell_index q (enqueue_pos q) = lfq_cell q (lfq_count q)"
    by (simp add: lfq_cell_def flip: enqueue_pos_eq)
  show ?thesis
  proof (cases "lfq_count q < lfq_cap q")
    case True
    then have "sequence (lfq_cell q (lfq_count q)) = enqueue_pos q"
      using inv_cell(3)[OF assms True] by (simp flip: enqueue_pos_eq)
    then show ?thesis
      using True try_enqueue_eq(1)[OF shape_index_less[OF k] refl] cell by simp
  next
    case False
    then have full: "lfq_count q = 2 ^ k" using le cap by simp
    have "cell_index q (enqueue_pos q) = cell_index q (dequeue_pos q)"
      using shape_index_add[OF k, of "dequeue_pos q" "2 ^ k"] shape_index[OF k]
      by (simp add: enqueue_pos_eq full)
    then have "sequence (qbuffer q ! cell_index q (enqueue_pos q)) = dequeue_pos q + 1"
      using inv_cell(1)[OF assms, of 0] full cap by (simp add: lfq_cell_def)
    then have "seq_diff (sequence (qbuffer q ! cell_index q (enqueue_pos q))) (enqueue_pos q) < 0"
      using seq_diff_full[of k] k by (simp add: lfq_shape_def enqueue_pos_eq full)
    then show ?thesis
      using False try_enqueue_eq(2)[OF shape_index_less[OF k] refl] by simp
  qed
qed

lemma try_dequeue_law:
  assumes "lfq_inv q"
  shows "try_dequeue q =
    Some (if 0 < lfq_count q then (dequeued q, True, Some (hd (lfq_list q))) else (q, False, None))"
proof -
  obtain k where k: "lfq_shape q k" using assms by (auto simp: lfq_inv_def)
  have pos: "0 < lfq_cap q" using shape_cap[OF k] by simp
  have cell: "qbuffer q ! cell_index q (dequeue_pos q) = lfq_cell q 0"
    by (simp add: lfq_cell_def)
  show ?thesis
  proof (cases "0 < lfq_count q")
    case True
    then obtain v where v: "cell_data (lfq_cell q 0) = Some v"
      using inv_cell(2)[OF assms pos] by blast
    have "hd (lfq_list q) = v"
      using dequeued_inv(2)[OF assms True] v by simp
    then show ?thesis
      using True v try_dequeue_eq(1)[OF shape_index_less[OF k] refl] cell inv_cell(1)[OF assms pos]
      by simp
  next
    case False
    then show ?thesis
      using try_dequeue_eq(2)[OF shape_index_less[OF k] refl] cell inv_cell(3)[OF assms pos]
        seq_diff_behind by simp
  qed
qed

interpretation lfq: bounded_fifo try_enqueue try_dequeue lfq_cap lfq_list lfq_inv
proof unfold_locales
  fix q :: "'a lfq" and v
  assume inv: "lfq_inv q"
  show "length (lfq_list q) \<le> lfq_cap q"
    using inv by (simp add: lfq_inv_def)
  show "0 < lfq_cap q"
    using inv by (auto simp: lfq_inv_def shape_cap)
  show "length (lfq_list q) = lfq_cap q \<Longrightarrow> try_enqueue q v = Some (q, False)"
    using try_enqueue_law[OF inv, of v] by simp
  show "lfq_list q = [] \<Longrightarrow> try_dequeue q = Some (q, False, None)"
    using try_dequeue_law[OF inv] by (simp flip: length_lfq_list)
  show "\<exists>q'. try_enqueue q v = Some (q', True) \<and> lfq_inv q' \<and> lfq_cap q' = lfq_cap q \<and>
      lfq_list q' = lfq_list q @ [v]" if "length (lfq_list q) < lfq_cap q"
    using that try_enqueue_law[OF inv, of v] enqueued_inv[OF inv, of v] by simp
  show "\<exists>q'. try_dequeue q = Some (q', True, Some v) \<and> lfq_inv q' \<and> lfq_cap q' = lfq_cap q \<and>
      lfq_list q' = vs" if "lfq_list q = v # vs" for vs
  proof -
    have "0 < lfq_count q"
      using that by (metis length_lfq_list length_greater_0_conv list.distinct(1))
    then show ?thesis
      using that try_dequeue_law[OF inv] dequeued_inv[OF inv] by simp
  qed
qed

section \<open>Destruction\<close>

text \<open>\<^verbatim>\<open>~LockFreeQueue\<close> dequeues into a dummy until the queue is empty; the model collects
  the destroyed elements.\<close>

definition lfq_destroy :: "'a lfq \<Rightarrow> ('a lfq \<times> 'a option list) option" where
  "lfq_destroy q = drain try_dequeue (\<lambda>x xs. xs @ [x]) q []"

lemma fold_snoc: "fold (\<lambda>v xs. xs @ [f v]) vs acc = acc @ map f vs"
  by (induction vs arbitrary: acc) auto

lemma lfq_destroy_all:
  "lfq_inv q \<Longrightarrow> \<exists>q'. lfq_destroy q = Some (q', map Some (lfq_list q)) \<and> lfq_list q' = []"
  using lfq.drain_all[of q "\<lambda>x xs. xs @ [x]" "[]"] by (auto simp: lfq_destroy_def fold_snoc)

section \<open>Properties\<close>



text \<open>A queue constructed with any capacity up to \<open>2 ^ 63\<close> is empty and well formed, and its
  real capacity is the least power of two that is at least the requested capacity and at least 2.\<close>

lemma lfq_new_capacity:
  assumes "unat capacity \<le> 2 ^ 63"
  shows "lfq_inv (lfq_new capacity :: 'a lfq) \<and> lfq_list (lfq_new capacity :: 'a lfq) = [] \<and>
    (\<exists>k. lfq_cap (lfq_new capacity :: 'a lfq) = 2 ^ k \<and> max 2 (unat capacity) \<le> 2 ^ k \<and>
      2 ^ k < 2 * max 2 (unat capacity))"
proof -
  have c: "unat (max 2 capacity) = max 2 (unat capacity)"
    by (simp add: max_def word_le_nat_alt)
  have "2 \<le> max 2 capacity" "max 2 capacity \<le> 2 ^ 63"
    using assms by (simp_all add: max_def word_le_nat_alt)
  then obtain k where k: "k < 64" "roundUpPowerOf2 (max 2 capacity) = 2 ^ k"
    "unat (max 2 capacity) \<le> 2 ^ k" "2 ^ k < 2 * unat (max 2 capacity)"
    using roundUpPowerOf2_correct by blast
  then have "lfq_cap (lfq_new capacity :: 'a lfq) = 2 ^ k"
    using lfq_new_inv(4)[OF assms, where 'a = 'a] unat_two_power[of k] by simp
  with k c have "\<exists>k. lfq_cap (lfq_new capacity :: 'a lfq) = 2 ^ k \<and>
      max 2 (unat capacity) \<le> 2 ^ k \<and> 2 ^ k < 2 * max 2 (unat capacity)"
    by (intro exI[of _ k]) simp
  then show ?thesis
    using lfq_new_inv[OF assms] by blast
qed

theorem lfq_new_capacity_witness:
  "lfq_list (lfq_new 5 :: nat lfq) = [] \<and>
   (\<exists>k. lfq_cap (lfq_new 5 :: nat lfq) = 2 ^ k \<and> max 2 (unat (5 :: size_t)) \<le> 2 ^ k \<and>
    2 ^ k < 2 * max 2 (unat (5 :: size_t)))"
  using lfq_new_capacity[of 5, where 'a = nat] by simp

end
