(* ===== verification/Lock_Free_Queue_Concurrent.thy ===== *)
theory Lock_Free_Queue_Concurrent
  imports Lock_Free_Queue
begin

text \<open>
  Any number of threads inside \<open>try_enqueue\<close> and \<open>try_dequeue\<close> of one queue, interleaved
  access by access. The ticket of a call is the position its compare-and-exchange claimed.
  Ghost components record the values in the order of their tickets (\<open>enq_log\<close>), the number of
  tickets claimed by dequeuers (\<open>deq_count\<close>) and what dequeuers have read (\<open>deq_log\<close>); no step
  depends on them. The invariant is proved for runs in which fewer than \<open>2 ^ 63\<close> values
  (less the capacity) are enqueued: beyond that a stale position could equal a current one.
\<close>

section \<open>States and steps\<close>

record 'a lfq_sys =
  queue :: "'a lfq"
  threads :: "nat \<Rightarrow> 'a pc"
  enq_log :: "'a list"
  deq_count :: nat
  deq_log :: "(nat \<times> 'a option) list"

fun enq_claim :: "'a pc \<Rightarrow> 'a pc \<Rightarrow> 'a list" where
  "enq_claim (EnqCas v _) (EnqWrite _ _) = [v]"
| "enq_claim _ _ = []"

fun deq_claim :: "'a pc \<Rightarrow> 'a pc \<Rightarrow> nat" where
  "deq_claim (DeqCas _) (DeqRead _) = 1"
| "deq_claim _ _ = 0"

fun deq_value :: "'a pc \<Rightarrow> 'a pc \<Rightarrow> (nat \<times> 'a option) list" where
  "deq_value (DeqRead pos) (DeqRelease _ x) = [(unat pos, x)]"
| "deq_value _ _ = []"

definition lfq_access :: "'a lfq_sys \<Rightarrow> nat \<Rightarrow> bool \<Rightarrow> 'a lfq_sys" where
  "lfq_access s t spurious =
     (let p = threads s t; (q', p') = tstep (queue s) spurious p
      in \<lparr>queue = q', threads = (threads s)(t := p'),
          enq_log = enq_log s @ enq_claim p p',
          deq_count = deq_count s + deq_claim p p',
          deq_log = deq_log s @ deq_value p p'\<rparr>)"

definition goto :: "'a lfq_sys \<Rightarrow> nat \<Rightarrow> 'a pc \<Rightarrow> 'a lfq_sys" where
  "goto s t p = s\<lparr>threads := (threads s)(t := p)\<rparr>"

inductive lfq_step :: "'a lfq_sys \<Rightarrow> 'a lfq_sys \<Rightarrow> bool" where
  call_enqueue: "threads s t = Idle \<Longrightarrow> lfq_step s (goto s t (EnqLoad v))"
| call_dequeue: "threads s t = Idle \<Longrightarrow> lfq_step s (goto s t DeqLoad)"
| return_enqueue: "threads s t = EnqRet b \<Longrightarrow> lfq_step s (goto s t Idle)"
| return_dequeue: "threads s t = DeqRet b x \<Longrightarrow> lfq_step s (goto s t Idle)"
| access: "\<not> returned (threads s t) \<Longrightarrow> lfq_step s (lfq_access s t spurious)"

definition lfq_sys_new :: "size_t \<Rightarrow> 'a lfq_sys" where
  "lfq_sys_new capacity =
     \<lparr>queue = lfq_new capacity, threads = (\<lambda>_. Idle), enq_log = [], deq_count = 0, deq_log = []\<rparr>"

inductive lfq_reach :: "size_t \<Rightarrow> 'a lfq_sys \<Rightarrow> bool" for capacity where
  start: "lfq_reach capacity (lfq_sys_new capacity)"
| step: "lfq_reach capacity s \<Longrightarrow> lfq_step s s' \<Longrightarrow> lfq_reach capacity s'"

section \<open>The invariant\<close>

text \<open>The cell of ticket \<open>n\<close>, and its sequence number as a natural number.\<close>

definition ticket_cell :: "nat \<Rightarrow> 'a lfq \<Rightarrow> nat \<Rightarrow> 'a cell" where
  "ticket_cell k q n = qbuffer q ! (n mod 2 ^ k)"

abbreviation ticket_seq :: "nat \<Rightarrow> 'a lfq \<Rightarrow> nat \<Rightarrow> nat" where
  "ticket_seq k q n \<equiv> unat (sequence (ticket_cell k q n))"

fun enq_owner :: "'a pc \<Rightarrow> nat \<Rightarrow> bool" where
  "enq_owner (EnqWrite _ pos) n = (unat pos = n)"
| "enq_owner (EnqPublish pos) n = (unat pos = n)"
| "enq_owner _ _ = False"

fun deq_owner :: "'a pc \<Rightarrow> nat \<Rightarrow> bool" where
  "deq_owner (DeqRead pos) n = (unat pos = n)"
| "deq_owner (DeqRelease pos _) n = (unat pos = n)"
| "deq_owner _ _ = False"

definition enq_owned :: "(nat \<Rightarrow> 'a pc) \<Rightarrow> nat \<Rightarrow> bool" where
  "enq_owned th n \<longleftrightarrow> (\<exists>t. enq_owner (th t) n)"

definition deq_owned :: "(nat \<Rightarrow> 'a pc) \<Rightarrow> nat \<Rightarrow> bool" where
  "deq_owned th n \<longleftrightarrow> (\<exists>t. deq_owner (th t) n)"

text \<open>
  Cell \<open>i\<close> serves one ticket \<open>n\<close> at a time. Either it is free for the enqueuer of \<open>n\<close> (which
  may have claimed it already), or it holds the value of \<open>n\<close> for its dequeuer (which may have
  claimed it already).
\<close>

definition cell_free :: "nat \<Rightarrow> 'a lfq_sys \<Rightarrow> nat \<Rightarrow> bool" where
  "cell_free k s n \<longleftrightarrow> ticket_seq k (queue s) n = n \<and> deq_count s \<le> n \<and>
     (n < length (enq_log s) \<longrightarrow> enq_owned (threads s) n)"

definition cell_full :: "nat \<Rightarrow> 'a lfq_sys \<Rightarrow> nat \<Rightarrow> bool" where
  "cell_full k s n \<longleftrightarrow> ticket_seq k (queue s) n = Suc n \<and> n < length (enq_log s) \<and>
     (deq_count s \<le> n \<longrightarrow> cell_data (ticket_cell k (queue s) n) = Some (enq_log s ! n)) \<and>
     (n < deq_count s \<longrightarrow> deq_owned (threads s) n)"

definition inv_cell_at :: "nat \<Rightarrow> 'a lfq_sys \<Rightarrow> nat \<Rightarrow> bool" where
  "inv_cell_at k s i \<longleftrightarrow> (\<exists>n. n mod 2 ^ k = i \<and> length (enq_log s) \<le> n + 2 ^ k \<and>
     n < deq_count s + 2 ^ k \<and> (cell_free k s n \<or> cell_full k s n))"

text \<open>What a thread knows at each of its program points.\<close>

fun thread_ok :: "nat \<Rightarrow> 'a lfq \<Rightarrow> 'a list \<Rightarrow> nat \<Rightarrow> 'a pc \<Rightarrow> bool" where
  "thread_ok k q log d (EnqSeq v pos) = (unat pos \<le> length log)"
| "thread_ok k q log d (EnqCas v pos) =
     (unat pos \<le> length log \<and> (unat pos = length log \<longrightarrow> ticket_seq k q (unat pos) = unat pos))"
| "thread_ok k q log d (EnqWrite v pos) =
     (unat pos < length log \<and> log ! unat pos = v \<and> ticket_seq k q (unat pos) = unat pos)"
| "thread_ok k q log d (EnqPublish pos) =
     (unat pos < length log \<and> ticket_seq k q (unat pos) = unat pos \<and>
      cell_data (ticket_cell k q (unat pos)) = Some (log ! unat pos))"
| "thread_ok k q log d (DeqSeq pos) = (unat pos \<le> d)"
| "thread_ok k q log d (DeqCas pos) =
     (unat pos \<le> d \<and> (unat pos = d \<longrightarrow> ticket_seq k q (unat pos) = Suc (unat pos)))"
| "thread_ok k q log d (DeqRead pos) =
     (unat pos < d \<and> ticket_seq k q (unat pos) = Suc (unat pos) \<and>
      cell_data (ticket_cell k q (unat pos)) = Some (log ! unat pos))"
| "thread_ok k q log d (DeqRelease pos x) =
     (unat pos < d \<and> ticket_seq k q (unat pos) = Suc (unat pos) \<and> x = Some (log ! unat pos))"
| "thread_ok k q log d (DeqRet b x) =
     (if b then \<exists>n<d. x = Some (log ! n) else x = None)"
| "thread_ok k q log d _ = True"

definition inv_counts :: "nat \<Rightarrow> 'a lfq_sys \<Rightarrow> bool" where
  "inv_counts k s \<longleftrightarrow> lfq_shape (queue s) k \<and>
     enqueue_pos (queue s) = of_nat (length (enq_log s)) \<and>
     dequeue_pos (queue s) = of_nat (deq_count s) \<and>
     deq_count s \<le> length (enq_log s) \<and> length (enq_log s) \<le> deq_count s + 2 ^ k"

definition inv_unique :: "'a lfq_sys \<Rightarrow> bool" where
  "inv_unique s \<longleftrightarrow>
     (\<forall>t t' n. enq_owner (threads s t) n \<longrightarrow> enq_owner (threads s t') n \<longrightarrow> t = t') \<and>
     (\<forall>t t' n. deq_owner (threads s t) n \<longrightarrow> deq_owner (threads s t') n \<longrightarrow> t = t')"

fun reads :: "'a pc \<Rightarrow> nat \<Rightarrow> bool" where
  "reads (DeqRead pos) n = (unat pos = n)"
| "reads _ _ = False"

definition reading :: "(nat \<Rightarrow> 'a pc) \<Rightarrow> nat \<Rightarrow> bool" where
  "reading th n \<longleftrightarrow> (\<exists>t. reads (th t) n)"

definition inv_deq_log :: "'a lfq_sys \<Rightarrow> bool" where
  "inv_deq_log s \<longleftrightarrow> distinct (map fst (deq_log s)) \<and>
     (\<forall>(n, x) \<in> set (deq_log s). n < deq_count s \<and> x = Some (enq_log s ! n)) \<and>
     (\<forall>n < deq_count s. n \<in> fst ` set (deq_log s) \<longleftrightarrow> \<not> reading (threads s) n)"

definition sys_inv :: "nat \<Rightarrow> 'a lfq_sys \<Rightarrow> bool" where
  "sys_inv k s \<longleftrightarrow> inv_counts k s \<and> (\<forall>i<2 ^ k. inv_cell_at k s i) \<and>
     (\<forall>t. thread_ok k (queue s) (enq_log s) (deq_count s) (threads s t)) \<and>
     inv_unique s \<and> inv_deq_log s"

text \<open>Fewer than \<open>2 ^ 63 - capacity\<close> values were enqueued so far.\<close>

definition few_enqueues :: "nat \<Rightarrow> 'a lfq_sys \<Rightarrow> bool" where
  "few_enqueues k s \<longleftrightarrow> length (enq_log s) + 2 ^ k < 2 ^ 63"

section \<open>Reading the invariant\<close>

lemma ticket_cell_cong: "n mod 2 ^ k = m mod 2 ^ k \<Longrightarrow> ticket_cell k q n = ticket_cell k q m"
  by (simp add: ticket_cell_def)

lemma ticket_cell_simps [simp]:
  "ticket_cell k (q\<lparr>enqueue_pos := e\<rparr>) = ticket_cell k q"
  "ticket_cell k (q\<lparr>dequeue_pos := e\<rparr>) = ticket_cell k q"
  by (simp_all add: ticket_cell_def fun_eq_iff)

lemma shape_pos_simps [simp]:
  "lfq_shape (q\<lparr>enqueue_pos := e\<rparr>) k = lfq_shape q k"
  "lfq_shape (q\<lparr>dequeue_pos := e\<rparr>) k = lfq_shape q k"
  "lfq_shape (set_cell_data q i x) k = lfq_shape q k"
  "lfq_shape (set_cell_seq q i y) k = lfq_shape q k"
  by (simp_all add: lfq_shape_def set_cell_data_def set_cell_seq_def)

lemma set_cell_pos_simps [simp]:
  "enqueue_pos (set_cell_data q i x) = enqueue_pos q"
  "dequeue_pos (set_cell_data q i x) = dequeue_pos q"
  "enqueue_pos (set_cell_seq q i y) = enqueue_pos q"
  "dequeue_pos (set_cell_seq q i y) = dequeue_pos q"
  by (simp_all add: set_cell_data_def set_cell_seq_def)

lemma ticket_cell_set:
  assumes "lfq_shape q k"
  shows "ticket_cell k (set_cell_data q (n mod 2 ^ k) x) m =
      (if m mod 2 ^ k = n mod 2 ^ k then (ticket_cell k q m)\<lparr>cell_data := x\<rparr> else ticket_cell k q m)"
    and "ticket_cell k (set_cell_seq q (n mod 2 ^ k) y) m =
      (if m mod 2 ^ k = n mod 2 ^ k then (ticket_cell k q m)\<lparr>sequence := y\<rparr> else ticket_cell k q m)"
  using assms by (auto simp: ticket_cell_def set_cell_data_def set_cell_seq_def lfq_shape_def)

lemma cell_index_ticket:
  assumes "lfq_shape q k"
  shows "qbuffer q ! cell_index q pos = ticket_cell k q (unat pos)"
  by (simp add: ticket_cell_def shape_index[OF assms])

lemma Suc_mod_neq:
  assumes "0 < k"
  shows "Suc n mod 2 ^ k \<noteq> n mod 2 ^ k"
proof
  assume "Suc n mod 2 ^ k = n mod 2 ^ k"
  then have "(n + 1) mod 2 ^ k = (n + 0) mod 2 ^ k" by simp
  then show False
    using mod_add_inj[of n 1 "2 ^ k" 0] two_power_ge_2[OF assms] by simp
qed

lemma inv_shape: "sys_inv k s \<Longrightarrow> lfq_shape (queue s) k"
  by (simp add: sys_inv_def inv_counts_def)

lemma inv_k_pos: "sys_inv k s \<Longrightarrow> 0 < k"
  using inv_shape by (auto simp: lfq_shape_def)

lemma inv_bounds:
  "sys_inv k s \<Longrightarrow> deq_count s \<le> length (enq_log s)"
  "sys_inv k s \<Longrightarrow> length (enq_log s) \<le> deq_count s + 2 ^ k"
  by (simp_all add: sys_inv_def inv_counts_def)

lemma inv_thread: "sys_inv k s \<Longrightarrow> thread_ok k (queue s) (enq_log s) (deq_count s) (threads s t)"
  by (simp add: sys_inv_def)

lemma inv_cell_ticket:
  assumes "sys_inv k s"
  obtains n where "n mod 2 ^ k = m mod 2 ^ k"
    "length (enq_log s) \<le> n + 2 ^ k" "n < deq_count s + 2 ^ k"
    "ticket_seq k (queue s) m = n \<and> cell_free k s n \<or>
     ticket_seq k (queue s) m = Suc n \<and> cell_full k s n"
proof -
  have "inv_cell_at k s (m mod 2 ^ k)"
    using assms by (simp add: sys_inv_def)
  then obtain n where n: "n mod 2 ^ k = m mod 2 ^ k" "length (enq_log s) \<le> n + 2 ^ k"
    "n < deq_count s + 2 ^ k" "cell_free k s n \<or> cell_full k s n"
    unfolding inv_cell_at_def by blast
  have eq: "ticket_cell k (queue s) m = ticket_cell k (queue s) n"
    using ticket_cell_cong[OF n(1)[symmetric]] .
  have "ticket_seq k (queue s) m = n \<and> cell_free k s n \<or>
      ticket_seq k (queue s) m = Suc n \<and> cell_full k s n"
    unfolding eq using n(4) cell_free_def cell_full_def by blast
  then show thesis
    by (rule that[OF n(1-3)])
qed

lemma inv_seq_free:
  assumes "sys_inv k s" "ticket_seq k (queue s) m = m"
  shows "cell_free k s m \<and> length (enq_log s) \<le> m + 2 ^ k \<and> m < deq_count s + 2 ^ k"
proof -
  obtain n where n: "n mod 2 ^ k = m mod 2 ^ k"
    "length (enq_log s) \<le> n + 2 ^ k" "n < deq_count s + 2 ^ k"
    "m = n \<and> cell_free k s n \<or> m = Suc n \<and> cell_full k s n"
    using inv_cell_ticket[OF assms(1), of m] unfolding assms(2) by blast
  have "m \<noteq> Suc n"
    using n(1) Suc_mod_neq[OF inv_k_pos[OF assms(1)], of n] by metis
  then show ?thesis
    using n(2-4) by blast
qed

lemma inv_seq_full:
  assumes "sys_inv k s" "ticket_seq k (queue s) m = Suc m"
  shows "cell_full k s m \<and> length (enq_log s) \<le> m + 2 ^ k \<and> m < deq_count s + 2 ^ k"
proof -
  obtain n where n: "n mod 2 ^ k = m mod 2 ^ k"
    "length (enq_log s) \<le> n + 2 ^ k" "n < deq_count s + 2 ^ k"
    "Suc m = n \<and> cell_free k s n \<or> m = n \<and> cell_full k s n"
    using inv_cell_ticket[OF assms(1), of m] unfolding assms(2) by blast
  have "Suc m \<noteq> n"
    using n(1) Suc_mod_neq[OF inv_k_pos[OF assms(1)], of m] by metis
  then show ?thesis
    using n(2-4) by blast
qed

lemma ticket_seq_small:
  assumes "sys_inv k s" "few_enqueues k s"
  shows "ticket_seq k (queue s) m < 2 ^ 63"
proof -
  obtain n where "n < deq_count s + 2 ^ k" "ticket_seq k (queue s) m \<le> Suc n"
    using inv_cell_ticket[OF assms(1), of m] by (metis le_SucI order_refl)
  then show ?thesis
    using inv_bounds(1)[OF assms(1)] assms(2) by (simp add: few_enqueues_def)
qed

lemma seq_diff_unat:
  assumes "unat a < 2 ^ 63" "unat b < 2 ^ 63"
  shows "seq_diff a b = int (unat a) - int (unat b)"
proof -
  have "int (unat a) < int (2 ^ 63)" "int (unat b) < int (2 ^ 63)"
    using assms by (simp_all only: of_nat_less_iff)
  then have "uint a < 2 ^ 63" "uint b < 2 ^ 63"
    by simp_all
  moreover have "0 \<le> uint a" "0 \<le> uint b"
    by (fact uint_nonnegative)+
  ultimately have "- (2 ^ 63) \<le> uint a - uint b" "uint a - uint b < 2 ^ 63"
    by linarith+
  then have "seq_diff a b = uint a - uint b"
    by (rule seq_diff_of_int) simp
  then show ?thesis
    by simp
qed

lemma seq_diff_compare:
  assumes "unat a < 2 ^ 63" "unat b < 2 ^ 63"
  shows "seq_diff a b = 0 \<longleftrightarrow> unat a = unat b" "seq_diff a b < 0 \<longleftrightarrow> unat a < unat b"
  unfolding seq_diff_unat[OF assms] by linarith+

lemma unat_plus_1: "unat p < 2 ^ 63 \<Longrightarrow> unat (p + 1 :: size_t) = Suc (unat p)"
  using unat_of_nat_small[of "Suc (unat p)"] by (simp add: add.commute)

lemma unat_of_nat_63: "n < 2 ^ 63 \<Longrightarrow> unat (of_nat n :: size_t) = n"
  by (rule unat_of_nat_small) simp

lemma inv_unat_pos:
  assumes "sys_inv k s" "few_enqueues k s"
  shows "unat (enqueue_pos (queue s)) = length (enq_log s)"
    "unat (dequeue_pos (queue s)) = deq_count s"
proof -
  have "length (enq_log s) < 2 ^ 63" "deq_count s < 2 ^ 63"
    using assms inv_bounds(1)[OF assms(1)] by (auto simp: few_enqueues_def)
  then show "unat (enqueue_pos (queue s)) = length (enq_log s)"
    "unat (dequeue_pos (queue s)) = deq_count s"
    using assms(1) by (simp_all add: sys_inv_def inv_counts_def unat_of_nat_63)
qed

section \<open>The invariant is kept by every access\<close>

definition no_owner :: "'a pc \<Rightarrow> bool" where
  "no_owner p \<longleftrightarrow> (\<forall>n. \<not> enq_owner p n \<and> \<not> deq_owner p n)"

lemma owned_keep:
  "enq_owned th n \<Longrightarrow> (enq_owner (th t) n \<Longrightarrow> enq_owner p n) \<Longrightarrow> enq_owned (th(t := p)) n"
  "deq_owned th n \<Longrightarrow> (deq_owner (th t) n \<Longrightarrow> deq_owner p n) \<Longrightarrow> deq_owned (th(t := p)) n"
  unfolding enq_owned_def deq_owned_def by (metis fun_upd_apply)+

lemma owned_new:
  "enq_owner p n \<Longrightarrow> enq_owned (th(t := p)) n"
  "deq_owner p n \<Longrightarrow> deq_owned (th(t := p)) n"
  unfolding enq_owned_def deq_owned_def by (metis fun_upd_same)+

lemma reading_update:
  "(\<And>n. reads p n \<longleftrightarrow> reads (th t) n) \<Longrightarrow> reading (th(t := p)) = reading th"
  unfolding reading_def by (intro ext) (metis fun_upd_apply)

lemma reading_new:
  "\<not> reads (th t) n \<Longrightarrow> reading (th(t := p)) n \<longleftrightarrow> reads p n \<or> reading th n"
  unfolding reading_def by (metis fun_upd_apply)

lemma reading_done:
  assumes "th t = DeqRead pos" "\<And>t'. t' \<noteq> t \<Longrightarrow> \<not> reads (th t') (unat pos)" "\<And>n. \<not> reads p n"
  shows "reading (th(t := p)) n \<longleftrightarrow> reading th n \<and> n \<noteq> unat pos"
proof
  assume "reading (th(t := p)) n"
  then obtain t' where t': "reads ((th(t := p)) t') n"
    unfolding reading_def by blast
  then have "t' \<noteq> t" "reads (th t') n"
    using assms(3) by (auto split: if_splits)
  then show "reading th n \<and> n \<noteq> unat pos"
    using assms(2) unfolding reading_def by blast
next
  assume r: "reading th n \<and> n \<noteq> unat pos"
  then obtain t' where t': "reads (th t') n"
    unfolding reading_def by blast
  then have "t' \<noteq> t"
    using r assms(1) by auto
  then show "reading (th(t := p)) n"
    using t' unfolding reading_def by (intro exI[of _ t']) simp
qed

lemma reads_owner: "reads p n \<Longrightarrow> deq_owner p n"
  by (cases p) auto

lemma no_ownerD: "no_owner p \<Longrightarrow> \<not> enq_owner p n" "no_owner p \<Longrightarrow> \<not> deq_owner p n"
  by (simp_all add: no_owner_def)

text \<open>An access that only moves the thread, between program points that own no cell.\<close>

lemma goto_inv:
  assumes inv: "sys_inv k s" and "no_owner (threads s t)" "no_owner p"
    and ok: "thread_ok k (queue s) (enq_log s) (deq_count s) p"
  shows "sys_inv k (goto s t p)"
proof -
  have "cell_free k s n \<Longrightarrow> cell_free k (goto s t p) n" "cell_full k s n \<Longrightarrow> cell_full k (goto s t p) n"
    for n
    using no_ownerD[OF assms(2)]
    by (auto simp: cell_free_def cell_full_def goto_def intro: owned_keep)
  then have cells: "inv_cell_at k s i \<Longrightarrow> inv_cell_at k (goto s t p) i" for i
    unfolding inv_cell_at_def by (auto simp: goto_def)
  have "\<not> enq_owner p n" "\<not> deq_owner p n" for n
    using assms(3) by (auto simp: no_owner_def)
  then have unique: "inv_unique (goto s t p)"
    using inv by (auto simp: sys_inv_def inv_unique_def goto_def)
  have "reading ((threads s)(t := p)) = reading (threads s)"
    using no_ownerD[OF assms(2)] no_ownerD[OF assms(3)] by (intro reading_update) (auto dest: reads_owner)
  then have "inv_deq_log (goto s t p)"
    using inv by (simp add: sys_inv_def inv_deq_log_def goto_def)
  then show ?thesis
    using inv cells unique ok by (auto simp: sys_inv_def inv_counts_def goto_def)
qed

lemma access_goto:
  assumes "tstep (queue s) b (threads s t) = (queue s, p)"
    and "enq_claim (threads s t) p = []" "deq_claim (threads s t) p = 0" "deq_value (threads s t) p = []"
  shows "lfq_access s t b = goto s t p"
  using assms by (simp add: lfq_access_def goto_def Let_def)

lemma thread_ok_mono:
  assumes "thread_ok k q log d p" "d \<le> length log"
  shows "thread_ok k q (log @ [v]) d p"
  using assms by (cases p) (auto simp: nth_snoc_less split: if_splits intro: exI[where P = "\<lambda>n. n < d \<and> _ n"])

lemma thread_ok_claimed:
  assumes "thread_ok k q log d p"
  shows "thread_ok k q log (Suc d) p"
  using assms by (cases p) (auto intro: less_SucI split: if_splits)

text \<open>Claiming a ticket for an enqueue.\<close>

definition enq_claimed :: "'a lfq_sys \<Rightarrow> nat \<Rightarrow> 'a \<Rightarrow> size_t \<Rightarrow> 'a lfq_sys" where
  "enq_claimed s t v pos = s\<lparr>queue := (queue s)\<lparr>enqueue_pos := pos + 1\<rparr>,
     threads := (threads s)(t := EnqWrite v pos), enq_log := enq_log s @ [v]\<rparr>"

lemma enq_claimed_inv:
  assumes inv: "sys_inv k s" and small: "few_enqueues k s"
    and p: "threads s t = EnqCas v pos" and cas: "enqueue_pos (queue s) = pos"
  shows "sys_inv k (enq_claimed s t v pos)"
proof -
  let ?s = "enq_claimed s t v pos" and ?E = "length (enq_log s)" and ?D = "deq_count s"
  have pos: "unat pos = ?E" "pos = of_nat ?E"
    using inv_unat_pos(1)[OF inv small] cas inv by (auto simp: sys_inv_def inv_counts_def)
  then have seq: "ticket_seq k (queue s) ?E = ?E"
    using inv_thread[OF inv, of t] p by simp
  note free = inv_seq_free[OF inv seq]
  have noE: "\<not> enq_owner (threads s t') ?E" for t'
    using inv_thread[OF inv, of t'] by (cases "threads s t'") auto
  have notown: "no_owner (threads s t)"
    using p by (simp add: no_owner_def)
  have "inv_counts k ?s"
    using inv free pos by (auto simp: sys_inv_def inv_counts_def enq_claimed_def)
  moreover have "inv_cell_at k ?s i" if "i < 2 ^ k" for i
  proof -
    obtain n where n: "n mod 2 ^ k = i mod 2 ^ k" "?E \<le> n + 2 ^ k" "n < ?D + 2 ^ k"
      "cell_free k s n \<or> cell_full k s n"
      using inv_cell_ticket[OF inv, of i] by blast
    have "n + 2 ^ k \<noteq> ?E"
    proof
      assume eq: "n + 2 ^ k = ?E"
      then have "ticket_seq k (queue s) n = ?E"
        using seq ticket_cell_cong[of n k ?E] by (metis mod_add_self2)
      then show False
        using n(4) eq two_power_ge_2[OF inv_k_pos[OF inv]] by (auto simp: cell_free_def cell_full_def)
    qed
    then have "length (enq_log ?s) \<le> n + 2 ^ k"
      using n(2) by (simp add: enq_claimed_def)
    moreover have "cell_free k ?s n \<or> cell_full k ?s n"
    proof (cases "n = ?E")
      case True
      have "cell_free k ?s n"
        using seq inv_bounds(1)[OF inv] True pos(1)
        by (auto simp: cell_free_def enq_claimed_def intro: owned_new)
      then show ?thesis ..
    next
      case False
      show ?thesis
        using n(4) False no_ownerD[OF notown]
        by (auto simp: cell_free_def cell_full_def enq_claimed_def nth_append less_Suc_eq
            intro: owned_keep)
    qed
    ultimately show ?thesis
      using n(1,3) that unfolding inv_cell_at_def by (auto simp: enq_claimed_def)
  qed
  moreover have "thread_ok k (queue ?s) (enq_log ?s) (deq_count ?s) (threads ?s t')" for t'
  proof (cases "t' = t")
    case True
    then show ?thesis
      using seq pos by (simp add: enq_claimed_def)
  next
    case False
    have "thread_ok k (queue ?s) = thread_ok k (queue s)"
      by (intro ext, rename_tac l d p) (case_tac p; simp add: enq_claimed_def)
    then show ?thesis
      using False thread_ok_mono[OF inv_thread[OF inv] inv_bounds(1)[OF inv]]
      by (simp add: enq_claimed_def)
  qed
  moreover have "inv_unique ?s"
    using inv noE pos(1) p
    by (auto simp: sys_inv_def inv_unique_def enq_claimed_def)
  moreover have "inv_deq_log ?s"
  proof -
    have "reading (threads ?s) = reading (threads s)"
      using reading_update[of "EnqWrite v pos" "threads s" t] p by (simp add: enq_claimed_def)
    then show ?thesis
      using inv inv_bounds(1)[OF inv]
      by (fastforce simp: sys_inv_def inv_deq_log_def enq_claimed_def nth_append)
  qed
  ultimately show ?thesis
    by (simp add: sys_inv_def)
qed

text \<open>Claiming a ticket for a dequeue.\<close>

definition deq_claimed :: "'a lfq_sys \<Rightarrow> nat \<Rightarrow> size_t \<Rightarrow> 'a lfq_sys" where
  "deq_claimed s t pos = s\<lparr>queue := (queue s)\<lparr>dequeue_pos := pos + 1\<rparr>,
     threads := (threads s)(t := DeqRead pos), deq_count := Suc (deq_count s)\<rparr>"

lemma deq_claimed_inv:
  assumes inv: "sys_inv k s" and small: "few_enqueues k s"
    and p: "threads s t = DeqCas pos" and cas: "dequeue_pos (queue s) = pos"
  shows "sys_inv k (deq_claimed s t pos)"
proof -
  let ?s = "deq_claimed s t pos" and ?E = "length (enq_log s)" and ?D = "deq_count s"
  have pos: "unat pos = ?D" "pos = of_nat ?D"
    using inv_unat_pos(2)[OF inv small] cas inv by (auto simp: sys_inv_def inv_counts_def)
  then have seq: "ticket_seq k (queue s) ?D = Suc ?D"
    using inv_thread[OF inv, of t] p by simp
  note full = inv_seq_full[OF inv seq, unfolded cell_full_def]
  have noD: "\<not> deq_owner (threads s t') ?D" for t'
    using inv_thread[OF inv, of t'] by (cases "threads s t'") auto
  have notown: "no_owner (threads s t)"
    using p by (simp add: no_owner_def)
  have "inv_counts k ?s"
    using inv full pos by (auto simp: sys_inv_def inv_counts_def deq_claimed_def)
  moreover have "inv_cell_at k ?s i" if "i < 2 ^ k" for i
  proof -
    obtain n where n: "n mod 2 ^ k = i mod 2 ^ k" "?E \<le> n + 2 ^ k" "n < ?D + 2 ^ k"
      "cell_free k s n \<or> cell_full k s n"
      using inv_cell_ticket[OF inv, of i] by blast
    have "cell_free k ?s n \<or> cell_full k ?s n"
    proof (cases "n = ?D")
      case True
      then have "cell_full k ?s n"
        using full pos(1) by (auto simp: cell_full_def deq_claimed_def intro: owned_new)
      then show ?thesis ..
    next
      case False
      then show ?thesis
        using n(4) no_ownerD[OF notown]
        by (auto simp: cell_free_def cell_full_def deq_claimed_def less_Suc_eq intro: owned_keep)
    qed
    then show ?thesis
      using n(1-3) that unfolding inv_cell_at_def by (auto simp: deq_claimed_def)
  qed
  moreover have "thread_ok k (queue ?s) (enq_log ?s) (deq_count ?s) (threads ?s t')" for t'
  proof (cases "t' = t")
    case True
    then show ?thesis
      using full pos by (simp add: deq_claimed_def)
  next
    case False
    have "thread_ok k (queue ?s) = thread_ok k (queue s)"
      by (intro ext, rename_tac l d p) (case_tac p; simp add: deq_claimed_def)
    then show ?thesis
      using False thread_ok_claimed[OF inv_thread[OF inv]] by (simp add: deq_claimed_def)
  qed
  moreover have "inv_unique ?s"
    using inv noD pos(1) p
    by (auto simp: sys_inv_def inv_unique_def deq_claimed_def)
  moreover have "inv_deq_log ?s"
  proof -
    have "reading (threads ?s) n \<longleftrightarrow> n = ?D \<or> reading (threads s) n" for n
      using pos(1) p reading_new[of "threads s" t n "DeqRead pos"]
      by (auto simp: deq_claimed_def)
    then show ?thesis
      using inv by (fastforce simp: sys_inv_def inv_deq_log_def deq_claimed_def less_Suc_eq)
  qed
  ultimately show ?thesis
    by (simp add: sys_inv_def)
qed

text \<open>
  The accesses to a cell. What a thread relies on is the sequence number of one ticket; the
  tickets two threads rely on in the same cell are the same.
\<close>

fun relies :: "nat \<Rightarrow> nat \<Rightarrow> 'a pc \<Rightarrow> (nat \<times> nat) option" where
  "relies e d (EnqCas _ pos) = (if unat pos = e then Some (unat pos, unat pos) else None)"
| "relies e d (EnqWrite _ pos) = Some (unat pos, unat pos)"
| "relies e d (EnqPublish pos) = Some (unat pos, unat pos)"
| "relies e d (DeqCas pos) = (if unat pos = d then Some (unat pos, Suc (unat pos)) else None)"
| "relies e d (DeqRead pos) = Some (unat pos, Suc (unat pos))"
| "relies e d (DeqRelease pos _) = Some (unat pos, Suc (unat pos))"
| "relies e d _ = None"

lemma thread_ok_relies:
  "thread_ok k q log d p \<Longrightarrow> relies (length log) d p = Some (m, y) \<Longrightarrow>
   ticket_seq k q m = y \<and> (y = m \<or> y = Suc m)"
  by (cases p) (auto split: if_splits)

lemma thread_ok_other_cell:
  assumes "thread_ok k q log d p"
    and "\<And>m y. relies (length log) d p = Some (m, y) \<Longrightarrow> ticket_cell k q' m = ticket_cell k q m"
  shows "thread_ok k q' log d p"
  using assms by (cases p) auto

lemma thread_ok_same_seq:
  assumes "thread_ok k q log d p"
    and "\<And>m. ticket_seq k q' m = ticket_seq k q m"
    and "\<And>m. enq_owner p m \<or> deq_owner p m \<Longrightarrow> ticket_cell k q' m = ticket_cell k q m"
  shows "thread_ok k q' log d p"
  using assms by (cases p) auto

lemma relies_same_cell:
  assumes "sys_inv k s" "relies (length (enq_log s)) (deq_count s) (threads s t) = Some (m, y)"
    and "m mod 2 ^ k = n mod 2 ^ k" "ticket_seq k (queue s) n = z" "z = n \<or> z = Suc n"
  shows "m = n \<and> y = z"
proof -
  have y: "ticket_seq k (queue s) m = y" "y = m \<or> y = Suc m"
    using thread_ok_relies[OF inv_thread[OF assms(1)] assms(2)] by auto
  moreover have "ticket_seq k (queue s) m = z"
    using ticket_cell_cong[OF assms(3)] assms(4) by metis
  ultimately have "y = z" by simp
  have *: "Suc j mod 2 ^ k \<noteq> j mod 2 ^ k" for j
    using Suc_mod_neq[OF inv_k_pos[OF assms(1)]] .
  have "m = n"
    using y(2) \<open>y = z\<close> assms(5) *[of m] *[of n] assms(3) by auto
  with \<open>y = z\<close> show ?thesis by blast
qed

definition cell_step :: "'a lfq_sys \<Rightarrow> nat \<Rightarrow> 'a lfq \<Rightarrow> 'a pc \<Rightarrow> (nat \<times> 'a option) list \<Rightarrow> 'a lfq_sys" where
  "cell_step s t q p dl = s\<lparr>queue := q, threads := (threads s)(t := p), deq_log := deq_log s @ dl\<rparr>"

lemma cell_step_fields [simp]:
  "queue (cell_step s t q p dl) = q" "threads (cell_step s t q p dl) = (threads s)(t := p)"
  "enq_log (cell_step s t q p dl) = enq_log s" "deq_count (cell_step s t q p dl) = deq_count s"
  "deq_log (cell_step s t q p dl) = deq_log s @ dl"
  by (simp_all add: cell_step_def)

text \<open>A thread that owns ticket \<open>n\<close> changes the cell of \<open>n\<close> and nothing else.\<close>

lemma cell_step_inv:
  assumes inv: "sys_inv k s"
    and q: "lfq_shape q k" "enqueue_pos q = enqueue_pos (queue s)" "dequeue_pos q = dequeue_pos (queue s)"
    and frame: "\<And>m. m mod 2 ^ k \<noteq> n mod 2 ^ k \<Longrightarrow> ticket_cell k q m = ticket_cell k (queue s) m"
    and owned: "\<And>m. enq_owner (threads s t) m \<or> deq_owner (threads s t) m \<Longrightarrow> m = n"
    and owned': "\<And>m. enq_owner p m \<Longrightarrow> enq_owner (threads s t) m"
      "\<And>m. deq_owner p m \<Longrightarrow> deq_owner (threads s t) m"
    and cell: "n' mod 2 ^ k = n mod 2 ^ k" "length (enq_log s) \<le> n' + 2 ^ k" "n' < deq_count s + 2 ^ k"
      "cell_free k (cell_step s t q p dl) n' \<or> cell_full k (cell_step s t q p dl) n'"
    and self: "thread_ok k q (enq_log s) (deq_count s) p"
    and others: "\<And>t'. t' \<noteq> t \<Longrightarrow> thread_ok k q (enq_log s) (deq_count s) (threads s t')"
    and log: "inv_deq_log (cell_step s t q p dl)"
  shows "sys_inv k (cell_step s t q p dl)"
proof -
  let ?s = "cell_step s t q p dl"
  have "inv_counts k ?s"
    using inv q by (simp add: sys_inv_def inv_counts_def)
  moreover have "inv_cell_at k ?s i" if "i < 2 ^ k" for i
  proof (cases "i = n mod 2 ^ k")
    case True
    then show ?thesis
      using cell unfolding inv_cell_at_def by auto
  next
    case False
    obtain m where m: "m mod 2 ^ k = i mod 2 ^ k" "length (enq_log s) \<le> m + 2 ^ k"
      "m < deq_count s + 2 ^ k" "cell_free k s m \<or> cell_full k s m"
      using inv_cell_ticket[OF inv, of i] by blast
    then have other: "m mod 2 ^ k \<noteq> n mod 2 ^ k"
      using False that by simp
    then have "\<not> enq_owner (threads s t) m" "\<not> deq_owner (threads s t) m"
      using owned by auto
    then have "cell_free k ?s m \<or> cell_full k ?s m"
      using m(4) frame[OF other] by (auto simp: cell_free_def cell_full_def intro: owned_keep)
    then show ?thesis
      using m that unfolding inv_cell_at_def by auto
  qed
  moreover have "thread_ok k (queue ?s) (enq_log ?s) (deq_count ?s) (threads ?s t')" for t'
    using self others by simp
  moreover have "inv_unique ?s"
    using inv owned' by (auto simp: sys_inv_def inv_unique_def)
  ultimately show ?thesis
    using log by (simp add: sys_inv_def)
qed

lemma inv_unique_enq:
  "sys_inv k s \<Longrightarrow> enq_owner (threads s t) n \<Longrightarrow> enq_owner (threads s t') n \<Longrightarrow> t' = t"
  and inv_unique_deq:
  "sys_inv k s \<Longrightarrow> deq_owner (threads s t) n \<Longrightarrow> deq_owner (threads s t') n \<Longrightarrow> t' = t"
  unfolding sys_inv_def inv_unique_def by blast+

text \<open>The tickets and sequence numbers another thread relies on lie in other cells than the
  one thread \<open>t\<close> owns.\<close>

lemma relies_enq_other:
  assumes inv: "sys_inv k s" and "enq_owner (threads s t) n" "t' \<noteq> t"
    and seq: "ticket_seq k (queue s) n = n" "n < length (enq_log s)"
    and rel: "relies (length (enq_log s)) (deq_count s) (threads s t') = Some (m, y)"
  shows "m mod 2 ^ k \<noteq> n mod 2 ^ k"
proof
  assume "m mod 2 ^ k = n mod 2 ^ k"
  then have "m = n" "y = n"
    using relies_same_cell[OF inv rel _ seq(1)] by auto
  then show False
    using rel seq(2) inv_unique_enq[OF inv assms(2), of t'] assms(3)
    by (cases "threads s t'") (auto split: if_splits)
qed

lemma relies_deq_other:
  assumes inv: "sys_inv k s" and "deq_owner (threads s t) n" "t' \<noteq> t"
    and seq: "ticket_seq k (queue s) n = Suc n" "n < deq_count s"
    and rel: "relies (length (enq_log s)) (deq_count s) (threads s t') = Some (m, y)"
  shows "m mod 2 ^ k \<noteq> n mod 2 ^ k"
proof
  assume "m mod 2 ^ k = n mod 2 ^ k"
  then have "m = n" "y = Suc n"
    using relies_same_cell[OF inv rel _ seq(1)] by auto
  then show False
    using rel seq(2) inv_unique_deq[OF inv assms(2), of t'] assms(3)
    by (cases "threads s t'") (auto split: if_splits)
qed

lemma inv_deq_log_keep:
  assumes "sys_inv k s" "\<And>n. reads p n \<longleftrightarrow> reads (threads s t) n"
  shows "inv_deq_log (cell_step s t q p [])"
  using assms reading_update[of p "threads s" t] by (simp add: sys_inv_def inv_deq_log_def)

lemma enq_write_inv:
  assumes inv: "sys_inv k s" and p: "threads s t = EnqWrite v pos"
  shows "sys_inv k (cell_step s t (set_cell_data (queue s) (cell_index (queue s) pos) (Some v))
    (EnqPublish pos) [])"
proof -
  let ?n = "unat pos" and ?q = "set_cell_data (queue s) (unat pos mod 2 ^ k) (Some v)"
  note shape = inv_shape[OF inv]
  have ok: "?n < length (enq_log s)" "enq_log s ! ?n = v" "ticket_seq k (queue s) ?n = ?n"
    using inv_thread[OF inv, of t] p by auto
  note free = inv_seq_free[OF inv ok(3)]
  have "sys_inv k (cell_step s t ?q (EnqPublish pos) [])"
  proof (rule cell_step_inv[OF inv, where n = ?n and n' = ?n])
    show "cell_free k (cell_step s t ?q (EnqPublish pos) []) ?n \<or>
        cell_full k (cell_step s t ?q (EnqPublish pos) []) ?n"
      using free by (simp add: cell_free_def ticket_cell_set[OF shape] owned_new)
    show "thread_ok k ?q (enq_log s) (deq_count s) (threads s t')" if "t' \<noteq> t" for t'
      by (rule thread_ok_other_cell[OF inv_thread[OF inv]])
        (use relies_enq_other[OF inv _ that ok(3,1)] p in \<open>simp add: ticket_cell_set[OF shape]\<close>)
  qed (use free ok p shape inv_deq_log_keep[OF inv, of "EnqPublish pos" t] in
      \<open>auto simp: ticket_cell_set[OF shape]\<close>)
  then show ?thesis
    by (simp add: shape_index[OF shape])
qed

lemma enq_publish_inv:
  assumes inv: "sys_inv k s" and small: "few_enqueues k s" and p: "threads s t = EnqPublish pos"
  shows "sys_inv k (cell_step s t (set_cell_seq (queue s) (cell_index (queue s) pos) (pos + 1))
    (EnqRet True) [])"
proof -
  let ?n = "unat pos" and ?q = "set_cell_seq (queue s) (unat pos mod 2 ^ k) (pos + 1)"
  note shape = inv_shape[OF inv]
  have ok: "?n < length (enq_log s)" "ticket_seq k (queue s) ?n = ?n"
    "cell_data (ticket_cell k (queue s) ?n) = Some (enq_log s ! ?n)"
    using inv_thread[OF inv, of t] p by auto
  note free = inv_seq_free[OF inv ok(2), unfolded cell_free_def]
  have next_seq: "unat (pos + 1) = Suc ?n"
    using ok(1) small by (intro unat_plus_1) (simp add: few_enqueues_def)
  have "sys_inv k (cell_step s t ?q (EnqRet True) [])"
  proof (rule cell_step_inv[OF inv, where n = ?n and n' = ?n])
    show "cell_free k (cell_step s t ?q (EnqRet True) []) ?n \<or>
        cell_full k (cell_step s t ?q (EnqRet True) []) ?n"
      using free ok next_seq by (simp add: cell_full_def ticket_cell_set[OF shape])
    show "thread_ok k ?q (enq_log s) (deq_count s) (threads s t')" if "t' \<noteq> t" for t'
      by (rule thread_ok_other_cell[OF inv_thread[OF inv]])
        (use relies_enq_other[OF inv _ that ok(2,1)] p in \<open>simp add: ticket_cell_set[OF shape]\<close>)
  qed (use free ok p shape inv_deq_log_keep[OF inv, of "EnqRet True" t] in
      \<open>auto simp: ticket_cell_set[OF shape]\<close>)
  then show ?thesis
    by (simp add: shape_index[OF shape])
qed

lemma deq_release_inv:
  assumes inv: "sys_inv k s" and small: "few_enqueues k s" and p: "threads s t = DeqRelease pos x"
  shows "sys_inv k (cell_step s t
    (set_cell_seq (queue s) (cell_index (queue s) pos) (pos + qmask (queue s) + 1)) (DeqRet True x) [])"
proof -
  let ?n = "unat pos"
  let ?q = "set_cell_seq (queue s) (unat pos mod 2 ^ k) (pos + qmask (queue s) + 1)"
  note shape = inv_shape[OF inv]
  have ok: "?n < deq_count s" "ticket_seq k (queue s) ?n = Suc ?n" "x = Some (enq_log s ! ?n)"
    using inv_thread[OF inv, of t] p by auto
  note full = inv_seq_full[OF inv ok(2), unfolded cell_full_def]
  have "pos + qmask (queue s) + 1 = of_nat (?n + 2 ^ k)"
    using shape by (simp add: lfq_shape_def)
  moreover have "?n + 2 ^ k < 2 ^ 63"
    using full small by (simp add: few_enqueues_def)
  ultimately have next_seq: "unat (pos + qmask (queue s) + 1) = ?n + 2 ^ k"
    using unat_of_nat_63 by metis
  have "sys_inv k (cell_step s t ?q (DeqRet True x) [])"
  proof (rule cell_step_inv[OF inv, where n = ?n and n' = "?n + 2 ^ k"])
    show "cell_free k (cell_step s t ?q (DeqRet True x) []) (?n + 2 ^ k) \<or>
        cell_full k (cell_step s t ?q (DeqRet True x) []) (?n + 2 ^ k)"
      using full ok(1) next_seq inv_bounds[OF inv] by (simp add: cell_free_def ticket_cell_set[OF shape])
    show "thread_ok k ?q (enq_log s) (deq_count s) (threads s t')" if "t' \<noteq> t" for t'
      by (rule thread_ok_other_cell[OF inv_thread[OF inv]])
        (use relies_deq_other[OF inv _ that ok(2,1)] p in \<open>simp add: ticket_cell_set[OF shape]\<close>)
  qed (use full ok p shape inv_deq_log_keep[OF inv, of "DeqRet True x" t] in
      \<open>auto simp: ticket_cell_set[OF shape]\<close>)
  then show ?thesis
    by (simp add: shape_index[OF shape])
qed

lemma deq_read_inv:
  assumes inv: "sys_inv k s" and p: "threads s t = DeqRead pos"
  defines "i \<equiv> cell_index (queue s) pos"
  shows "sys_inv k (cell_step s t (set_cell_data (queue s) i None)
    (DeqRelease pos (cell_data (qbuffer (queue s) ! i))) [(unat pos, cell_data (qbuffer (queue s) ! i))])"
proof -
  let ?n = "unat pos" and ?q = "set_cell_data (queue s) (unat pos mod 2 ^ k) None"
  let ?x = "Some (enq_log s ! ?n)"
  let ?p = "DeqRelease pos ?x"
  let ?s = "cell_step s t ?q ?p [(?n, ?x)]"
  note shape = inv_shape[OF inv]
  have ok: "?n < deq_count s" "ticket_seq k (queue s) ?n = Suc ?n"
    "cell_data (ticket_cell k (queue s) ?n) = ?x"
    using inv_thread[OF inv, of t] p by auto
  note full = inv_seq_full[OF inv ok(2), unfolded cell_full_def]
  have log: "inv_deq_log ?s"
  proof -
    have "\<not> reads (threads s t') ?n" if "t' \<noteq> t" for t'
      using inv_unique_deq[OF inv, of t ?n t'] that p reads_owner[of "threads s t'" ?n] by auto
    then have "reading ((threads s)(t := ?p)) m \<longleftrightarrow> reading (threads s) m \<and> m \<noteq> ?n" for m
      by (intro reading_done[where th = "threads s", OF p]) auto
    moreover have "reading (threads s) ?n"
      using p unfolding reading_def by (intro exI[of _ t]) simp
    ultimately show ?thesis
      using inv ok(1) by (force simp: sys_inv_def inv_deq_log_def)
  qed
  have "sys_inv k ?s"
  proof (rule cell_step_inv[OF inv, where n = ?n and n' = ?n])
    show "cell_free k ?s ?n \<or> cell_full k ?s ?n"
      using full ok by (simp add: cell_full_def ticket_cell_set[OF shape] owned_new)
    show "thread_ok k ?q (enq_log s) (deq_count s) (threads s t')" if "t' \<noteq> t" for t'
      by (rule thread_ok_other_cell[OF inv_thread[OF inv]])
        (use relies_deq_other[OF inv _ that ok(2,1)] p in \<open>simp add: ticket_cell_set[OF shape]\<close>)
  qed (use full ok p shape log in \<open>auto simp: ticket_cell_set[OF shape]\<close>)
  then show ?thesis
    using ok(3) by (simp add: shape_index[OF shape] i_def ticket_cell_def)
qed

section \<open>Every reachable state satisfies the invariant\<close>

lemma access_cell:
  assumes "tstep (queue s) b (threads s t) = (q, p)"
    and "enq_claim (threads s t) p = []" "deq_claim (threads s t) p = 0"
  shows "lfq_access s t b = cell_step s t q p (deq_value (threads s t) p)"
  using assms by (simp add: lfq_access_def cell_step_def Let_def)

lemma lfq_access_inv:
  assumes inv: "sys_inv k s" and small: "few_enqueues k s" and run: "\<not> returned (threads s t)"
  shows "sys_inv k (lfq_access s t b)"
proof (cases "threads s t")
  case (EnqLoad v)
  then have "lfq_access s t b = goto s t (EnqSeq v (enqueue_pos (queue s)))"
    by (intro access_goto) simp_all
  then show ?thesis
    using goto_inv[OF inv, of t] EnqLoad inv_unat_pos[OF inv small] by (simp add: no_owner_def)
next
  case (EnqSeq v pos)
  let ?m = "unat pos" and ?y = "ticket_seq k (queue s) (unat pos)"
  have "?m < 2 ^ 63"
    using inv_thread[OF inv, of t] EnqSeq small by (auto simp: few_enqueues_def)
  note diff = seq_diff_compare[OF ticket_seq_small[OF inv small] this]
  define p where "p = (if ?y = ?m then EnqCas v pos else if ?y < ?m then EnqRet False else EnqLoad v)"
  have "lfq_access s t b = goto s t p"
    using EnqSeq by (intro access_goto)
      (simp_all add: diff p_def Let_def cell_index_ticket[OF inv_shape[OF inv]])
  moreover have "thread_ok k (queue s) (enq_log s) (deq_count s) p"
    using EnqSeq inv_thread[OF inv, of t] by (auto simp: p_def)
  ultimately show ?thesis
    using goto_inv[OF inv, of t p] EnqSeq by (auto simp: no_owner_def p_def)
next
  case (EnqCas v pos)
  show ?thesis
  proof (cases "enqueue_pos (queue s) = pos \<and> \<not> b")
    case True
    then have "lfq_access s t b = enq_claimed s t v pos"
      using EnqCas by (simp add: lfq_access_def enq_claimed_def)
    then show ?thesis
      using enq_claimed_inv[OF inv small EnqCas] True by simp
  next
    case False
    then have "lfq_access s t b = goto s t (EnqSeq v (enqueue_pos (queue s)))"
      using EnqCas by (intro access_goto) auto
    then show ?thesis
      using goto_inv[OF inv, of t] EnqCas inv_unat_pos[OF inv small] by (simp add: no_owner_def)
  qed
next
  case (EnqWrite v pos)
  then show ?thesis
    using enq_write_inv[OF inv EnqWrite] access_cell[of s b t, OF surjective_pairing] by simp
next
  case (EnqPublish pos)
  then show ?thesis
    using enq_publish_inv[OF inv small EnqPublish] access_cell[of s b t, OF surjective_pairing] by simp
next
  case DeqLoad
  then have "lfq_access s t b = goto s t (DeqSeq (dequeue_pos (queue s)))"
    by (intro access_goto) simp_all
  then show ?thesis
    using goto_inv[OF inv, of t] DeqLoad inv_unat_pos[OF inv small] by (simp add: no_owner_def)
next
  case (DeqSeq pos)
  let ?m = "unat pos" and ?y = "ticket_seq k (queue s) (unat pos)"
  have "Suc ?m < 2 ^ 63"
    using inv_thread[OF inv, of t] DeqSeq small inv_bounds(1)[OF inv]
      two_power_ge_2[OF inv_k_pos[OF inv]] unfolding few_enqueues_def by (simp del: power_Suc)
  then have succ: "unat (pos + 1) = Suc ?m" "unat (pos + 1) < 2 ^ 63"
    using unat_plus_1[of pos] by simp_all
  note diff = seq_diff_compare[OF ticket_seq_small[OF inv small] succ(2), unfolded succ(1)]
  define p :: "'a pc" where
    "p = (if ?y = Suc ?m then DeqCas pos else if ?y < Suc ?m then DeqRet False None else DeqLoad)"
  have "lfq_access s t b = goto s t p"
    using DeqSeq by (intro access_goto)
      (simp_all add: diff p_def Let_def cell_index_ticket[OF inv_shape[OF inv]])
  moreover have "thread_ok k (queue s) (enq_log s) (deq_count s) p"
    using DeqSeq inv_thread[OF inv, of t] by (auto simp: p_def)
  ultimately show ?thesis
    using goto_inv[OF inv, of t p] DeqSeq by (auto simp: no_owner_def p_def)
next
  case (DeqCas pos)
  show ?thesis
  proof (cases "dequeue_pos (queue s) = pos \<and> \<not> b")
    case True
    then have "lfq_access s t b = deq_claimed s t pos"
      using DeqCas by (simp add: lfq_access_def deq_claimed_def)
    then show ?thesis
      using deq_claimed_inv[OF inv small DeqCas] True by simp
  next
    case False
    then have "lfq_access s t b = goto s t (DeqSeq (dequeue_pos (queue s)))"
      using DeqCas by (intro access_goto) auto
    then show ?thesis
      using goto_inv[OF inv, of t] DeqCas inv_unat_pos[OF inv small] by (simp add: no_owner_def)
  qed
next
  case (DeqRead pos)
  then show ?thesis
    using deq_read_inv[OF inv DeqRead] access_cell[of s b t, OF surjective_pairing] by simp
next
  case (DeqRelease pos x)
  then show ?thesis
    using deq_release_inv[OF inv small DeqRelease] access_cell[of s b t, OF surjective_pairing] by simp
qed (use run in auto)

lemma lfq_step_inv:
  assumes "lfq_step s s'" and inv: "sys_inv k s" and small: "few_enqueues k s"
  shows "sys_inv k s'"
  using assms(1)
proof cases
  case (access t b)
  then show ?thesis
    using lfq_access_inv[OF inv small] by simp
qed (auto intro!: goto_inv[OF inv] simp: no_owner_def)

lemma lfq_step_log: "lfq_step s s' \<Longrightarrow> length (enq_log s) \<le> length (enq_log s')"
  by (induction rule: lfq_step.induct) (auto simp: goto_def lfq_access_def Let_def split: prod.splits)

lemma lfq_sys_new_inv:
  assumes "lfq_shape (lfq_new capacity :: 'a lfq) k"
  shows "sys_inv k (lfq_sys_new capacity :: 'a lfq_sys)"
proof -
  let ?s = "lfq_sys_new capacity :: 'a lfq_sys"
  have q: "queue ?s = lfq_new capacity" "enqueue_pos (lfq_new capacity :: 'a lfq) = 0"
    "dequeue_pos (lfq_new capacity :: 'a lfq) = 0" "k < 64"
    using assms by (simp_all add: lfq_sys_new_def lfq_new_def Let_def lfq_shape_def)
  have "ticket_seq k (lfq_new capacity :: 'a lfq) i = i" if "i < 2 ^ k" for i
  proof -
    have "unat (qcapacity (lfq_new capacity :: 'a lfq)) = 2 ^ k"
      using assms unat_two_power by (simp add: lfq_shape_def)
    moreover have "(2::nat) ^ k < 2 ^ 64"
      using q(4) by (rule power_strict_increasing) simp
    ultimately show ?thesis
      using that unat_of_nat_small[of i] by (simp add: ticket_cell_def lfq_new_def Let_def)
  qed
  then have "inv_cell_at k ?s i" if "i < 2 ^ k" for i
    unfolding inv_cell_at_def
    using that by (intro exI[of _ i]) (simp add: cell_free_def lfq_sys_new_def)
  then show ?thesis
    using assms q by (simp add: sys_inv_def inv_counts_def inv_unique_def inv_deq_log_def lfq_sys_new_def)
qed

theorem lfq_reach_inv:
  assumes "lfq_reach capacity s" "lfq_shape (lfq_new capacity :: 'a lfq) k" "few_enqueues k s"
  shows "sys_inv k (s :: 'a lfq_sys)"
  using assms(1,3)
proof (induction rule: lfq_reach.induct)
  case start
  then show ?case
    using lfq_sys_new_inv[OF assms(2)] by simp
next
  case (step s s')
  then have "few_enqueues k s"
    using lfq_step_log[OF step.hyps(2)] by (simp add: few_enqueues_def)
  then show ?case
    using lfq_step_inv[OF step.hyps(2)] step.IH by blast
qed

section \<open>Schedules\<close>

text \<open>Concrete runs: a schedule names the thread that moves at each step; an entry that is not
  enabled is skipped.\<close>

datatype 'a lfq_action = CallEnqueue nat 'a | CallDequeue nat | Access nat bool | Return nat

fun lfq_act :: "'a lfq_sys \<Rightarrow> 'a lfq_action \<Rightarrow> 'a lfq_sys" where
  "lfq_act s (CallEnqueue t v) = (case threads s t of Idle \<Rightarrow> goto s t (EnqLoad v) | _ \<Rightarrow> s)"
| "lfq_act s (CallDequeue t) = (case threads s t of Idle \<Rightarrow> goto s t DeqLoad | _ \<Rightarrow> s)"
| "lfq_act s (Access t b) = (if returned (threads s t) then s else lfq_access s t b)"
| "lfq_act s (Return t) =
     (case threads s t of EnqRet _ \<Rightarrow> goto s t Idle | DeqRet _ _ \<Rightarrow> goto s t Idle | _ \<Rightarrow> s)"

definition lfq_run :: "size_t \<Rightarrow> 'a lfq_action list \<Rightarrow> 'a lfq_sys" where
  "lfq_run capacity acts = fold (\<lambda>a s. lfq_act s a) acts (lfq_sys_new capacity)"

lemma lfq_act_reach: "lfq_reach capacity s \<Longrightarrow> lfq_reach capacity (lfq_act s a)"
proof (cases a)
  case (Access t b)
  then show "lfq_reach capacity s \<Longrightarrow> lfq_reach capacity (lfq_act s a)"
    by (auto intro: lfq_reach.step lfq_step.access)
qed (auto split: pc.splits intro: lfq_reach.step lfq_step.intros)

lemma lfq_run_reach: "lfq_reach capacity (lfq_run capacity acts)"
proof -
  have "lfq_reach capacity s \<Longrightarrow> lfq_reach capacity (fold (\<lambda>a s. lfq_act s a) acts s)" for s
    by (induction acts arbitrary: s) (auto intro: lfq_act_reach)
  then show ?thesis
    unfolding lfq_run_def by (simp add: lfq_reach.start)
qed

fun actor :: "'a lfq_action \<Rightarrow> nat" where
  "actor (CallEnqueue t _) = t"
| "actor (CallDequeue t) = t"
| "actor (Access t _) = t"
| "actor (Return t) = t"

lemma lfq_act_other: "actor a \<noteq> t \<Longrightarrow> threads (lfq_act s a) t = threads s t"
  by (cases a) (auto simp: goto_def lfq_access_def Let_def split: pc.splits prod.splits)

lemma lfq_run_other: "t \<notin> actor ` set acts \<Longrightarrow> threads (lfq_run capacity acts) t = Idle"
proof -
  have "t \<notin> actor ` set acts \<Longrightarrow> threads (fold (\<lambda>a s. lfq_act s a) acts s) t = threads s t" for s
    by (induction acts arbitrary: s) (auto simp: lfq_act_other)
  then show "t \<notin> actor ` set acts \<Longrightarrow> threads (lfq_run capacity acts) t = Idle"
    by (simp add: lfq_run_def lfq_sys_new_def)
qed

section \<open>Consequences for bounded runs\<close>

definition lfq_exec :: "size_t \<Rightarrow> 'a lfq_sys \<Rightarrow> bool" where
  "lfq_exec capacity s \<longleftrightarrow> lfq_reach capacity s \<and> unat capacity \<le> 2 ^ 63 \<and>
     length (enq_log s) + lfq_cap (queue s) < 2 ^ 63"

lemma tstep_cap: "lfq_cap (fst (tstep q b p)) = lfq_cap q"
  by (cases "(q, b, p)" rule: tstep.cases)
    (auto simp: lfq_cap_def Let_def set_cell_data_def set_cell_seq_def)

lemma lfq_access_queue: "queue (lfq_access s t b) = fst (tstep (queue s) b (threads s t))"
  by (simp add: lfq_access_def Let_def split: prod.splits)

lemma lfq_step_cap: "lfq_step s s' \<Longrightarrow> lfq_cap (queue s') = lfq_cap (queue s)"
  by (induction rule: lfq_step.induct) (simp_all add: goto_def lfq_access_queue tstep_cap)

lemma lfq_reach_cap:
  "lfq_reach capacity (s :: 'a lfq_sys) \<Longrightarrow> lfq_cap (queue s) = lfq_cap (lfq_new capacity :: 'a lfq)"
  by (induction rule: lfq_reach.induct) (simp_all add: lfq_step_cap lfq_sys_new_def)

lemma lfq_exec_inv:
  assumes "lfq_exec capacity (s :: 'a lfq_sys)"
  obtains k where "sys_inv k s" "few_enqueues k s" "lfq_cap (queue s) = 2 ^ k"
proof -
  obtain k where k: "lfq_shape (lfq_new capacity :: 'a lfq) k"
    using assms lfq_new_inv(1)[of capacity, where 'a = 'a] by (auto simp: lfq_exec_def lfq_inv_def)
  have cap: "lfq_cap (queue s) = 2 ^ k"
    using assms lfq_reach_cap[of capacity s] shape_cap[OF k] by (simp add: lfq_exec_def)
  then have "few_enqueues k s"
    using assms by (simp add: lfq_exec_def few_enqueues_def)
  moreover have "sys_inv k s"
    using lfq_reach_inv[OF _ k] assms calculation by (simp add: lfq_exec_def)
  ultimately show thesis
    using that cap by blast
qed

text \<open>A call that gives up did so because the cell it needs is still occupied.\<close>

lemma inv_enq_fails:
  assumes inv: "sys_inv k s" and small: "few_enqueues k s"
    and p: "threads s t = EnqSeq v pos" "snd (tstep (queue s) b (threads s t)) = EnqRet False"
  shows "length (enq_log s) = deq_count s + 2 ^ k \<or>
    (2 ^ k \<le> length (enq_log s) \<and> deq_owned (threads s) (length (enq_log s) - 2 ^ k))"
proof -
  let ?m = "unat pos" and ?E = "length (enq_log s)"
  have le: "?m \<le> ?E"
    using inv_thread[OF inv, of t] p by simp
  then have "?m < 2 ^ 63"
    using small by (simp add: few_enqueues_def)
  note diff = seq_diff_compare[OF ticket_seq_small[OF inv small] this]
  have behind: "ticket_seq k (queue s) ?m < ?m"
    using p by (auto simp: diff Let_def cell_index_ticket[OF inv_shape[OF inv]] split: if_splits)
  obtain n where n: "n mod 2 ^ k = ?m mod 2 ^ k" "?E \<le> n + 2 ^ k" "n < deq_count s + 2 ^ k"
    "ticket_seq k (queue s) ?m = n \<and> cell_free k s n \<or>
     ticket_seq k (queue s) ?m = Suc n \<and> cell_full k s n"
    using inv_cell_ticket[OF inv, of ?m] by blast
  then have "n < ?m" using behind by auto
  then have "2 ^ k \<le> ?m - n"
    using n(1) mod_eq_dvd_iff_nat[of n ?m "2 ^ k"] by (auto intro: dvd_imp_le)
  then have E: "?E = n + 2 ^ k"
    using n(2) le \<open>n < ?m\<close> by linarith
  show ?thesis
  proof (cases "deq_count s \<le> n")
    case True
    then show ?thesis
      using E inv_bounds(2)[OF inv] by linarith
  next
    case False
    then have "cell_full k s n"
      using n(4) by (auto simp: cell_free_def)
    then show ?thesis
      using False E by (simp add: cell_full_def)
  qed
qed

lemma inv_deq_fails:
  assumes inv: "sys_inv k s" and small: "few_enqueues k s"
    and p: "threads s t = DeqSeq pos" "snd (tstep (queue s) b (threads s t)) = DeqRet False x"
  shows "length (enq_log s) = deq_count s \<or> enq_owned (threads s) (deq_count s)"
proof -
  let ?m = "unat pos" and ?E = "length (enq_log s)" and ?D = "deq_count s"
  have le: "?m \<le> ?D"
    using inv_thread[OF inv, of t] p by simp
  then have "Suc ?m < 2 ^ 63"
    using small inv_bounds(1)[OF inv] two_power_ge_2[OF inv_k_pos[OF inv]]
    unfolding few_enqueues_def by (simp del: power_Suc)
  then have succ: "unat (pos + 1) = Suc ?m" "unat (pos + 1) < 2 ^ 63"
    using unat_plus_1[of pos] by simp_all
  note diff = seq_diff_compare[OF ticket_seq_small[OF inv small] succ(2), unfolded succ(1)]
  have behind: "ticket_seq k (queue s) ?m < Suc ?m"
    using p by (auto simp: diff Let_def cell_index_ticket[OF inv_shape[OF inv]] split: if_splits)
  obtain n where n: "n mod 2 ^ k = ?m mod 2 ^ k" "?E \<le> n + 2 ^ k" "n < ?D + 2 ^ k"
    "ticket_seq k (queue s) ?m = n \<and> cell_free k s n \<or>
     ticket_seq k (queue s) ?m = Suc n \<and> cell_full k s n"
    using inv_cell_ticket[OF inv, of ?m] by blast
  have "n \<le> ?m"
    using n(4) behind by auto
  show ?thesis
  proof (cases "n = ?m")
    case False
    then have "2 ^ k \<le> ?m - n"
      using n(1) \<open>n \<le> ?m\<close> mod_eq_dvd_iff_nat[of n ?m "2 ^ k"] by (auto intro: dvd_imp_le)
    then show ?thesis
      using n(2) le inv_bounds(1)[OF inv] \<open>n \<le> ?m\<close> by linarith
  next
    case True
    then have "cell_free k s ?m"
      using n(4) behind by auto
    then have "?m = ?D" "?m < ?E \<longrightarrow> enq_owned (threads s) ?m"
      using le by (auto simp: cell_free_def)
    then show ?thesis
      using inv_bounds(1)[OF inv] by auto
  qed
qed

text \<open>The cell a thread is about to write, empty or release.\<close>

fun owned_pos :: "'a pc \<Rightarrow> size_t option" where
  "owned_pos (EnqWrite _ pos) = Some pos"
| "owned_pos (EnqPublish pos) = Some pos"
| "owned_pos (DeqRead pos) = Some pos"
| "owned_pos (DeqRelease pos _) = Some pos"
| "owned_pos _ = None"

lemma inv_exclusive:
  assumes inv: "sys_inv k s"
    and "owned_pos (threads s t) = Some pos" "owned_pos (threads s t') = Some pos'"
    and eq: "cell_index (queue s) pos = cell_index (queue s) pos'"
  shows "t = t'"
proof -
  let ?r = "relies (length (enq_log s)) (deq_count s)"
  obtain y where y: "?r (threads s t) = Some (unat pos, y)"
    using assms(2) by (cases "threads s t") auto
  obtain y' where y': "?r (threads s t') = Some (unat pos', y')"
    using assms(3) by (cases "threads s t'") auto
  note seq = thread_ok_relies[OF inv_thread[OF inv] y]
  have "unat pos' mod 2 ^ k = unat pos mod 2 ^ k"
    using eq by (simp add: shape_index[OF inv_shape[OF inv]])
  then have "unat pos' = unat pos" "y' = y"
    using relies_same_cell[OF inv y', of "unat pos" y] seq by auto
  then have "(enq_owner (threads s t) (unat pos) \<and> enq_owner (threads s t') (unat pos)) \<or>
      (deq_owner (threads s t) (unat pos) \<and> deq_owner (threads s t') (unat pos))"
    using assms(2,3) y y' by (cases "threads s t"; cases "threads s t'") auto
  then show ?thesis
    using inv_unique_enq[OF inv] inv_unique_deq[OF inv] by blast
qed

text \<open>When no thread is between its claim and its last store, the queue is the sequential one.\<close>

lemma inv_quiescent:
  assumes inv: "sys_inv k s" and small: "few_enqueues k s" and quiet: "\<And>t. owned_pos (threads s t) = None"
  shows "lfq_inv (queue s)" "lfq_list (queue s) = drop (deq_count s) (enq_log s)"
proof -
  let ?q = "queue s" and ?E = "length (enq_log s)" and ?D = "deq_count s"
  note shape = inv_shape[OF inv]
  have "\<not> enq_owner (threads s t) n" "\<not> deq_owner (threads s t) n" for t n
    using quiet[of t] by (cases "threads s t"; simp)+
  then have noown: "\<not> enq_owned (threads s) n" "\<not> deq_owned (threads s) n" for n
    by (simp_all add: enq_owned_def deq_owned_def)
  have deqpos: "dequeue_pos ?q = of_nat ?D" "enqueue_pos ?q = of_nat ?E"
    using inv by (simp_all add: sys_inv_def inv_counts_def)
  have count: "lfq_count ?q = ?E - ?D"
  proof -
    have "enqueue_pos ?q - dequeue_pos ?q = of_nat (?E - ?D)"
      using deqpos inv_bounds(1)[OF inv] by (simp add: of_nat_diff)
    moreover have "?E - ?D < 2 ^ 63"
      using small by (simp add: few_enqueues_def)
    ultimately show ?thesis
      using unat_of_nat_63 by (metis lfq_count_def)
  qed
  have cell: "lfq_cell ?q j = ticket_cell k ?q (?D + j)" for j
    using inv_unat_pos(2)[OF inv small]
    by (simp add: lfq_cell_def ticket_cell_def shape_index_add[OF shape])
  have at: "ticket_seq k ?q (?D + j) = ?D + j \<and> ?E \<le> ?D + j \<or>
      ticket_seq k ?q (?D + j) = Suc (?D + j) \<and> ?D + j < ?E \<and>
        cell_data (ticket_cell k ?q (?D + j)) = Some (enq_log s ! (?D + j))" if "j < 2 ^ k" for j
  proof -
    obtain n where n: "n mod 2 ^ k = (?D + j) mod 2 ^ k" "n < ?D + 2 ^ k"
      "ticket_seq k ?q (?D + j) = n \<and> cell_free k s n \<or>
       ticket_seq k ?q (?D + j) = Suc n \<and> cell_full k s n"
      using inv_cell_ticket[OF inv, of "?D + j"] by blast
    then have "?D \<le> n"
      using noown by (auto simp: cell_free_def cell_full_def intro: leI)
    then have "n = ?D + j"
      using n(1,2) that mod_add_inj[of ?D "n - ?D" "2 ^ k" j] by simp
    then show ?thesis
      using n(3) noown \<open>?D \<le> n\<close> by (auto simp: cell_free_def cell_full_def)
  qed
  have word: "unat w = m \<Longrightarrow> w = of_nat m" for w :: size_t and m
    by auto
  have "lfq_cell_ok ?q j" if "j < lfq_cap ?q" for j
    using at[of j] that shape_cap[OF shape] count
    by (auto simp: lfq_cell_ok_def Let_def deqpos cell dest!: word)
  then show "lfq_inv ?q"
    using shape count shape_cap[OF shape] inv_bounds(2)[OF inv] by (auto simp: lfq_inv_def)
  show "lfq_list ?q = drop ?D (enq_log s)"
  proof (rule nth_equalityI)
    fix j assume "j < length (lfq_list ?q)"
    then have j: "j < ?E - ?D" "j < 2 ^ k"
      using count inv_bounds(2)[OF inv] by auto
    then show "lfq_list ?q ! j = drop ?D (enq_log s) ! j"
      using at[of j] count by (auto simp: lfq_list_def cell)
  qed (simp add: count)
qed

text \<open>From every state of a bounded run each call returns if its thread runs alone.\<close>

lemma halts_step:
  assumes "run_alone (fst (tstep q False p)) (snd (tstep q False p)) \<noteq> None"
  shows "run_alone q p \<noteq> None"
proof (cases "returned p")
  case True
  then show ?thesis by (simp add: run_alone_returned)
next
  case False
  then show ?thesis using assms by (simp add: run_alone_step[of p q])
qed

lemma halts_returned: "returned p \<Longrightarrow> run_alone q p \<noteq> None"
  by (simp add: run_alone_returned)

lemma run_alone_ret [simp]:
  "run_alone q Idle = Some (q, Idle)"
  "run_alone q (EnqRet b) = Some (q, EnqRet b)" "run_alone q (DeqRet b x) = Some (q, DeqRet b x)"
  by (simp_all add: run_alone_returned)

lemma halts_owner:
  "run_alone q (EnqPublish pos) \<noteq> None" "run_alone q (EnqWrite v pos) \<noteq> None"
  "run_alone q (DeqRelease pos x) \<noteq> None" "run_alone q (DeqRead pos) \<noteq> None"
proof -
  show 1: "run_alone q (EnqPublish pos) \<noteq> None" for q :: "'a lfq"
    by (rule halts_step) (simp add: halts_returned)
  show "run_alone q (EnqWrite v pos) \<noteq> None"
    by (rule halts_step) (use 1 in simp)
  show 2: "run_alone q (DeqRelease pos x) \<noteq> None" for q :: "'a lfq" and x
    by (rule halts_step) (simp add: halts_returned)
  show "run_alone q (DeqRead pos) \<noteq> None"
    by (rule halts_step) (use 2 in simp)
qed

lemma inv_fresh_seq:
  assumes inv: "sys_inv k s"
  shows "ticket_seq k (queue s) (length (enq_log s)) \<le> length (enq_log s)"
    "ticket_seq k (queue s) (deq_count s) \<le> Suc (deq_count s)"
proof -
  let ?E = "length (enq_log s)" and ?D = "deq_count s"
  have close: "n \<le> m" if "n mod 2 ^ k = m mod 2 ^ k" "n < m + 2 ^ k" for n m :: nat
  proof (rule ccontr)
    assume "\<not> n \<le> m"
    then have "2 ^ k \<le> n - m"
      using that(1) mod_eq_dvd_iff_nat[of m n "2 ^ k"] by (auto intro: dvd_imp_le)
    then show False using that(2) \<open>\<not> n \<le> m\<close> by linarith
  qed
  obtain n where n: "n mod 2 ^ k = ?E mod 2 ^ k" "n < ?D + 2 ^ k"
    "ticket_seq k (queue s) ?E = n \<and> cell_free k s n \<or>
     ticket_seq k (queue s) ?E = Suc n \<and> cell_full k s n"
    using inv_cell_ticket[OF inv, of ?E] by blast
  then have "n \<le> ?E"
    using close inv_bounds(1)[OF inv] by simp
  then show "ticket_seq k (queue s) ?E \<le> ?E"
    using n(3) by (auto simp: cell_full_def)
  obtain n' where n': "n' mod 2 ^ k = ?D mod 2 ^ k" "n' < ?D + 2 ^ k"
    "ticket_seq k (queue s) ?D = n' \<and> cell_free k s n' \<or>
     ticket_seq k (queue s) ?D = Suc n' \<and> cell_full k s n'"
    using inv_cell_ticket[OF inv, of ?D] by blast
  then have "n' \<le> ?D"
    using close by blast
  then show "ticket_seq k (queue s) ?D \<le> Suc ?D"
    using n'(3) by auto
qed

lemma halts_fresh:
  assumes inv: "sys_inv k s" and small: "few_enqueues k s"
  shows "run_alone (queue s) (EnqSeq v (enqueue_pos (queue s))) \<noteq> None"
    "run_alone (queue s) (DeqSeq (dequeue_pos (queue s))) \<noteq> None"
proof -
  let ?q = "queue s"
  note pos = inv_unat_pos[OF inv small] and cell = cell_index_ticket[OF inv_shape[OF inv]]
  have E: "unat (enqueue_pos ?q) < 2 ^ 63" and D: "Suc (unat (dequeue_pos ?q)) < 2 ^ 63"
    using small inv_bounds(1)[OF inv] two_power_ge_2[OF inv_k_pos[OF inv]] pos
    unfolding few_enqueues_def by (simp_all del: power_Suc)
  note enq = seq_diff_compare[OF ticket_seq_small[OF inv small] E]
  have succ: "unat (dequeue_pos ?q + 1) = Suc (unat (dequeue_pos ?q))"
    "unat (dequeue_pos ?q + 1) < 2 ^ 63"
    using unat_plus_1[of "dequeue_pos ?q"] D by simp_all
  note deq = seq_diff_compare[OF ticket_seq_small[OF inv small] succ(2), unfolded succ(1)]
  have cas: "run_alone ?q (EnqCas v (enqueue_pos ?q)) \<noteq> None"
    by (rule halts_step) (use halts_owner(2) in simp)
  show "run_alone ?q (EnqSeq v (enqueue_pos ?q)) \<noteq> None"
    by (rule halts_step)
      (use inv_fresh_seq(1)[OF inv] cas in \<open>auto simp: Let_def cell enq pos\<close>)
  have cas': "run_alone ?q (DeqCas (dequeue_pos ?q)) \<noteq> None"
    by (rule halts_step) (use halts_owner(4) in simp)
  show "run_alone ?q (DeqSeq (dequeue_pos ?q)) \<noteq> None"
    by (rule halts_step)
      (use inv_fresh_seq(2)[OF inv] cas' in \<open>auto simp: Let_def cell deq pos\<close>)
qed

lemma inv_halts:
  assumes inv: "sys_inv k s" and small: "few_enqueues k s"
  shows "run_alone (queue s) p \<noteq> None"
proof -
  let ?q = "queue s"
  note fresh = halts_fresh[OF inv small]
  have load: "run_alone ?q (EnqLoad v) \<noteq> None" for v
    by (rule halts_step) (use fresh in simp)
  have dload: "run_alone ?q DeqLoad \<noteq> None"
    by (rule halts_step) (use fresh in simp)
  have cas: "run_alone ?q (EnqCas v pos) \<noteq> None" for v pos
    by (rule halts_step) (use halts_owner(2) fresh in auto)
  have dcas: "run_alone ?q (DeqCas pos) \<noteq> None" for pos
    by (rule halts_step) (use halts_owner(4) fresh in auto)
  have seq: "run_alone ?q (EnqSeq v pos) \<noteq> None" for v pos
    by (rule halts_step) (use cas load in \<open>auto simp: Let_def\<close>)
  have dseq: "run_alone ?q (DeqSeq pos) \<noteq> None" for pos
    by (rule halts_step) (use dcas dload in \<open>auto simp: Let_def\<close>)
  show ?thesis
    using load dload cas dcas seq dseq halts_owner halts_returned by (cases p) auto
qed

lemma lfq_exec_run:
  assumes "enq_log (lfq_run capacity acts) = l" "lfq_cap (queue (lfq_run capacity acts)) = c"
    and "unat capacity \<le> 2 ^ 63" "length l + c < 2 ^ 63"
  shows "lfq_exec capacity (lfq_run capacity acts)"
  using assms lfq_run_reach[of capacity acts] by (simp add: lfq_exec_def)

section \<open>Properties\<close>

text \<open>C2: In every interleaving of any number of threads inside \<open>try_enqueue\<close> and
  \<open>try_dequeue\<close>, no ticket is dequeued twice, the dequeuer of ticket \<open>n\<close> reads exactly the value
  that was enqueued with ticket \<open>n\<close> (never a default or moved-from one), every claimed dequeue
  ticket has been read or is about to be, and never more than \<open>capacity\<close> tickets are open.\<close>

theorem lfq_values_in_ticket_order:
  assumes "lfq_exec capacity s"
  shows "distinct (map fst (deq_log s)) \<and>
    (\<forall>(n, x) \<in> set (deq_log s). n < deq_count s \<and> x = Some (enq_log s ! n)) \<and>
    (\<forall>n < deq_count s. n \<in> fst ` set (deq_log s) \<longleftrightarrow> \<not> reading (threads s) n) \<and>
    deq_count s \<le> length (enq_log s) \<and>
    length (enq_log s) \<le> deq_count s + lfq_cap (queue s)"
proof -
  obtain k where k: "sys_inv k s" "lfq_cap (queue s) = 2 ^ k"
    using lfq_exec_inv[OF assms] by blast
  then have "inv_deq_log s"
    by (simp add: sys_inv_def)
  then show ?thesis
    unfolding inv_deq_log_def using inv_bounds[OF k(1)] k(2) by simp
qed

theorem lfq_values_in_ticket_order_witness:
  "let s = lfq_run 2 ([CallEnqueue 0 (7::nat), CallEnqueue 1 8, Access 0 False, Access 1 False,
        Access 0 False, Access 1 False, Access 0 False, Access 1 True, Access 1 False, Access 1 False,
        Access 0 False, Access 0 False, CallDequeue 2] @ replicate 5 (Access 2 False) @
        replicate 4 (Access 1 False))
   in deq_log s = [(0, Some 7)] \<and> enq_log s = [7, 8] \<and>
      distinct (map fst (deq_log s)) \<and>
      (\<forall>(n, x) \<in> set (deq_log s). n < deq_count s \<and> x = Some (enq_log s ! n))"
proof -
  let ?acts = "[CallEnqueue 0 (7::nat), CallEnqueue 1 8, Access 0 False, Access 1 False,
        Access 0 False, Access 1 False, Access 0 False, Access 1 True, Access 1 False, Access 1 False,
        Access 0 False, Access 0 False, CallDequeue 2] @ replicate 5 (Access 2 False) @
        replicate 4 (Access 1 False)"
  have run: "enq_log (lfq_run 2 ?acts) = [7, 8]" "lfq_cap (queue (lfq_run 2 ?acts)) = 2"
    "deq_log (lfq_run 2 ?acts) = [(0, Some 7)]"
    by code_simp+
  note law = lfq_values_in_ticket_order[OF lfq_exec_run[OF run(1,2)]]
  show ?thesis
    using law run(1,3) unfolding Let_def by simp
qed

text \<open>C4: No two threads ever own the same cell: between the exchange that claims a position and
  the store that hands the cell on, the data of a cell is accessed by one thread only.\<close>

theorem lfq_cell_exclusive:
  assumes "lfq_exec capacity s"
    and "owned_pos (threads s t) = Some pos" "owned_pos (threads s t') = Some pos'"
    and "cell_index (queue s) pos = cell_index (queue s) pos'"
  shows "t = t'"
proof -
  obtain k where "sys_inv k s"
    using lfq_exec_inv[OF assms(1)] by blast
  then show ?thesis
    using inv_exclusive assms(2-4) by blast
qed

theorem lfq_cell_exclusive_witness:
  "let s = lfq_run 2 [CallEnqueue 0 (7::nat), Access 0 False, Access 0 False, Access 0 False]
   in owned_pos (threads s 0) = Some 0 \<and> (\<forall>t. owned_pos (threads s t) = Some 0 \<longrightarrow> t = 0)"
proof -
  let ?acts = "[CallEnqueue 0 (7::nat), Access 0 False, Access 0 False, Access 0 False]"
  have run: "enq_log (lfq_run 2 ?acts) = [7]" "lfq_cap (queue (lfq_run 2 ?acts)) = 2"
    "owned_pos (threads (lfq_run 2 ?acts) 0) = Some 0"
    by code_simp+
  have "lfq_exec 2 (lfq_run 2 ?acts)"
    by (rule lfq_exec_run[OF run(1,2)]) simp_all
  note law = lfq_cell_exclusive[OF this]
  show ?thesis
    unfolding Let_def using law[OF _ run(3)] run(3) by (metis (no_types))
qed

text \<open>C8: In every state of a run in which no call is between its claim and its last store, the
  shared queue is a well-formed sequential queue whose contents are the values enqueued so far,
  less the dequeued ones, in ticket order: nothing is lost, duplicated or reordered.\<close>

theorem lfq_quiescent_abstract:
  assumes "lfq_exec capacity s" and "\<forall>t. owned_pos (threads s t) = None"
  shows "lfq_inv (queue s) \<and> lfq_list (queue s) = drop (deq_count s) (enq_log s)"
proof -
  obtain k where "sys_inv k s" "few_enqueues k s"
    using lfq_exec_inv[OF assms(1)] by blast
  then show ?thesis
    using inv_quiescent assms(2) by blast
qed

theorem lfq_quiescent_abstract_witness:
  "let s = lfq_run 2 (CallEnqueue 0 (7::nat) # replicate 5 (Access 0 False) @
        [Return 0, CallDequeue 1, Access 1 False])
   in lfq_inv (queue s) \<and> lfq_list (queue s) = [7]"
proof -
  let ?acts = "CallEnqueue 0 (7::nat) # replicate 5 (Access 0 False) @
        [Return 0, CallDequeue 1, Access 1 False]"
  let ?s = "lfq_run 2 ?acts"
  have run: "enq_log ?s = [7]" "lfq_cap (queue ?s) = 2" "deq_count ?s = 0"
    "owned_pos (threads ?s 0) = None" "owned_pos (threads ?s 1) = None"
    by code_simp+
  have "actor ` set ?acts = {0, 1}"
    by auto
  then have "owned_pos (threads ?s t) = None" for t
    using run(4,5) lfq_run_other[of t ?acts 2] by (cases "t = 0 \<or> t = 1") auto
  then show ?thesis
    using lfq_quiescent_abstract[OF lfq_exec_run[OF run(1,2)]] run(1,3) unfolding Let_def by simp
qed

text \<open>C23: From every state of a run, whatever the other threads were doing when they stopped, a
  call that runs alone returns: no thread can be blocked by a stalled one.\<close>

theorem lfq_solo_return:
  assumes "lfq_exec capacity s"
  shows "\<exists>q' p'. run_alone (queue s) (threads s t) = Some (q', p')"
proof -
  obtain k where "sys_inv k s" "few_enqueues k s"
    using lfq_exec_inv[OF assms] by blast
  then show ?thesis
    using inv_halts[of k s "threads s t"] by auto
qed

theorem lfq_solo_return_witness:
  "let s = lfq_run 2 [CallEnqueue 0 (7::nat), Access 0 False, Access 0 False, Access 0 False,
        CallEnqueue 1 8, CallDequeue 2]
   in threads s 0 = EnqWrite 7 0 \<and> (\<exists>r. run_alone (queue s) (threads s 1) = Some r) \<and>
      (\<exists>r. run_alone (queue s) (threads s 2) = Some r)"
proof -
  let ?acts = "[CallEnqueue 0 (7::nat), Access 0 False, Access 0 False, Access 0 False,
        CallEnqueue 1 8, CallDequeue 2]"
  have run: "enq_log (lfq_run 2 ?acts) = [7]" "lfq_cap (queue (lfq_run 2 ?acts)) = 2"
    "threads (lfq_run 2 ?acts) 0 = EnqWrite 7 0"
    by code_simp+
  note law = lfq_solo_return[OF lfq_exec_run[OF run(1,2)]]
  show ?thesis
    unfolding Let_def using law[of 1] law[of 2] run(3) by auto
qed



text \<open>C40: \<open>try_dequeue\<close> gives up only when no value is open, or when the value of the oldest open
  ticket has not been published by its enqueuer yet.\<close>

theorem lfq_empty_report:
  assumes "lfq_exec capacity s"
    and "threads s t = DeqSeq pos" and "snd (tstep (queue s) b (threads s t)) = DeqRet False x"
  shows "length (enq_log s) = deq_count s \<or> enq_owned (threads s) (deq_count s)"
proof -
  obtain k where "sys_inv k s" "few_enqueues k s"
    using lfq_exec_inv[OF assms(1)] by blast
  then show ?thesis
    using inv_deq_fails[OF _ _ assms(2,3)] by blast
qed

theorem lfq_empty_report_witness:
  "let s = lfq_run 2 [CallDequeue (3::nat), Access 3 False] :: nat lfq_sys
   in snd (tstep (queue s) False (threads s 3)) = DeqRet False None \<and>
      (length (enq_log s) = deq_count s \<or> enq_owned (threads s) (deq_count s))"
proof -
  let ?s = "lfq_run 2 [CallDequeue (3::nat), Access 3 False] :: nat lfq_sys"
  have run: "enq_log ?s = []" "lfq_cap (queue ?s) = 2" "threads ?s 3 = DeqSeq 0"
    "snd (tstep (queue ?s) False (threads ?s 3)) = DeqRet False None"
    by code_simp+
  show ?thesis
    unfolding Let_def using lfq_empty_report[OF lfq_exec_run[OF run(1,2)] run(3,4)] run(4) by simp
qed

end
