(* ===== verification/Object_Pool.thy ===== *)
theory Object_Pool
  imports Lock_Free_Queue
begin

text \<open>
  \<open>object_pool.h\<close>: a free list of recycled objects in a bounded queue. Objects are addresses;
  \<open>delete\<close> is the effect \<open>del\<close> on the surrounding state, which may fail. \<open>None\<close> stands for a call
  with undefined behaviour or one that does not return.
\<close>

type_synonym 's deleter = "addr \<Rightarrow> 's \<Rightarrow> 's option"

definition kDefaultPoolCapacity :: size_t where
  "kDefaultPoolCapacity = 8192"

definition pool_new :: "size_t \<Rightarrow> addr lfq" where
  "pool_new capacity = lfq_new capacity"

text \<open>\<open>T* p = nullptr; freelist_.try_dequeue(p); return p;\<close>\<close>

definition acquire :: "addr lfq \<Rightarrow> (addr lfq \<times> addr option) option" where
  "acquire freelist =
     do { (freelist', _, p) \<leftarrow> try_dequeue freelist; Some (freelist', p) }"

definition release :: "'s deleter \<Rightarrow> addr lfq \<Rightarrow> addr \<Rightarrow> 's \<Rightarrow> (addr lfq \<times> 's) option" where
  "release del freelist p s =
     do { (freelist', ok) \<leftarrow> try_enqueue freelist p;
          if ok then Some (freelist', s)
          else do { s' \<leftarrow> del p s; Some (freelist', s') } }"

definition pool_destroy :: "'s deleter \<Rightarrow> addr lfq \<Rightarrow> 's \<Rightarrow> (addr lfq \<times> 's) option" where
  "pool_destroy del freelist s =
     do { (freelist', r) \<leftarrow>
            drain try_dequeue (\<lambda>p r. case p of None \<Rightarrow> None | Some a \<Rightarrow> Option.bind r (del a)) freelist (Some s);
          s' \<leftarrow> r;
          Some (freelist', s') }"

lemma acquire_cases:
  assumes "lfq_inv q"
  obtains (hit) q' a where "lfq_list q = a # lfq_list q'" "acquire q = Some (q', Some a)" "lfq_inv q'"
    | (miss) "lfq_list q = []" "acquire q = Some (q, None)"
  using lfq.deq_cases[OF assms]
  by (metis (no_types, lifting) Option.bind.bind_lunit acquire_def case_prod_conv)

lemma release_cases:
  assumes "lfq_inv q"
  obtains (cached) q' where "release del q a s = Some (q', s)" "lfq_inv q'" "lfq_list q' = lfq_list q @ [a]"
    | (full) "release del q a s = map_option (Pair q) (del a s)" "length (lfq_list q) = lfq_cap q"
proof (rule lfq.enq_cases[OF assms, of a])
  fix q' assume "try_enqueue q a = Some (q', True)" "lfq_inv q'" "lfq_list q' = lfq_list q @ [a]"
  then show thesis
    using cached by (simp add: release_def)
next
  assume "length (lfq_list q) = lfq_cap q" "try_enqueue q a = Some (q, False)"
  then show thesis
    using full by (simp add: release_def map_option_bind option.map_comp comp_def map_conv_bind_option)
qed

lemma pool_new_inv:
  "unat capacity \<le> 2 ^ 63 \<Longrightarrow> lfq_inv (pool_new capacity) \<and> lfq_list (pool_new capacity) = []"
  using lfq_new_inv[of capacity] by (auto simp: pool_new_def)

text \<open>The destructor deletes every cached object once, in queue order.\<close>

lemma pool_destroy_all:
  assumes "lfq_inv q"
  shows "\<exists>q'. pool_destroy del q s =
      map_option (Pair q') (fold (\<lambda>a r. Option.bind r (del a)) (lfq_list q) (Some s)) \<and> lfq_list q' = []"
proof -
  obtain q' where q': "drain try_dequeue (\<lambda>p r. case p of None \<Rightarrow> None | Some a \<Rightarrow> Option.bind r (del a)) q (Some s) =
      Some (q', fold (\<lambda>a r. Option.bind r (del a)) (lfq_list q) (Some s))" "lfq_list q' = []"
    using lfq.drain_all[OF assms, of "\<lambda>p r. case p of None \<Rightarrow> None | Some a \<Rightarrow> Option.bind r (del a)" "Some s"]
    by auto
  then show ?thesis
    by (intro exI[of _ q']) (simp add: pool_destroy_def map_conv_bind_option comp_def)
qed

end
