(* ===== verification/Topic_Registry.thy ===== *)
theory Topic_Registry
  imports Prelude
begin

text \<open>
  \<open>topic_registry.h\<close>: the registry that gives every topic string a stable 32-bit identifier.
  \<open>resolve\<close> is modelled with its two critical sections: the look-up under the shared lock, and
  the second look-up and the registration under the exclusive lock, between which other threads
  may run. The keys of \<open>topic_map\<close> are never erased or moved, so the views \<open>id_to_sv\<close> stores are
  the key strings themselves.
\<close>

section \<open>The code\<close>

record registry =
  topic_map :: "string \<rightharpoonup> topic_id"
  id_to_sv :: "topic_id \<rightharpoonup> string"
  next_id :: topic_id

definition kInvalidTopicId :: topic_id where
  "kInvalidTopicId = 0"

definition registry_new :: registry where
  "registry_new = \<lparr>topic_map = Map.empty, id_to_sv = Map.empty, next_id = 1\<rparr>"

definition resolve_fast :: "registry \<Rightarrow> string \<Rightarrow> topic_id option" where
  "resolve_fast r topic = topic_map r topic"

text \<open>\<open>emplace\<close> keeps an entry that is already there.\<close>

definition emplace :: "('k \<rightharpoonup> 'v) \<Rightarrow> 'k \<Rightarrow> 'v \<Rightarrow> ('k \<rightharpoonup> 'v)" where
  "emplace m k v = (case m k of None \<Rightarrow> m(k \<mapsto> v) | Some _ \<Rightarrow> m)"

definition resolve_slow :: "registry \<Rightarrow> string \<Rightarrow> registry \<times> topic_id" where
  "resolve_slow r topic =
     (case topic_map r topic of
        Some i \<Rightarrow> (r, i)
      | None \<Rightarrow>
          let i = next_id r
          in (r\<lparr>next_id := next_id r + 1,
                topic_map := emplace (topic_map r) topic i,
                id_to_sv := emplace (id_to_sv r) i topic\<rparr>, i))"

definition resolve :: "registry \<Rightarrow> string \<Rightarrow> registry \<times> topic_id" where
  "resolve r topic =
     (case resolve_fast r topic of
        Some i \<Rightarrow> (r, i)
      | None \<Rightarrow> resolve_slow r topic)"

definition to_string :: "registry \<Rightarrow> topic_id \<Rightarrow> string" where
  "to_string r i = (case id_to_sv r i of Some s \<Rightarrow> s | None \<Rightarrow> [])"

section \<open>Invariant\<close>

definition topic_count :: "registry \<Rightarrow> nat" where
  "topic_count r = card (dom (topic_map r))"

text \<open>The two maps are converses of each other and the identifiers are the numbers from 1 to
  the number of topics, as long as that number fits into 32 bits.\<close>

definition reg_inv :: "registry \<Rightarrow> bool" where
  "reg_inv r \<longleftrightarrow>
     finite (dom (topic_map r)) \<and> topic_count r < 2 ^ 32 \<and>
     next_id r = of_nat (topic_count r + 1) \<and>
     (\<forall>i t. id_to_sv r i = Some t \<longleftrightarrow> topic_map r t = Some i) \<and>
     (\<forall>i t. topic_map r t = Some i \<longrightarrow> 0 < unat i \<and> unat i \<le> topic_count r)"

lemma reg_inv_new: "reg_inv registry_new"
  by (simp add: reg_inv_def registry_new_def topic_count_def)

lemma resolve_slow_same:
  "topic_map r t = Some i \<Longrightarrow> resolve_slow r t = (r, i)"
  by (simp add: resolve_slow_def)

lemma resolve_is_slow: "resolve r t = resolve_slow r t"
  by (simp add: resolve_def resolve_fast_def resolve_slow_def split: option.split)

lemma resolve_slow_map:
  "resolve_slow r t = (r', i) \<Longrightarrow>
   topic_map r' = (topic_map r)(t \<mapsto> i) \<and> dom (topic_map r') = insert t (dom (topic_map r))"
  by (auto simp: resolve_slow_def emplace_def Let_def split: option.splits)

lemma topic_count_slow:
  assumes "finite (dom (topic_map r))" "resolve_slow r t = (r', i)"
  shows "topic_count r' = (if topic_map r t = None then topic_count r + 1 else topic_count r)"
  using resolve_slow_map[OF assms(2)] assms(1)
  by (auto simp: topic_count_def card_insert_if domIff)

lemma reg_inv_count: "reg_inv r \<Longrightarrow> topic_count r < 2 ^ 32" "reg_inv r \<Longrightarrow> finite (dom (topic_map r))"
  by (simp_all add: reg_inv_def)

lemma unat_next_id:
  assumes "topic_count r + 1 < 2 ^ 32" "next_id r = of_nat (topic_count r + 1)"
  shows "unat (next_id r) = topic_count r + 1"
proof -
  have "unat (of_nat (topic_count r + 1) :: 32 word) = (topic_count r + 1) mod 2 ^ 32"
    by (simp only: unat_of_nat) simp
  then show ?thesis
    using assms by simp
qed

lemma reg_inv_slow:
  assumes inv: "reg_inv r" and res: "resolve_slow r t = (r', i)" and small: "topic_count r' < 2 ^ 32"
  shows "reg_inv r' \<and> topic_map r' t = Some i \<and> topic_map r \<subseteq>\<^sub>m topic_map r'"
proof (cases "topic_map r t")
  case (Some j)
  then show ?thesis using assms resolve_slow_same[OF Some] by simp
next
  case None
  have cnt: "topic_count r' = topic_count r + 1"
    using topic_count_slow[OF _ res] inv None by (simp add: reg_inv_def)
  have nxt: "unat (next_id r) = topic_count r + 1"
    using inv small cnt by (intro unat_next_id) (auto simp: reg_inv_def)
  have fresh: "topic_map r s \<noteq> Some (next_id r)" for s
    using inv nxt by (fastforce simp: reg_inv_def)
  then have idf: "id_to_sv r (next_id r) = None"
    using inv unfolding reg_inv_def by (metis not_Some_eq)
  have r': "r' = r\<lparr>next_id := next_id r + 1, topic_map := (topic_map r)(t \<mapsto> next_id r),
      id_to_sv := (id_to_sv r)(next_id r \<mapsto> t)\<rparr>" and i: "i = next_id r"
    using res None idf by (auto simp: resolve_slow_def emplace_def Let_def)
  have conv: "\<forall>i s. id_to_sv r i = Some s \<longleftrightarrow> topic_map r s = Some i"
    and rng: "\<forall>i s. topic_map r s = Some i \<longrightarrow> 0 < unat i \<and> unat i \<le> topic_count r"
    and fin: "finite (dom (topic_map r))" and nid: "next_id r = of_nat (topic_count r + 1)"
    using inv by (auto simp: reg_inv_def)
  have "\<forall>i s. id_to_sv r' i = Some s \<longleftrightarrow> topic_map r' s = Some i"
    using conv fresh None idf by (auto simp: r')
  moreover have "\<forall>j s. topic_map r' s = Some j \<longrightarrow> 0 < unat j \<and> unat j \<le> topic_count r'"
  proof (intro allI impI)
    fix j s assume "topic_map r' s = Some j"
    then have "j = next_id r \<or> topic_map r s = Some j"
      by (auto simp: r' split: if_splits)
    then show "0 < unat j \<and> unat j \<le> topic_count r'"
      using rng nxt cnt by (metis add_gr_0 le_add1 le_trans order_refl zero_less_one)
  qed
  moreover have "finite (dom (topic_map r'))" "next_id r' = of_nat (topic_count r' + 1)"
    using fin nid cnt by (simp_all add: r')
  ultimately show ?thesis
    using small None by (auto simp: reg_inv_def i r' map_le_def)
qed

lemma reg_inv_to_string: "reg_inv r \<Longrightarrow> topic_map r t = Some i \<Longrightarrow> to_string r i = t"
proof -
  assume "reg_inv r" "topic_map r t = Some i"
  then have "id_to_sv r i = Some t"
    unfolding reg_inv_def by blast
  then show "to_string r i = t"
    by (simp add: to_string_def)
qed

lemma reg_inv_inj: "reg_inv r \<Longrightarrow> topic_map r t = Some i \<Longrightarrow> topic_map r u = Some i \<Longrightarrow> t = u"
  by (metis reg_inv_to_string)

lemma reg_inv_nonzero: "reg_inv r \<Longrightarrow> topic_map r t = Some i \<Longrightarrow> i \<noteq> kInvalidTopicId"
  by (auto simp: reg_inv_def kInvalidTopicId_def)

section \<open>Concurrent calls\<close>

text \<open>A call of \<open>resolve\<close>: before the look-up under the shared lock, and between that look-up
  and the exclusive section. \<open>answers\<close> records the results of all calls that returned.\<close>

datatype resolve_phase = Idle | AtFast string | AtSlow string

record reg_sys =
  reg :: registry
  phase :: "nat \<Rightarrow> resolve_phase"
  answers :: "(string \<times> topic_id) list"

inductive reg_step :: "reg_sys \<Rightarrow> reg_sys \<Rightarrow> bool" where
  call: "phase s th = Idle \<Longrightarrow> reg_step s (s\<lparr>phase := (phase s)(th := AtFast t)\<rparr>)"
| hit: "phase s th = AtFast t \<Longrightarrow> resolve_fast (reg s) t = Some i \<Longrightarrow>
    reg_step s (s\<lparr>phase := (phase s)(th := Idle), answers := (t, i) # answers s\<rparr>)"
| miss: "phase s th = AtFast t \<Longrightarrow> resolve_fast (reg s) t = None \<Longrightarrow>
    reg_step s (s\<lparr>phase := (phase s)(th := AtSlow t)\<rparr>)"
| slow: "phase s th = AtSlow t \<Longrightarrow> resolve_slow (reg s) t = (r, i) \<Longrightarrow>
    reg_step s (s\<lparr>reg := r, phase := (phase s)(th := Idle), answers := (t, i) # answers s\<rparr>)"

inductive_cases reg_stepE: "reg_step s s'"

definition reg_init :: reg_sys where
  "reg_init = \<lparr>reg = registry_new, phase = (\<lambda>_. Idle), answers = []\<rparr>"

inductive reg_reach :: "reg_sys \<Rightarrow> bool" where
  init: "reg_reach reg_init"
| more: "reg_reach s \<Longrightarrow> reg_step s s' \<Longrightarrow> reg_reach s'"

definition reg_sys_inv :: "reg_sys \<Rightarrow> bool" where
  "reg_sys_inv s \<longleftrightarrow>
     reg_inv (reg s) \<and> (\<forall>(t, i) \<in> set (answers s). topic_map (reg s) t = Some i)"

lemma reg_step_count:
  "reg_step s s' \<Longrightarrow> finite (dom (topic_map (reg s))) \<Longrightarrow>
   topic_count (reg s) \<le> topic_count (reg s') \<and> finite (dom (topic_map (reg s')))"
  by (erule reg_stepE) (auto simp: topic_count_slow resolve_slow_map)

lemma reg_step_inv:
  assumes "reg_step s s'" "reg_sys_inv s" "topic_count (reg s') < 2 ^ 32"
  shows "reg_sys_inv s'"
  using assms(1)
proof cases
  case (slow th t r i)
  then have "reg_inv r \<and> topic_map r t = Some i \<and> topic_map (reg s) \<subseteq>\<^sub>m topic_map r"
    using assms reg_inv_slow[of "reg s" t r i] by (auto simp: reg_sys_inv_def)
  moreover have "topic_map r u = Some j" if "(u, j) \<in> set (answers s)" for u j
    using that assms(2) calculation by (force simp: reg_sys_inv_def map_le_def dom_def)
  ultimately show ?thesis
    using slow by (auto simp: reg_sys_inv_def)
qed (use assms(2) in \<open>auto simp: reg_sys_inv_def resolve_fast_def\<close>)

lemma reg_reach_finite: "reg_reach s \<Longrightarrow> finite (dom (topic_map (reg s)))"
  by (induction rule: reg_reach.induct)
     (simp add: reg_init_def registry_new_def, use reg_step_count in blast)

lemma reg_reach_inv: "reg_reach s \<Longrightarrow> topic_count (reg s) < 2 ^ 32 \<Longrightarrow> reg_sys_inv s"
proof (induction rule: reg_reach.induct)
  case init
  then show ?case by (simp add: reg_init_def reg_sys_inv_def reg_inv_new)
next
  case (more s s')
  then have "topic_count (reg s) \<le> topic_count (reg s')"
    using reg_step_count reg_reach_finite by blast
  then show ?case
    using more reg_step_inv by simp
qed

text \<open>C20: whatever the interleaving of the two critical sections of concurrent calls of
  \<open>resolve\<close>, while fewer than \<open>2\<^sup>3\<^sup>2\<close> topics are registered, two calls get the same identifier
  exactly when they ask for the same topic, no call gets \<open>kInvalidTopicId\<close>, and \<open>to_string\<close>
  gives back the topic of every identifier handed out so far.\<close>

theorem resolve_concurrent_bijective:
  assumes "reg_reach s" and "topic_count (reg s) < 2 ^ 32"
    and "(t, i) \<in> set (answers s)" and "(u, j) \<in> set (answers s)"
  shows "(t = u \<longleftrightarrow> i = j) \<and> i \<noteq> kInvalidTopicId \<and> to_string (reg s) i = t"
proof -
  have inv: "reg_inv (reg s)" and "topic_map (reg s) t = Some i" "topic_map (reg s) u = Some j"
    using reg_reach_inv[OF assms(1,2)] assms(3,4) by (auto simp: reg_sys_inv_def)
  then show ?thesis
    using reg_inv_inj[OF inv] reg_inv_nonzero[OF inv] reg_inv_to_string[OF inv]
    by (metis option.inject)
qed

theorem resolve_concurrent_bijective_witness:
  "\<exists>s. reg_reach s \<and> answers s = [(''b'', 1), (''b'', 1)] \<and> to_string (reg s) 1 = ''b''"
proof -
  let ?p = "\<lambda>a b. (\<lambda>_::nat. Idle)(0 := a, 1 := b)"
  let ?r = "\<lparr>topic_map = [''b'' \<mapsto> 1], id_to_sv = [1 \<mapsto> ''b''], next_id = 2\<rparr>"
  let ?s = "\<lambda>r a b ans. \<lparr>reg = r, phase = ?p a b, answers = ans\<rparr>"
  let ?B = "''b''"
  note cl = more[OF _ call] and ms = more[OF _ miss] and sl = more[OF _ slow]
  have idle1: "(\<lambda>_::nat. Idle)(0 := a, Suc 0 := Idle) = (\<lambda>_. Idle)(0 := a)" for a
    by auto
  have 1: "reg_reach (?s registry_new (AtFast ?B) Idle [])"
    using cl[OF init, of 0 ?B] idle1 by (simp add: reg_init_def)
  have 2: "reg_reach (?s registry_new (AtFast ?B) (AtFast ?B) [])"
    using cl[OF 1, of 1 ?B] by simp
  have 3: "reg_reach (?s registry_new (AtSlow ?B) (AtFast ?B) [])"
    using ms[OF 2, of 0 ?B] by (simp add: resolve_fast_def registry_new_def fun_upd_twist)
  have 4: "reg_reach (?s registry_new (AtSlow ?B) (AtSlow ?B) [])"
    using ms[OF 3, of 1 ?B] by (simp add: resolve_fast_def registry_new_def)
  have new: "resolve_slow registry_new ?B = (?r, 1)"
    by (simp add: resolve_slow_def registry_new_def emplace_def Let_def)
  have 5: "reg_reach (?s ?r Idle (AtSlow ?B) [(?B, 1)])"
    using sl[OF 4, of 0 ?B ?r 1] new by (simp add: fun_upd_twist)
  have again: "resolve_slow ?r ?B = (?r, 1)"
    by (simp add: resolve_slow_def)
  have 6: "reg_reach (?s ?r Idle Idle [(?B, 1), (?B, 1)])"
    using sl[OF 5, of 1 ?B ?r 1] again by simp
  have "to_string ?r 1 = ?B"
    using resolve_concurrent_bijective[OF 6, of ?B 1 ?B 1] by (simp add: topic_count_def)
  then show ?thesis
    using 6 by (intro exI[of _ "?s ?r Idle Idle [(?B, 1), (?B, 1)]"]) simp
qed

section \<open>Calls one after the other\<close>

lemma resolve_ok:
  assumes "reg_inv r" and "topic_count r + 1 < 2 ^ 32"
  shows "case resolve r t of (r', i) \<Rightarrow>
    reg_inv r' \<and> i \<noteq> kInvalidTopicId \<and> to_string r' i = t \<and> resolve r' t = (r', i) \<and>
    (\<forall>u j. topic_map r u = Some j \<longrightarrow> resolve r' u = (r', j) \<and> to_string r' j = u)"
proof -
  obtain r' i where res: "resolve_slow r t = (r', i)"
    by fastforce
  have "topic_count r' < 2 ^ 32"
    using topic_count_slow[OF _ res] assms reg_inv_count by auto
  then have inv: "reg_inv r'" and t: "topic_map r' t = Some i"
    and le: "topic_map r \<subseteq>\<^sub>m topic_map r'"
    using reg_inv_slow[OF assms(1) res] by auto
  have old: "topic_map r' u = Some j" if "topic_map r u = Some j" for u j
    using le that by (force simp: map_le_def dom_def)
  show ?thesis
    using inv t old reg_inv_nonzero[OF inv t] reg_inv_to_string[OF inv]
    by (simp add: resolve_is_slow res resolve_slow_same)
qed

text \<open>\<open>resolve\<close> followed by \<open>to_string\<close> returns the topic; a second \<open>resolve\<close> of it returns
  the same identifier and changes nothing; the identifiers of other topics stay what they
  were.\<close>

lemma resolve_roundtrip:
  assumes "reg_inv r" and "topic_count r + 1 < 2 ^ 32"
  shows "case resolve r t of (r', i) \<Rightarrow>
    reg_inv r' \<and> i \<noteq> kInvalidTopicId \<and> to_string r' i = t \<and> resolve r' t = (r', i) \<and>
    (\<forall>u j. topic_map r u = Some j \<longrightarrow> resolve r' u = (r', j) \<and> to_string r' j = u)"
  using assms by (rule resolve_ok)

theorem resolve_roundtrip_witness:
  "case resolve registry_new ''a/b'' of (r, i) \<Rightarrow> to_string r i = ''a/b'' \<and> i \<noteq> kInvalidTopicId"
  using resolve_roundtrip[OF reg_inv_new, of "''a/b''"]
  by (auto simp: topic_count_def registry_new_def)

text \<open>The counter is a 32-bit word: the registration that finds it at 0 hands out
  \<open>kInvalidTopicId\<close>.\<close>

lemma resolve_wrapped:
  "topic_map r t = None \<Longrightarrow> next_id r = 0 \<Longrightarrow> snd (resolve r t) = kInvalidTopicId"
  by (simp add: resolve_is_slow resolve_slow_def kInvalidTopicId_def Let_def)

end
