(* ===== verification/Message.thy ===== *)
theory Message
  imports Object_Pool Topic_Registry
begin

text \<open>
  \<open>message.h\<close> and the typed pools of \<open>message_bus.h\<close>: messages on an explicit heap with an
  intrusive reference count, the smart pointer \<open>MessagePtr\<close> operation by operation, and the
  recycling of dead messages through the pool of their type. An access to a freed message is
  undefined behaviour and makes an operation \<open>None\<close>. The reference count is an unbounded
  integer: an overflow of the \<open>int\<close> needs \<open>2\<^sup>3\<^sup>1\<close> live pointers to one message.
\<close>

section \<open>Messages and the heap\<close>

record 'd message =
  ref_count :: int
  recycler :: bool
  on_drop :: "handler_ref option"
  topic_sv :: string
  topic_id :: topic_id
  data :: 'd
  mtype :: type_info

text \<open>\<open>recycler\<close> says whether \<open>recycler_\<close> is set; the only function the code ever stores there is
  \<open>TypedMessagePool<T>::recycle\<close> of the message's own type. \<open>pools\<close> are the static pools, one
  per type; \<open>dropped\<close> records the calls of drop callbacks with their arguments. The allocator
  hands out fresh addresses.\<close>

record 'd mem =
  heap :: "addr \<rightharpoonup> 'd message"
  pools :: "type_info \<Rightarrow> addr lfq"
  next_addr :: addr
  dropped :: "(handler_ref \<times> string \<times> 'd) list"

definition mem_new :: "'d mem" where
  "mem_new = \<lparr>heap = Map.empty, pools = (\<lambda>_. pool_new kDefaultPoolCapacity), next_addr = 0, dropped = []\<rparr>"

definition update_msg :: "addr \<Rightarrow> ('d message \<Rightarrow> 'd message) \<Rightarrow> 'd mem \<Rightarrow> 'd mem option" where
  "update_msg a f m = do { msg \<leftarrow> heap m a; Some (m\<lparr>heap := (heap m)(a \<mapsto> f msg)\<rparr>) }"

definition add_ref :: "addr \<Rightarrow> 'd mem \<Rightarrow> 'd mem option" where
  "add_ref a m = update_msg a (\<lambda>msg. msg\<lparr>ref_count := ref_count msg + 1\<rparr>) m"

text \<open>\<open>fetch_sub\<close> returns the old value.\<close>

definition release_ref :: "addr \<Rightarrow> 'd mem \<Rightarrow> ('d mem \<times> bool) option" where
  "release_ref a m =
     do { msg \<leftarrow> heap m a;
          m' \<leftarrow> update_msg a (\<lambda>msg. msg\<lparr>ref_count := ref_count msg - 1\<rparr>) m;
          Some (m', ref_count msg = 1) }"

definition notify_drop :: "addr \<Rightarrow> 'd mem \<Rightarrow> 'd mem option" where
  "notify_drop a m =
     do { msg \<leftarrow> heap m a;
          case on_drop msg of
            None \<Rightarrow> Some m
          | Some cb \<Rightarrow>
              do { m' \<leftarrow> update_msg a (\<lambda>msg. msg\<lparr>on_drop := None\<rparr>) m;
                   Some (m'\<lparr>dropped := dropped m' @ [(cb, topic_sv msg, data msg)]\<rparr>) } }"

definition set_topic_sv :: "addr \<Rightarrow> string \<Rightarrow> 'd mem \<Rightarrow> 'd mem option" where
  "set_topic_sv a sv m = update_msg a (\<lambda>msg. msg\<lparr>topic_sv := sv\<rparr>) m"

text \<open>Construction by \<open>new\<close> and the reset of a pooled object.\<close>

definition new_message :: "type_info \<Rightarrow> topic_id \<Rightarrow> 'd \<Rightarrow> 'd mem \<Rightarrow> 'd mem \<times> addr" where
  "new_message ty tid d m =
     (m\<lparr>heap := (heap m)(next_addr m \<mapsto>
          \<lparr>ref_count = 0, recycler = False, on_drop = None, topic_sv = [], topic_id = tid, data = d, mtype = ty\<rparr>),
        next_addr := next_addr m + 1\<rparr>, next_addr m)"

definition reset_message :: "addr \<Rightarrow> topic_id \<Rightarrow> 'd \<Rightarrow> 'd mem \<Rightarrow> 'd mem option" where
  "reset_message a tid d m =
     update_msg a (\<lambda>msg. msg\<lparr>ref_count := 0, recycler := False, on_drop := None, topic_id := tid, data := d\<rparr>) m"

definition delete_message :: "addr \<Rightarrow> 'd mem \<Rightarrow> 'd mem option" where
  "delete_message a m = do { msg \<leftarrow> heap m a; Some (m\<lparr>heap := (heap m)(a := None)\<rparr>) }"

section \<open>The typed pools\<close>

definition pool_acquire :: "type_info \<Rightarrow> 'd mem \<Rightarrow> ('d mem \<times> addr option) option" where
  "pool_acquire ty m =
     do { (q, p) \<leftarrow> acquire (pools m ty); Some (m\<lparr>pools := (pools m)(ty := q)\<rparr>, p) }"

definition recycle :: "addr \<Rightarrow> 'd mem \<Rightarrow> 'd mem option" where
  "recycle a m =
     do { msg \<leftarrow> heap m a;
          (q, m') \<leftarrow> release delete_message (pools m (mtype msg)) a m;
          Some (m'\<lparr>pools := (pools m')(mtype msg := q)\<rparr>) }"

section \<open>MessagePtr\<close>

text \<open>A pointer is its member \<open>ptr_\<close>. The operations return the new memory and the new value of
  every pointer they assign.\<close>

type_synonym msg_ptr = "addr option"

definition mp_reset :: "msg_ptr \<Rightarrow> 'd mem \<Rightarrow> ('d mem \<times> msg_ptr) option" where
  "mp_reset this m =
     (case this of
        None \<Rightarrow> Some (m, None)
      | Some a \<Rightarrow>
          do { (m1, zero) \<leftarrow> release_ref a m;
               m2 \<leftarrow> (if zero then
                        do { msg \<leftarrow> heap m1 a;
                             if recycler msg then recycle a m1 else delete_message a m1 }
                      else Some m1);
               Some (m2, None) })"

definition mp_adopt :: "msg_ptr \<Rightarrow> 'd mem \<Rightarrow> ('d mem \<times> msg_ptr) option" where
  "mp_adopt p m =
     (case p of
        None \<Rightarrow> Some (m, None)
      | Some a \<Rightarrow> do { m' \<leftarrow> add_ref a m; Some (m', Some a) })"

definition mp_copy :: "msg_ptr \<Rightarrow> 'd mem \<Rightarrow> ('d mem \<times> msg_ptr) option" where
  "mp_copy o' m =
     (case o' of
        None \<Rightarrow> Some (m, None)
      | Some a \<Rightarrow> do { m' \<leftarrow> add_ref a m; Some (m', Some a) })"

definition mp_copy_assign :: "msg_ptr \<Rightarrow> msg_ptr \<Rightarrow> 'd mem \<Rightarrow> ('d mem \<times> msg_ptr) option" where
  "mp_copy_assign this o' m =
     (if this \<noteq> o' then
        do { (m1, _) \<leftarrow> mp_reset this m;
             (case o' of
                None \<Rightarrow> Some (m1, None)
              | Some a \<Rightarrow> do { m2 \<leftarrow> add_ref a m1; Some (m2, Some a) }) }
      else Some (m, this))"

text \<open>The moves return the new value of the target and of the source. \<open>same\<close> is
  \<open>this == &o\<close>.\<close>

definition mp_move :: "msg_ptr \<Rightarrow> msg_ptr \<times> msg_ptr" where
  "mp_move o' = (o', None)"

definition mp_move_assign ::
    "bool \<Rightarrow> msg_ptr \<Rightarrow> msg_ptr \<Rightarrow> 'd mem \<Rightarrow> ('d mem \<times> msg_ptr \<times> msg_ptr) option" where
  "mp_move_assign same this o' m =
     (if \<not> same then do { (m1, _) \<leftarrow> mp_reset this m; Some (m1, o', None) }
      else Some (m, this, this))"

section \<open>Ownership\<close>

text \<open>\<open>refs\<close> is the multiset of addresses the live pointers hold, \<open>raws\<close> the set of messages a
  publisher holds by raw pointer. Every message on the heap is owned exactly once: by pointers,
  raw, or by the pool of its type; and its count is the number of pointers to it.\<close>

definition pooled :: "'d mem \<Rightarrow> addr set" where
  "pooled m = (\<Union>ty. set (lfq_list (pools m ty)))"

definition pools_ok :: "'d mem \<Rightarrow> bool" where
  "pools_ok m \<longleftrightarrow>
     (\<forall>ty. lfq_inv (pools m ty) \<and> distinct (lfq_list (pools m ty)) \<and>
        (\<forall>a \<in> set (lfq_list (pools m ty)). \<exists>msg. heap m a = Some msg \<and> mtype msg = ty))"

definition mem_ok :: "addr multiset \<Rightarrow> addr set \<Rightarrow> 'd mem \<Rightarrow> bool" where
  "mem_ok refs raws m \<longleftrightarrow>
     (\<forall>a msg. heap m a = Some msg \<longrightarrow> ref_count msg = int (count refs a) \<and> a < next_addr m) \<and>
     dom (heap m) = set_mset refs \<union> raws \<union> pooled m \<and>
     set_mset refs \<inter> raws = {} \<and> set_mset refs \<inter> pooled m = {} \<and> raws \<inter> pooled m = {} \<and>
     pools_ok m"

text \<open>What an operation may not change of the messages it does not own: everything but the count,
  or at least what a subscriber sees.\<close>

definition payload :: "'d message \<Rightarrow> 'd message" where
  "payload msg = msg\<lparr>ref_count := 0\<rparr>"

definition keeps :: "addr set \<Rightarrow> 'd mem \<Rightarrow> 'd mem \<Rightarrow> bool" where
  "keeps A m m' \<longleftrightarrow> (\<forall>a \<in> A. map_option payload (heap m' a) = map_option payload (heap m a))"

text \<open>The call of a message's drop callback.\<close>

definition drop_note :: "'d message \<Rightarrow> (handler_ref \<times> string \<times> 'd) list" where
  "drop_note msg = (case on_drop msg of None \<Rightarrow> [] | Some cb \<Rightarrow> [(cb, topic_sv msg, data msg)])"

definition visible :: "'d message \<Rightarrow> topic_id \<times> string \<times> type_info \<times> 'd" where
  "visible msg = (topic_id msg, topic_sv msg, mtype msg, data msg)"

definition keeps_data :: "addr set \<Rightarrow> 'd mem \<Rightarrow> 'd mem \<Rightarrow> bool" where
  "keeps_data A m m' \<longleftrightarrow> (\<forall>a \<in> A. map_option visible (heap m' a) = map_option visible (heap m a))"

lemma keeps_imp_data: "keeps A m m' \<Longrightarrow> keeps_data A m m'"
  unfolding keeps_def keeps_data_def
proof (intro ballI)
  fix a assume "\<forall>a\<in>A. map_option payload (heap m' a) = map_option payload (heap m a)" "a \<in> A"
  then have "map_option (visible \<circ> payload) (heap m' a) = map_option (visible \<circ> payload) (heap m a)"
    by (metis option.map_comp)
  moreover have "visible \<circ> payload = (visible :: 'a message \<Rightarrow> _)"
    by (auto simp: visible_def payload_def)
  ultimately show "map_option visible (heap m' a) = map_option visible (heap m a)"
    by simp
qed

lemma keeps_same_note:
  assumes "keeps A m m'" "a \<in> A" "heap m a = Some msg" "heap m' a = Some msg'"
  shows "drop_note msg' = drop_note msg"
proof -
  have "payload msg' = payload msg"
    using assms by (auto simp: keeps_def)
  then have "on_drop (payload msg') = on_drop (payload msg)" "topic_sv (payload msg') = topic_sv (payload msg)"
    "data (payload msg') = data (payload msg)"
    by simp_all
  then show ?thesis
    by (simp add: payload_def drop_note_def split: option.split)
qed

lemma keeps_refl [simp]: "keeps A m m"
  by (simp add: keeps_def)

lemma keeps_trans: "keeps A m m1 \<Longrightarrow> keeps A m1 m2 \<Longrightarrow> keeps A m m2"
  by (simp add: keeps_def)

lemma keeps_mono: "keeps B m m' \<Longrightarrow> A \<subseteq> B \<Longrightarrow> keeps A m m'"
  by (auto simp: keeps_def)

lemma mem_ok_new: "mem_ok {#} {} (mem_new :: 'd mem)"
proof -
  have "lfq_inv (pool_new kDefaultPoolCapacity)" "lfq_list (pool_new kDefaultPoolCapacity) = []"
    using pool_new_inv[of kDefaultPoolCapacity] by (simp_all add: kDefaultPoolCapacity_def)
  then show ?thesis
    by (simp add: mem_ok_def mem_new_def pools_ok_def pooled_def)
qed

lemma mem_ok_live:
  assumes "mem_ok refs raws m" "a \<in># refs"
  obtains msg where "heap m a = Some msg" "ref_count msg = int (count refs a)" "a \<notin> pooled m" "a \<notin> raws"
proof -
  have "a \<in> dom (heap m)"
    using assms by (auto simp: mem_ok_def)
  then obtain msg where "heap m a = Some msg"
    by auto
  moreover have "a \<notin> pooled m" "a \<notin> raws"
    using assms by (auto simp: mem_ok_def disjoint_iff)
  ultimately show thesis
    using assms that[of msg] by (auto simp: mem_ok_def)
qed

text \<open>A change of a message that keeps its type only matters to the count.\<close>

lemma mem_ok_update:
  assumes ok: "mem_ok refs raws m" and msg: "heap m a = Some msg" and ty: "mtype msg' = mtype msg"
    and cnt: "ref_count msg' = int (count refs' a)"
    and refs': "\<forall>b. b \<noteq> a \<longrightarrow> count refs' b = count refs b"
    and dom: "set_mset refs' \<union> raws' = set_mset refs \<union> raws" "set_mset refs' \<inter> raws' = {}"
  shows "mem_ok refs' raws' (m\<lparr>heap := (heap m)(a \<mapsto> msg')\<rparr>)"
proof -
  have "a \<in> dom (heap m)" using msg by auto
  moreover have "(set_mset refs' \<union> raws') \<inter> pooled m = {}"
    using ok dom(1) by (auto simp: mem_ok_def)
  moreover have "pools_ok (m\<lparr>heap := (heap m)(a \<mapsto> msg')\<rparr>)"
    using ok msg ty by (fastforce simp: mem_ok_def pools_ok_def)
  ultimately show ?thesis
    using ok msg cnt refs' dom by (auto simp: mem_ok_def pooled_def)
qed

lemma update_msg_Some [mem_simps]:
  "heap m a = Some msg \<Longrightarrow> update_msg a f m = Some (m\<lparr>heap := (heap m)(a \<mapsto> f msg)\<rparr>)"
  by (simp add: update_msg_def)

lemma payload_count [simp]: "payload (msg\<lparr>ref_count := n\<rparr>) = payload msg"
  by (simp add: payload_def)

text \<open>The reference a pointer holds.\<close>

definition holds :: "msg_ptr \<Rightarrow> addr multiset" where
  "holds p = (case p of None \<Rightarrow> {#} | Some a \<Rightarrow> {#a#})"

lemma holds_simps [simp]: "holds None = {#}" "holds (Some a) = {#a#}"
  by (simp_all add: holds_def)

text \<open>Copying and adopting a pointer.\<close>

lemma add_ref_ok:
  assumes "mem_ok refs raws m" "a \<in># refs"
  shows "\<exists>m'. add_ref a m = Some m' \<and> mem_ok (add_mset a refs) raws m' \<and> keeps UNIV m m' \<and>
    dropped m' = dropped m"
proof -
  obtain msg where msg: "heap m a = Some msg" "ref_count msg = int (count refs a)" "a \<notin> raws"
    using mem_ok_live[OF assms] by metis
  have "mem_ok (add_mset a refs) raws (m\<lparr>heap := (heap m)(a \<mapsto> msg\<lparr>ref_count := ref_count msg + 1\<rparr>)\<rparr>)"
    using assms msg by (intro mem_ok_update[OF assms(1) msg(1)]) (auto simp: mem_ok_def)
  then show ?thesis
    using msg by (auto simp: add_ref_def update_msg_Some keeps_def)
qed

lemma mp_copy_ok:
  assumes "mem_ok refs raws m" "\<forall>a. p = Some a \<longrightarrow> a \<in># refs"
  shows "\<exists>m'. mp_copy p m = Some (m', p) \<and> mem_ok (holds p + refs) raws m' \<and>
    keeps UNIV m m' \<and> dropped m' = dropped m"
proof (cases p)
  case (Some a)
  then show ?thesis
    using add_ref_ok[OF assms(1), of a] assms(2) by (auto simp: mp_copy_def)
qed (use assms in \<open>auto simp: mp_copy_def\<close>)

lemma mp_adopt_ok:
  assumes "mem_ok refs raws m" "a \<in> raws"
  shows "\<exists>m'. mp_adopt (Some a) m = Some (m', Some a) \<and> mem_ok (add_mset a refs) (raws - {a}) m' \<and>
    keeps UNIV m m' \<and> dropped m' = dropped m"
proof -
  have "a \<in> dom (heap m)" "a \<notin># refs"
    using assms by (auto simp: mem_ok_def)
  then obtain msg where msg: "heap m a = Some msg" "ref_count msg = 0"
    using assms by (auto simp: mem_ok_def not_in_iff)
  have "mem_ok (add_mset a refs) (raws - {a}) (m\<lparr>heap := (heap m)(a \<mapsto> msg\<lparr>ref_count := ref_count msg + 1\<rparr>)\<rparr>)"
    using assms msg \<open>a \<notin># refs\<close>
    by (intro mem_ok_update[OF assms(1) msg(1)]) (auto simp: mem_ok_def not_in_iff[symmetric])
  then show ?thesis
    using msg by (auto simp: mp_adopt_def add_ref_def update_msg_Some keeps_def)
qed

text \<open>The end of a message: it is deleted, or handed to the pool of its type.\<close>

lemma mem_ok_delete:
  assumes "mem_ok refs (insert a raws) m" "a \<notin> raws"
  shows "\<exists>m'. delete_message a m = Some m' \<and> mem_ok refs raws m' \<and> keeps (- {a}) m m' \<and>
    pools m' = pools m \<and> dropped m' = dropped m"
proof -
  have dom: "a \<in> dom (heap m)" and np: "a \<notin> pooled m" "a \<notin># refs"
    using assms by (auto simp: mem_ok_def)
  then obtain msg where msg: "heap m a = Some msg" by auto
  let ?m = "m\<lparr>heap := (heap m)(a := None)\<rparr>"
  have "pools_ok ?m"
    using assms np by (fastforce simp: mem_ok_def pools_ok_def pooled_def)
  moreover have "dom (heap ?m) = set_mset refs \<union> raws \<union> pooled ?m"
    using assms np by (auto simp: mem_ok_def pooled_def)
  ultimately have "mem_ok refs raws ?m"
    using assms by (auto simp: mem_ok_def pooled_def)
  then show ?thesis
    using msg by (auto simp: delete_message_def keeps_def)
qed

lemma recycle_ok:
  assumes "mem_ok refs (insert a raws) m" "a \<notin> raws"
  shows "\<exists>m'. recycle a m = Some m' \<and> mem_ok refs raws m' \<and> keeps (- {a}) m m' \<and> dropped m' = dropped m"
proof -
  have dom: "a \<in> dom (heap m)" and np: "a \<notin> pooled m" "a \<notin># refs"
    using assms by (auto simp: mem_ok_def)
  then obtain msg where msg: "heap m a = Some msg" by auto
  let ?q = "pools m (mtype msg)"
  have q: "lfq_inv ?q"
    using assms by (auto simp: mem_ok_def pools_ok_def)
  show ?thesis
  proof (rule release_cases[OF q, of delete_message a m])
    fix q' assume r: "release delete_message ?q a m = Some (q', m)" "lfq_inv q'"
      "lfq_list q' = lfq_list ?q @ [a]"
    let ?m = "m\<lparr>pools := (pools m)(mtype msg := q')\<rparr>"
    have notin: "a \<notin> set (lfq_list ?q)"
      using np by (auto simp: pooled_def)
    have pooled: "pooled ?m = insert a (pooled m)"
      using r(3) by (auto simp: pooled_def split: if_splits)
    have "pools_ok ?m"
      using assms r notin msg by (auto simp: mem_ok_def pools_ok_def)
    then have "mem_ok refs raws ?m"
      using assms np pooled unfolding mem_ok_def by auto
    then show ?thesis
      using r msg by (auto simp: recycle_def keeps_def)
  next
    assume r: "release delete_message ?q a m = map_option (Pair ?q) (delete_message a m)"
    obtain m' where m': "delete_message a m = Some m'" "mem_ok refs raws m'" "keeps (- {a}) m m'"
      "pools m' = pools m" "dropped m' = dropped m"
      using mem_ok_delete[OF assms] by auto
    have eq: "m'\<lparr>pools := (pools m')(mtype msg := ?q)\<rparr> = m'"
      unfolding m'(4)[symmetric] by simp
    have "recycle a m = Some (m'\<lparr>pools := (pools m')(mtype msg := ?q)\<rparr>)"
      using r m'(1) msg by (simp add: recycle_def)
    then show ?thesis
      unfolding eq using m' by blast
  qed
qed

text \<open>Dropping one pointer.\<close>

lemma mp_reset_ok:
  assumes "mem_ok (add_mset a refs) raws m"
  shows "\<exists>m'. mp_reset (Some a) m = Some (m', None) \<and> mem_ok refs raws m' \<and>
    keeps (set_mset refs \<union> raws) m m' \<and> dropped m' = dropped m"
proof -
  obtain msg where msg: "heap m a = Some msg" "ref_count msg = int (count (add_mset a refs) a)"
      "a \<notin> pooled m" "a \<notin> raws"
    using mem_ok_live[OF assms, of a] by auto
  let ?m1 = "m\<lparr>heap := (heap m)(a \<mapsto> msg\<lparr>ref_count := ref_count msg - 1\<rparr>)\<rparr>"
  have rel: "release_ref a m = Some (?m1, ref_count msg = 1)"
    using msg by (simp add: release_ref_def update_msg_Some)
  have k1: "keeps UNIV m ?m1"
    using msg by (auto simp: keeps_def)
  show ?thesis
  proof (cases "a \<in># refs")
    case True
    have "mem_ok refs raws ?m1"
      using assms msg True by (intro mem_ok_update[OF assms msg(1)]) (auto simp: mem_ok_def)
    moreover have "ref_count msg \<noteq> 1"
      using msg(2) True by (simp add: not_in_iff)
    ultimately show ?thesis
      using rel k1 by (auto simp: mp_reset_def intro: keeps_mono)
  next
    case False
    then have one: "ref_count msg = 1"
      using msg(2) by (simp add: not_in_iff)
    have ok1: "mem_ok refs (insert a raws) ?m1"
      using assms msg False one
      by (intro mem_ok_update[OF assms msg(1)]) (auto simp: mem_ok_def not_in_iff[symmetric])
    have sub: "set_mset refs \<union> raws \<subseteq> - {a}"
      using False msg(4) by auto
    obtain m' where "(if recycler msg then recycle a ?m1 else delete_message a ?m1) = Some m'"
      "mem_ok refs raws m'" "keeps (- {a}) ?m1 m'" "dropped m' = dropped m"
      using recycle_ok[OF ok1 msg(4)] mem_ok_delete[OF ok1 msg(4)] by (cases "recycler msg") auto
    moreover from this have "keeps (set_mset refs \<union> raws) m m'"
      using keeps_trans[OF keeps_mono[OF k1] keeps_mono[OF _ sub]] by simp
    ultimately show ?thesis
      using rel one by (auto simp: mp_reset_def)
  qed
qed

lemma mp_reset_ptr:
  assumes "mem_ok (holds p + refs) raws m"
  shows "\<exists>m'. mp_reset p m = Some (m', None) \<and> mem_ok refs raws m' \<and>
    keeps (set_mset refs \<union> raws) m m' \<and> dropped m' = dropped m"
proof (cases p)
  case None
  then show ?thesis using assms by (simp add: mp_reset_def)
next
  case (Some a)
  then show ?thesis using assms mp_reset_ok[of a refs raws m] by simp
qed

text \<open>Assignments.\<close>

lemma mp_copy_assign_ok:
  assumes "mem_ok (holds this + refs) raws m" "\<forall>a. o' = Some a \<longrightarrow> a \<in># refs \<or> this = o'"
  shows "\<exists>m'. mp_copy_assign this o' m = Some (m', o') \<and> mem_ok (holds o' + refs) raws m' \<and>
    keeps (set_mset refs \<union> raws) m m' \<and> dropped m' = dropped m"
proof (cases "this = o'")
  case False
  obtain m1 where m1: "mp_reset this m = Some (m1, None)" "mem_ok refs raws m1"
    "keeps (set_mset refs \<union> raws) m m1" "dropped m1 = dropped m"
    using mp_reset_ptr[OF assms(1)] by auto
  show ?thesis
  proof (cases o')
    case None
    then show ?thesis using m1 False by (simp add: mp_copy_assign_def)
  next
    case (Some a)
    then obtain m2 where "add_ref a m1 = Some m2" "mem_ok (add_mset a refs) raws m2"
      "keeps UNIV m1 m2" "dropped m2 = dropped m1"
      using add_ref_ok[OF m1(2), of a] assms(2) False by auto
    then show ?thesis
      using m1 False Some keeps_trans[OF m1(3), of m2] keeps_mono[of UNIV m1 m2]
      by (simp add: mp_copy_assign_def)
  qed
qed (use assms in \<open>simp add: mp_copy_assign_def\<close>)

lemma mp_move_assign_ok:
  assumes "mem_ok (holds this + (holds o' + refs)) raws m"
  shows "\<exists>m'. mp_move_assign False this o' m = Some (m', o', None) \<and> mem_ok (holds o' + refs) raws m' \<and>
    keeps (set_mset (holds o' + refs) \<union> raws) m m' \<and> dropped m' = dropped m"
  using mp_reset_ptr[OF assms] by (auto simp: mp_move_assign_def)

lemma mp_move_assign_self: "mp_move_assign True this o' m = Some (m, this, this)"
  by (simp add: mp_move_assign_def)

section \<open>Programs over pointer variables\<close>

text \<open>A program over local \<open>MessagePtr\<close> variables: declarations push a variable, the end of a
  scope destroys the last one, assignments name their variables and may name one twice.\<close>

datatype 'd ptr_op =
    Declare
  | AdoptNew type_info topic_id 'd
  | CopyCtor nat
  | MoveCtor nat
  | CopyAssign nat nat
  | MoveAssign nat nat
  | Reset nat
  | ScopeEnd

fun exec_op :: "'d ptr_op \<Rightarrow> 'd mem \<times> msg_ptr list \<Rightarrow> ('d mem \<times> msg_ptr list) option" where
  "exec_op Declare (m, vs) = Some (m, vs @ [None])"
| "exec_op (AdoptNew ty tid d) (m, vs) =
     (case new_message ty tid d m of
        (m1, a) \<Rightarrow> do { (m2, p) \<leftarrow> mp_adopt (Some a) m1; Some (m2, vs @ [p]) })"
| "exec_op (CopyCtor j) (m, vs) = do { (m', p) \<leftarrow> mp_copy (vs ! j) m; Some (m', vs @ [p]) }"
| "exec_op (MoveCtor j) (m, vs) =
     (case mp_move (vs ! j) of (p, oj) \<Rightarrow> Some (m, vs[j := oj] @ [p]))"
| "exec_op (CopyAssign i j) (m, vs) =
     do { (m', p) \<leftarrow> mp_copy_assign (vs ! i) (vs ! j) m; Some (m', vs[i := p]) }"
| "exec_op (MoveAssign i j) (m, vs) =
     do { (m', p, oj) \<leftarrow> mp_move_assign (i = j) (vs ! i) (vs ! j) m; Some (m', vs[j := oj, i := p]) }"
| "exec_op (Reset i) (m, vs) = do { (m', p) \<leftarrow> mp_reset (vs ! i) m; Some (m', vs[i := p]) }"
| "exec_op ScopeEnd (m, vs) =
     do { (m', _) \<leftarrow> mp_reset (last vs) m; Some (m', butlast vs) }"

fun exec_ops :: "'d ptr_op list \<Rightarrow> 'd mem \<times> msg_ptr list \<Rightarrow> ('d mem \<times> msg_ptr list) option" where
  "exec_ops [] s = Some s"
| "exec_ops (oper # ops) s = Option.bind (exec_op oper s) (exec_ops ops)"

text \<open>The variables an operation names exist; \<open>n\<close> is their number.\<close>

fun op_scope :: "nat \<Rightarrow> 'd ptr_op \<Rightarrow> nat option" where
  "op_scope n Declare = Some (n + 1)"
| "op_scope n (AdoptNew _ _ _) = Some (n + 1)"
| "op_scope n (CopyCtor j) = (if j < n then Some (n + 1) else None)"
| "op_scope n (MoveCtor j) = (if j < n then Some (n + 1) else None)"
| "op_scope n (CopyAssign i j) = (if i < n \<and> j < n then Some n else None)"
| "op_scope n (MoveAssign i j) = (if i < n \<and> j < n then Some n else None)"
| "op_scope n (Reset i) = (if i < n then Some n else None)"
| "op_scope n ScopeEnd = (if 0 < n then Some (n - 1) else None)"

fun well_scoped :: "nat \<Rightarrow> 'd ptr_op list \<Rightarrow> bool" where
  "well_scoped n [] = True"
| "well_scoped n (oper # ops) =
     (case op_scope n oper of None \<Rightarrow> False | Some n' \<Rightarrow> well_scoped n' ops)"

definition held :: "msg_ptr list \<Rightarrow> addr multiset" where
  "held vs = (\<Sum>p\<leftarrow>vs. holds p)"

lemma held_simps [simp]:
  "held [] = {#}" "held (p # vs) = holds p + held vs" "held (vs @ ws) = held vs + held ws"
  by (simp_all add: held_def)

lemma held_split: "i < length vs \<Longrightarrow> \<exists>R. held vs = holds (vs ! i) + R \<and> (\<forall>p. held (vs[i := p]) = holds p + R)"
proof (induction vs arbitrary: i)
  case (Cons v vs)
  show ?case
  proof (cases i)
    case (Suc k)
    then obtain R where "held vs = holds (vs ! k) + R" "\<forall>p. held (vs[k := p]) = holds p + R"
      using Cons by auto
    then show ?thesis
      using Suc by (intro exI[of _ "holds v + R"]) (auto simp: ac_simps)
  qed auto
qed simp

lemma held_nth: "j < length vs \<Longrightarrow> vs ! j = Some a \<Longrightarrow> a \<in># held vs"
  using held_split[of j vs] by auto

lemma new_message_ok:
  assumes "mem_ok refs raws m" "new_message ty tid d m = (m', a)"
  shows "mem_ok refs (insert a raws) m' \<and> a \<notin> raws \<and> keeps (dom (heap m)) m m' \<and>
    dropped m' = dropped m \<and> (\<exists>msg. heap m' a = Some msg \<and> mtype msg = ty)"
proof -
  have a: "a = next_addr m" "m' = fst (new_message ty tid d m)"
    using assms(2) by (auto simp: new_message_def)
  have "\<forall>b msg. heap m b = Some msg \<longrightarrow> b < next_addr m"
    using assms(1) by (auto simp: mem_ok_def)
  then have fresh: "a \<notin> dom (heap m)"
    using a(1) by auto
  moreover have "dom (heap m) = set_mset refs \<union> raws \<union> pooled m"
    using assms(1) by (simp add: mem_ok_def)
  ultimately have out: "a \<notin># refs" "a \<notin> raws" "a \<notin> pooled m"
    by auto
  have p: "pooled m' = pooled m" "pools m' = pools m"
    by (simp_all add: a new_message_def pooled_def)
  have hp: "heap m' = (heap m)(a \<mapsto>
      \<lparr>ref_count = 0, recycler = False, on_drop = None, topic_sv = [], topic_id = tid, data = d, mtype = ty\<rparr>)"
    by (simp add: a new_message_def)
  have "pools_ok m'"
    using assms(1) out fresh unfolding mem_ok_def pools_ok_def p hp by (metis domI fun_upd_other)
  then have "mem_ok refs (insert a raws) m'"
    using assms(1) out fresh unfolding mem_ok_def p hp
    by (auto simp: a new_message_def not_in_iff[symmetric] less_SucI)
  then show ?thesis
    using out fresh by (auto simp: a new_message_def keeps_def)
qed

lemma exec_op_ok:
  assumes ok: "mem_ok (held vs) {} m" and sc: "op_scope (length vs) oper = Some n"
  shows "\<exists>m' vs'. exec_op oper (m, vs) = Some (m', vs') \<and> mem_ok (held vs') {} m' \<and> length vs' = n"
proof (cases oper)
  case Declare
  then show ?thesis using assms by simp
next
  case (AdoptNew ty tid d)
  obtain m1 a where n: "new_message ty tid d m = (m1, a)"
    by force
  then have "mem_ok (held vs) {a} m1"
    using new_message_ok[OF ok n] by simp
  then show ?thesis
    using mp_adopt_ok[of "held vs" "{a}" m1 a] AdoptNew n sc by auto
next
  case (CopyCtor j)
  then have "j < length vs" using sc by (simp split: if_splits)
  then show ?thesis
    using mp_copy_ok[OF ok, of "vs ! j"] held_nth CopyCtor sc by (auto simp: add.commute)
next
  case (MoveCtor j)
  then have j: "j < length vs" using sc by (simp split: if_splits)
  obtain R where "held vs = holds (vs ! j) + R" "\<forall>p. held (vs[j := p]) = holds p + R"
    using held_split[OF j] by auto
  then have "held (vs[j := None]) + holds (vs ! j) = held vs"
    by (simp add: add.commute)
  then show ?thesis
    using MoveCtor sc ok j by (simp add: mp_move_def)
next
  case (CopyAssign i j)
  then have ij: "i < length vs" "j < length vs" using sc by (auto split: if_splits)
  obtain R where R: "held vs = holds (vs ! i) + R" "\<forall>p. held (vs[i := p]) = holds p + R"
    using held_split[OF ij(1)] by auto
  have "\<forall>a. vs ! j = Some a \<longrightarrow> a \<in># R \<or> vs ! i = vs ! j"
  proof (intro allI impI)
    fix a assume a: "vs ! j = Some a"
    then have "a \<in># holds (vs ! i) + R"
      using held_nth[OF ij(2)] R by simp
    then show "a \<in># R \<or> vs ! i = vs ! j"
      using a by (cases "vs ! i") auto
  qed
  then show ?thesis
    using mp_copy_assign_ok[of "vs ! i" R "{}" m "vs ! j"] ok R CopyAssign sc ij by auto
next
  case (MoveAssign i j)
  then have ij: "i < length vs" "j < length vs" using sc by (auto split: if_splits)
  show ?thesis
  proof (cases "i = j")
    case True
    then show ?thesis using MoveAssign sc ok ij by (simp add: mp_move_assign_def)
  next
    case False
    obtain R where R: "held (vs[j := None]) = holds (vs[j := None] ! i) + R"
        "\<forall>p. held (vs[j := None, i := p]) = holds p + R"
      using held_split[of i "vs[j := None]"] ij by auto
    obtain S where S: "held vs = holds (vs ! j) + S" "\<forall>p. held (vs[j := p]) = holds p + S"
      using held_split[OF ij(2)] by auto
    have "held vs = holds (vs ! i) + (holds (vs ! j) + R)"
      using R(1) S False by (simp add: ac_simps)
    then show ?thesis
      using mp_move_assign_ok[of "vs ! i" "vs ! j" R "{}" m] ok R(2) MoveAssign sc ij False by auto
  qed
next
  case (Reset i)
  then have i: "i < length vs" using sc by (auto split: if_splits)
  obtain R where R: "held vs = holds (vs ! i) + R" "\<forall>p. held (vs[i := p]) = holds p + R"
    using held_split[OF i] by auto
  then show ?thesis
    using mp_reset_ptr[of "vs ! i" R "{}" m] ok Reset sc i by auto
next
  case ScopeEnd
  then have "vs = butlast vs @ [last vs]" using sc by (auto split: if_splits)
  then have "held vs = holds (last vs) + held (butlast vs)"
    by (metis held_simps add.commute add_0)
  then show ?thesis
    using mp_reset_ptr[of "last vs" "held (butlast vs)" "{}" m] ok ScopeEnd sc by (auto split: if_splits)
qed


definition example_ops :: "nat ptr_op list" where
  "example_ops = [AdoptNew 1 5 42, CopyCtor 0, CopyAssign 1 1, Declare, MoveAssign 2 0, Reset 2, ScopeEnd]"


section \<open>Drop notification and message construction\<close>

lemma mem_ok_dropped [simp]: "mem_ok refs raws (m\<lparr>dropped := d\<rparr>) = mem_ok refs raws m"
  by (simp add: mem_ok_def pools_ok_def pooled_def)

lemma notify_drop_ok:
  assumes "mem_ok refs raws m" "a \<in># refs"
  shows "\<exists>m' msg. notify_drop a m = Some m' \<and> heap m a = Some msg \<and> mem_ok refs raws m' \<and>
    keeps (- {a}) m m' \<and> keeps_data UNIV m m' \<and>
    dropped m' = dropped m @ drop_note msg \<and> heap m' = (heap m)(a \<mapsto> msg\<lparr>on_drop := None\<rparr>)"
proof -
  obtain msg where msg: "heap m a = Some msg" "ref_count msg = int (count refs a)"
    using mem_ok_live[OF assms] by metis
  let ?m = "m\<lparr>heap := (heap m)(a \<mapsto> msg\<lparr>on_drop := None\<rparr>)\<rparr>"
  have "set_mset refs \<inter> raws = {}"
    using assms(1) by (simp add: mem_ok_def)
  then have ok: "mem_ok refs raws ?m"
    by (intro mem_ok_update[OF assms(1) msg(1)]) (simp_all add: msg(2))
  show ?thesis
  proof (cases "on_drop msg")
    case None
    then have "msg\<lparr>on_drop := None\<rparr> = msg" by simp
    then have "(heap m)(a \<mapsto> msg\<lparr>on_drop := None\<rparr>) = heap m"
      using msg by (simp add: fun_upd_idem)
    then show ?thesis
      using None msg assms(1) by (simp add: notify_drop_def drop_note_def keeps_imp_data)
  next
    case (Some cb)
    then show ?thesis
      using msg ok
      by (simp add: notify_drop_def drop_note_def update_msg_Some keeps_def keeps_data_def visible_def)
  qed
qed

lemma pooled_msg:
  "mem_ok refs raws m \<Longrightarrow> a \<in> set (lfq_list (pools m ty)) \<Longrightarrow> \<exists>msg. heap m a = Some msg \<and> mtype msg = ty"
  by (auto simp: mem_ok_def pools_ok_def)

lemma pool_acquire_ok:
  assumes "mem_ok refs {} m"
  shows "\<exists>m' p. pool_acquire ty m = Some (m', p) \<and> mem_ok refs (set_option p) m' \<and>
    heap m' = heap m \<and> dropped m' = dropped m \<and>
    (\<forall>a. p = Some a \<longrightarrow> a \<notin># refs \<and> (\<exists>msg. heap m' a = Some msg \<and> mtype msg = ty))"
proof -
  let ?q = "pools m ty"
  have q: "lfq_inv ?q" "distinct (lfq_list ?q)"
    using assms by (auto simp: mem_ok_def pools_ok_def)
  show ?thesis
  proof (rule acquire_cases[OF q(1)])
    fix q' a assume h: "lfq_list ?q = a # lfq_list q'" "acquire ?q = Some (q', Some a)" "lfq_inv q'"
    let ?m = "m\<lparr>pools := (pools m)(ty := q')\<rparr>"
    obtain msg where msg: "heap m a = Some msg" "mtype msg = ty"
      using pooled_msg[OF assms, of a ty] h(1) by auto
    have other: "a \<notin> set (lfq_list (pools m ty'))" if "ty' \<noteq> ty" for ty'
    proof
      assume "a \<in> set (lfq_list (pools m ty'))"
      then obtain msg' where "heap m a = Some msg'" "mtype msg' = ty'"
        using pooled_msg[OF assms] by blast
      then show False using msg that by simp
    qed
    have inp: "a \<in> pooled m"
      unfolding pooled_def using h(1) by (metis UNIV_I UN_I list.set_intros(1))
    have pm: "pooled ?m = pooled m - {a}"
    proof -
      have "set (lfq_list (pools ?m ty')) = set (lfq_list (pools m ty')) - {a}" for ty'
        using h(1) q(2) other[of ty'] by (cases "ty' = ty") auto
      then show ?thesis
        unfolding pooled_def by blast
    qed
    have "pools_ok ?m"
      using assms h q by (auto simp: mem_ok_def pools_ok_def)
    moreover have "a \<notin># refs"
      using assms inp by (auto simp: mem_ok_def)
    ultimately have "mem_ok refs {a} ?m"
      using assms inp pm unfolding mem_ok_def by auto
    then show ?thesis
      using h msg \<open>a \<notin># refs\<close> by (simp add: pool_acquire_def)
  next
    assume "acquire ?q = Some (?q, None)"
    then show ?thesis
      using assms by (simp add: pool_acquire_def)
  qed
qed

end
