(* ===== verification/Topic_Matcher.thy ===== *)
theory Topic_Matcher
  imports Prelude
begin

text \<open>
  \<open>topic_matcher.h\<close>: the character-level wildcard matcher \<open>topicMatches\<close>, the test
  \<open>isWildcard\<close> and the topic validator \<open>isValidTopic\<close>, with their index arithmetic and early
  returns. The reference semantics is stated on levels: \<open>levels\<close> cuts a string at every
  slash, \<open>level_match\<close> matches level lists. The matcher agrees with it on the patterns and
  topics the format allows, and the validator is characterised exactly.
\<close>

section \<open>The code\<close>

abbreviation slash :: char where "slash \<equiv> CHR ''/''"
abbreviation hash :: char where "hash \<equiv> CHR ''#''"
abbreviation star :: char where "star \<equiv> CHR ''*''"

text \<open>The inner loop of the star case: \<open>while (ti < topic.size() && topic[ti] != '/') ++ti\<close>.\<close>

function skip_level :: "string \<Rightarrow> nat \<Rightarrow> nat" where
  "skip_level topic ti =
     (if ti < length topic \<and> topic ! ti \<noteq> slash then skip_level topic (Suc ti) else ti)"
  by auto
termination by (relation "measure (\<lambda>(topic, ti). length topic - ti)") auto

declare skip_level.simps [simp del]

text \<open>The main loop. \<open>Inl b\<close> is a return from inside the loop, \<open>Inr (pi, ti)\<close> the indices
  at its end.\<close>

function match_loop :: "string \<Rightarrow> string \<Rightarrow> nat \<Rightarrow> nat \<Rightarrow> bool + nat \<times> nat" where
  "match_loop pattern topic pi ti =
     (if pi < length pattern \<and> ti < length topic then
        (if pattern ! pi = hash then Inl True
         else if pattern ! pi = star then
           (let ti1 = skip_level topic ti;
                pi1 = Suc pi;
                pi2 = (if pi1 < length pattern \<and> pattern ! pi1 = slash then Suc pi1 else pi1);
                ti2 = (if ti1 < length topic \<and> topic ! ti1 = slash then Suc ti1 else ti1)
            in match_loop pattern topic pi2 ti2)
         else if pattern ! pi \<noteq> topic ! ti then Inl False
         else match_loop pattern topic (Suc pi) (Suc ti))
      else Inr (pi, ti))"
  by pat_completeness auto
termination
  by (relation "measure (\<lambda>(pattern, topic, pi, ti). length pattern - pi)")
     (auto simp: Let_def split: if_splits)

declare match_loop.simps [simp del]

definition topicMatches :: "string \<Rightarrow> string \<Rightarrow> bool" where
  "topicMatches pattern topic =
     (case match_loop pattern topic 0 0 of
        Inl b \<Rightarrow> b
      | Inr (pi, ti) \<Rightarrow>
          if pi < length pattern \<and> pattern ! pi = hash then True
          else if pi + 1 < length pattern \<and> pattern ! pi = slash \<and> pattern ! (pi + 1) = hash then True
          else pi = length pattern \<and> ti = length topic)"

definition isWildcard :: "string \<Rightarrow> bool" where
  "isWildcard pattern = list_ex (\<lambda>c. c = star \<or> c = hash) pattern"

text \<open>The loop of the validator at index \<open>i\<close> with its two flags.\<close>

function valid_loop :: "string \<Rightarrow> nat \<Rightarrow> bool \<Rightarrow> bool \<Rightarrow> bool" where
  "valid_loop topic i in_segment last_was_wildcard =
     (if i < length topic then
        (let c = topic ! i in
         if c = slash then
           (if last_was_wildcard then False
            else if i = length topic - 1 then False
            else valid_loop topic (Suc i) False False)
         else if c = hash then
           (if \<not> in_segment \<and> (i = 0 \<or> topic ! (i - 1) = slash) then i = length topic - 1
            else False)
         else if c = star then
           (if \<not> in_segment \<and> (i = 0 \<or> topic ! (i - 1) = slash)
            then valid_loop topic (Suc i) True True
            else False)
         else if last_was_wildcard then False
         else valid_loop topic (Suc i) True last_was_wildcard)
      else True)"
  by pat_completeness auto
termination
  by (relation "measure (\<lambda>(topic, i, _, _). length topic - i)") auto

declare valid_loop.simps [simp del]

definition isValidTopic :: "string \<Rightarrow> bool" where
  "isValidTopic topic = (if topic = [] then False else valid_loop topic 0 False False)"

text \<open>A string literal is an array of \<open>N\<close> characters, the last of them the terminator, which
  \<open>string_view(topic, N - 1)\<close> cuts off. A tag is only built when the static assertion holds.\<close>

definition TopicValidator_validate :: "string \<Rightarrow> bool" where
  "TopicValidator_validate arr = isValidTopic (take (length arr - 1) arr)"

definition topic_tag :: "string \<Rightarrow> string option" where
  "topic_tag arr =
     (if TopicValidator_validate arr then Some (take (length arr - 1) arr) else None)"

section \<open>Levels\<close>

fun levels :: "string \<Rightarrow> string list" where
  "levels [] = [[]]"
| "levels (c # cs) =
     (if c = slash then [] # levels cs
      else (case levels cs of l # ls \<Rightarrow> (c # l) # ls | [] \<Rightarrow> [[c]]))"

fun join :: "string list \<Rightarrow> string" where
  "join [] = []"
| "join [l] = l"
| "join (l # ls) = l @ slash # join ls"

fun level_match :: "string list \<Rightarrow> string list \<Rightarrow> bool" where
  "level_match [] ts = (ts = [])"
| "level_match (p # ps) [] = (p = [hash] \<and> ps = [])"
| "level_match (p # ps) (t # ts) =
     (p = [hash] \<and> ps = [] \<or> (p = [star] \<or> p = t) \<and> level_match ps ts)"

text \<open>A level without wildcard characters, and the patterns the documentation allows: every
  level is non-empty and is plain, a star, or a hash in the last place.\<close>

definition plain_level :: "string \<Rightarrow> bool" where
  "plain_level l = list_all (\<lambda>c. c \<noteq> star \<and> c \<noteq> hash) l"

fun pattern_ok :: "string list \<Rightarrow> bool" where
  "pattern_ok [] = True"
| "pattern_ok (l # ls) =
     (l \<noteq> [] \<and> (plain_level l \<or> l = [star] \<or> l = [hash] \<and> ls = []) \<and> pattern_ok ls)"

lemma levels_not_Nil [simp]: "levels s \<noteq> []"
  by (cases s) (auto split: list.splits)

lemma levels_noslash: "l \<in> set (levels s) \<Longrightarrow> slash \<notin> set l"
  by (induction s arbitrary: l) (auto split: if_splits list.splits)

lemma join_Cons: "ls \<noteq> [] \<Longrightarrow> join (l # ls) = l @ slash # join ls"
  by (cases ls) auto

lemma join_levels [simp]: "join (levels s) = s"
proof (induction s)
  case (Cons c s)
  obtain l ls where l: "levels s = l # ls"
    by (cases "levels s") auto
  show ?case
    using Cons l by (cases ls) (auto simp: join_Cons)
qed simp

lemma levels_append_slash:
  "slash \<notin> set l \<Longrightarrow> levels (l @ slash # s) = l # levels s"
  by (induction l) auto

lemma levels_plain: "slash \<notin> set l \<Longrightarrow> levels l = [l]"
  by (induction l) auto

lemma levels_join:
  "ls \<noteq> [] \<Longrightarrow> (\<forall>l\<in>set ls. slash \<notin> set l) \<Longrightarrow> levels (join ls) = ls"
  by (induction ls rule: join.induct) (auto simp: levels_plain levels_append_slash)

lemma last_levels_Nil: "last (levels s) = [] \<longleftrightarrow> s = [] \<or> last s = slash"
proof (induction s)
  case (Cons c s)
  obtain l ls where l: "levels s = l # ls"
    by (cases "levels s") auto
  show ?case
  proof (cases ls)
    case Nil
    then have "s = l" using l join_levels[of s] by simp
    then show ?thesis using Cons l Nil levels_noslash[of l s] by auto
  next
    case (Cons m ms)
    then have "s \<noteq> []" using l by auto
    then show ?thesis using Cons.IH l Cons by auto
  qed
qed simp

section \<open>The validator on levels\<close>

fun scan_valid :: "string \<Rightarrow> bool \<Rightarrow> bool \<Rightarrow> bool" where
  "scan_valid [] ins lw = True"
| "scan_valid (c # cs) ins lw =
     (if c = slash then \<not> lw \<and> cs \<noteq> [] \<and> scan_valid cs False False
      else if c = hash then \<not> ins \<and> cs = []
      else if c = star then \<not> ins \<and> scan_valid cs True True
      else \<not> lw \<and> scan_valid cs True lw)"

fun valid_levels :: "string list \<Rightarrow> bool" where
  "valid_levels [] = False"
| "valid_levels [l] = (l \<noteq> [] \<and> (plain_level l \<or> l = [star] \<or> l = [hash]))"
| "valid_levels (l # ls) = (plain_level l \<and> valid_levels ls)"

lemma valid_levels_alt:
  "ls \<noteq> [] \<Longrightarrow> valid_levels ls \<longleftrightarrow>
     (\<forall>l\<in>set (butlast ls). plain_level l) \<and> last ls \<noteq> [] \<and>
     (plain_level (last ls) \<or> last ls = [star] \<or> last ls = [hash])"
  by (induction ls rule: valid_levels.induct) auto

text \<open>The loop flag \<open>in_segment\<close> says that the previous character is not a slash.\<close>

lemma valid_loop_scan:
  "i \<le> length s \<Longrightarrow> ins = (\<not> (i = 0 \<or> s ! (i - 1) = slash)) \<Longrightarrow>
   valid_loop s i ins lw = scan_valid (drop i s) ins lw"
proof (induction s i ins lw rule: valid_loop.induct)
  case (1 s i ins lw)
  show ?case
  proof (cases "i < length s")
    case False
    then show ?thesis using 1 by (subst valid_loop.simps) auto
  next
    case True
    then have d: "drop i s = s ! i # drop (Suc i) s"
      by (rule drop_nth_Cons)
    have last: "i = length s - 1 \<longleftrightarrow> drop (Suc i) s = []"
      using True by auto
    show ?thesis
      using 1 True unfolding d by (subst valid_loop.simps) (auto simp: Let_def last)
  qed
qed

lemma scan_valid_wild: "scan_valid s True True \<longleftrightarrow> s = []"
  by (cases s) auto

lemma scan_valid_levels:
  "(scan_valid s True False \<longleftrightarrow>
      plain_level (hd (levels s)) \<and> (tl (levels s) \<noteq> [] \<longrightarrow> valid_levels (tl (levels s)))) \<and>
   (s \<noteq> [] \<longrightarrow> (scan_valid s False False \<longleftrightarrow> valid_levels (levels s)))"
proof (induction s)
  case Nil
  then show ?case by (simp add: plain_level_def)
next
  case (Cons c s)
  obtain l ls where l: "levels s = l # ls"
    by (cases "levels s") auto
  have nil: "s = [] \<longleftrightarrow> l = [] \<and> ls = []"
    using l join_levels[of s] by auto
  have two: "valid_levels (m # ls) \<longleftrightarrow>
      (if ls = [] then m \<noteq> [] \<and> (plain_level m \<or> m = [star] \<or> m = [hash])
       else plain_level m \<and> valid_levels ls)" for m
    by (cases ls) auto
  have pc: "plain_level (c # l) \<longleftrightarrow> c \<noteq> star \<and> c \<noteq> hash \<and> plain_level l"
    by (auto simp: plain_level_def)
  have vn: "valid_levels [[]] = False" "plain_level []"
    by (simp_all add: plain_level_def)
  show ?case
  proof (cases "c = slash")
    case True
    show ?thesis
    proof (cases "s = []")
      case True
      then show ?thesis using \<open>c = slash\<close> by (simp add: plain_level_def)
    next
      case False
      then show ?thesis
        using Cons True l vn(2) by simp
    qed
  next
    case False
    have "levels (c # s) = (c # l) # ls"
      using False l by simp
    then show ?thesis
      using Cons l False by (auto simp: two pc nil scan_valid_wild vn)
  qed
qed

text \<open>\<open>isValidTopic\<close> accepts exactly the non-empty topics whose levels are all free of
  wildcard characters except the last one, which is non-empty and may also be a lone star or a
  lone hash. In particular no trailing slash, no wildcard inside a level, and no star level
  before the last level, is accepted.\<close>

lemma isValidTopic_levels:
  "isValidTopic topic \<longleftrightarrow>
     (let ls = levels topic in
        list_all plain_level (butlast ls) \<and> last ls \<noteq> [] \<and>
        (plain_level (last ls) \<or> last ls = [star] \<or> last ls = [hash]))"
proof (cases "topic = []")
  case True
  then show ?thesis by (simp add: isValidTopic_def)
next
  case False
  then show ?thesis
    using valid_loop_scan[of 0 topic False False] scan_valid_levels[of topic]
      valid_levels_alt[of "levels topic"]
    by (simp add: isValidTopic_def Let_def list_all_iff)
qed

lemma isValidTopic_examples:
  "isValidTopic ''sensor/temp'' \<and> isValidTopic ''sensor/*'' \<and> isValidTopic ''sensor/#'' \<and>
   isValidTopic ''/a//b'' \<and> \<not> isValidTopic '''' \<and> \<not> isValidTopic ''a/'' \<and>
   \<not> isValidTopic ''a#'' \<and> \<not> isValidTopic ''#/a'' \<and> \<not> isValidTopic ''sensor/*/temp''"
  by (code_simp)

section \<open>The matcher on levels\<close>

text \<open>The matcher on the rest of the two strings.\<close>

definition strip_slash :: "string \<Rightarrow> string" where
  "strip_slash s = (if s \<noteq> [] \<and> hd s = slash then tl s else s)"

lemma length_strip_slash [simp]: "length (strip_slash s) \<le> length s"
  by (simp add: strip_slash_def)

function scan_match :: "string \<Rightarrow> string \<Rightarrow> bool" where
  "scan_match [] t = (t = [])"
| "scan_match (c # p) [] =
     (c = hash \<or> c = slash \<and> p \<noteq> [] \<and> hd p = hash)"
| "scan_match (c # p) (d # t) =
     (if c = hash then True
      else if c = star then
        scan_match (strip_slash p) (strip_slash (dropWhile (\<lambda>x. x \<noteq> slash) (d # t)))
      else c = d \<and> scan_match p t)"
  by pat_completeness auto
termination
  by (relation "measure (\<lambda>(p, t). length p)") (auto simp: less_Suc_eq_le)

lemma skip_level_drop:
  "ti \<le> length t \<Longrightarrow> skip_level t ti \<le> length t \<and>
     drop (skip_level t ti) t = dropWhile (\<lambda>x. x \<noteq> slash) (drop ti t)"
proof (induction t ti rule: skip_level.induct)
  case (1 t ti)
  show ?case
  proof (cases "ti < length t")
    case True
    then have d: "drop ti t = t ! ti # drop (Suc ti) t"
      by (rule drop_nth_Cons)
    show ?thesis
      using 1 True unfolding d by (subst (1 2) skip_level.simps) (auto simp: d)
  next
    case False
    then show ?thesis using 1 by (subst (1 2) skip_level.simps) auto
  qed
qed

lemma strip_slash_drop:
  "i \<le> length s \<Longrightarrow>
   strip_slash (drop i s) = drop (if i < length s \<and> s ! i = slash then Suc i else i) s \<and>
   (if i < length s \<and> s ! i = slash then Suc i else i) \<le> length s"
  by (cases "i < length s") (auto simp: strip_slash_def drop_nth_Cons)

definition match_result :: "string \<Rightarrow> string \<Rightarrow> bool + nat \<times> nat \<Rightarrow> bool" where
  "match_result pattern topic r =
     (case r of
        Inl b \<Rightarrow> b
      | Inr (pi, ti) \<Rightarrow>
          if pi < length pattern \<and> pattern ! pi = hash then True
          else if pi + 1 < length pattern \<and> pattern ! pi = slash \<and> pattern ! (pi + 1) = hash then True
          else pi = length pattern \<and> ti = length topic)"

lemma match_loop_scan:
  "pi \<le> length p \<Longrightarrow> ti \<le> length t \<Longrightarrow>
   match_result p t (match_loop p t pi ti) = scan_match (drop pi p) (drop ti t)"
proof (induction p t pi ti rule: match_loop.induct)
  case (1 p t pi ti)
  show ?case
  proof (cases "pi < length p \<and> ti < length t")
    case False
    have tail: "match_result p t (Inr (pi, ti)) = scan_match (drop pi p) (drop ti t)"
    proof (cases "pi < length p")
      case True
      then have "ti = length t" "drop pi p = p ! pi # drop (Suc pi) p"
        using False "1.prems" by (auto intro: drop_nth_Cons)
      then show ?thesis
        using True by (auto simp: match_result_def hd_drop_conv_nth)
    next
      case F: False
      then show ?thesis using "1.prems" by (auto simp: match_result_def)
    qed
    show ?thesis
      using False tail by (subst match_loop.simps) (simp only: if_False)
  next
    case True
    then have d: "drop pi p = p ! pi # drop (Suc pi) p" "drop ti t = t ! ti # drop (Suc ti) t"
      by (auto intro: drop_nth_Cons)
    show ?thesis
    proof (cases "p ! pi = star")
      case star: True
      note sk = skip_level_drop[OF "1.prems"(2)]
      note sp = strip_slash_drop[of "Suc pi" p] strip_slash_drop[of "skip_level t ti" t]
      show ?thesis
        using 1(1)[OF True _ star refl refl refl refl] True star sk sp
        by (subst match_loop.simps) (simp add: d Let_def)
    next
      case False
      show ?thesis
        using 1(2)[OF True _ False] True False
        by (subst match_loop.simps) (simp add: d match_result_def)
    qed
  qed
qed

lemma topicMatches_scan: "topicMatches p t = scan_match p t"
  using match_loop_scan[of 0 p 0 t] by (simp add: topicMatches_def match_result_def)

lemma scan_match_plain:
  assumes "plain_level l" "slash \<notin> set l" "slash \<notin> set m"
    and "p = [] \<or> hd p = slash" "t = [] \<or> hd t = slash"
  shows "scan_match (l @ p) (m @ t) \<longleftrightarrow> l = m \<and> scan_match p t"
  using assms
proof (induction l arbitrary: m)
  case Nil
  then show ?case by (cases m; cases p; cases t) auto
next
  case (Cons c l)
  then show ?case by (cases m; cases t) (auto simp: plain_level_def)
qed

lemma dropWhile_level:
  "slash \<notin> set m \<Longrightarrow> t = [] \<or> hd t = slash \<Longrightarrow> dropWhile (\<lambda>x. x \<noteq> slash) (m @ t) = t"
  by (induction m) (auto simp: dropWhile_eq_self_iff)

definition tail_of :: "string list \<Rightarrow> string" where
  "tail_of ls = (if ls = [] then [] else slash # join ls)"

lemma join_tail: "join (l # ls) = l @ tail_of ls"
  by (cases ls) (auto simp: tail_of_def)

lemma tail_of_hd: "tail_of ls = [] \<or> hd (tail_of ls) = slash"
  by (simp add: tail_of_def)

lemma strip_tail_of: "strip_slash (tail_of ls) = join ls"
  by (simp add: tail_of_def strip_slash_def)

lemma join_hash:
  "pattern_ok ps \<Longrightarrow> ps \<noteq> [] \<Longrightarrow> join ps \<noteq> [] \<and> (hd (join ps) = hash \<longleftrightarrow> ps = [[hash]])"
  by (cases ps; cases "hd ps") (auto simp: plain_level_def join_tail tail_of_def)

lemma scan_match_tail_Nil:
  assumes "pattern_ok ps" "ps \<noteq> []" "slash \<notin> set (hd ps)"
  shows "scan_match (join ps) [] \<longleftrightarrow> ps = [[hash]]"
proof -
  obtain c l ls where ps: "ps = (c # l) # ls"
    using assms by (cases ps; cases "hd ps") auto
  then have "scan_match (join ps) [] \<longleftrightarrow> c = hash"
    using assms(3) by (auto simp: join_tail)
  then show ?thesis
    using ps join_hash[OF assms(1,2)] by (auto simp: join_tail)
qed

lemma scan_match_levels:
  "pattern_ok ps \<Longrightarrow> ps \<noteq> [] \<Longrightarrow> ts \<noteq> [] \<Longrightarrow> last ts \<noteq> [] \<Longrightarrow>
   \<forall>l\<in>set ps \<union> set ts. slash \<notin> set l \<Longrightarrow>
   scan_match (join ps) (join ts) = level_match ps ts"
proof (induction ps ts rule: level_match.induct)
  case (3 p ps t ts)
  have jt: "join (t # ts) \<noteq> []"
    using "3.prems" by (auto simp: join_tail tail_of_def)
  have rest: "scan_match (join ps) (join ts) = level_match ps ts" if "ts \<noteq> []" "ps \<noteq> []"
    using 3 that by auto
  have jts: "ts = [] \<or> join ts \<noteq> []"
    using "3.prems" by (cases ts; cases "tl ts") auto
  have ps0: "ps \<noteq> [] \<Longrightarrow> level_match ps [] = (ps = [[hash]])"
    by (cases ps) auto
  have ne: "ps \<noteq> [] \<Longrightarrow> join ps \<noteq> []"
    using "3.prems" by (cases ps) (auto simp: join_tail)
  have ends: "scan_match (join ps) (join ts) = level_match ps ts" 
    using rest jts scan_match_tail_Nil[of ps] ps0 "3.prems" ne
    by (cases "ps = []"; cases "ts = []") auto
  have tails: "scan_match (tail_of ps) (tail_of ts) = level_match ps ts"
    using ends ps0 jts join_hash[of ps] "3.prems"(1)
    by (cases "ps = []"; cases "ts = []") (auto simp: tail_of_def)
  consider (plain) "plain_level p" | (star) "p = [star]" | (hash) "p = [hash]" "ps = []"
    using "3.prems"(1) by auto
  then show ?case
  proof cases
    case plain
    then have "p \<noteq> [hash]" "p \<noteq> [star]"
      by (auto simp: plain_level_def)
    then show ?thesis
      using scan_match_plain[OF plain, of t "tail_of ps" "tail_of ts"] "3.prems" tails
      by (simp add: join_tail tail_of_hd)
  next
    case star
    obtain d u where du: "join (t # ts) = d # u"
      using jt by (cases "join (t # ts)") auto
    have dw: "dropWhile (\<lambda>x. x \<noteq> slash) (d # u) = tail_of ts"
      unfolding du[symmetric] join_tail
      using "3.prems" by (intro dropWhile_level tail_of_hd) auto
    have "scan_match (join (p # ps)) (join (t # ts)) =
        scan_match (strip_slash (tail_of ps)) (strip_slash (dropWhile (\<lambda>x. x \<noteq> slash) (d # u)))"
      unfolding du star join_tail[of "[CHR ''*'']"] by simp
    then show ?thesis
      using star ends by (simp only: dw strip_tail_of) simp
  next
    case hash
    then show ?thesis using jt by (cases "join (t # ts)") auto
  qed
qed auto

text \<open>C25: on every pattern whose levels are non-empty and wildcard-free, a star, or a final
  hash, and every topic that is not empty and does not end in a slash, the index loops of
  \<open>topicMatches\<close> decide exactly the level-wise match: a star stands for one level, a final hash
  for the remaining levels, none included, and every other level for itself.\<close>

theorem topicMatches_level_match:
  assumes "pattern_ok (levels pattern)" and "topic \<noteq> []" and "last topic \<noteq> slash"
  shows "topicMatches pattern topic = level_match (levels pattern) (levels topic)"
  using scan_match_levels[of "levels pattern" "levels topic"] assms levels_noslash
    last_levels_Nil[of topic]
  by (auto simp: topicMatches_scan)

theorem topicMatches_level_match_witness:
  "topicMatches ''sensor/*/#'' ''sensor/a'' \<and> \<not> topicMatches ''sensor/*/t'' ''sensor/a/b''"
proof -
  have "pattern_ok (levels ''sensor/*/#'')" "pattern_ok (levels ''sensor/*/t'')"
    by code_simp+
  then show ?thesis
    by (simp add: topicMatches_level_match)
qed

text \<open>Outside these patterns the matcher and the levels disagree.\<close>

lemma topicMatches_edges:
  "topicMatches ''a*'' ''abc'' \<and> topicMatches ''*//#'' ''x'' \<and> topicMatches ''*'' ''a/'' \<and>
   \<not> level_match (levels ''a*'') (levels ''abc'') \<and>
   \<not> level_match (levels ''*//#'') (levels ''x'') \<and> \<not> level_match (levels ''*'') (levels ''a/'')"
  by code_simp

end
