(* ===== verification/Subscription_Index.thy ===== *)
theory Subscription_Index
  imports Prelude
begin

text \<open>
  The contract of a component that holds subscriptions by identifier: entries are added one at a
  time, and removal by identifier takes out the entry with that identifier and reports whether
  there was one. The slots of \<open>topic_slot.h\<close> and the trie of \<open>wildcard_trie.h\<close> both promise it
  to the bus; the consequences the bus relies on are proved here once.
\<close>

locale subscription_index =
  fixes add :: "'s \<Rightarrow> 'e \<Rightarrow> 's"
    and remove :: "'s \<Rightarrow> sub_id \<Rightarrow> 's \<times> bool"
    and entries :: "'s \<Rightarrow> 'e multiset"
    and eid :: "'e \<Rightarrow> sub_id"
    and ok :: "'s \<Rightarrow> bool"
  assumes ok_add: "ok s \<Longrightarrow> ok (add s e)"
    and ok_remove: "ok s \<Longrightarrow> ok (fst (remove s i))"
    and entries_add: "ok s \<Longrightarrow> entries (add s e) = add_mset e (entries s)"
    and remove_found: "ok s \<Longrightarrow> snd (remove s i) \<longleftrightarrow> (\<exists>e. e \<in># entries s \<and> eid e = i)"
    and entries_remove: "ok s \<Longrightarrow> count (image_mset eid (entries s)) i \<le> 1 \<Longrightarrow>
      entries (fst (remove s i)) = filter_mset (\<lambda>e. eid e \<noteq> i) (entries s)"
begin

definition ids :: "'s \<Rightarrow> sub_id multiset" where
  "ids s = image_mset eid (entries s)"

definition unique :: "'s \<Rightarrow> bool" where
  "unique s \<longleftrightarrow> (\<forall>i. count (ids s) i \<le> 1)"

lemma ids_add: "ok s \<Longrightarrow> ids (add s e) = add_mset (eid e) (ids s)"
  by (simp add: ids_def entries_add)

lemma found_iff: "ok s \<Longrightarrow> snd (remove s i) \<longleftrightarrow> i \<in># ids s"
  by (auto simp: ids_def remove_found)

lemma unique_add: "ok s \<Longrightarrow> unique s \<Longrightarrow> eid e \<notin># ids s \<Longrightarrow> unique (add s e)"
  by (auto simp: unique_def ids_add not_in_iff)

lemma entries_remove': "ok s \<Longrightarrow> unique s \<Longrightarrow>
    entries (fst (remove s i)) = filter_mset (\<lambda>e. eid e \<noteq> i) (entries s)"
  by (simp add: entries_remove unique_def ids_def)

lemma ids_remove: "ok s \<Longrightarrow> unique s \<Longrightarrow> ids (fst (remove s i)) = filter_mset (\<lambda>j. j \<noteq> i) (ids s)"
  by (simp add: ids_def entries_remove' filter_mset_image_mset)

lemma unique_remove: "ok s \<Longrightarrow> unique s \<Longrightarrow> unique (fst (remove s i))"
  by (simp add: unique_def ids_remove)

text \<open>Removal is final, spares the others, and undoes an addition.\<close>

lemma removed_gone: "ok s \<Longrightarrow> unique s \<Longrightarrow> i \<notin># ids (fst (remove s i))"
  by (simp add: ids_remove)

lemma remove_other: "ok s \<Longrightarrow> unique s \<Longrightarrow> eid e \<noteq> i \<Longrightarrow>
    e \<in># entries (fst (remove s i)) \<longleftrightarrow> e \<in># entries s"
  by (simp add: entries_remove')

lemma remove_twice: "ok s \<Longrightarrow> unique s \<Longrightarrow> \<not> snd (remove (fst (remove s i)) i)"
  by (simp add: found_iff ok_remove removed_gone)

lemma filter_absent:
  "i \<notin># ids s \<Longrightarrow> filter_mset (\<lambda>e. eid e \<noteq> i) (entries s) = entries s"
  by (auto simp: multiset_eq_iff ids_def count_eq_zero_iff)

lemma remove_absent: "ok s \<Longrightarrow> i \<notin># ids s \<Longrightarrow> entries (fst (remove s i)) = entries s"
  by (subst entries_remove) (simp_all add: filter_absent count_eq_zero_iff[THEN iffD2] flip: ids_def)

lemma remove_add:
  assumes "ok s" "unique s" "eid e \<notin># ids s"
  shows "entries (fst (remove (add s e) (eid e))) = entries s"
  using entries_remove'[OF ok_add unique_add] filter_absent assms by (simp add: entries_add)

end

end
