(* ===== verification/Topic_Slot.thy ===== *)
theory Topic_Slot
  imports Subscription_Index
begin

text \<open>
  \<open>topic_slot.h\<close> and \<open>subscriber.h\<close>: the subscriber list of one topic, replaced as a whole by
  every write (copy on write under \<open>write_mutex_\<close>) and read as an immutable snapshot by
  \<open>dispatch\<close>. A handler is client code: it may change anything in the surrounding world \<open>'w\<close>,
  also add and remove subscribers, and it may throw. What other threads do while a handler runs
  is part of the handler's effect on the world.
\<close>

section \<open>The code\<close>

record subscriber =
  sub_id :: sub_id
  handler :: handler_ref

record topic_slot =
  msg_type :: type_info
  subscribers :: "subscriber list"

definition slot_new :: "type_info \<Rightarrow> topic_slot" where
  "slot_new ty = \<lparr>msg_type = ty, subscribers = []\<rparr>"

definition addSubscriber :: "topic_slot \<Rightarrow> handler_ref \<Rightarrow> sub_id \<Rightarrow> topic_slot \<times> sub_id" where
  "addSubscriber s h i =
     (let new_list = subscribers s @ [\<lparr>sub_id = i, handler = h\<rparr>]
      in (s\<lparr>subscribers := new_list\<rparr>, i))"

text \<open>The copying loop with its accumulators \<open>new_list\<close> and \<open>found\<close>.\<close>

fun remove_loop :: "sub_id \<Rightarrow> subscriber list \<Rightarrow> subscriber list \<Rightarrow> bool \<Rightarrow> subscriber list \<times> bool" where
  "remove_loop i [] new_list found = (new_list, found)"
| "remove_loop i (sub # old) new_list found =
     (if sub_id sub = i then remove_loop i old new_list True
      else remove_loop i old (new_list @ [sub]) found)"

definition removeSubscriber :: "topic_slot \<Rightarrow> sub_id \<Rightarrow> topic_slot \<times> bool" where
  "removeSubscriber s i =
     (let (new_list, found) = remove_loop i (subscribers s) [] False
      in if found then (s\<lparr>subscribers := new_list\<rparr>, True) else (s, False))"

text \<open>A handler call returns the new world and whether it threw; \<open>catch (...)\<close> drops that.\<close>

type_synonym ('d, 'w) handlers = "handler_ref \<Rightarrow> 'd \<Rightarrow> 'w \<Rightarrow> 'w \<times> bool"

fun dispatch_loop :: "('d, 'w) handlers \<Rightarrow> 'd \<Rightarrow> subscriber list \<Rightarrow> 'w \<Rightarrow> 'w" where
  "dispatch_loop call d [] w = w"
| "dispatch_loop call d (sub # subs) w =
     (case call (handler sub) d w of (w', threw) \<Rightarrow> dispatch_loop call d subs w')"

definition slot_dispatch :: "('d, 'w) handlers \<Rightarrow> topic_slot \<Rightarrow> 'd \<Rightarrow> 'w \<Rightarrow> 'w" where
  "slot_dispatch call s d w = (let subs = subscribers s in dispatch_loop call d subs w)"

section \<open>Slots as objects\<close>

text \<open>The slots are shared objects, reached through \<open>shared_ptr<ITopicSlot>\<close> from the slot map of
  the bus and from the entries of the trie: a store from references to slots.\<close>

type_synonym slot_store = "slot_ref \<rightharpoonup> topic_slot"

definition store_remove :: "slot_store \<Rightarrow> slot_ref \<Rightarrow> sub_id \<Rightarrow> slot_store \<times> bool" where
  "store_remove st r i =
     (case st r of
        Some s \<Rightarrow> (case removeSubscriber s i of (s', b) \<Rightarrow> (st(r \<mapsto> s'), b))
      | None \<Rightarrow> (st, False))"

section \<open>The index contract\<close>

lemma remove_loop_eq:
  "remove_loop i subs acc found =
     (acc @ filter (\<lambda>x. sub_id x \<noteq> i) subs, found \<or> (\<exists>x\<in>set subs. sub_id x = i))"
  by (induction subs arbitrary: acc found) auto

lemma removeSubscriber_eq:
  "removeSubscriber s i =
     (s\<lparr>subscribers := filter (\<lambda>x. sub_id x \<noteq> i) (subscribers s)\<rparr>,
      \<exists>x\<in>set (subscribers s). sub_id x = i)"
proof (cases "\<exists>x\<in>set (subscribers s). sub_id x = i")
  case False
  then have "filter (\<lambda>x. sub_id x \<noteq> i) (subscribers s) = subscribers s"
    by (simp add: filter_id_conv)
  then show ?thesis
    using False by (simp add: removeSubscriber_def remove_loop_eq)
qed (simp add: removeSubscriber_def remove_loop_eq)

definition slot_add :: "topic_slot \<Rightarrow> subscriber \<Rightarrow> topic_slot" where
  "slot_add s sub = fst (addSubscriber s (handler sub) (sub_id sub))"

lemma subscribers_add [simp]: "subscribers (slot_add s sub) = subscribers s @ [sub]"
  by (simp add: slot_add_def addSubscriber_def)

interpretation slot: subscription_index slot_add removeSubscriber
  "\<lambda>s. mset (subscribers s)" sub_id "\<lambda>_. True"
  by unfold_locales (auto simp: removeSubscriber_eq)

lemma store_remove_other: "r' \<noteq> r \<Longrightarrow> fst (store_remove st r i) r' = st r'"
  by (simp add: store_remove_def split: option.split prod.split)

lemma store_remove_Some:
  "st r = Some s \<Longrightarrow> store_remove st r i =
     (st(r \<mapsto> s\<lparr>subscribers := filter (\<lambda>x. sub_id x \<noteq> i) (subscribers s)\<rparr>),
      \<exists>x\<in>set (subscribers s). sub_id x = i)"
  by (simp add: store_remove_def removeSubscriber_eq)

lemma store_remove_None: "st r = None \<Longrightarrow> store_remove st r i = (st, False)"
  by (simp add: store_remove_def)

section \<open>Dispatch\<close>

text \<open>The calls a dispatch makes, seen by a recorder wrapped around arbitrary client handlers.\<close>

definition recorded :: "('d, 'w) handlers \<Rightarrow> ('d, 'w \<times> (handler_ref \<times> 'd) list) handlers" where
  "recorded call h d w =
     (case w of (w0, log) \<Rightarrow> case call h d w0 of (w1, threw) \<Rightarrow> ((w1, log @ [(h, d)]), threw))"

lemma dispatch_loop_recorded:
  "dispatch_loop (recorded call) d subs (w, log) =
     (dispatch_loop call d subs w, log @ map (\<lambda>x. (handler x, d)) subs)"
  by (induction subs arbitrary: w log) (auto simp: recorded_def split: prod.split)

lemma dispatch_loop_append:
  "dispatch_loop call d (xs @ ys) w = dispatch_loop call d ys (dispatch_loop call d xs w)"
  by (induction xs arbitrary: w) (auto split: prod.split)

text \<open>\<open>dispatch\<close> calls every subscriber of the snapshot it loaded exactly once and in
  subscription order, with the message's data, whichever handlers throw and whatever they do to
  the world (the slot's own list included); recording the calls does not change the effect.\<close>

theorem dispatch_isolated:
  "slot_dispatch (recorded call) s d (w, log) =
     (slot_dispatch call s d w, log @ map (\<lambda>sub. (handler sub, d)) (subscribers s))"
  by (simp add: slot_dispatch_def dispatch_loop_recorded Let_def)

text \<open>A subscription added under a fresh identifier is the last to be called; removing it
  restores the list, order included; a removal reports exactly whether the identifier was
  there, keeps the other subscribers in order, and a second removal finds nothing.\<close>

theorem slot_add_remove:
  "case addSubscriber s h i of (s1, i1) \<Rightarrow>
     i1 = i \<and> msg_type s1 = msg_type s \<and>
     subscribers s1 = subscribers s @ [\<lparr>sub_id = i, handler = h\<rparr>] \<and>
     (case removeSubscriber s1 i of (s2, found) \<Rightarrow>
        found \<and> msg_type s2 = msg_type s \<and> \<not> snd (removeSubscriber s2 i) \<and>
        subscribers s2 = filter (\<lambda>sub. sub_id sub \<noteq> i) (subscribers s) \<and>
        (i \<notin> sub_id ` set (subscribers s) \<longrightarrow> s2 = s))"
proof -
  have "filter (\<lambda>sub. sub_id sub \<noteq> i) (subscribers s) = subscribers s"
    if "i \<notin> sub_id ` set (subscribers s)"
    using that by (auto simp: filter_id_conv)
  then show ?thesis
    by (auto simp: addSubscriber_def removeSubscriber_eq)
qed

theorem slot_add_remove_witness:
  "removeSubscriber (fst (addSubscriber (slot_new 7) 3 1)) 1 = (slot_new 7, True)"
  using slot_add_remove[where s = "slot_new 7" and h = 3 and i = 1]
  by (auto simp: slot_new_def split: prod.splits)

end
