(* ===== verification/Wildcard_Trie.thy ===== *)
theory Wildcard_Trie
  imports Topic_Matcher Topic_Slot
begin

text \<open>
  \<open>wildcard_trie.h\<close>: the trie of wildcard subscriptions. A write deep-copies the snapshot,
  changes the copy and publishes it, all under \<open>write_mutex_\<close>; a reader works on the snapshot it
  loaded. A node's \<open>children\<close> table is a list of key and node pairs in the table's iteration
  order; no theorem depends on that order. The slots the entries point to are shared objects of
  the store of \<open>Topic_Slot\<close>, which removal updates.
\<close>

section \<open>The code\<close>

record entry =
  etype :: type_info
  slot :: slot_ref
  sub_id :: sub_id

datatype node = Node (children: "(string \<times> node) list") (entries: "entry list")

record snapshot =
  root :: node
  entry_count :: size_t

definition trie_new :: snapshot where
  "trie_new = \<lparr>root = Node [] [], entry_count = 0\<rparr>"

text \<open>\<open>s.find('/', start)\<close>: the first position from \<open>start\<close> on.\<close>

fun find_from :: "string \<Rightarrow> char \<Rightarrow> nat \<Rightarrow> nat option" where
  "find_from s c start =
     (let skipped = takeWhile (\<lambda>x. x \<noteq> c) (drop start s)
      in if start + length skipped < length s then Some (start + length skipped) else None)"

function split_loop :: "string \<Rightarrow> nat \<Rightarrow> string list \<Rightarrow> string list" where
  "split_loop s start acc =
     (if start < length s then
        (case find_from s slash start of
           None \<Rightarrow> acc @ [drop start s]
         | Some pos \<Rightarrow> split_loop s (pos + 1) (acc @ [take (pos - start) (drop start s)]))
      else acc)"
  by pat_completeness auto
termination
  by (relation "measure (\<lambda>(s, start, _). length s - start)")
     (auto simp: Let_def split: if_splits)

declare split_loop.simps [simp del] find_from.simps [simp del]

definition splitLevels :: "string \<Rightarrow> string list" where
  "splitLevels s = split_loop s 0 []"

text \<open>The copy made by \<open>cloneNode\<close>.\<close>

fun cloneNode :: "node \<Rightarrow> node" where
  "cloneNode (Node ch es) = Node (map (\<lambda>(k, c). (k, cloneNode c)) ch) es"

fun set_child :: "string \<Rightarrow> node \<Rightarrow> (string \<times> node) list \<Rightarrow> (string \<times> node) list" where
  "set_child k n [] = []"
| "set_child k n ((k', c) # ch) = (if k = k' then (k', n) # ch else (k', c) # set_child k n ch)"

text \<open>The walk of \<open>insert\<close> from the current node over the remaining levels: a missing child is
  created empty and emplaced.\<close>

fun insert_at :: "string list \<Rightarrow> entry \<Rightarrow> node \<Rightarrow> node" where
  "insert_at [] e (Node ch es) = Node ch (es @ [e])"
| "insert_at (level # rest) e (Node ch es) =
     (case map_of ch level of
        None \<Rightarrow> Node (ch @ [(level, insert_at rest e (Node [] []))]) es
      | Some child \<Rightarrow> Node (set_child level (insert_at rest e child) ch) es)"

definition insert_levels :: "snapshot \<Rightarrow> string list \<Rightarrow> entry \<Rightarrow> snapshot" where
  "insert_levels snap ls e =
     (let snap' = snap\<lparr>root := cloneNode (root snap)\<rparr>
      in snap'\<lparr>root := insert_at ls e (root snap'), entry_count := entry_count snap' + 1\<rparr>)"

definition trie_insert :: "snapshot \<Rightarrow> string \<Rightarrow> entry \<Rightarrow> snapshot" where
  "trie_insert snap pattern e = insert_levels snap (splitLevels pattern) e"

text \<open>The loop over a node's entries: the first entry with the identifier is erased and its slot
  told to drop the subscriber.\<close>

fun erase_entry :: "entry list \<Rightarrow> sub_id \<Rightarrow> slot_store \<Rightarrow> (entry list \<times> slot_store) option" where
  "erase_entry [] i st = None"
| "erase_entry (e # es) i st =
     (if sub_id e = i then Some (es, fst (store_remove st (slot e) i))
      else (case erase_entry es i st of
              None \<Rightarrow> None
            | Some (es', st') \<Rightarrow> Some (e # es', st')))"

fun removeFrom :: "node \<Rightarrow> sub_id \<Rightarrow> slot_store \<Rightarrow> node \<times> slot_store \<times> bool"
  and remove_children ::
    "(string \<times> node) list \<Rightarrow> sub_id \<Rightarrow> slot_store \<Rightarrow> (string \<times> node) list \<times> slot_store \<times> bool"
where
  "removeFrom (Node ch es) i st =
     (case erase_entry es i st of
        Some (es', st') \<Rightarrow> (Node ch es', st', True)
      | None \<Rightarrow> (case remove_children ch i st of (ch', st', found) \<Rightarrow> (Node ch' es, st', found)))"
| "remove_children [] i st = ([], st, False)"
| "remove_children ((k, c) # ch) i st =
     (case removeFrom c i st of
        (c', st', True) \<Rightarrow>
          if entries c' = [] \<and> children c' = [] then (ch, st', True) else ((k, c') # ch, st', True)
      | (c', st', False) \<Rightarrow>
          (case remove_children ch i st' of (ch', st'', found) \<Rightarrow> ((k, c') # ch', st'', found)))"

definition trie_remove :: "snapshot \<Rightarrow> slot_store \<Rightarrow> sub_id \<Rightarrow> snapshot \<times> slot_store \<times> bool" where
  "trie_remove snap st i =
     (let snap' = snap\<lparr>root := cloneNode (root snap)\<rparr>
      in case removeFrom (root snap') i st of
           (n, st', found) \<Rightarrow>
             if found then (snap'\<lparr>root := n, entry_count := entry_count snap' - 1\<rparr>, st', True)
             else (snap, st', False))"

text \<open>The entries of the right type, as slot pointers.\<close>

definition typed :: "type_info \<Rightarrow> entry list \<Rightarrow> slot_ref list" where
  "typed ty es = map slot (filter (\<lambda>e. etype e = ty) es)"

function matchNode :: "node \<Rightarrow> string list \<Rightarrow> nat \<Rightarrow> type_info \<Rightarrow> slot_ref list \<Rightarrow> slot_ref list" where
  "matchNode node ls depth ty out =
     (let out1 = (case map_of (children node) [hash] of
                    Some h \<Rightarrow> out @ typed ty (entries h)
                  | None \<Rightarrow> out)
      in if depth \<ge> length ls then out1 @ typed ty (entries node)
         else
           (let out2 = (case map_of (children node) (ls ! depth) of
                          Some c \<Rightarrow> matchNode c ls (depth + 1) ty out1
                        | None \<Rightarrow> out1)
            in case map_of (children node) [star] of
                 Some c \<Rightarrow> matchNode c ls (depth + 1) ty out2
               | None \<Rightarrow> out2))"
  by pat_completeness auto
termination
  by (relation "measure (\<lambda>(_, ls, depth, _). length ls - depth)") auto

declare matchNode.simps [simp del]

definition trie_match :: "snapshot \<Rightarrow> string \<Rightarrow> type_info \<Rightarrow> slot_ref list \<Rightarrow> slot_ref list" where
  "trie_match snap topic ty out =
     (if entry_count snap = 0 then out
      else matchNode (root snap) (splitLevels topic) 0 ty out)"

definition trie_empty :: "snapshot \<Rightarrow> bool" where
  "trie_empty snap \<longleftrightarrow> entry_count snap = 0"

section \<open>Splitting\<close>

lemma levels_takeWhile:
  "s \<noteq> [] \<Longrightarrow> levels s =
     (let l = takeWhile (\<lambda>x. x \<noteq> slash) s; r = dropWhile (\<lambda>x. x \<noteq> slash) s
      in if r = [] then [l] else l # levels (tl r))"
proof (induction s)
  case (Cons c s)
  show ?case
    using Cons by (cases "s = []") (auto simp: Let_def split: list.splits)
qed simp

definition code_levels :: "string \<Rightarrow> string list" where
  "code_levels s = (if last (levels s) = [] then butlast (levels s) else levels s)"

lemma split_loop_levels:
  "start \<le> length s \<Longrightarrow> split_loop s start acc = acc @ code_levels (drop start s)"
proof (induction s start acc rule: split_loop.induct)
  case (1 s start acc)
  let ?d = "drop start s" and ?t = "takeWhile (\<lambda>x. x \<noteq> slash) (drop start s)"
  let ?w = "dropWhile (\<lambda>x. x \<noteq> slash) (drop start s)"
  show ?case
  proof (cases "start < length s")
    case False
    then show ?thesis
      using "1.prems" by (subst split_loop.simps) (simp add: code_levels_def)
  next
    case True
    have split: "?d = ?t @ ?w" by simp
    have len: "length ?t + length ?w = length s - start"
      by (metis length_append length_drop takeWhile_dropWhile_id)
    have lev: "levels ?d = (if ?w = [] then [?t] else ?t # levels (tl ?w))"
      using True by (subst levels_takeWhile) (auto simp: Let_def)
    show ?thesis
    proof (cases "?w = []")
      case nil: True
      then have f: "find_from s slash start = None"
        using len True unfolding nil by (simp add: find_from.simps Let_def)
      have "?t = ?d" using split unfolding nil by (simp only: append_Nil2)
      then have "levels ?d = [?d]" using lev nil by simp
      then have "code_levels ?d = [?d]" using True by (simp add: code_levels_def)
      then show ?thesis
        using True f by (subst split_loop.simps) simp
    next
      case False
      then have pos: "start + length ?t < length s"
        using len True by (cases ?w) auto
      then have f: "find_from s slash start = Some (start + length ?t)"
        by (simp add: find_from.simps Let_def)
      have tk: "take (length ?t) ?d = ?t"
        by (metis split append_eq_conv_conj)
      have "drop (length ?t) ?d = ?w"
        by (metis split append_eq_conv_conj)
      then have dr: "drop (start + length ?t + 1) s = tl ?w"
        by (metis add.commute drop_drop drop_Suc tl_drop Suc_eq_plus1)
      have "levels ?d = ?t # levels (tl ?w)"
        using lev False by auto
      then have "code_levels ?d = ?t # code_levels (drop (start + length ?t + 1) s)"
        unfolding dr by (simp add: code_levels_def)
      then show ?thesis
        using True f 1(1)[OF True f] pos tk by (subst split_loop.simps) simp
    qed
  qed
qed

lemma splitLevels_levels: "splitLevels s = code_levels s"
  by (simp add: splitLevels_def split_loop_levels)

lemma splitLevels_noslash:
  "s \<noteq> [] \<Longrightarrow> last s \<noteq> slash \<Longrightarrow> splitLevels s = levels s"
  by (simp add: splitLevels_levels code_levels_def last_levels_Nil)

section \<open>What a trie holds\<close>

text \<open>All entries with the levels on the way to them, and the structural invariant: the keys of
  a node are distinct and no node below the root is empty.\<close>

fun paths :: "node \<Rightarrow> (string list \<times> entry) list" where
  "paths (Node ch es) =
     map (Pair []) es @ concat (map (\<lambda>(k, c). map (apfst ((#) k)) (paths c)) ch)"

definition is_empty_node :: "node \<Rightarrow> bool" where
  "is_empty_node n \<longleftrightarrow> entries n = [] \<and> children n = []"

fun node_ok :: "node \<Rightarrow> bool" where
  "node_ok (Node ch es) =
     (distinct (map fst ch) \<and> (\<forall>(k, c) \<in> set ch. node_ok c \<and> \<not> is_empty_node c))"

declare paths.simps [trie_simps]

lemma is_empty_node_simp [simp]: "is_empty_node (Node ch es) \<longleftrightarrow> es = [] \<and> ch = []"
  by (auto simp: is_empty_node_def)

lemma cloneNode_id [simp]: "cloneNode n = n"
proof (induction n rule: cloneNode.induct)
  case (1 ch es)
  have "map (\<lambda>(k, c). (k, cloneNode c)) ch = map (\<lambda>x. x) ch"
    using 1 by (intro map_cong) auto
  then show ?case by simp
qed

lemma paths_empty: "is_empty_node n \<Longrightarrow> paths n = []"
  by (cases n) simp

lemma paths_Nil: "node_ok n \<Longrightarrow> paths n = [] \<Longrightarrow> is_empty_node n"
proof (induction n rule: paths.induct)
  case (1 ch es)
  show ?case
  proof (cases ch)
    case (Cons kc ch')
    obtain k c where "kc = (k, c)" by force
    then show ?thesis using 1 Cons by fastforce
  qed (use 1 in simp)
qed

text \<open>The entries below one child.\<close>

abbreviation below :: "string \<Rightarrow> node \<Rightarrow> (string list \<times> entry) multiset" where
  "below k c \<equiv> image_mset (apfst ((#) k)) (mset (paths c))"

lemma mset_paths:
  "mset (paths (Node ch es)) = image_mset (Pair []) (mset es) + (\<Sum>(k, c)\<leftarrow>ch. below k c)"
proof -
  have "mset (concat (map (\<lambda>(k, c). map (apfst ((#) k)) (paths c)) ch)) = (\<Sum>(k, c)\<leftarrow>ch. below k c)"
    by (induction ch) auto
  then show ?thesis by simp
qed

declare paths.simps [simp del]
declare mset_paths [trie_simps]

section \<open>Insertion\<close>

lemma set_child_keys [simp]: "map fst (set_child k n ch) = map fst ch"
  by (induction k n ch rule: set_child.induct) auto

lemma in_set_child: "x \<in> set (set_child k n ch) \<Longrightarrow> x = (k, n) \<or> x \<in> set ch"
  by (induction k n ch rule: set_child.induct) (auto split: if_splits)

lemma sum_set_child:
  fixes f :: "string \<times> node \<Rightarrow> 'a::comm_monoid_add"
  shows "map_of ch k = Some c \<Longrightarrow> f (k, n) = x + f (k, c) \<Longrightarrow>
    (\<Sum>p\<leftarrow>set_child k n ch. f p) = x + (\<Sum>p\<leftarrow>ch. f p)"
  by (induction k n ch rule: set_child.induct) (auto simp: algebra_simps split: if_splits)

lemma insert_at_not_empty: "\<not> is_empty_node (insert_at ls e n)"
proof (cases n)
  case (Node ch es)
  have ne: "set_child k c ch = [] \<longleftrightarrow> ch = []" for k c
    by (metis set_child_keys map_is_Nil_conv)
  show ?thesis
    by (cases ls) (auto simp: Node ne split: option.splits)
qed

lemma insert_at_ok: "node_ok n \<Longrightarrow> node_ok (insert_at ls e n)"
proof (induction ls e n rule: insert_at.induct)
  case (2 l ls e ch es)
  show ?case
  proof (cases "map_of ch l")
    case None
    then have "l \<notin> fst ` set ch"
      by (simp add: map_of_eq_None_iff)
    then show ?thesis
      using 2(1)[OF None] "2.prems" insert_at_not_empty by (auto simp: None)
  next
    case (Some c)
    then have "node_ok c"
      using "2.prems" by (auto dest!: map_of_SomeD)
    then show ?thesis
      using 2 Some insert_at_not_empty by (auto dest!: in_set_child)
  qed
qed simp

lemma paths_insert [trie_simps]:
  "mset (paths (insert_at ls e n)) = add_mset (ls, e) (mset (paths n))"
proof (induction ls e n rule: insert_at.induct)
  case (1 e ch es)
  then show ?case by (simp add: mset_paths)
next
  case (2 l ls e ch es)
  show ?case
  proof (cases "map_of ch l")
    case None
    then show ?thesis using 2(1) by (simp add: mset_paths)
  next
    case (Some c)
    have "(\<Sum>(k, c)\<leftarrow>set_child l (insert_at ls e c) ch. below k c) =
        {#(l # ls, e)#} + (\<Sum>(k, c)\<leftarrow>ch. below k c)"
      by (rule sum_set_child[OF Some]) (simp add: 2(2)[OF Some])
    then show ?thesis using Some by (simp add: mset_paths)
  qed
qed

section \<open>Removal\<close>

definition pid :: "string list \<times> entry \<Rightarrow> sub_id" where
  "pid p = sub_id (snd p)"

lemma pid_paths:
  "pid ` set (paths (Node ch es)) =
     sub_id ` set es \<union> (\<Union>(k, c) \<in> set ch. pid ` set (paths c))"
  by (auto simp: paths.simps pid_def image_image image_Un image_UN split_beta)

lemma erase_entry_None: "erase_entry es i st = None \<longleftrightarrow> i \<notin> sub_id ` set es"
  by (induction es) (auto split: option.splits)

lemma erase_entry_Some:
  "erase_entry es i st = Some (es', st') \<Longrightarrow>
   \<exists>e. sub_id e = i \<and> mset es = add_mset e (mset es') \<and> st' = fst (store_remove st (slot e) i)"
  by (induction es arbitrary: es') (auto split: if_splits option.splits)

lemma removeFrom_miss:
  "removeFrom n i st = (n', st', False) \<Longrightarrow> n' = n \<and> st' = st \<and> i \<notin> pid ` set (paths n)"
  "remove_children ch i st = (ch', st', False) \<Longrightarrow>
     ch' = ch \<and> st' = st \<and> (\<forall>(k, c) \<in> set ch. i \<notin> pid ` set (paths c))"
proof (induction n i st and ch i st arbitrary: n' st' and ch' st' rule: removeFrom_remove_children.induct)
  case (1 ch es i st)
  then have none: "erase_entry es i st = None"
    by (auto split: option.splits prod.splits)
  then obtain ch' where ch': "remove_children ch i st = (ch', st', False)" "n' = Node ch' es"
    using 1(2) by (auto split: prod.splits)
  then have "ch' = ch" "st' = st" "\<forall>(k, c) \<in> set ch. i \<notin> pid ` set (paths c)"
    using 1(1)[OF none] by auto
  moreover have "i \<notin> sub_id ` set es"
    using none erase_entry_None by blast
  ultimately show ?case
    using ch' by (simp add: pid_paths) blast
next
  case (3 k c ch i st)
  obtain c' st1 b where c: "removeFrom c i st = (c', st1, b)"
    by (metis prod_cases3)
  have nb: "\<not> b"
    using 3(3) c by (auto split: if_splits)
  then have c1: "c' = c" "st1 = st" "i \<notin> pid ` set (paths c)"
    using 3(1) c by auto
  obtain ch2 where r: "remove_children ch i st = (ch2, st', False)" "ch' = (k, c) # ch2"
    using 3(3) c c1 nb by (auto split: prod.splits)
  show ?case
    using 3(2)[OF c[symmetric] refl] nb r c1 by auto
qed auto

text \<open>A successful removal takes out one entry with the identifier and tells its slot.\<close>

lemma removeFrom_hit:
  "removeFrom n i st = (n', st', True) \<Longrightarrow>
     \<exists>ls e. sub_id e = i \<and> mset (paths n) = add_mset (ls, e) (mset (paths n')) \<and>
            st' = fst (store_remove st (slot e) i)"
  "remove_children ch i st = (ch', st', True) \<Longrightarrow>
     \<exists>ls e. sub_id e = i \<and>
            (\<Sum>(k, c)\<leftarrow>ch. below k c) = add_mset (ls, e) (\<Sum>(k, c)\<leftarrow>ch'. below k c) \<and>
            st' = fst (store_remove st (slot e) i)"
proof (induction n i st and ch i st arbitrary: n' st' and ch' st' rule: removeFrom_remove_children.induct)
  case (1 ch es i st)
  show ?case
  proof (cases "erase_entry es i st")
    case None
    then obtain ch' where "remove_children ch i st = (ch', st', True)" "n' = Node ch' es"
      using 1(2) by (auto split: prod.splits)
    then show ?thesis
      using 1(1)[OF None] by (fastforce simp: mset_paths)
  next
    case (Some p)
    then obtain es' where "erase_entry es i st = Some (es', st')" "n' = Node ch es'"
      using 1(2) by (auto split: prod.splits)
    then show ?thesis
      using erase_entry_Some by (fastforce simp: mset_paths)
  qed
next
  case (3 k c ch i st)
  obtain c' st1 b where c: "removeFrom c i st = (c', st1, b)"
    by (metis prod_cases3)
  show ?case
  proof (cases b)
    case True
    then obtain ls e where e: "sub_id e = i" "mset (paths c) = add_mset (ls, e) (mset (paths c'))"
        "st' = fst (store_remove st (slot e) i)"
      using 3 c by (auto split: if_splits)
    have "(\<Sum>(k, c)\<leftarrow>ch'. below k c) = below k c' + (\<Sum>(k, c)\<leftarrow>ch. below k c)"
      using 3(3) c True paths_empty[of c'] by (auto simp: is_empty_node_def split: if_splits)
    then show ?thesis
      using e by auto
  next
    case False
    then have "c' = c" "st1 = st"
      using removeFrom_miss(1) c by auto
    then obtain ch2 where "remove_children ch i st = (ch2, st', True)" "ch' = (k, c) # ch2"
      using 3(3) c False by (auto split: prod.splits)
    then show ?thesis
      using 3(2)[OF c[symmetric]] False \<open>st1 = st\<close> by auto
  qed
qed auto

lemma removeFrom_ok:
  "removeFrom n i st = (n', st', found) \<Longrightarrow> node_ok n \<Longrightarrow> node_ok n'"
  "remove_children ch i st = (ch', st', found) \<Longrightarrow>
     distinct (map fst ch) \<Longrightarrow> \<forall>(k, c) \<in> set ch. node_ok c \<and> \<not> is_empty_node c \<Longrightarrow>
     distinct (map fst ch') \<and> set (map fst ch') \<subseteq> set (map fst ch) \<and>
     (\<forall>(k, c) \<in> set ch'. node_ok c \<and> \<not> is_empty_node c)"
proof (induction n i st and ch i st arbitrary: n' st' found and ch' st' found
    rule: removeFrom_remove_children.induct)
  case (1 ch es i st)
  show ?case
  proof (cases "erase_entry es i st")
    case None
    then obtain ch' where "remove_children ch i st = (ch', st', found)" "n' = Node ch' es"
      using 1(2) by (auto split: prod.splits)
    then show ?thesis
      using 1(1)[OF None] 1(3) by simp
  next
    case (Some p)
    then obtain es' where "n' = Node ch es'"
      using 1(2) by (auto split: prod.splits)
    then show ?thesis
      using 1(3) by simp
  qed
next
  case (3 k c ch i st)
  obtain c' st1 b where c: "removeFrom c i st = (c', st1, b)"
    by (metis prod_cases3)
  have okc: "node_ok c'"
    using 3(1)[OF c] 3(5) by simp
  show ?case
  proof (cases b)
    case True
    have "ch' = (if is_empty_node c' then ch else (k, c') # ch)"
      using 3(3) c True by (auto simp: is_empty_node_def split: if_splits)
    then show ?thesis
      using 3(4,5) okc by auto
  next
    case False
    then have c1: "c' = c" "st1 = st"
      using removeFrom_miss(1) c by auto
    then obtain ch2 where r: "remove_children ch i st = (ch2, st', found)" "ch' = (k, c) # ch2"
      using 3(3) c False by (auto split: prod.splits)
    then show ?thesis
      using 3(2)[OF c[symmetric] refl] False c1 3(4,5) by auto
  qed
qed auto

section \<open>The index contract\<close>

definition trie_ok :: "snapshot \<Rightarrow> bool" where
  "trie_ok snap \<longleftrightarrow>
     node_ok (root snap) \<and> entry_count snap = of_nat (length (paths (root snap)))"

definition trie_paths :: "snapshot \<Rightarrow> (string list \<times> entry) multiset" where
  "trie_paths snap = mset (paths (root snap))"

lemma size_trie_paths: "size (trie_paths snap) = length (paths (root snap))"
  by (simp add: trie_paths_def)

lemma trie_new_ok: "trie_ok trie_new" "trie_paths trie_new = {#}"
  by (simp_all add: trie_ok_def trie_new_def trie_paths_def paths.simps)

lemma insert_levels_ok: "trie_ok snap \<Longrightarrow> trie_ok (insert_levels snap ls e)"
  using arg_cong[OF paths_insert[of ls e "root snap"], of size]
  by (simp add: trie_ok_def insert_levels_def insert_at_ok)

lemma insert_levels_paths [trie_simps]:
  "trie_paths (insert_levels snap ls e) = add_mset (ls, e) (trie_paths snap)"
  by (simp add: insert_levels_def trie_paths_def paths_insert)

lemma trie_remove_miss:
  "trie_remove snap st i = (snap', st', False) \<Longrightarrow>
     snap' = snap \<and> st' = st \<and> i \<notin># image_mset pid (trie_paths snap)"
  using removeFrom_miss(1)[of "root snap" i st]
  by (auto simp: trie_remove_def trie_paths_def split: prod.splits if_splits)

lemma trie_remove_hit:
  assumes "trie_remove snap st i = (snap', st', True)"
  shows "\<exists>ls e. sub_id e = i \<and> trie_paths snap = add_mset (ls, e) (trie_paths snap') \<and>
    st' = fst (store_remove st (slot e) i) \<and> entry_count snap' = entry_count snap - 1"
  using assms removeFrom_hit(1)[of "root snap" i st]
  by (auto simp: trie_remove_def trie_paths_def split: prod.splits if_splits)

lemma trie_remove_ok:
  assumes "trie_ok snap" "trie_remove snap st i = (snap', st', found)"
  shows "trie_ok snap'"
proof (cases found)
  case True
  then obtain ls e where "trie_paths snap = add_mset (ls, e) (trie_paths snap')"
      "entry_count snap' = entry_count snap - 1"
    using trie_remove_hit[of snap st i snap' st'] assms(2) by auto
  moreover from this(1) have "length (paths (root snap)) = Suc (length (paths (root snap')))"
    by (metis size_trie_paths size_add_mset)
  moreover have "node_ok (root snap')"
    using assms True removeFrom_ok(1)
    by (fastforce simp: trie_ok_def trie_remove_def split: prod.splits if_splits)
  ultimately show ?thesis
    using assms(1) by (simp add: trie_ok_def)
next
  case False
  then show ?thesis using trie_remove_miss[of snap st i snap' st'] assms by auto
qed

text \<open>The trie together with the store its removals update.\<close>

definition index_add :: "snapshot \<times> slot_store \<Rightarrow> string list \<times> entry \<Rightarrow> snapshot \<times> slot_store" where
  "index_add s p = (insert_levels (fst s) (fst p) (snd p), snd s)"

definition index_remove :: "snapshot \<times> slot_store \<Rightarrow> sub_id \<Rightarrow> (snapshot \<times> slot_store) \<times> bool" where
  "index_remove s i = (case trie_remove (fst s) (snd s) i of (snap, st, found) \<Rightarrow> ((snap, st), found))"

lemma filter_other:
  assumes "M = add_mset x N" "count (image_mset f M) (f x) \<le> 1"
  shows "N = filter_mset (\<lambda>y. f y \<noteq> f x) M"
proof -
  have "count (image_mset f N) (f x) = 0"
    using assms by simp
  then have "\<forall>y \<in># N. f y \<noteq> f x"
    by (metis count_eq_zero_iff image_eqI set_image_mset)
  then have "filter_mset (\<lambda>y. f y \<noteq> f x) N = N"
    by (auto simp: multiset_eq_iff count_eq_zero_iff)
  then show ?thesis
    using assms(1) by simp
qed

interpretation trie: subscription_index index_add index_remove
  "\<lambda>s. trie_paths (fst s)" pid "\<lambda>s. trie_ok (fst s)"
proof (unfold_locales, goal_cases)
  case (1 s e) then show ?case by (simp add: index_add_def insert_levels_ok)
next
  case (2 s i) then show ?case
    by (auto simp: index_remove_def intro: trie_remove_ok split: prod.splits)
next
  case (3 s e) then show ?case by (simp add: index_add_def insert_levels_paths)
next
  case (4 s i)
  obtain snap st b where r: "trie_remove (fst s) (snd s) i = (snap, st, b)"
    by (metis prod_cases3)
  show ?case
  proof (cases b)
    case True
    then obtain ls e where "sub_id e = i" "trie_paths (fst s) = add_mset (ls, e) (trie_paths snap)"
      using trie_remove_hit[of "fst s" "snd s" i snap st] r by auto
    then have "(ls, e) \<in># trie_paths (fst s) \<and> pid (ls, e) = i"
      by (simp add: pid_def)
    then show ?thesis
      using r True by (auto simp: index_remove_def)
  next
    case False
    then have "i \<notin># image_mset pid (trie_paths (fst s))"
      using trie_remove_miss[of "fst s" "snd s" i snap st] r by simp
    then show ?thesis
      using r False by (auto simp: index_remove_def)
  qed
next
  case (5 s i)
  obtain snap st b where r: "trie_remove (fst s) (snd s) i = (snap, st, b)"
    by (metis prod_cases3)
  show ?case
  proof (cases b)
    case True
    then obtain ls e where "sub_id e = i" "trie_paths (fst s) = add_mset (ls, e) (trie_paths snap)"
      using trie_remove_hit[of "fst s" "snd s" i snap st] r by auto
    then show ?thesis
      using filter_other[of "trie_paths (fst s)" "(ls, e)" "trie_paths snap" pid] 5(2) r
      by (simp add: index_remove_def pid_def)
  next
    case False
    then show ?thesis
      using trie_remove_miss[of "fst s" "snd s" i snap st] r
      by (auto simp: index_remove_def multiset_eq_iff count_eq_zero_iff)
  qed
qed

section \<open>Matching\<close>

text \<open>How often a pattern with these levels is reached from a topic with those levels: once by
  every way of following exact and star children, ending in a hash child or with the topic.\<close>

fun pat_count :: "string list \<Rightarrow> string list \<Rightarrow> nat" where
  "pat_count [] ts = (if ts = [] then 1 else 0)"
| "pat_count (p # ps) ts =
     (if p = [hash] \<and> ps = [] then 1 else 0) +
     (case ts of
        [] \<Rightarrow> 0
      | t # ts' \<Rightarrow> (if p = t then pat_count ps ts' else 0) + (if p = [star] then pat_count ps ts' else 0))"

fun deliver :: "type_info \<Rightarrow> string list \<Rightarrow> string list \<times> entry \<Rightarrow> slot_ref multiset" where
  "deliver ty ts (ps, e) = (if etype e = ty then replicate_mset (pat_count ps ts) (slot e) else {#})"

definition deliveries :: "type_info \<Rightarrow> string list \<Rightarrow> (string list \<times> entry) multiset \<Rightarrow> slot_ref multiset" where
  "deliveries ty ts M = (\<Sum>p\<in>#M. deliver ty ts p)"

lemma deliveries_simps [simp]:
  "deliveries ty ts {#} = {#}"
  "deliveries ty ts (M + N) = deliveries ty ts M + deliveries ty ts N"
  "deliveries ty ts (add_mset p M) = deliver ty ts p + deliveries ty ts M"
  by (simp_all add: deliveries_def)

lemma deliveries_sum_list: "deliveries ty ts (\<Sum>x\<leftarrow>xs. f x) = (\<Sum>x\<leftarrow>xs. deliveries ty ts (f x))"
  by (induction xs) auto

lemma deliveries_here:
  "deliveries ty ts (image_mset (Pair []) (mset es)) = (if ts = [] then mset (typed ty es) else {#})"
  by (induction es) (auto simp: typed_def)

definition ends_here :: "type_info \<Rightarrow> string list \<times> entry \<Rightarrow> slot_ref multiset" where
  "ends_here ty p = (if fst p = [] \<and> etype (snd p) = ty then {#slot (snd p)#} else {#})"

lemma sum_ends_here: "(\<Sum>p\<in>#mset (paths n). ends_here ty p) = mset (typed ty (entries n))"
proof (cases n)
  case (Node ch es)
  have "(\<Sum>p\<in>#(\<Sum>(k, c)\<leftarrow>ch. below k c). ends_here ty p) = {#}"
    by (induction ch) (auto simp: ends_here_def)
  moreover have "(\<Sum>p\<in>#image_mset (Pair []) (mset es). ends_here ty p) = mset (typed ty es)"
    by (induction es) (auto simp: ends_here_def typed_def)
  ultimately show ?thesis
    by (simp add: Node mset_paths)
qed

lemma replicate_mset_add: "replicate_mset (m + n) x = replicate_mset m x + replicate_mset n x"
  by (simp add: multiset_eq_iff)

lemma deliver_Cons:
  "deliver ty ts (apfst ((#) k) p) =
     (if k = [hash] then ends_here ty p else {#}) +
     (case ts of [] \<Rightarrow> {#}
      | t # ts' \<Rightarrow> (if k = t then deliver ty ts' p else {#}) + (if k = [star] then deliver ty ts' p else {#}))"
  by (cases p) (auto simp: ends_here_def replicate_mset_add split: list.split)

lemma deliveries_below:
  "deliveries ty ts (below k c) =
     (if k = [hash] then mset (typed ty (entries c)) else {#}) +
     (case ts of [] \<Rightarrow> {#}
      | t # ts' \<Rightarrow> (if k = t then deliveries ty ts' (mset (paths c)) else {#}) +
                  (if k = [star] then deliveries ty ts' (mset (paths c)) else {#}))"
proof -
  have "deliveries ty ts (below k c) = (\<Sum>p\<in>#mset (paths c). deliver ty ts (apfst ((#) k) p))"
    by (simp add: deliveries_def image_mset.compositionality comp_def)
  also have "\<dots> = (if k = [hash] then \<Sum>p\<in>#mset (paths c). ends_here ty p else {#}) +
     (case ts of [] \<Rightarrow> {#}
      | t # ts' \<Rightarrow> (if k = t then deliveries ty ts' (mset (paths c)) else {#}) +
                  (if k = [star] then deliveries ty ts' (mset (paths c)) else {#}))"
    unfolding deliver_Cons deliveries_def
    by (cases ts) (simp_all add: sum_mset.distrib)
  finally show ?thesis
    by (simp add: sum_ends_here)
qed

lemma sum_children:
  fixes f :: "node \<Rightarrow> 'b multiset"
  shows "distinct (map fst ch) \<Longrightarrow>
    (\<Sum>(k, c)\<leftarrow>ch. if k = x then f c else {#}) = (case map_of ch x of None \<Rightarrow> {#} | Some c \<Rightarrow> f c)"
proof (induction ch)
  case (Cons kc ch)
  have "(\<Sum>(k, c)\<leftarrow>ch. if k = x then f c else {#}) = {#}" if "x \<notin> fst ` set ch"
    using that by (induction ch) auto
  then show ?case
    using Cons by (cases kc) auto
qed simp

lemma deliveries_node:
  assumes "distinct (map fst ch)"
  shows "deliveries ty ts (mset (paths (Node ch es))) =
     (if ts = [] then mset (typed ty es) else {#}) +
     (case map_of ch [hash] of None \<Rightarrow> {#} | Some c \<Rightarrow> mset (typed ty (entries c))) +
     (case ts of [] \<Rightarrow> {#}
      | t # ts' \<Rightarrow>
          (case map_of ch t of None \<Rightarrow> {#} | Some c \<Rightarrow> deliveries ty ts' (mset (paths c))) +
          (case map_of ch [star] of None \<Rightarrow> {#} | Some c \<Rightarrow> deliveries ty ts' (mset (paths c))))"
proof -
  have "(\<Sum>(k, c)\<leftarrow>ch. deliveries ty ts (below k c)) =
     (\<Sum>(k, c)\<leftarrow>ch. if k = [hash] then mset (typed ty (entries c)) else {#}) +
     (case ts of [] \<Rightarrow> {#}
      | t # ts' \<Rightarrow>
         (\<Sum>(k, c)\<leftarrow>ch. if k = t then deliveries ty ts' (mset (paths c)) else {#}) +
         (\<Sum>(k, c)\<leftarrow>ch. if k = [star] then deliveries ty ts' (mset (paths c)) else {#}))"
    by (induction ch) (auto simp: deliveries_below split: list.split)
  moreover have "(\<lambda>x. deliveries ty ts (case x of (k, c) \<Rightarrow> below k c)) =
      (\<lambda>(k, c). deliveries ty ts (below k c))"
    by auto
  ultimately show ?thesis
    by (simp add: mset_paths deliveries_here deliveries_sum_list sum_children[OF assms]
        split: list.split)
qed

lemma matchNode_deliveries:
  "node_ok n \<Longrightarrow> d \<le> length ls \<Longrightarrow>
   mset (matchNode n ls d ty out) = mset out + deliveries ty (drop d ls) (mset (paths n))"
proof (induction n ls d ty out rule: matchNode.induct)
  case (1 n ls d ty out)
  obtain ch es where n: "n = Node ch es"
    by (cases n)
  have dist: "distinct (map fst ch)"
    using "1.prems" n by simp
  have okc: "node_ok c" if "map_of ch k = Some c" for k c
    using "1.prems"(1) that by (auto simp: n dest!: map_of_SomeD)
  let ?out1 = "case map_of ch [hash] of Some h \<Rightarrow> out @ typed ty (entries h) | None \<Rightarrow> out"
  let ?out2 = "case map_of ch (ls ! d) of Some c \<Rightarrow> matchNode c ls (d + 1) ty ?out1 | None \<Rightarrow> ?out1"
  have out1: "mset ?out1 = mset out + (case map_of ch [hash] of None \<Rightarrow> {#} | Some c \<Rightarrow> mset (typed ty (entries c)))"
    by (simp split: option.split)
  show ?case
  proof (cases "length ls \<le> d")
    case True
    then have "d = length ls" "drop d ls = []" using "1.prems"(2) by auto
    then show ?thesis
      using out1 by (subst matchNode.simps) (simp add: n Let_def deliveries_node[OF dist])
  next
    case False
    then have dr: "drop d ls = ls ! d # drop (d + 1) ls"
      by (simp add: drop_nth_Cons)
    have exact: "mset ?out2 = mset ?out1 +
        (case map_of ch (ls ! d) of None \<Rightarrow> {#} | Some c \<Rightarrow> deliveries ty (drop (d + 1) ls) (mset (paths c)))"
      using 1(1)[OF refl False] okc False by (auto simp: n split: option.split)
    show ?thesis
      using 1(2)[OF refl False refl] okc False out1 exact
      by (subst matchNode.simps) (auto simp: n Let_def dr deliveries_node[OF dist] split: option.split)
  qed
qed

text \<open>A topic without a lone wildcard as a level reaches a pattern at most once, and exactly when
  their levels match.\<close>

definition concrete :: "string list \<Rightarrow> bool" where
  "concrete ts \<longleftrightarrow> list_all (\<lambda>t. t \<noteq> [star] \<and> t \<noteq> [hash]) ts"

lemma pat_count_level_match:
  "concrete ts \<Longrightarrow> pat_count ps ts = (if level_match ps ts then 1 else 0)"
  by (induction ps ts rule: level_match.induct) (auto simp: concrete_def)

definition matching :: "type_info \<Rightarrow> string list \<Rightarrow> (string list \<times> entry) multiset \<Rightarrow> slot_ref multiset" where
  "matching ty ts M =
     image_mset (\<lambda>p. slot (snd p)) (filter_mset (\<lambda>p. etype (snd p) = ty \<and> level_match (fst p) ts) M)"

lemma deliveries_matching: "concrete ts \<Longrightarrow> deliveries ty ts M = matching ty ts M"
  by (induction M) (auto simp: matching_def pat_count_level_match)

lemma entry_count_0:
  "trie_ok snap \<Longrightarrow> size (trie_paths snap) < 2 ^ 64 \<Longrightarrow> entry_count snap = 0 \<longleftrightarrow> trie_paths snap = {#}"
  using unat_of_nat_small[of "size (trie_paths snap)"]
  by (auto simp: trie_ok_def size_trie_paths[symmetric])

lemma trie_match_deliveries:
  assumes "trie_ok snap" "size (trie_paths snap) < 2 ^ 64"
  shows "mset (trie_match snap topic ty out) =
    mset out + deliveries ty (splitLevels topic) (trie_paths snap)"
  using assms entry_count_0[OF assms] matchNode_deliveries[of "root snap" 0 "splitLevels topic" ty out]
  by (auto simp: trie_match_def trie_ok_def trie_paths_def)

text \<open>C11: on every well-formed trie, for every topic without a lone star or hash as a level,
  \<open>match\<close> appends exactly the slots of the entries whose type is the message's and whose
  pattern matches the topic level by level, each as often as there are such entries.\<close>

theorem trie_match_exact:
  assumes "trie_ok snap" and "size (trie_paths snap) < 2 ^ 64" and "concrete (splitLevels topic)"
  shows "mset (trie_match snap topic ty out) =
    mset out + image_mset (\<lambda>p. slot (snd p))
      {#p \<in># trie_paths snap. etype (snd p) = ty \<and> level_match (fst p) (splitLevels topic)#}"
  using trie_match_deliveries[OF assms(1,2)] deliveries_matching[OF assms(3)]
  by (simp add: matching_def)

definition example_entry :: "nat \<Rightarrow> entry" where
  "example_entry k = \<lparr>etype = 1, slot = k, sub_id = of_nat k\<rparr>"

definition example_trie :: snapshot where
  "example_trie =
     trie_insert (trie_insert trie_new ''s/*/t'' (example_entry 1)) ''s/#'' (example_entry 2)"

lemma example_trie_ok:
  "trie_ok example_trie"
  "trie_paths example_trie =
     {#([''s'', ''*'', ''t''], example_entry 1), ([''s'', ''#''], example_entry 2)#}"
proof -
  have l: "splitLevels ''s/*/t'' = [''s'', ''*'', ''t'']" "splitLevels ''s/#'' = [''s'', ''#'']"
    by (simp_all add: splitLevels_levels code_levels_def)
  show "trie_ok example_trie"
    by (simp add: example_trie_def trie_insert_def insert_levels_ok trie_new_ok)
  show "trie_paths example_trie =
     {#([''s'', ''*'', ''t''], example_entry 1), ([''s'', ''#''], example_entry 2)#}"
    by (simp add: example_trie_def trie_insert_def insert_levels_paths trie_new_ok l add_mset_commute)
qed

theorem trie_match_exact_witness: "mset (trie_match example_trie ''s/x/t'' 1 []) = {#1, 2#}"
proof -
  have l: "splitLevels ''s/x/t'' = [''s'', ''x'', ''t'']"
    by (simp add: splitLevels_levels code_levels_def)
  show ?thesis
    using trie_match_exact[OF example_trie_ok(1), of "''s/x/t''" 1 "[]"]
    by (simp add: example_trie_ok(2) l concrete_def example_entry_def)
qed

text \<open>A topic that does contain a lone wildcard level is not rejected by \<open>publish\<close>; the exact
  child is then the wildcard child, and the entry is matched twice.\<close>

lemma wildcard_topic_matched_twice:
  "trie_match (trie_insert trie_new ''s/*'' (example_entry 7)) ''s/*'' 1 [] = [7, 7]"
  by code_simp

lemma trie_remove_result:
  assumes "trie_ok snap" and "\<forall>j. count (image_mset pid (trie_paths snap)) j \<le> 1"
  shows "case trie_remove snap st i of (snap', st', found) \<Rightarrow>
    trie_ok snap' \<and>
    trie_paths snap' = filter_mset (\<lambda>p. pid p \<noteq> i) (trie_paths snap) \<and>
    (found \<longleftrightarrow> i \<in># image_mset pid (trie_paths snap)) \<and>
    (\<forall>p. p \<in># trie_paths snap \<and> pid p = i \<longrightarrow> st' = fst (store_remove st (slot (snd p)) i)) \<and>
    (\<not> found \<longrightarrow> st' = st \<and> snap' = snap)"
proof -
  obtain snap' st' found where r: "trie_remove snap st i = (snap', st', found)"
    by (metis prod_cases3)
  have ir: "index_remove (snap, st) i = ((snap', st'), found)"
    by (simp add: index_remove_def r)
  have u: "trie.unique (snap, st)"
    using assms(2) by (simp add: trie.unique_def trie.ids_def)
  have paths: "trie_paths snap' = filter_mset (\<lambda>p. pid p \<noteq> i) (trie_paths snap)"
    using trie.entries_remove'[of "(snap, st)" i] assms(1) u ir by simp
  have found: "found \<longleftrightarrow> i \<in># image_mset pid (trie_paths snap)"
    using trie.found_iff[of "(snap, st)" i] assms(1) ir by (simp add: trie.ids_def)
  have store: "st' = fst (store_remove st (slot (snd p)) i)"
    if p: "p \<in># trie_paths snap" "pid p = i" for p
  proof -
    have f: "found" using found p by auto
    then obtain ls e where e: "trie_paths snap = add_mset (ls, e) (trie_paths snap')"
        "st' = fst (store_remove st (slot e) i)"
      using trie_remove_hit[of snap st i snap' st'] r by auto
    have "p \<notin># trie_paths snap'"
      using paths p(2) by simp
    then have "p = (ls, e)"
      using e(1) p(1) by simp
    then show ?thesis using e(2) by simp
  qed
  have store2: "\<forall>a b. (a, b) \<in># trie_paths snap \<and> pid (a, b) = i \<longrightarrow>
      st' = fst (store_remove st (slot b) i)"
    using store by force
  have miss: "\<not> found \<Longrightarrow> st' = st \<and> snap' = snap"
    using trie_remove_miss[of snap st i snap' st'] r by auto
  show ?thesis
    using trie_remove_ok[OF assms(1) r] paths found store2 miss by (simp add: r)
qed

text \<open>C21: removal from a well-formed trie with unique identifiers reports exactly whether the
  identifier was there, takes out exactly its entry, prunes the emptied branch, keeps the entry
  counter right, drops the subscriber from the entry's slot and touches no other slot.\<close>

theorem trie_remove_exact:
  assumes "trie_ok snap" and "\<forall>j. count (image_mset pid (trie_paths snap)) j \<le> 1"
  shows "case trie_remove snap st i of (snap', st', found) \<Rightarrow>
    trie_ok snap' \<and>
    trie_paths snap' = filter_mset (\<lambda>p. pid p \<noteq> i) (trie_paths snap) \<and>
    (found \<longleftrightarrow> i \<in># image_mset pid (trie_paths snap)) \<and>
    (\<forall>p. p \<in># trie_paths snap \<and> pid p = i \<longrightarrow> st' = fst (store_remove st (slot (snd p)) i)) \<and>
    (\<not> found \<longrightarrow> st' = st \<and> snap' = snap)"
  using assms by (rule trie_remove_result)

theorem trie_remove_exact_witness:
  "trie_paths (fst (trie_remove example_trie Map.empty 1)) = {#([''s'', ''#''], example_entry 2)#}"
proof -
  have "\<forall>j. count (image_mset pid (trie_paths example_trie)) j \<le> 1"
    by (simp add: example_trie_ok(2) pid_def example_entry_def)
  then show ?thesis
    using trie_remove_exact[OF example_trie_ok(1), where st = Map.empty and i = 1]
    by (auto simp: example_trie_ok(2) pid_def example_entry_def split: prod.splits)
qed

text \<open>C14: a trie built by any sequence of \<open>insert\<close> calls with valid patterns matches exactly the
  subscriptions whose pattern satisfies the index-based matcher \<open>topicMatches\<close>: the trie is an
  index for the linear scan it replaces.\<close>

theorem trie_equals_linear_scan:
  assumes "list_all (\<lambda>(pattern, e). pattern_ok (levels pattern)) subs"
    and "length subs < 2 ^ 64"
    and "topic \<noteq> []" and "last topic \<noteq> slash" and "concrete (levels topic)"
  shows "mset (trie_match (fold (\<lambda>(pattern, e) snap. trie_insert snap pattern e) subs trie_new) topic ty []) =
    mset (map (\<lambda>(pattern, e). slot e)
           (filter (\<lambda>(pattern, e). etype e = ty \<and> topicMatches pattern topic) subs))"
proof -
  let ?ins = "\<lambda>(pattern, e) snap. trie_insert snap pattern e"
  have built: "trie_ok (fold ?ins subs snap) \<and>
      trie_paths (fold ?ins subs snap) = mset (map (apfst splitLevels) subs) + trie_paths snap"
    if "trie_ok snap" for snap
    using that
    by (induction subs arbitrary: snap)
       (auto simp: trie_insert_def insert_levels_ok insert_levels_paths)
  let ?snap = "fold ?ins subs trie_new"
  have paths: "trie_paths ?snap = mset (map (apfst splitLevels) subs)" and ok: "trie_ok ?snap"
    using built[OF trie_new_ok(1)] trie_new_ok(2) by simp_all
  have pat: "level_match (splitLevels p) (levels topic) = topicMatches p topic"
    if "(p, e) \<in> set subs" for p e
  proof -
    have okp: "pattern_ok (levels p)"
      using assms(1) that by (auto simp: list_all_iff)
    have "ls \<noteq> [] \<Longrightarrow> pattern_ok ls \<Longrightarrow> last ls \<noteq> []" for ls
      by (induction ls) auto
    then have "last (levels p) \<noteq> []"
      using okp by simp
    then have "splitLevels p = levels p"
      by (simp add: splitLevels_levels code_levels_def)
    then show ?thesis
      using topicMatches_scan scan_match_levels okp assms(3,4) last_levels_Nil[of topic] levels_noslash
      by (metis (no_types, lifting) Un_iff join_levels levels_not_Nil)
  qed
  have "mset (trie_match ?snap topic ty []) =
      image_mset (\<lambda>p. slot (snd p)) (filter_mset (\<lambda>p. etype (snd p) = ty \<and>
        level_match (fst p) (levels topic)) (mset (map (apfst splitLevels) subs)))"
    using trie_match_deliveries[OF ok] deliveries_matching[OF assms(5), of ty] assms(2)
      splitLevels_noslash[OF assms(3,4)]
    by (simp add: paths matching_def)
  also have "\<dots> = mset (map (\<lambda>(pattern, e). slot e)
      (filter (\<lambda>(pattern, e). etype e = ty \<and> topicMatches pattern topic) subs))"
  proof -
    have "filter (\<lambda>p. etype (snd (apfst splitLevels p)) = ty \<and>
          level_match (fst (apfst splitLevels p)) (levels topic)) subs =
        filter (\<lambda>(pattern, e). etype e = ty \<and> topicMatches pattern topic) subs"
      by (rule filter_cong) (use pat in auto)
    moreover have "(\<lambda>(pattern::string, e::entry). slot e) = (\<lambda>p. slot (snd p))"
      by auto
    ultimately show ?thesis
      by (simp add: filter_map comp_def flip: mset_filter mset_map)
  qed
  finally show ?thesis .
qed

theorem trie_equals_linear_scan_witness:
  "mset (trie_match (fold (\<lambda>(pattern, e) snap. trie_insert snap pattern e)
      [(''s/*'', example_entry 1), (''s/t/#'', example_entry 2)] trie_new) ''s/u'' 1 []) = {#1#}"
proof -
  have "topicMatches ''s/*'' ''s/u''" "\<not> topicMatches ''s/t/#'' ''s/u''"
    by code_simp+
  then show ?thesis
    using trie_equals_linear_scan[of "[(''s/*'', example_entry 1), (''s/t/#'', example_entry 2)]" "''s/u''" 1]
    by (simp add: plain_level_def concrete_def example_entry_def)
qed

end
