(* ===== verification/Bus_Publish.thy ===== *)
theory Bus_Publish
  imports Message Wildcard_Trie
begin

text \<open>
  \<open>message_bus.h\<close>, first part: the state of \<open>MessageBus\<close>, its construction, message creation and
  \<open>publish\<close> in its three forms, and \<open>enqueueMessage\<close> with the five policies for a full queue. A
  blocked publisher waits for its condition variable: what other threads do between two
  evaluations of the predicate is a list of arbitrary changes of the bus, given to the call.
\<close>

section \<open>State\<close>

datatype full_policy = ReturnFalse | DropOldest | DropNewest | Block | BlockTimeout

record sub_info =
  tid :: topic_id
  is_wildcard :: bool

record 'd bus =
  policy :: full_policy
  queue :: "msg_ptr lfq"
  queue_capacity :: size_t
  num_dispatchers :: "32 word"
  running :: bool
  bmem :: "'d mem"
  registry :: registry
  slots :: "topic_id \<rightharpoonup> slot_ref"
  store :: slot_store
  next_slot :: slot_ref
  trie :: snapshot
  sub_to_topic :: "sub_id \<rightharpoonup> sub_info"
  next_sub_id :: sub_id

text \<open>The constructor; \<open>hardware\<close> is \<open>std::thread::hardware_concurrency()\<close>, and \<open>m\<close> the memory of
  the process.\<close>

definition bus_new :: "32 word \<Rightarrow> 'd mem \<Rightarrow> size_t \<Rightarrow> 32 word \<Rightarrow> full_policy \<Rightarrow> 'd bus" where
  "bus_new hardware m capacity dispatchers pol =
     \<lparr>policy = pol, queue = lfq_new capacity, queue_capacity = capacity,
      num_dispatchers = (if dispatchers = 0 then max 1 hardware else dispatchers),
      running = False, bmem = m, registry = registry_new, slots = Map.empty, store = Map.empty,
      next_slot = 0, trie = trie_new, sub_to_topic = Map.empty, next_sub_id = 0\<rparr>"

section \<open>Enqueueing\<close>

text \<open>Destruction of a local pointer.\<close>

definition destroy :: "msg_ptr \<Rightarrow> 'd bus \<Rightarrow> 'd bus option" where
  "destroy p b = do { (m, _) \<leftarrow> mp_reset p (bmem b); Some (b\<lparr>bmem := m\<rparr>) }"

text \<open>\<open>queue_.try_enqueue(v)\<close>: the parameter \<open>param\<close> is moved into a cell, or destroyed at the end of
  a refused call. It is initialised by a copy of \<open>mptr\<close>, or by a move from it.\<close>

definition enqueue_param :: "msg_ptr \<Rightarrow> 'd bus \<Rightarrow> ('d bus \<times> bool) option" where
  "enqueue_param param b =
     do { (q, ok) \<leftarrow> try_enqueue (queue b) param;
          let b1 = b\<lparr>queue := q\<rparr>;
          b2 \<leftarrow> (if ok then Some b1 else destroy param b1);
          Some (b2, ok) }"

definition enqueue_copy :: "msg_ptr \<Rightarrow> 'd bus \<Rightarrow> ('d bus \<times> bool) option" where
  "enqueue_copy mptr b =
     do { (m, param) \<leftarrow> mp_copy mptr (bmem b); enqueue_param param (b\<lparr>bmem := m\<rparr>) }"

text \<open>\<open>queue_.try_dequeue(v)\<close> into the pointer \<open>old\<close>: the cell's pointer is moved into it.\<close>

definition dequeue_into :: "msg_ptr \<Rightarrow> 'd bus \<Rightarrow> ('d bus \<times> bool \<times> msg_ptr) option" where
  "dequeue_into old b =
     do { (q, ok, x) \<leftarrow> try_dequeue (queue b);
          let b1 = b\<lparr>queue := q\<rparr>;
          if ok then
            do { (m, p, _) \<leftarrow> mp_move_assign False old (Option.bind x id) (bmem b1);
                 Some (b1\<lparr>bmem := m\<rparr>, True, p) }
          else Some (b1, False, old) }"

definition notify :: "msg_ptr \<Rightarrow> 'd bus \<Rightarrow> 'd bus option" where
  "notify p b = do { a \<leftarrow> p; m \<leftarrow> notify_drop a (bmem b); Some (b\<lparr>bmem := m\<rparr>) }"

text \<open>The retry loop of \<open>DropOldest\<close>, run under \<open>publish_mutex_\<close>.\<close>

partial_function (option) drop_retry :: "msg_ptr \<Rightarrow> msg_ptr \<Rightarrow> 'd bus \<Rightarrow> ('d bus \<times> msg_ptr) option" where
  "drop_retry mptr oldest b =
     Option.bind (enqueue_copy mptr b) (\<lambda>(b1, ok).
       if ok then Some (b1, oldest)
       else Option.bind (dequeue_into oldest b1) (\<lambda>(b2, got, oldest').
         Option.bind (if got then notify oldest' b2 else Some b2) (\<lambda>b3.
           drop_retry mptr oldest' b3)))"

declare drop_retry.simps [code]

definition drop_oldest :: "msg_ptr \<Rightarrow> 'd bus \<Rightarrow> 'd bus option" where
  "drop_oldest mptr b =
     do { (b1, ok) \<leftarrow> enqueue_copy mptr b;
          if ok then Some b1
          else
            do { (b2, got, oldest) \<leftarrow> dequeue_into None b1;
                 b3 \<leftarrow> (if got then notify oldest b2 else Some b2);
                 (b4, oldest') \<leftarrow> drop_retry mptr oldest b3;
                 destroy oldest' b4 } }"

text \<open>Waiting for \<open>cv_not_full_\<close>: the predicate is evaluated at once and after every wake-up; each
  element of the list is what other threads did to the bus before a wake-up, and whether the
  deadline has passed then. After a timeout the predicate is evaluated a last time. The result
  of the call is the value of \<open>enqueued\<close> (here \<open>ok\<close>); \<open>None\<close> inside is a publisher that is still blocked.\<close>

datatype 'd wake = Woken "'d bus \<Rightarrow> 'd bus" | Deadline "'d bus \<Rightarrow> 'd bus"

definition not_full_pred :: "msg_ptr \<Rightarrow> 'd bus \<Rightarrow> ('d bus \<times> bool \<times> bool) option" where
  "not_full_pred mptr b =
     (if \<not> running b then Some (b, True, False)
      else do { (b', ok) \<leftarrow> enqueue_copy mptr b; Some (b', ok, ok) })"

fun wait_not_full :: "msg_ptr \<Rightarrow> 'd wake list \<Rightarrow> 'd bus \<Rightarrow> ('d bus \<times> bool option) option" where
  "wait_not_full mptr [] b =
     do { (b', done', ok) \<leftarrow> not_full_pred mptr b;
          Some (b', if done' then Some ok else None) }"
| "wait_not_full mptr (Woken env # ws) b =
     do { (b', done', ok) \<leftarrow> not_full_pred mptr b;
          if done' then Some (b', Some ok) else wait_not_full mptr ws (env b') }"
| "wait_not_full mptr (Deadline env # ws) b =
     do { (b', done', ok) \<leftarrow> not_full_pred mptr b;
          if done' then Some (b', Some ok)
          else do { (b'', _, ok') \<leftarrow> not_full_pred mptr (env b'); Some (b'', Some ok') } }"

text \<open>\<open>BlockTimeout\<close> and \<open>Block\<close> differ in the wait they use: \<open>wait\<close> has no deadline.\<close>

definition no_deadline :: "'d wake \<Rightarrow> 'd wake" where
  "no_deadline w = (case w of Woken env \<Rightarrow> Woken env | Deadline env \<Rightarrow> Woken env)"

definition blocking_enqueue :: "msg_ptr \<Rightarrow> 'd wake list \<Rightarrow> 'd bus \<Rightarrow> ('d bus \<times> bool option) option" where
  "blocking_enqueue mptr ws b =
     do { (b1, ok) \<leftarrow> enqueue_copy mptr b;
          if ok then Some (b1, Some True) else wait_not_full mptr ws b1 }"

text \<open>\<open>enqueueMessage\<close> owns its parameter and destroys it when it returns.\<close>

definition enqueueMessage :: "'d wake list \<Rightarrow> msg_ptr \<Rightarrow> 'd bus \<Rightarrow> ('d bus \<times> bool option) option" where
  "enqueueMessage ws mptr b =
     (case policy b of
        ReturnFalse \<Rightarrow>
          (case mp_move mptr of (param, mptr') \<Rightarrow>
             do { (b1, ok) \<leftarrow> enqueue_param param b;
                  b2 \<leftarrow> destroy mptr' b1;
                  Some (b2, Some ok) })
      | DropNewest \<Rightarrow>
          do { (b1, ok) \<leftarrow> enqueue_copy mptr b;
               b2 \<leftarrow> (if ok then Some b1 else notify mptr b1);
               b3 \<leftarrow> destroy mptr b2;
               Some (b3, Some True) }
      | DropOldest \<Rightarrow>
          do { b1 \<leftarrow> drop_oldest mptr b;
               b2 \<leftarrow> destroy mptr b1;
               Some (b2, Some True) }
      | Block \<Rightarrow>
          do { (b1, r) \<leftarrow> blocking_enqueue mptr (map no_deadline ws) b;
               (case r of
                  None \<Rightarrow> Some (b1, None)
                | Some ok \<Rightarrow> do { b2 \<leftarrow> destroy mptr b1; Some (b2, Some ok) }) }
      | BlockTimeout \<Rightarrow>
          do { (b1, r) \<leftarrow> blocking_enqueue mptr ws b;
               (case r of
                  None \<Rightarrow> Some (b1, None)
                | Some ok \<Rightarrow> do { b2 \<leftarrow> destroy mptr b1; Some (b2, Some ok) }) })"

section \<open>Publishing\<close>

text \<open>The message is taken from the pool of its type and reset, or newly allocated, and given its
  recycler, its topic string and its drop callback.\<close>

definition build_message ::
    "type_info \<Rightarrow> topic_id \<Rightarrow> string \<Rightarrow> 'd \<Rightarrow> handler_ref option \<Rightarrow> 'd mem \<Rightarrow> ('d mem \<times> addr) option" where
  "build_message ty i sv d cb m =
     do { (m1, pooled') \<leftarrow> pool_acquire ty m;
          (m2, raw) \<leftarrow> (case pooled' of
               Some a \<Rightarrow> do { m' \<leftarrow> reset_message a i d m1; Some (m', a) }
             | None \<Rightarrow> Some (new_message ty i d m1));
          m3 \<leftarrow> update_msg raw (\<lambda>msg. msg\<lparr>recycler := True\<rparr>) m2;
          m4 \<leftarrow> set_topic_sv raw sv m3;
          m5 \<leftarrow> update_msg raw (\<lambda>msg. msg\<lparr>on_drop := cb\<rparr>) m4;
          Some (m5, raw) }"

text \<open>\<open>cb\<close> is the drop callback, \<open>None\<close> for the form without one and for an empty function object.\<close>

definition publish ::
    "'d wake list \<Rightarrow> type_info \<Rightarrow> string \<Rightarrow> 'd \<Rightarrow> handler_ref option \<Rightarrow> 'd bus \<Rightarrow> ('d bus \<times> bool option) option" where
  "publish ws ty topic d cb b =
     (case resolve (registry b) topic of (rg, i) \<Rightarrow>
        do { (m, raw) \<leftarrow> build_message ty i (to_string rg i) d cb (bmem b);
             (m', mptr) \<leftarrow> mp_adopt (Some raw) m;
             enqueueMessage ws mptr (b\<lparr>registry := rg, bmem := m'\<rparr>) })"

text \<open>\<open>TopicHandle\<close>: the topic is resolved once.\<close>

record topic_handle =
  h_tid :: topic_id
  h_topic_sv :: string
  cached_on_drop :: "handler_ref option"

definition make_handle :: "string \<Rightarrow> handler_ref option \<Rightarrow> 'd bus \<Rightarrow> 'd bus \<times> topic_handle" where
  "make_handle topic cb b =
     (case resolve (registry b) topic of (rg, i) \<Rightarrow>
        (b\<lparr>registry := rg\<rparr>, \<lparr>h_tid = i, h_topic_sv = to_string rg i, cached_on_drop = cb\<rparr>))"

definition handle_publish ::
    "'d wake list \<Rightarrow> type_info \<Rightarrow> topic_handle \<Rightarrow> 'd \<Rightarrow> 'd bus \<Rightarrow> ('d bus \<times> bool option) option" where
  "handle_publish ws ty h d b =
     do { (m, raw) \<leftarrow> build_message ty (h_tid h) (h_topic_sv h) d (cached_on_drop h) (bmem b);
          (m', mptr) \<leftarrow> mp_adopt (Some raw) m;
          enqueueMessage ws mptr (b\<lparr>bmem := m'\<rparr>) }"

section \<open>Ownership of the queued messages\<close>

text \<open>\<open>refs\<close> are the references held outside the queue: by publishers, dispatchers, other buses.
  Every queued pointer is non-null and counted.\<close>

definition queued :: "'d bus \<Rightarrow> msg_ptr list" where
  "queued b = lfq_list (queue b)"

definition bus_ok :: "addr multiset \<Rightarrow> 'd bus \<Rightarrow> bool" where
  "bus_ok refs b \<longleftrightarrow>
     lfq_inv (queue b) \<and> None \<notin> set (queued b) \<and> mem_ok (held (queued b) + refs) {} (bmem b)"

definition full :: "'d bus \<Rightarrow> bool" where
  "full b \<longleftrightarrow> length (queued b) = lfq_cap (queue b)"

text \<open>Only the queue's contents and the memory change, and of the messages in \<open>A\<close> only counts and
  callbacks.\<close>

definition evolves :: "addr set \<Rightarrow> 'd bus \<Rightarrow> 'd bus \<Rightarrow> bool" where
  "evolves A b b' \<longleftrightarrow>
     b' = b\<lparr>queue := queue b', bmem := bmem b'\<rparr> \<and> lfq_cap (queue b') = lfq_cap (queue b) \<and>
     keeps A (bmem b) (bmem b')"

lemma evolves_trans:
  assumes "evolves A b b1" "evolves A b1 b2"
  shows "evolves A b b2"
proof -
  have 1: "b1 = b\<lparr>queue := queue b1, bmem := bmem b1\<rparr>"
    and 2: "b2 = b1\<lparr>queue := queue b2, bmem := bmem b2\<rparr>"
    using assms by (simp_all add: evolves_def)
  have "b2 = b\<lparr>queue := queue b1, bmem := bmem b1\<rparr>\<lparr>queue := queue b2, bmem := bmem b2\<rparr>"
    using 1 2 by metis
  then show ?thesis
    using assms by (auto simp: evolves_def intro: keeps_trans)
qed

lemma evolves_mono: "evolves B b b' \<Longrightarrow> A \<subseteq> B \<Longrightarrow> evolves A b b'"
  by (auto simp: evolves_def intro: keeps_mono)

lemma evolves_refl [simp]: "evolves A b b"
  by (simp add: evolves_def)

lemma evolves_mem: "keeps A (bmem b) m \<Longrightarrow> evolves A b (b\<lparr>bmem := m\<rparr>)"
  by (simp add: evolves_def)

lemma evolves_fields:
  assumes "evolves A b b'"
  shows "policy b' = policy b" "running b' = running b" "lfq_cap (queue b') = lfq_cap (queue b)"
    "registry b' = registry b" "trie b' = trie b" "store b' = store b" "slots b' = slots b"
    "sub_to_topic b' = sub_to_topic b" "next_slot b' = next_slot b" "next_sub_id b' = next_sub_id b"
    "keeps A (bmem b) (bmem b')"
proof -
  have e: "b' = b\<lparr>queue := queue b', bmem := bmem b'\<rparr>"
    using assms by (simp add: evolves_def)
  show "policy b' = policy b" "running b' = running b" "registry b' = registry b"
      "trie b' = trie b" "store b' = store b" "slots b' = slots b"
      "sub_to_topic b' = sub_to_topic b" "next_slot b' = next_slot b" "next_sub_id b' = next_sub_id b"
    by (subst e, simp)+
qed (use assms in \<open>simp_all add: evolves_def\<close>)

lemma full_bound: "bus_ok refs b \<Longrightarrow> \<not> full b \<Longrightarrow> length (queued b) < lfq_cap (queue b)"
  using lfq.bounded[of "queue b"] by (auto simp: bus_ok_def full_def queued_def)

lemma destroy_ok:
  assumes "bus_ok (holds p + refs) b"
  shows "\<exists>b'. destroy p b = Some b' \<and> bus_ok refs b' \<and> evolves (set_mset (held (queued b) + refs)) b b' \<and>
    queued b' = queued b \<and> dropped (bmem b') = dropped (bmem b)"
proof -
  have "mem_ok (holds p + (held (queued b) + refs)) {} (bmem b)"
    using assms by (simp add: bus_ok_def ac_simps)
  then obtain m where m: "mp_reset p (bmem b) = Some (m, None)" "mem_ok (held (queued b) + refs) {} m"
    "keeps (set_mset (held (queued b) + refs)) (bmem b) m" "dropped m = dropped (bmem b)"
    using mp_reset_ptr[of p "held (queued b) + refs" "{}" "bmem b"] by auto
  then show ?thesis
    using assms by (auto simp: destroy_def bus_ok_def queued_def intro!: evolves_mem)
qed

lemma enqueue_param_ok:
  assumes "bus_ok (add_mset a refs) b"
  shows "\<exists>b'. enqueue_param (Some a) b = Some (b', \<not> full b) \<and> bus_ok refs b' \<and>
    evolves (set_mset (held (queued b') + refs)) b b' \<and>
    queued b' = (if full b then queued b else queued b @ [Some a]) \<and>
    dropped (bmem b') = dropped (bmem b)"
proof -
  have inv: "lfq_inv (queue b)"
    using assms by (simp add: bus_ok_def)
  show ?thesis
  proof (cases "full b")
    case True
    then have "try_enqueue (queue b) (Some a) = Some (queue b, False)"
      using lfq.enq_full[OF inv] by (simp add: full_def queued_def)
    then show ?thesis
      using True destroy_ok[of "Some a" refs b] assms by (auto simp: enqueue_param_def)
  next
    case False
    then obtain q where q: "try_enqueue (queue b) (Some a) = Some (q, True)" "lfq_inv q"
        "lfq_cap q = lfq_cap (queue b)" "lfq_list q = queued b @ [Some a]"
      using lfq.enq_free[OF inv] full_bound[OF assms] by (metis queued_def)
    then show ?thesis
      using False assms by (auto simp: enqueue_param_def bus_ok_def queued_def evolves_def)
  qed
qed

lemma enqueue_copy_ok:
  assumes "bus_ok refs b" "a \<in># refs"
  shows "\<exists>b'. enqueue_copy (Some a) b = Some (b', \<not> full b) \<and> bus_ok refs b' \<and>
    evolves (set_mset (held (queued b) + refs)) b b' \<and>
    queued b' = (if full b then queued b else queued b @ [Some a]) \<and>
    dropped (bmem b') = dropped (bmem b)"
proof -
  have "mem_ok (held (queued b) + refs) {} (bmem b)"
    using assms by (simp add: bus_ok_def)
  then obtain m where m: "mp_copy (Some a) (bmem b) = Some (m, Some a)"
      "mem_ok (add_mset a (held (queued b) + refs)) {} m" "keeps UNIV (bmem b) m"
      "dropped m = dropped (bmem b)"
    using mp_copy_ok[of "held (queued b) + refs" "{}" "bmem b" "Some a"] assms(2) by auto
  let ?b = "b\<lparr>bmem := m\<rparr>"
  have q: "queued ?b = queued b" "full ?b = full b"
    by (simp_all add: queued_def full_def)
  have "bus_ok (add_mset a refs) ?b"
    using assms m by (simp add: bus_ok_def queued_def)
  then obtain b' where b': "enqueue_param (Some a) ?b = Some (b', \<not> full b)" "bus_ok refs b'"
      "evolves (set_mset (held (queued b') + refs)) ?b b'"
      "queued b' = (if full b then queued b else queued b @ [Some a])" "dropped (bmem b') = dropped m"
    using enqueue_param_ok[of a refs ?b] q by auto
  moreover have "evolves (set_mset (held (queued b) + refs)) b ?b"
    using m(3) by (auto intro: evolves_mem keeps_mono)
  moreover have "evolves (set_mset (held (queued b) + refs)) ?b b'"
    using b'(3) by (rule evolves_mono) (use b'(4) in auto)
  ultimately show ?thesis
    using m evolves_trans[of _ b ?b b'] by (simp add: enqueue_copy_def)
qed

lemma dequeue_into_empty:
  "bus_ok refs b \<Longrightarrow> queued b = [] \<Longrightarrow> dequeue_into old b = Some (b, False, old)"
  using lfq.deq_none[of "queue b"] by (simp add: dequeue_into_def bus_ok_def queued_def)

lemma dequeue_into_ok:
  assumes "bus_ok (holds old + refs) b" "queued b = p # rest"
  shows "\<exists>b' a. p = Some a \<and> dequeue_into old b = Some (b', True, p) \<and> bus_ok (add_mset a refs) b' \<and>
    evolves (set_mset (held (queued b) + refs)) b b' \<and> queued b' = rest \<and>
    dropped (bmem b') = dropped (bmem b)"
proof -
  obtain a where p: "p = Some a"
    using assms by (cases p) (auto simp: bus_ok_def)
  obtain q where q: "try_dequeue (queue b) = Some (q, True, Some p)" "lfq_inv q"
      "lfq_cap q = lfq_cap (queue b)" "lfq_list q = rest"
    using lfq.deq_some[of "queue b" p rest] assms by (auto simp: bus_ok_def queued_def)
  have "mem_ok (holds old + (holds p + (held rest + refs))) {} (bmem b)"
    using assms by (simp add: bus_ok_def ac_simps)
  then obtain m where m: "mp_move_assign False old p (bmem b) = Some (m, p, None)"
      "mem_ok (holds p + (held rest + refs)) {} m" "dropped m = dropped (bmem b)"
      "keeps (set_mset (holds p + (held rest + refs))) (bmem b) m"
    using mp_move_assign_ok[of old p "held rest + refs" "{}" "bmem b"] by auto
  let ?b = "b\<lparr>queue := q, bmem := m\<rparr>"
  have "dequeue_into old b = Some (?b, True, p)"
    using q m(1) p by (simp add: dequeue_into_def)
  moreover have "bus_ok (add_mset a refs) ?b"
    using q m(2) p assms by (simp add: bus_ok_def queued_def)
  moreover have "evolves (set_mset (held (queued b) + refs)) b ?b"
    using q m(4) assms(2) by (simp add: evolves_def Un_assoc)
  moreover have "queued ?b = rest" "dropped (bmem ?b) = dropped (bmem b)"
    using q m(3) by (simp_all add: queued_def)
  ultimately show ?thesis
    using p by blast
qed

lemma notify_ok:
  assumes "bus_ok refs b" "a \<in># refs"
  shows "\<exists>b' msg. notify (Some a) b = Some b' \<and> heap (bmem b) a = Some msg \<and> bus_ok refs b' \<and>
    evolves (- {a}) b b' \<and> keeps_data UNIV (bmem b) (bmem b') \<and>
    heap (bmem b') = (heap (bmem b))(a \<mapsto> msg\<lparr>on_drop := None\<rparr>) \<and>
    queued b' = queued b \<and> dropped (bmem b') = dropped (bmem b) @ drop_note msg"
proof -
  have "mem_ok (held (queued b) + refs) {} (bmem b)"
    using assms by (simp add: bus_ok_def)
  then obtain m msg where "notify_drop a (bmem b) = Some m" "heap (bmem b) a = Some msg"
      "mem_ok (held (queued b) + refs) {} m" "keeps (- {a}) (bmem b) m" "keeps_data UNIV (bmem b) m"
      "dropped m = dropped (bmem b) @ drop_note msg"
      "heap m = (heap (bmem b))(a \<mapsto> msg\<lparr>on_drop := None\<rparr>)"
    using notify_drop_ok[of "held (queued b) + refs" "{}" "bmem b" a] assms(2) by auto
  then show ?thesis
    using assms by (auto simp: notify_def bus_ok_def queued_def intro!: evolves_mem)
qed

definition evolves_data :: "addr set \<Rightarrow> 'd bus \<Rightarrow> 'd bus \<Rightarrow> bool" where
  "evolves_data A b b' \<longleftrightarrow>
     b' = b\<lparr>queue := queue b', bmem := bmem b'\<rparr> \<and> lfq_cap (queue b') = lfq_cap (queue b) \<and>
     keeps_data A (bmem b) (bmem b')"

lemma evolves_data_refl [simp]: "evolves_data A b b"
  by (simp add: evolves_data_def keeps_data_def)

lemma evolves_imp_data: "evolves B b b' \<Longrightarrow> A \<subseteq> B \<Longrightarrow> evolves_data A b b'"
  unfolding evolves_def evolves_data_def by (blast intro: keeps_imp_data keeps_mono)

lemma evolves_data_trans:
  assumes "evolves_data A b b1" "evolves_data A b1 b2"
  shows "evolves_data A b b2"
proof -
  have 1: "b1 = b\<lparr>queue := queue b1, bmem := bmem b1\<rparr>"
    and 2: "b2 = b1\<lparr>queue := queue b2, bmem := bmem b2\<rparr>"
    using assms by (simp_all add: evolves_data_def)
  have "b2 = b\<lparr>queue := queue b1, bmem := bmem b1\<rparr>\<lparr>queue := queue b2, bmem := bmem b2\<rparr>"
    using 1 2 by metis
  then show ?thesis
    using assms by (auto simp: evolves_data_def keeps_data_def)
qed

lemma evolves_data_mono: "evolves_data B b b' \<Longrightarrow> A \<subseteq> B \<Longrightarrow> evolves_data A b b'"
  by (auto simp: evolves_data_def keeps_data_def)

definition note_of :: "'d bus \<Rightarrow> msg_ptr \<Rightarrow> (handler_ref \<times> string \<times> 'd) list" where
  "note_of b p = (case Option.bind p (heap (bmem b)) of None \<Rightarrow> [] | Some msg \<Rightarrow> drop_note msg)"

lemma note_of_keeps:
  assumes "evolves A b b1" "a \<in> A"
  shows "note_of b1 (Some a) = note_of b (Some a)"
proof -
  have k: "keeps A (bmem b) (bmem b1)"
    using assms by (simp add: evolves_def)
  then have e: "map_option payload (heap (bmem b1) a) = map_option payload (heap (bmem b) a)"
    using assms(2) by (simp add: keeps_def)
  show ?thesis
  proof (cases "heap (bmem b) a")
    case None
    then show ?thesis using e by (simp add: note_of_def)
  next
    case (Some msg)
    then obtain msg' where "heap (bmem b1) a = Some msg'"
      using e by auto
    then show ?thesis
      using keeps_same_note[OF k assms(2)] Some by (simp add: note_of_def)
  qed
qed

lemma notify_note:
  assumes "bus_ok refs b" "a \<in># refs"
  shows "\<exists>b'. notify (Some a) b = Some b' \<and> bus_ok refs b' \<and> evolves (- {a}) b b' \<and> evolves_data UNIV b b' \<and>
    queued b' = queued b \<and> dropped (bmem b') = dropped (bmem b) @ note_of b (Some a)"
  using notify_ok[OF assms]
  by (fastforce simp: note_of_def evolves_def evolves_data_def)

text \<open>The message whose drop callback a call uses up, if the queue is full.\<close>

definition given_up :: "'d bus \<Rightarrow> addr \<Rightarrow> addr set" where
  "given_up b a =
     (if \<not> full b then {}
      else case policy b of DropOldest \<Rightarrow> set_option (hd (queued b)) | DropNewest \<Rightarrow> {a} | _ \<Rightarrow> {})"

lemma drop_oldest_ok:
  assumes ok: "bus_ok refs b" and a: "a \<in># refs"
  shows "\<exists>b'. drop_oldest (Some a) b = Some b' \<and> bus_ok refs b' \<and>
    evolves_data (set_mset (held (queued b') + refs)) b b' \<and>
    evolves (set_mset (held (queued b') + refs) - (if full b then set_option (hd (queued b)) else {})) b b' \<and>
    queued b' = (if full b then tl (queued b) else queued b) @ [Some a] \<and>
    dropped (bmem b') = dropped (bmem b) @ (if full b then note_of b (hd (queued b)) else [])"
proof -
  let ?A = "set_mset (held (queued b) + refs)"
  obtain b1 where b1: "enqueue_copy (Some a) b = Some (b1, \<not> full b)" "bus_ok refs b1" "evolves ?A b b1"
      "queued b1 = (if full b then queued b else queued b @ [Some a])"
      "dropped (bmem b1) = dropped (bmem b)"
    using enqueue_copy_ok[OF assms] by auto
  show ?thesis
  proof (cases "full b")
    case False
    have "set_mset (held (queued b1) + refs) \<subseteq> ?A"
      using b1(4) False a by auto
    then show ?thesis
      using b1 False evolves_imp_data[OF b1(3)] evolves_mono[OF b1(3)] by (auto simp: drop_oldest_def)
  next
    case True
    have "0 < lfq_cap (queue b)"
      using ok lfq.cap_pos by (auto simp: bus_ok_def)
    then obtain p rest where q: "queued b = p # rest"
      using True by (cases "queued b") (auto simp: full_def)
    have qb: "queued b1 = queued b" using b1(4) True by simp
    have ok1: "bus_ok (holds None + refs) b1" using b1(2) by simp
    obtain b2 h where b2: "p = Some h" "dequeue_into None b1 = Some (b2, True, p)"
        "bus_ok (add_mset h refs) b2" "evolves ?A b1 b2" "queued b2 = rest"
        "dropped (bmem b2) = dropped (bmem b1)"
      using dequeue_into_ok[OF ok1 q[folded qb]] unfolding qb by blast
    have hA: "h \<in> ?A" using q b2(1) by simp
    obtain b3 where b3: "notify (Some h) b2 = Some b3" "bus_ok (add_mset h refs) b3" "evolves_data UNIV b2 b3" "evolves (- {h}) b2 b3"
        "queued b3 = rest" "dropped (bmem b3) = dropped (bmem b2) @ note_of b2 (Some h)"
      using notify_note[OF b2(3), of h] b2(5) by auto
    have nt: "note_of b2 (Some h) = note_of b (Some h)"
      using note_of_keeps[OF evolves_trans[OF b1(3) b2(4)] hA] .
    have cap: "lfq_cap (queue b3) = lfq_cap (queue b)"
      using b1(3) b2(4) b3(3) by (simp add: evolves_def evolves_data_def)
    have nf: "\<not> full b3"
      using True q cap b3(5) by (simp add: full_def)
    let ?A3 = "set_mset (held (queued b3) + add_mset h refs)"
    obtain b4 where b4: "enqueue_copy (Some a) b3 = Some (b4, True)" "bus_ok (add_mset h refs) b4"
        "evolves ?A3 b3 b4" "queued b4 = rest @ [Some a]" "dropped (bmem b4) = dropped (bmem b3)"
      using enqueue_copy_ok[OF b3(2), of a] a nf b3(5) by auto
    have retry: "drop_retry (Some a) (Some h) b3 = Some (b4, Some h)"
      using b4(1) by (subst drop_retry.simps) simp
    have "bus_ok (holds (Some h) + refs) b4" using b4(2) by simp
    then obtain b5 where b5: "destroy (Some h) b4 = Some b5" "bus_ok refs b5"
        "evolves (set_mset (held (queued b4) + refs)) b4 b5" "queued b5 = queued b4"
        "dropped (bmem b5) = dropped (bmem b4)"
      using destroy_ok by blast
    let ?F = "set_mset (held (queued b5) + refs)"
    have sub: "?F \<subseteq> ?A" "?F \<subseteq> ?A3" "?F \<subseteq> set_mset (held (queued b4) + refs)"
      using b5(4) b4(4) b3(5) q a by auto
    have "evolves_data ?F b b5"
      using evolves_imp_data[OF b1(3) sub(1)] evolves_imp_data[OF b2(4) sub(1)]
        evolves_data_mono[OF b3(3), of ?F] evolves_imp_data[OF b4(3) sub(2)]
        evolves_imp_data[OF b5(3) sub(3)]
      by (meson evolves_data_trans subset_UNIV)
    moreover have "evolves (?F - {h}) b b5"
      using evolves_mono[OF b1(3), of "?F - {h}"] evolves_mono[OF b2(4), of "?F - {h}"]
        evolves_mono[OF b3(4), of "?F - {h}"] evolves_mono[OF b4(3), of "?F - {h}"]
        evolves_mono[OF b5(3), of "?F - {h}"] sub
      by (blast intro: evolves_trans)
    moreover have "drop_oldest (Some a) b = Some b5"
      using b1(1) b2(1,2) b3(1) retry b5(1) True by (simp add: drop_oldest_def)
    ultimately show ?thesis
      using b1(5) b2(1,6) b3(6) b4(4,5) b5(2,4,5) q True nt by (intro exI[of _ b5]) simp
  qed
qed

lemma enqueueMessage_ok:
  assumes "bus_ok (add_mset a refs) b" and "policy b \<in> {ReturnFalse, DropNewest, DropOldest}"
  shows "\<exists>b' r. enqueueMessage ws (Some a) b = Some (b', Some r) \<and> bus_ok refs b' \<and>
    r = (policy b \<noteq> ReturnFalse \<or> \<not> full b) \<and>
    queued b' =
      (if \<not> full b then queued b @ [Some a]
       else if policy b = DropOldest then tl (queued b) @ [Some a] else queued b) \<and>
    dropped (bmem b') = dropped (bmem b) @
      (if \<not> full b \<or> policy b = ReturnFalse then []
       else if policy b = DropOldest then note_of b (hd (queued b)) else note_of b (Some a)) \<and>
    evolves_data (set_mset (held (queued b') + refs)) b b' \<and>
    evolves (set_mset (held (queued b') + refs) - given_up b a) b b'"
proof -
  let ?A = "set_mset (held (queued b) + add_mset a refs)"
  have a: "a \<in># add_mset a refs" by simp
  consider "policy b = ReturnFalse" | "policy b = DropNewest" | "policy b = DropOldest"
    using assms(2) by auto
  then show ?thesis
  proof cases
    case 1
    obtain b1 where b1: "enqueue_param (Some a) b = Some (b1, \<not> full b)" "bus_ok refs b1"
        "evolves (set_mset (held (queued b1) + refs)) b b1"
        "queued b1 = (if full b then queued b else queued b @ [Some a])"
        "dropped (bmem b1) = dropped (bmem b)"
      using enqueue_param_ok[OF assms(1)] by auto
    have "destroy None b1 = Some b1"
      by (simp add: destroy_def mp_reset_def)
    then have "enqueueMessage ws (Some a) b = Some (b1, Some (\<not> full b))"
      using 1 b1(1) by (simp add: enqueueMessage_def mp_move_def)
    then show ?thesis
      using 1 b1 evolves_imp_data[OF b1(3) order_refl] by (intro exI[of _ b1]) (auto simp: given_up_def)
  next
    case 2
    obtain b1 where b1: "enqueue_copy (Some a) b = Some (b1, \<not> full b)" "bus_ok (add_mset a refs) b1"
        "evolves ?A b b1" "queued b1 = (if full b then queued b else queued b @ [Some a])"
        "dropped (bmem b1) = dropped (bmem b)"
      using enqueue_copy_ok[OF assms(1) a] by auto
    obtain b2 where b2: "(if \<not> full b then Some b1 else notify (Some a) b1) = Some b2"
        "bus_ok (holds (Some a) + refs) b2" "evolves_data UNIV b1 b2" "evolves (- given_up b a) b1 b2" "queued b2 = queued b1"
        "dropped (bmem b2) = dropped (bmem b1) @ (if full b then note_of b1 (Some a) else [])"
    proof (cases "full b")
      case True
      then show thesis
        using notify_note[OF b1(2) a] that 2 by (auto simp: given_up_def)
    next
      case False
      then show thesis
        using that[of b1] b1(2) by simp
    qed
    obtain b3 where b3: "destroy (Some a) b2 = Some b3" "bus_ok refs b3"
        "evolves (set_mset (held (queued b2) + refs)) b2 b3" "queued b3 = queued b2"
        "dropped (bmem b3) = dropped (bmem b2)"
      using destroy_ok[OF b2(2)] by auto
    have nt: "note_of b1 (Some a) = note_of b (Some a)"
      by (rule note_of_keeps[OF b1(3)]) simp
    let ?F = "set_mset (held (queued b3) + refs)"
    have sub: "?F \<subseteq> ?A" "?F \<subseteq> set_mset (held (queued b2) + refs)"
      using b3(4) b2(5) b1(4) by auto
    have "evolves_data ?F b b3"
      using evolves_imp_data[OF b1(3) sub(1)] evolves_data_mono[OF b2(3), of ?F]
        evolves_imp_data[OF b3(3) sub(2)] by (meson evolves_data_trans subset_UNIV)
    moreover have "evolves (?F - given_up b a) b b3"
      using evolves_mono[OF b1(3), of "?F - given_up b a"] evolves_mono[OF b2(4), of "?F - given_up b a"]
        evolves_mono[OF b3(3), of "?F - given_up b a"] sub by (blast intro: evolves_trans)
    moreover have "enqueueMessage ws (Some a) b = Some (b3, Some True)"
      using 2 b1(1) b2(1) b3(1) by (simp add: enqueueMessage_def)
    ultimately show ?thesis
      using 2 b1(4,5) b2(5,6) b3(2,4,5) nt by (intro exI[of _ b3] exI[of _ True]) simp
  next
    case 3
    have gu: "given_up b a = (if full b then set_option (hd (queued b)) else {})" using 3 by (simp add: given_up_def)
    obtain b1 where b1: "drop_oldest (Some a) b = Some b1" "bus_ok (add_mset a refs) b1"
        "evolves_data (set_mset (held (queued b1) + add_mset a refs)) b b1"
        "evolves (set_mset (held (queued b1) + add_mset a refs) - given_up b a) b b1"
        "queued b1 = (if full b then tl (queued b) else queued b) @ [Some a]"
        "dropped (bmem b1) = dropped (bmem b) @ (if full b then note_of b (hd (queued b)) else [])"
      using drop_oldest_ok[OF assms(1) a] unfolding gu by blast
    have "bus_ok (holds (Some a) + refs) b1" using b1(2) by simp
    then obtain b2 where b2: "destroy (Some a) b1 = Some b2" "bus_ok refs b2"
        "evolves (set_mset (held (queued b1) + refs)) b1 b2" "queued b2 = queued b1"
        "dropped (bmem b2) = dropped (bmem b1)"
      using destroy_ok by blast
    let ?F = "set_mset (held (queued b2) + refs)"
    have sub: "?F \<subseteq> set_mset (held (queued b1) + add_mset a refs)" "?F \<subseteq> set_mset (held (queued b1) + refs)"
      using b2(4) by auto
    have "evolves_data ?F b b2"
      using evolves_data_mono[OF b1(3) sub(1)] evolves_imp_data[OF b2(3) sub(2)] evolves_data_trans by blast
    moreover have "evolves (?F - given_up b a) b b2"
      using evolves_mono[OF b1(4), of "?F - given_up b a"] evolves_mono[OF b2(3), of "?F - given_up b a"] sub
      by (blast intro: evolves_trans)
    moreover have "enqueueMessage ws (Some a) b = Some (b2, Some True)"
      using 3 b1(1) b2(1) by (simp add: enqueueMessage_def)
    ultimately show ?thesis
      using 3 b1(5,6) b2(2,4,5) by (intro exI[of _ b2] exI[of _ True]) simp
  qed
qed

text \<open>With the three non-blocking policies \<open>enqueueMessage\<close> returns, keeps every message and
  its count intact, and: with room, appends the message and reports true; with a full queue,
  \<open>ReturnFalse\<close> reports false and frees the message without its drop callback, \<open>DropNewest\<close>
  reports true, calls the message's drop callback and frees it, and \<open>DropOldest\<close> reports true,
  takes out the oldest message, calls that message's callback, and appends the new one.\<close>

lemma enqueueMessage_policies:
  assumes "bus_ok (add_mset a refs) b" and "policy b \<in> {ReturnFalse, DropNewest, DropOldest}"
  shows "\<exists>b' r. enqueueMessage ws (Some a) b = Some (b', Some r) \<and> bus_ok refs b' \<and>
    r = (policy b \<noteq> ReturnFalse \<or> \<not> full b) \<and>
    queued b' =
      (if \<not> full b then queued b @ [Some a]
       else if policy b = DropOldest then tl (queued b) @ [Some a] else queued b) \<and>
    dropped (bmem b') = dropped (bmem b) @
      (if \<not> full b \<or> policy b = ReturnFalse then []
       else if policy b = DropOldest then note_of b (hd (queued b)) else note_of b (Some a)) \<and>
    evolves_data (set_mset (held (queued b') + refs)) b b'"
  using enqueueMessage_ok[OF assms] by blast

section \<open>Blocking publishers\<close>

text \<open>The publisher's own reference to \<open>a\<close> is counted, whatever references others hold.\<close>

definition holds_ref :: "addr \<Rightarrow> 'd bus \<Rightarrow> bool" where
  "holds_ref a b \<longleftrightarrow> (\<exists>refs. bus_ok (add_mset a refs) b)"

definition wake_env :: "'d wake \<Rightarrow> 'd bus \<Rightarrow> 'd bus" where
  "wake_env w = (case w of Woken env \<Rightarrow> env | Deadline env \<Rightarrow> env)"

lemma not_full_pred_ok:
  assumes "holds_ref a b"
  shows "\<exists>b'. not_full_pred (Some a) b = Some (b', \<not> running b \<or> \<not> full b, running b \<and> \<not> full b) \<and>
    holds_ref a b' \<and> running b' = running b \<and> policy b' = policy b \<and>
    (if running b \<and> \<not> full b then queued b' = queued b @ [Some a] else queued b' = queued b \<and> full b' = full b)"
proof (cases "running b")
  case True
  obtain refs where "bus_ok (add_mset a refs) b"
    using assms by (auto simp: holds_ref_def)
  then obtain b' where b': "enqueue_copy (Some a) b = Some (b', \<not> full b)" "bus_ok (add_mset a refs) b'"
      "evolves (set_mset (held (queued b) + add_mset a refs)) b b'"
      "queued b' = (if full b then queued b else queued b @ [Some a])"
    using enqueue_copy_ok[of "add_mset a refs" b a] by auto
  then show ?thesis
    using True evolves_fields[OF b'(3)] by (auto simp: not_full_pred_def holds_ref_def full_def)
next
  case False
  then show ?thesis using assms by (simp add: not_full_pred_def)
qed

lemma wait_not_full_ok:
  assumes "holds_ref a b"
    and "\<forall>w \<in> set ws. \<forall>s. holds_ref a s \<longrightarrow> holds_ref a (wake_env w s)"
  shows "\<exists>b' r. wait_not_full (Some a) ws b = Some (b', r) \<and> holds_ref a b' \<and>
    (r = None \<longrightarrow> running b' \<and> full b') \<and>
    (r = Some True \<longrightarrow> running b' \<and> (\<exists>xs. queued b' = xs @ [Some a])) \<and>
    (r = Some False \<longrightarrow> \<not> running b' \<or> full b' \<and> (\<exists>env. Deadline env \<in> set ws))"
  using assms
proof (induction ws arbitrary: b)
  case Nil
  then show ?case
    using not_full_pred_ok[of a b] by auto
next
  case (Cons w ws)
  obtain b1 where b1: "not_full_pred (Some a) b = Some (b1, \<not> running b \<or> \<not> full b, running b \<and> \<not> full b)"
      "holds_ref a b1" "running b1 = running b"
      "if running b \<and> \<not> full b then queued b1 = queued b @ [Some a] else queued b1 = queued b \<and> full b1 = full b"
    using not_full_pred_ok[OF Cons.prems(1)] by auto
  show ?case
  proof (cases "running b \<and> full b")
    case False
    then show ?thesis using b1 by (cases w) auto
  next
    case True
    have env: "holds_ref a (wake_env w b1)"
      using Cons.prems(2) b1(2) by simp
    show ?thesis
    proof (cases w)
      case (Woken env)
      have "wait_not_full (Some a) (w # ws) b = wait_not_full (Some a) ws (wake_env w b1)"
        using b1(1) True Woken by (simp add: wake_env_def)
      then show ?thesis
        using Cons.IH[OF env] Cons.prems(2) by auto
    next
      case (Deadline env)
      let ?e = "wake_env w b1"
      obtain b2 where b2: "not_full_pred (Some a) ?e = Some (b2, \<not> running ?e \<or> \<not> full ?e, running ?e \<and> \<not> full ?e)"
          "holds_ref a b2" "running b2 = running ?e"
          "if running ?e \<and> \<not> full ?e then queued b2 = queued ?e @ [Some a] else queued b2 = queued ?e \<and> full b2 = full ?e"
        using not_full_pred_ok[OF env] by auto
      have "wait_not_full (Some a) (w # ws) b = Some (b2, Some (running ?e \<and> \<not> full ?e))"
        using b1(1) b2(1) True Deadline by (simp add: wake_env_def)
      then show ?thesis
        using b2 Deadline by auto
    qed
  qed
qed


section \<open>Publishing\<close>

lemma update_raw_ok:
  assumes "mem_ok refs {a} m" "heap m a = Some msg" "mtype (f msg) = mtype msg" "ref_count (f msg) = 0"
  shows "\<exists>m'. update_msg a f m = Some m' \<and> mem_ok refs {a} m' \<and> keeps (set_mset refs) m m' \<and>
    dropped m' = dropped m \<and> heap m' a = Some (f msg)"
proof -
  have dis: "set_mset refs \<inter> {a} = {}"
    using assms(1) by (simp add: mem_ok_def)
  then have "int (count refs a) = 0"
    by (simp add: count_eq_zero_iff)
  then have "mem_ok refs {a} (m\<lparr>heap := (heap m)(a \<mapsto> f msg)\<rparr>)"
    using dis by (intro mem_ok_update[OF assms(1,2,3)]) (simp_all add: assms(4))
  then show ?thesis
    using assms(2) dis by (auto simp: update_msg_Some keeps_def)
qed

lemma raw_count: "mem_ok refs {a} m \<Longrightarrow> heap m a = Some msg \<Longrightarrow> ref_count msg = 0"
  by (auto simp: mem_ok_def count_eq_zero_iff)

lemma obtain_message_ok:
  assumes "mem_ok refs {} m"
  shows "\<exists>m2 a msg. Option.bind (pool_acquire ty m) (\<lambda>(m1, p). case p of
        Some a \<Rightarrow> Option.bind (reset_message a i d m1) (\<lambda>m'. Some (m', a))
      | None \<Rightarrow> Some (new_message ty i d m1)) = Some (m2, a) \<and>
    mem_ok refs {a} m2 \<and> a \<notin># refs \<and> keeps (set_mset refs) m m2 \<and> dropped m2 = dropped m \<and>
    heap m2 a = Some msg \<and> topic_id msg = i \<and> mtype msg = ty \<and> data msg = d \<and> ref_count msg = 0"
proof -
  obtain m1 p where p: "pool_acquire ty m = Some (m1, p)" "mem_ok refs (set_option p) m1"
      "heap m1 = heap m" "dropped m1 = dropped m"
      "\<forall>a. p = Some a \<longrightarrow> a \<notin># refs \<and> (\<exists>msg. heap m1 a = Some msg \<and> mtype msg = ty)"
    using pool_acquire_ok[OF assms, of ty] by auto
  have k1: "keeps (set_mset refs) m m1"
    using p(3) by (simp add: keeps_def)
  show ?thesis
  proof (cases p)
    case None
    obtain m2 a where n: "new_message ty i d m1 = (m2, a)" by force
    have ok1: "mem_ok refs {} m1" using p(2) None by simp
    have new: "mem_ok refs {a} m2" "keeps (dom (heap m1)) m1 m2" "dropped m2 = dropped m1"
      using new_message_ok[OF ok1 n] by simp_all
    have "set_mset refs \<subseteq> dom (heap m1)"
      using ok1 by (simp add: mem_ok_def)
    then have k: "keeps (set_mset refs) m m2"
      using keeps_trans[OF k1 keeps_mono[OF new(2)]] by blast
    have "a \<notin># refs"
      using new(1) by (simp add: mem_ok_def)
    moreover obtain msg where "heap m2 a = Some msg" "topic_id msg = i" "mtype msg = ty" "data msg = d"
        "ref_count msg = 0"
      using n by (auto simp: new_message_def)
    ultimately show ?thesis
      using p(1,4) None n k new by simp
  next
    case (Some a)
    obtain msg where msg: "heap m1 a = Some msg" "mtype msg = ty" "a \<notin># refs"
      using p(5) Some by auto
    have ok1: "mem_ok refs {a} m1" using p(2) Some by simp
    obtain m2 where "reset_message a i d m1 = Some m2" "mem_ok refs {a} m2" "keeps (set_mset refs) m1 m2"
        "dropped m2 = dropped m1"
        "heap m2 a = Some (msg\<lparr>ref_count := 0, recycler := False, on_drop := None, topic_id := i, data := d\<rparr>)"
      using update_raw_ok[OF ok1 msg(1), of "\<lambda>msg. msg\<lparr>ref_count := 0, recycler := False, on_drop := None, topic_id := i, data := d\<rparr>"]
      by (auto simp: reset_message_def)
    then show ?thesis
      using p(1,4) Some msg keeps_trans[OF k1] by simp
  qed
qed

lemma build_message_ok:
  assumes "mem_ok refs {} m"
  shows "\<exists>m' a msg. build_message ty i sv d cb m = Some (m', a) \<and> mem_ok refs {a} m' \<and> a \<notin># refs \<and>
    keeps (set_mset refs) m m' \<and> dropped m' = dropped m \<and> heap m' a = Some msg \<and>
    visible msg = (i, sv, ty, d) \<and> on_drop msg = cb \<and> recycler msg"
proof -
  let ?obtain = "Option.bind (pool_acquire ty m) (\<lambda>(m1, p). case p of
        Some a \<Rightarrow> Option.bind (reset_message a i d m1) (\<lambda>m'. Some (m', a))
      | None \<Rightarrow> Some (new_message ty i d m1))"
  obtain m2 a msg where o: "?obtain = Some (m2, a)" "mem_ok refs {a} m2" "a \<notin># refs"
      "keeps (set_mset refs) m m2" "dropped m2 = dropped m" "heap m2 a = Some msg"
      "topic_id msg = i" "mtype msg = ty" "data msg = d" "ref_count msg = 0"
    using obtain_message_ok[OF assms] by blast
  let ?f = "\<lambda>msg :: 'a message. msg\<lparr>recycler := True\<rparr>" and ?g = "\<lambda>msg :: 'a message. msg\<lparr>topic_sv := sv\<rparr>"
    and ?h = "\<lambda>msg :: 'a message. msg\<lparr>on_drop := cb\<rparr>"
  obtain m3 where m3: "update_msg a ?f m2 = Some m3" "mem_ok refs {a} m3" "keeps (set_mset refs) m2 m3"
      "dropped m3 = dropped m2" "heap m3 a = Some (?f msg)"
    using update_raw_ok[OF o(2,6), of ?f] o(10) by auto
  obtain m4 where m4: "update_msg a ?g m3 = Some m4" "mem_ok refs {a} m4" "keeps (set_mset refs) m3 m4"
      "dropped m4 = dropped m3" "heap m4 a = Some (?g (?f msg))"
    using update_raw_ok[OF m3(2,5), of ?g] o(10) by auto
  obtain m5 where m5: "update_msg a ?h m4 = Some m5" "mem_ok refs {a} m5" "keeps (set_mset refs) m4 m5"
      "dropped m5 = dropped m4" "heap m5 a = Some (?h (?g (?f msg)))"
    using update_raw_ok[OF m4(2,5), of ?h] o(10) by auto
  have "build_message ty i sv d cb m = Option.bind ?obtain (\<lambda>(m2, raw).
      Option.bind (update_msg raw ?f m2) (\<lambda>m3. Option.bind (set_topic_sv raw sv m3) (\<lambda>m4.
        Option.bind (update_msg raw ?h m4) (\<lambda>m5. Some (m5, raw)))))"
    unfolding build_message_def by (cases "pool_acquire ty m") (auto split: option.splits)
  then have "build_message ty i sv d cb m = Some (m5, a)"
    using o(1) m3(1) m4(1) m5(1) by (simp add: set_topic_sv_def)
  moreover have "keeps (set_mset refs) m m5"
    using keeps_trans[OF keeps_trans[OF keeps_trans[OF o(4) m3(3)] m4(3)] m5(3)] .
  ultimately show ?thesis
    using o m3(4) m4(4) m5 by (simp add: visible_def)
qed

lemma bus_new_ok:
  assumes "unat capacity \<le> 2 ^ 63" "mem_ok refs {} m"
  shows "bus_ok refs (bus_new hw m capacity n pol)" "queued (bus_new hw m capacity n pol) = []"
  using assms lfq_new_inv[of capacity, where 'a = msg_ptr]
  by (auto simp: bus_new_def bus_ok_def queued_def)

lemma note_of_visible:
  assumes "heap (bmem b) a = Some msg" "visible msg = (i, sv, ty, d)" "on_drop msg = cb"
  shows "note_of b (Some a) = (case cb of None \<Rightarrow> [] | Some c \<Rightarrow> [(c, sv, d)])"
  using assms by (auto simp: note_of_def drop_note_def visible_def split: option.split)

text \<open>A message built, adopted and ready to be enqueued.\<close>

lemma adopted_ok:
  assumes ok: "bus_ok refs b"
  shows "\<exists>m raw m' msg. build_message ty i sv d cb (bmem b) = Some (m, raw) \<and>
    mp_adopt (Some raw) m = Some (m', Some raw) \<and>
    bus_ok (add_mset raw refs) (b\<lparr>registry := rg, bmem := m'\<rparr>) \<and> raw \<notin># held (queued b) + refs \<and>
    keeps (set_mset (held (queued b) + refs)) (bmem b) m' \<and> dropped m' = dropped (bmem b) \<and>
    heap m' raw = Some msg \<and> visible msg = (i, sv, ty, d) \<and> on_drop msg = cb"
proof -
  let ?R = "held (queued b) + refs"
  have "mem_ok ?R {} (bmem b)"
    using ok by (simp add: bus_ok_def)
  then obtain m raw msg where b: "build_message ty i sv d cb (bmem b) = Some (m, raw)" "mem_ok ?R {raw} m"
      "raw \<notin># ?R" "keeps (set_mset ?R) (bmem b) m" "dropped m = dropped (bmem b)" "heap m raw = Some msg"
      "visible msg = (i, sv, ty, d)" "on_drop msg = cb"
    using build_message_ok[of ?R "bmem b" ty i sv d cb] by blast
  obtain m' where m': "mp_adopt (Some raw) m = Some (m', Some raw)" "mem_ok (add_mset raw ?R) {} m'"
      "keeps UNIV m m'" "dropped m' = dropped m"
    using mp_adopt_ok[OF b(2), of raw] by auto
  have e: "map_option payload (heap m' raw) = Some (payload msg)"
    using m'(3) b(6) by (simp add: keeps_def)
  then obtain msg' where msg': "heap m' raw = Some msg'" "payload msg' = payload msg"
    by auto
  have "visible msg' = visible (payload msg')" "visible msg = visible (payload msg)"
      "on_drop msg' = on_drop (payload msg')" "on_drop msg = on_drop (payload msg)"
    by (simp_all add: visible_def payload_def)
  then have "visible msg' = (i, sv, ty, d)" "on_drop msg' = cb"
    using msg'(2) b(7,8) by simp_all
  moreover have "keeps (set_mset ?R) (bmem b) m'"
    using keeps_trans[OF b(4) keeps_mono[OF m'(3)]] by simp
  moreover have "bus_ok (add_mset raw refs) (b\<lparr>registry := rg, bmem := m'\<rparr>)"
    using ok m'(2) by (simp add: bus_ok_def queued_def)
  ultimately show ?thesis
    using b(1,3,5) m'(1,4) msg'(1) by auto
qed

text \<open>Building a message and enqueueing it, for a topic already resolved.\<close>

lemma build_enqueue_ok:
  assumes ok: "bus_ok refs b" and pol: "policy b \<in> {ReturnFalse, DropNewest, DropOldest}"
  shows "\<exists>m raw m' b' r. build_message ty i sv d cb (bmem b) = Some (m, raw) \<and>
    mp_adopt (Some raw) m = Some (m', Some raw) \<and>
    enqueueMessage ws (Some raw) (b\<lparr>registry := rg, bmem := m'\<rparr>) = Some (b', Some r) \<and> bus_ok refs b' \<and>
    raw \<notin># held (queued b) + refs \<and> r = (policy b \<noteq> ReturnFalse \<or> \<not> full b) \<and>
    b' = b\<lparr>registry := rg, queue := queue b', bmem := bmem b'\<rparr> \<and> lfq_cap (queue b') = lfq_cap (queue b) \<and>
    queued b' = (if \<not> full b then queued b @ [Some raw]
       else if policy b = DropOldest then tl (queued b) @ [Some raw] else queued b) \<and>
    (\<not> full b \<or> policy b = DropOldest \<longrightarrow>
      (\<exists>msg. heap (bmem b') raw = Some msg \<and> visible msg = (i, sv, ty, d) \<and> on_drop msg = cb)) \<and>
    dropped (bmem b') = dropped (bmem b) @
      (if \<not> full b \<or> policy b = ReturnFalse then []
       else if policy b = DropOldest then note_of b (hd (queued b))
       else (case cb of None \<Rightarrow> [] | Some c \<Rightarrow> [(c, sv, d)])) \<and>
    keeps_data (set_mset (held (queued b)) \<inter> set_mset (held (queued b'))) (bmem b) (bmem b') \<and>
    keeps (set_mset (held (queued b)) \<inter> set_mset (held (queued b')) - given_up b raw) (bmem b) (bmem b')"
proof -
  obtain m raw m' msg where ad: "build_message ty i sv d cb (bmem b) = Some (m, raw)"
      "mp_adopt (Some raw) m = Some (m', Some raw)"
      "bus_ok (add_mset raw refs) (b\<lparr>registry := rg, bmem := m'\<rparr>)" "raw \<notin># held (queued b) + refs"
      "keeps (set_mset (held (queued b) + refs)) (bmem b) m'" "dropped m' = dropped (bmem b)"
      "heap m' raw = Some msg" "visible msg = (i, sv, ty, d)" "on_drop msg = cb"
    using adopted_ok[OF ok, of ty i sv d cb rg] by blast
  let ?b1 = "b\<lparr>registry := rg, bmem := m'\<rparr>"
  have same: "policy ?b1 = policy b" "queued ?b1 = queued b" "full ?b1 = full b" "bmem ?b1 = m'"
    by (simp_all add: queued_def full_def)
  then have same_up: "given_up ?b1 raw = given_up b raw" by (simp only: given_up_def)
  have pol1: "policy ?b1 \<in> {ReturnFalse, DropNewest, DropOldest}"
    using pol by simp
  obtain b' r where e: "enqueueMessage ws (Some raw) ?b1 = Some (b', Some r)" "bus_ok refs b'"
      "r = (policy b \<noteq> ReturnFalse \<or> \<not> full b)"
      "queued b' = (if \<not> full b then queued b @ [Some raw]
         else if policy b = DropOldest then tl (queued b) @ [Some raw] else queued b)"
      "dropped (bmem b') = dropped m' @ (if \<not> full b \<or> policy b = ReturnFalse then []
         else if policy b = DropOldest then note_of ?b1 (hd (queued b)) else note_of ?b1 (Some raw))"
      "evolves_data (set_mset (held (queued b') + refs)) ?b1 b'"
      "evolves (set_mset (held (queued b') + refs) - given_up b raw) ?b1 b'"
    using enqueueMessage_ok[OF ad(3) pol1, of ws] unfolding same same_up by blast
  have front: "\<exists>h. hd (queued b) = Some h \<and> h \<in># held (queued b)" if fl: "full b"
  proof -
    have "0 < lfq_cap (queue b)"
      using ok lfq.cap_pos by (auto simp: bus_ok_def)
    then obtain p rest where q: "queued b = p # rest"
      using fl by (cases "queued b") (auto simp: full_def)
    moreover obtain h where "p = Some h"
      using q ok by (cases p) (auto simp: bus_ok_def)
    ultimately show ?thesis by simp
  qed
  have b': "b' = b\<lparr>registry := rg, queue := queue b', bmem := bmem b'\<rparr>" "lfq_cap (queue b') = lfq_cap (queue b)"
  proof -
    have eq: "b' = ?b1\<lparr>queue := queue b', bmem := bmem b'\<rparr>"
      using e(6) by (simp add: evolves_data_def)
    show "b' = b\<lparr>registry := rg, queue := queue b', bmem := bmem b'\<rparr>" by (subst eq) (cases b, simp)
    show "lfq_cap (queue b') = lfq_cap (queue b)" using e(6) by (simp add: evolves_data_def)
  qed
  have hd: "note_of ?b1 (hd (queued b)) = note_of b (hd (queued b))" if "full b"
  proof -
    obtain h where h: "hd (queued b) = Some h" "h \<in># held (queued b)" using front[OF \<open>full b\<close>] by blast
    have "evolves (set_mset (held (queued b) + refs)) (b\<lparr>registry := rg\<rparr>) ?b1"
      using ad(5) by (simp add: evolves_def)
    then have "note_of ?b1 (Some h) = note_of (b\<lparr>registry := rg\<rparr>) (Some h)"
      by (rule note_of_keeps) (use h(2) in simp)
    then show ?thesis using h by (simp add: note_of_def)
  qed
  have own: "note_of ?b1 (Some raw) = (case cb of None \<Rightarrow> [] | Some c \<Rightarrow> [(c, sv, d)])"
    using note_of_visible[of ?b1 raw msg i sv ty d cb] ad(7,8,9) by simp
  have drops: "dropped (bmem b') = dropped (bmem b) @
      (if \<not> full b \<or> policy b = ReturnFalse then []
       else if policy b = DropOldest then note_of b (hd (queued b))
       else (case cb of None \<Rightarrow> [] | Some c \<Rightarrow> [(c, sv, d)]))"
    using e(5) ad(6) own hd by auto
  have new: "\<exists>msg'. heap (bmem b') raw = Some msg' \<and> visible msg' = (i, sv, ty, d) \<and> on_drop msg' = cb"
    if "\<not> full b \<or> policy b = DropOldest"
  proof -
    have "raw \<notin> given_up b raw"
      using that front ad(4) by (auto simp: given_up_def)
    moreover have "raw \<in># held (queued b')" using e(4) that by auto
    ultimately have "map_option payload (heap (bmem b') raw) = Some (payload msg)"
      using e(7) ad(7) by (simp add: evolves_def keeps_def)
    then obtain msg' where msg': "heap (bmem b') raw = Some msg'" "payload msg' = payload msg" by auto
    have "visible msg' = visible (payload msg')" "visible msg = visible (payload msg)"
        "on_drop msg' = on_drop (payload msg')" "on_drop msg = on_drop (payload msg)"
      by (simp_all add: visible_def payload_def)
    then show ?thesis using msg' ad(8,9) by simp
  qed
  let ?K = "set_mset (held (queued b)) \<inter> set_mset (held (queued b'))"
  have "keeps_data ?K (bmem b) (bmem b')"
    using keeps_imp_data[OF ad(5)] e(6) by (simp add: keeps_data_def evolves_data_def)
  moreover have "keeps (?K - given_up b raw) (bmem b) (bmem b')"
    using ad(5) e(7) by (simp add: keeps_def evolves_def)
  ultimately show ?thesis
    using ad(1,2,4) e(1-4) b' drops new by blast
qed

text \<open>C17: \<open>publish\<close> with a non-blocking policy, from any state whose messages are accounted for:
  it returns; the topic's identifier is the registry's; when the message is accepted, the last
  queued message carries exactly that topic, type and data; the messages that stay queued keep
  their order and contents; exactly the right drop callback is called; no message is leaked.\<close>

theorem publish_nonblocking:
  assumes ok: "bus_ok refs b" and rg: "reg_inv (registry b)" "topic_count (registry b) + 1 < 2 ^ 32"
    and pol: "policy b \<in> {ReturnFalse, DropNewest, DropOldest}"
  shows "\<exists>b' r a msg. publish ws ty topic d cb b = Some (b', Some r) \<and> bus_ok refs b' \<and>
    registry b' = fst (resolve (registry b) topic) \<and> reg_inv (registry b') \<and>
    r = (policy b \<noteq> ReturnFalse \<or> \<not> full b) \<and>
    (if \<not> full b \<or> policy b = DropOldest
     then queued b' = (if full b then tl (queued b) else queued b) @ [Some a] \<and>
          heap (bmem b') a = Some msg \<and>
          visible msg = (snd (resolve (registry b) topic), topic, ty, d)
     else queued b' = queued b) \<and>
    dropped (bmem b') = dropped (bmem b) @
      (if \<not> full b \<or> policy b = ReturnFalse then []
       else if policy b = DropOldest then note_of b (hd (queued b))
       else (case cb of None \<Rightarrow> [] | Some c \<Rightarrow> [(c, topic, d)])) \<and>
    (\<forall>x. x \<in># held (queued b) \<and> x \<in># held (queued b') \<longrightarrow>
       map_option visible (heap (bmem b') x) = map_option visible (heap (bmem b) x))"
proof -
  obtain rg' i where res: "resolve (registry b) topic = (rg', i)"
    by force
  have rt: "reg_inv rg'" "to_string rg' i = topic"
    using resolve_ok[OF rg, of topic] res by auto
  obtain m raw m' b' r where p: "build_message ty i topic d cb (bmem b) = Some (m, raw)"
      "mp_adopt (Some raw) m = Some (m', Some raw)"
      "enqueueMessage ws (Some raw) (b\<lparr>registry := rg', bmem := m'\<rparr>) = Some (b', Some r)" "bus_ok refs b'"
      "r = (policy b \<noteq> ReturnFalse \<or> \<not> full b)" "b' = b\<lparr>registry := rg', queue := queue b', bmem := bmem b'\<rparr>"
      "queued b' = (if \<not> full b then queued b @ [Some raw]
         else if policy b = DropOldest then tl (queued b) @ [Some raw] else queued b)"
      "\<not> full b \<or> policy b = DropOldest \<longrightarrow>
        (\<exists>msg. heap (bmem b') raw = Some msg \<and> visible msg = (i, topic, ty, d) \<and> on_drop msg = cb)"
      "dropped (bmem b') = dropped (bmem b) @
        (if \<not> full b \<or> policy b = ReturnFalse then []
         else if policy b = DropOldest then note_of b (hd (queued b))
         else (case cb of None \<Rightarrow> [] | Some c \<Rightarrow> [(c, topic, d)]))"
      "keeps_data (set_mset (held (queued b)) \<inter> set_mset (held (queued b'))) (bmem b) (bmem b')"
    using build_enqueue_ok[OF ok pol, of ty i topic d cb ws rg'] by blast
  have pub: "publish ws ty topic d cb b = Some (b', Some r)"
    using res rt p(1-3) by (simp add: publish_def)
  have reg: "registry b' = rg'" by (subst p(6)) simp
  have keep: "\<forall>x. x \<in># held (queued b) \<and> x \<in># held (queued b') \<longrightarrow>
       map_option visible (heap (bmem b') x) = map_option visible (heap (bmem b) x)"
    using p(10) by (simp add: keeps_data_def)
  show ?thesis
  proof (cases "\<not> full b \<or> policy b = DropOldest")
    case True
    then obtain msg where "heap (bmem b') raw = Some msg" "visible msg = (i, topic, ty, d)"
      using p(8) by blast
    then show ?thesis
      using pub p(4,5,7,9) reg rt(1) res keep True
      by (intro exI[of _ b'] exI[of _ r] exI[of _ raw] exI[of _ msg]) auto
  next
    case False
    then show ?thesis
      using pub p(4,5,7,9) reg rt(1) res keep
      by (intro exI[of _ b'] exI[of _ r] exI[of _ raw] exI[of _ undefined]) auto
  qed
qed

section \<open>Concrete buses\<close>

definition small_bus :: "full_policy \<Rightarrow> nat bus" where
  "small_bus pol = bus_new 1 mem_new 2 1 pol"

lemma small_bus_ok:
  "bus_ok {#} (small_bus pol)" "queued (small_bus pol) = []" "\<not> full (small_bus pol)"
  "policy (small_bus pol) = pol" "registry (small_bus pol) = registry_new"
proof -
  have "mem_ok {#} {} (mem_new :: nat mem)"
    by (rule mem_ok_new)
  then show "bus_ok {#} (small_bus pol)" and q: "queued (small_bus pol) = []"
    using bus_new_ok[of 2 "{#}" "mem_new :: nat mem" 1 1 pol] by (simp_all add: small_bus_def)
  have "lfq_cap (lfq_new 2 :: msg_ptr lfq) = 2"
    by code_simp
  then show "\<not> full (small_bus pol)"
    using q by (simp add: full_def small_bus_def bus_new_def)
qed (simp_all add: small_bus_def bus_new_def)

lemma small_bus_adopted:
  "\<exists>a (b :: nat bus). bus_ok {#a#} b \<and> policy b = pol \<and> queued b = [] \<and> \<not> full b"
proof -
  obtain raw m' where "bus_ok {#raw#} (small_bus pol\<lparr>registry := registry_new, bmem := m'\<rparr>)"
    using adopted_ok[OF small_bus_ok(1)[of pol], of 1 1 "[]" 7 None registry_new] by auto
  then show ?thesis
    using small_bus_ok(2-4)[of pol]
    by (intro exI[of _ raw] exI[of _ "small_bus pol\<lparr>registry := registry_new, bmem := m'\<rparr>"])
       (simp add: queued_def full_def)
qed

theorem publish_nonblocking_witness:
  "\<exists>b' a msg. publish [] 1 ''t'' 7 None (small_bus DropOldest) = Some (b', Some True) \<and>
     queued b' = [Some a] \<and> heap (bmem b') a = Some msg \<and> data msg = 7"
proof -
  have "reg_inv (registry (small_bus DropOldest))" "topic_count (registry (small_bus DropOldest)) + 1 < 2 ^ 32"
    by (simp_all only: small_bus_ok reg_inv_new) (simp add: topic_count_def registry_new_def)
  then obtain b' r a msg where "publish [] 1 ''t'' 7 None (small_bus DropOldest) = Some (b', Some r)"
      "r" "queued b' = [Some a]" "heap (bmem b') a = Some msg" "snd (snd (snd (visible msg))) = 7"
    using publish_nonblocking[OF small_bus_ok(1)[of DropOldest], of "[]" 1 "''t''" 7 None]
    by (auto simp: small_bus_ok)
  then show ?thesis
    by (auto simp: visible_def)
qed

theorem enqueueMessage_policies_witness:
  "\<exists>a (b :: nat bus) b'. enqueueMessage [] (Some a) b = Some (b', Some True) \<and> queued b' = [Some a]"
proof -
  obtain a and b :: "nat bus" where b: "bus_ok {#a#} b" "policy b = ReturnFalse" "queued b = []" "\<not> full b"
    using small_bus_adopted[of ReturnFalse] by auto
  then obtain b' r where "enqueueMessage [] (Some a) b = Some (b', Some r)" "r" "queued b' = [Some a]"
    using enqueueMessage_policies[of a "{#}" b "[]"] by auto
  then show ?thesis
    by auto
qed


end
