(* ===== verification/Bus_Subscribe.thy ===== *)
theory Bus_Subscribe
  imports Bus_Publish
begin

text \<open>
  \<open>message_bus.h\<close>, second part: \<open>subscribe\<close>, \<open>unsubscribe\<close>, the slot map and \<open>dispatchMessage\<close>.
  The registration state of the bus refines a list of live subscriptions with a type per topic;
  a dispatch reaches exactly the live subscriptions whose pattern and type match the message.
\<close>

section \<open>The code\<close>

text \<open>The two exceptions of type \<open>std::runtime_error\<close>.\<close>

datatype bus_error = InvalidWildcard | TypeMismatch string

definition new_slot :: "type_info \<Rightarrow> 'd bus \<Rightarrow> 'd bus \<times> slot_ref" where
  "new_slot ty b =
     (b\<lparr>store := (store b)(next_slot b \<mapsto> slot_new ty), next_slot := next_slot b + 1\<rparr>, next_slot b)"

definition checkedSlot :: "type_info \<Rightarrow> 'd bus \<Rightarrow> topic_id \<Rightarrow> slot_ref \<Rightarrow> bus_error + slot_ref" where
  "checkedSlot ty b i r =
     (case store b r of
        Some s \<Rightarrow> if msg_type s \<noteq> ty then Inl (TypeMismatch (to_string (registry b) i)) else Inr r
      | None \<Rightarrow> Inr r)"

text \<open>The slow path, under \<open>slots_write_mutex_\<close>, looks the slot up again.\<close>

definition create_slot :: "type_info \<Rightarrow> topic_id \<Rightarrow> 'd bus \<Rightarrow> 'd bus \<times> (bus_error + slot_ref)" where
  "create_slot ty i b =
     (case slots b i of
        Some r \<Rightarrow> (b, checkedSlot ty b i r)
      | None \<Rightarrow>
          (case new_slot ty b of
             (b1, r) \<Rightarrow> (b1\<lparr>slots := (slots b1)(i \<mapsto> r)\<rparr>, Inr r)))"

definition getOrCreateSlot :: "type_info \<Rightarrow> topic_id \<Rightarrow> 'd bus \<Rightarrow> 'd bus \<times> (bus_error + slot_ref)" where
  "getOrCreateSlot ty i b =
     (case slots b i of
        Some r \<Rightarrow> (b, checkedSlot ty b i r)
      | None \<Rightarrow> create_slot ty i b)"

definition add_to_slot :: "slot_ref \<Rightarrow> handler_ref \<Rightarrow> sub_id \<Rightarrow> 'd bus \<Rightarrow> 'd bus" where
  "add_to_slot r h i b =
     (case store b r of
        Some s \<Rightarrow> b\<lparr>store := (store b)(r \<mapsto> fst (addSubscriber s h i))\<rparr>
      | None \<Rightarrow> b)"

text \<open>A hash anywhere but at the end.\<close>

definition misplaced_hash :: "string \<Rightarrow> bool" where
  "misplaced_hash topic =
     (case find_from topic hash 0 of
        None \<Rightarrow> False
      | Some pos \<Rightarrow> pos + 1 \<noteq> length topic)"

definition subscribe ::
    "type_info \<Rightarrow> string \<Rightarrow> handler_ref \<Rightarrow> 'd bus \<Rightarrow> 'd bus \<times> (bus_error + sub_id)" where
  "subscribe ty topic h b =
     (let i = next_sub_id b + 1; b0 = b\<lparr>next_sub_id := i\<rparr> in
      if isWildcard topic then
        (if misplaced_hash topic then (b0, Inl InvalidWildcard)
         else
           (case new_slot ty b0 of (b1, r) \<Rightarrow>
              let b2 = add_to_slot r h i b1;
                  b3 = b2\<lparr>trie := trie_insert (trie b2) topic \<lparr>etype = ty, slot = r, sub_id = i\<rparr>\<rparr>
              in (b3\<lparr>sub_to_topic := (sub_to_topic b3)(i \<mapsto> \<lparr>tid = kInvalidTopicId, is_wildcard = True\<rparr>)\<rparr>,
                  Inr i)))
      else
        (case resolve (registry b0) topic of (rg, t) \<Rightarrow>
           (case getOrCreateSlot ty t (b0\<lparr>registry := rg\<rparr>) of
              (b1, Inl e) \<Rightarrow> (b1, Inl e)
            | (b1, Inr r) \<Rightarrow>
                let b2 = add_to_slot r h i b1
                in (b2\<lparr>sub_to_topic := (sub_to_topic b2)(i \<mapsto> \<lparr>tid = t, is_wildcard = False\<rparr>)\<rparr>, Inr i))))"

definition unsubscribe :: "sub_id \<Rightarrow> 'd bus \<Rightarrow> 'd bus" where
  "unsubscribe i b =
     (case sub_to_topic b i of
        None \<Rightarrow> b
      | Some info \<Rightarrow>
          let b1 = b\<lparr>sub_to_topic := (sub_to_topic b)(i := None)\<rparr> in
          if is_wildcard info then
            (case trie_remove (trie b1) (store b1) i of
               (snap, st, _) \<Rightarrow> b1\<lparr>trie := snap, store := st\<rparr>)
          else
            (case slots b1 (tid info) of
               Some r \<Rightarrow> b1\<lparr>store := fst (store_remove (store b1) r i)\<rparr>
             | None \<Rightarrow> b1))"

text \<open>\<open>dispatchMessage\<close> runs client handlers, which may use the bus themselves: it works on a
  world that contains the bus, and reads the slot map, the trie and each slot when it gets
  there.\<close>

definition dispatch_slot ::
    "('w \<Rightarrow> 'd bus) \<Rightarrow> ('d, 'w) handlers \<Rightarrow> 'd \<Rightarrow> slot_ref \<Rightarrow> 'w \<Rightarrow> 'w" where
  "dispatch_slot bus_of call d r w =
     (case store (bus_of w) r of
        Some s \<Rightarrow> slot_dispatch call s d w
      | None \<Rightarrow> w)"

definition dispatchMessage ::
    "('w \<Rightarrow> 'd bus) \<Rightarrow> ('d, 'w) handlers \<Rightarrow> 'd message \<Rightarrow> 'w \<Rightarrow> 'w" where
  "dispatchMessage bus_of call msg w =
     (let w1 = (case slots (bus_of w) (topic_id msg) of
                  Some r \<Rightarrow>
                    (case store (bus_of w) r of
                       Some s \<Rightarrow> if msg_type s = mtype msg
                                then dispatch_slot bus_of call (data msg) r w else w
                     | None \<Rightarrow> w)
                | None \<Rightarrow> w);
          matched = trie_match (trie (bus_of w1)) (topic_sv msg) (mtype msg) []
      in fold (dispatch_slot bus_of call (data msg)) matched w1)"

section \<open>The specification\<close>

record sub =
  s_id :: sub_id
  s_pattern :: string
  s_type :: type_info
  s_handler :: handler_ref

text \<open>The live subscriptions in the order they were made, the type each exact topic was first
  subscribed with, and the number of identifiers issued.\<close>

record spec =
  live :: "sub list"
  topic_types :: "string \<rightharpoonup> type_info"
  issued :: nat

definition spec_new :: spec where
  "spec_new = \<lparr>live = [], topic_types = Map.empty, issued = 0\<rparr>"

definition spec_subscribe :: "type_info \<Rightarrow> string \<Rightarrow> handler_ref \<Rightarrow> spec \<Rightarrow> spec \<times> (bus_error + sub_id)" where
  "spec_subscribe ty topic h s =
     (let i = of_nat (issued s + 1); s0 = s\<lparr>issued := issued s + 1\<rparr>;
          added = s0\<lparr>live := live s @ [\<lparr>s_id = i, s_pattern = topic, s_type = ty, s_handler = h\<rparr>]\<rparr> in
      if isWildcard topic then
        (if misplaced_hash topic then (s0, Inl InvalidWildcard) else (added, Inr i))
      else
        (case topic_types s topic of
           Some ty' \<Rightarrow> if ty' = ty then (added, Inr i) else (s0, Inl (TypeMismatch topic))
         | None \<Rightarrow> (added\<lparr>topic_types := (topic_types s)(topic \<mapsto> ty)\<rparr>, Inr i)))"

definition spec_unsubscribe :: "sub_id \<Rightarrow> spec \<Rightarrow> spec" where
  "spec_unsubscribe i s = s\<lparr>live := filter (\<lambda>x. s_id x \<noteq> i) (live s)\<rparr>"

definition wild :: "sub \<Rightarrow> bool" where
  "wild x = isWildcard (s_pattern x)"

text \<open>The subscriptions a message of a topic and a type is for.\<close>

definition wants :: "string \<Rightarrow> type_info \<Rightarrow> sub \<Rightarrow> bool" where
  "wants topic ty x \<longleftrightarrow>
     s_type x = ty \<and>
     (if wild x then level_match (splitLevels (s_pattern x)) (splitLevels topic)
      else s_pattern x = topic)"

section \<open>The refinement relation\<close>

definition sub_of :: "sub \<Rightarrow> subscriber" where
  "sub_of x = \<lparr>subscriber.sub_id = s_id x, handler = s_handler x\<rparr>"

definition entry_of :: "(sub_id \<Rightarrow> slot_ref) \<Rightarrow> sub \<Rightarrow> string list \<times> entry" where
  "entry_of ws x =
     (splitLevels (s_pattern x), \<lparr>etype = s_type x, slot = ws (s_id x), sub_id = s_id x\<rparr>)"

definition exact_subs :: "string \<Rightarrow> sub list \<Rightarrow> sub list" where
  "exact_subs t xs = filter (\<lambda>x. \<not> wild x \<and> s_pattern x = t) xs"

definition info_of :: "registry \<Rightarrow> sub \<Rightarrow> sub_info" where
  "info_of rg x =
     (if wild x then \<lparr>tid = kInvalidTopicId, is_wildcard = True\<rparr>
      else \<lparr>tid = the (topic_map rg (s_pattern x)), is_wildcard = False\<rparr>)"

text \<open>Wildcard subscriptions: one private slot and one trie entry each; \<open>ws\<close> names the slot.\<close>

definition wild_ok :: "(sub_id \<Rightarrow> slot_ref) \<Rightarrow> sub list \<Rightarrow> 'd bus \<Rightarrow> bool" where
  "wild_ok ws xs b \<longleftrightarrow>
     trie_ok (trie b) \<and> trie_paths (trie b) = mset (map (entry_of ws) (filter wild xs)) \<and>
     (\<forall>x \<in> set xs. wild x \<longrightarrow>
        store b (ws (s_id x)) = Some \<lparr>msg_type = s_type x, subscribers = [sub_of x]\<rparr> \<and>
        ws (s_id x) < next_slot b \<and> (\<forall>i. slots b i \<noteq> Some (ws (s_id x)))) \<and>
     inj_on (\<lambda>x. ws (s_id x)) {x \<in> set xs. wild x}"

text \<open>Exact subscriptions: one slot per topic, holding the topic's subscribers in order.\<close>

definition exact_ok :: "(string \<rightharpoonup> type_info) \<Rightarrow> sub list \<Rightarrow> 'd bus \<Rightarrow> bool" where
  "exact_ok types xs b \<longleftrightarrow>
     (\<forall>t i r. topic_map (registry b) t = Some i \<and> slots b i = Some r \<longrightarrow>
        r < next_slot b \<and>
        (\<exists>ty. types t = Some ty \<and>
           store b r = Some \<lparr>msg_type = ty, subscribers = map sub_of (exact_subs t xs)\<rparr>)) \<and>
     (\<forall>t ty. types t = Some ty \<longrightarrow> (\<exists>i r. topic_map (registry b) t = Some i \<and> slots b i = Some r)) \<and>
     (\<forall>i r. slots b i = Some r \<longrightarrow> (\<exists>t. topic_map (registry b) t = Some i)) \<and>
     (\<forall>i j r. slots b i = Some r \<and> slots b j = Some r \<longrightarrow> i = j) \<and>
     (\<forall>x \<in> set xs. \<not> wild x \<longrightarrow> types (s_pattern x) = Some (s_type x))"

definition ids_ok :: "spec \<Rightarrow> 'd bus \<Rightarrow> bool" where
  "ids_ok s b \<longleftrightarrow>
     distinct (map s_id (live s)) \<and> (\<forall>x \<in> set (live s). unat (s_id x) \<le> issued s) \<and>
     next_sub_id b = of_nat (issued s) \<and>
     sub_to_topic b = (\<lambda>i. map_option (info_of (registry b)) (find (\<lambda>x. s_id x = i) (live s)))"

definition refines :: "(sub_id \<Rightarrow> slot_ref) \<Rightarrow> spec \<Rightarrow> 'd bus \<Rightarrow> bool" where
  "refines ws s b \<longleftrightarrow>
     wild_ok ws (live s) b \<and> exact_ok (topic_types s) (live s) b \<and> ids_ok s b \<and> reg_inv (registry b)"

lemma refines_new: "refines ws spec_new (bus_new hw m cap n pol)"
  using trie_new_ok reg_inv_new
  by (simp add: refines_def wild_ok_def exact_ok_def ids_ok_def spec_new_def bus_new_def)

lemma exact_topic:
  "exact_ok types xs b \<Longrightarrow> types t = Some ty \<Longrightarrow>
   \<exists>i r. topic_map (registry b) t = Some i \<and> slots b i = Some r"
  unfolding exact_ok_def by blast

lemma exact_known: "exact_ok types xs b \<Longrightarrow> slots b i = Some r \<Longrightarrow> \<exists>t. topic_map (registry b) t = Some i"
  unfolding exact_ok_def by blast

lemma exact_inj: "exact_ok types xs b \<Longrightarrow> slots b i = Some r \<Longrightarrow> slots b j = Some r \<Longrightarrow> i = j"
  unfolding exact_ok_def by blast

lemma exact_slot:
  "exact_ok types xs b \<Longrightarrow> topic_map (registry b) t = Some i \<Longrightarrow> slots b i = Some r \<Longrightarrow>
   r < next_slot b \<and> (\<exists>ty. types t = Some ty \<and>
     store b r = Some \<lparr>msg_type = ty, subscribers = map sub_of (exact_subs t xs)\<rparr>)"
  unfolding exact_ok_def by blast

lemma exact_type: "exact_ok types xs b \<Longrightarrow> x \<in> set xs \<Longrightarrow> \<not> wild x \<Longrightarrow> types (s_pattern x) = Some (s_type x)"
  unfolding exact_ok_def by blast

section \<open>Identifiers\<close>

lemma find_by_id:
  "distinct (map s_id xs) \<Longrightarrow> find (\<lambda>x. s_id x = i) xs = Some x \<longleftrightarrow> x \<in> set xs \<and> s_id x = i"
  by (induction xs) (auto simp: image_iff)

lemma find_by_id_None: "find (\<lambda>x. s_id x = i) xs = None \<longleftrightarrow> i \<notin> s_id ` set xs"
  by (induction xs) auto

lemma find_filter_id:
  "find (\<lambda>x. s_id x = j) (filter (\<lambda>x. s_id x \<noteq> i) xs) =
     (if j = i then None else find (\<lambda>x. s_id x = j) xs)"
  by (induction xs) auto

lemma filter_other_ids:
  assumes "distinct (map s_id xs)" "x \<in> set xs" "s_id x = i" "\<not> P x"
  shows "filter P (filter (\<lambda>y. s_id y \<noteq> i) xs) = filter P xs"
proof -
  have "y = x" if "y \<in> set xs" "s_id y = i" for y
    using assms that by (metis inj_onD distinct_map)
  then have "filter (\<lambda>y. P y \<and> s_id y \<noteq> i) xs = filter P xs"
    using assms(4) by (intro filter_cong) auto
  then show ?thesis by (simp add: conj_commute)
qed

lemma next_id_fresh:
  assumes "ids_ok s b" "issued s + 1 < 2 ^ 64"
  shows "unat (of_nat (issued s + 1) :: sub_id) = issued s + 1"
    and "of_nat (issued s + 1) \<notin> s_id ` set (live s)"
    and "next_sub_id b + 1 = of_nat (issued s + 1)"
proof -
  show u: "unat (of_nat (issued s + 1) :: sub_id) = issued s + 1"
    using assms(2) by (rule unat_of_nat_small)
  show "of_nat (issued s + 1) \<notin> s_id ` set (live s)"
  proof
    assume "of_nat (issued s + 1) \<in> s_id ` set (live s)"
    then obtain x where "x \<in> set (live s)" "s_id x = of_nat (issued s + 1)"
      by auto
    then have "issued s + 1 \<le> issued s"
      using assms(1) u unfolding ids_ok_def by metis
    then show False by simp
  qed
  show "next_sub_id b + 1 = of_nat (issued s + 1)"
    using assms(1) by (simp add: ids_ok_def add.commute)
qed

section \<open>Publishing does not disturb the subscriptions\<close>

text \<open>The registry may learn new topics; everything else is as before.\<close>

lemma refines_registry:
  assumes ref: "refines ws s b" and rg: "reg_inv rg" "topic_map (registry b) \<subseteq>\<^sub>m topic_map rg"
  shows "refines ws s (b\<lparr>registry := rg\<rparr>)"
proof -
  have old: "topic_map (registry b) t = Some i" if h: "topic_map rg t = Some i" "slots b i = Some r" for t i r
  proof -
    obtain t' where t': "topic_map (registry b) t' = Some i"
      using ref h(2) unfolding refines_def exact_ok_def by blast
    then have "topic_map rg t' = Some i"
      using rg(2) by (force simp: map_le_def dom_def)
    then have "t' = t"
      using reg_inv_inj[OF rg(1)] h(1) by blast
    then show ?thesis using t' by simp
  qed
  have keep: "topic_map rg t = Some i" if "topic_map (registry b) t = Some i" for t i
    using rg(2) that by (force simp: map_le_def dom_def)
  have ex: "exact_ok (topic_types s) (live s) b"
    using ref by (simp add: refines_def)
  have "exact_ok (topic_types s) (live s) (b\<lparr>registry := rg\<rparr>)"
    unfolding exact_ok_def
  proof (intro conjI allI ballI impI)
    fix t i r assume "topic_map (registry (b\<lparr>registry := rg\<rparr>)) t = Some i \<and> slots (b\<lparr>registry := rg\<rparr>) i = Some r"
    then have "topic_map (registry b) t = Some i" "slots b i = Some r"
      using old by auto
    then show "r < next_slot (b\<lparr>registry := rg\<rparr>)"
      and "\<exists>ty. topic_types s t = Some ty \<and> store (b\<lparr>registry := rg\<rparr>) r =
            Some \<lparr>msg_type = ty, subscribers = map sub_of (exact_subs t (live s))\<rparr>"
      using ex by (auto simp: exact_ok_def)
  next
    fix t ty assume "topic_types s t = Some ty"
    then obtain i r where "topic_map (registry b) t = Some i" "slots b i = Some r"
      using ex unfolding exact_ok_def by blast
    then show "\<exists>i r. topic_map (registry (b\<lparr>registry := rg\<rparr>)) t = Some i \<and> slots (b\<lparr>registry := rg\<rparr>) i = Some r"
      using keep by auto
  next
    fix i r assume "slots (b\<lparr>registry := rg\<rparr>) i = Some r"
    then obtain t where "topic_map (registry b) t = Some i"
      using ex unfolding exact_ok_def by auto
    then show "\<exists>t. topic_map (registry (b\<lparr>registry := rg\<rparr>)) t = Some i"
      using keep by auto
  qed (use ex in \<open>auto simp: exact_ok_def\<close>)
  moreover have "wild_ok ws (live s) (b\<lparr>registry := rg\<rparr>)"
    using ref by (simp add: refines_def wild_ok_def)
  moreover have "info_of rg x = info_of (registry b) x" if h: "x \<in> set (live s)" for x
  proof (cases "wild x")
    case False
    then have "topic_types s (s_pattern x) = Some (s_type x)"
      using ex h by (simp add: exact_ok_def)
    then obtain i r where "topic_map (registry b) (s_pattern x) = Some i"
      using ex unfolding exact_ok_def by blast
    then show ?thesis using keep by (simp add: info_of_def)
  qed (simp add: info_of_def)
  then have "ids_ok s (b\<lparr>registry := rg\<rparr>)"
    using ref by (auto simp: refines_def ids_ok_def find_by_id intro!: ext option.map_cong0
        dest: find_Some_iff[THEN iffD1])
  ultimately show ?thesis
    using rg(1) by (simp add: refines_def)
qed

lemma resolve_grows:
  assumes "reg_inv r" "topic_count r + 1 < 2 ^ 32" "resolve r t = (r', i)"
  shows "reg_inv r'" "topic_map r' t = Some i" "topic_map r \<subseteq>\<^sub>m topic_map r'"
proof -
  have res: "resolve_slow r t = (r', i)"
    using assms(3) by (simp add: resolve_is_slow)
  have "topic_count r' < 2 ^ 32"
    using topic_count_slow[OF _ res] assms reg_inv_count by auto
  then show "reg_inv r'" "topic_map r' t = Some i" "topic_map r \<subseteq>\<^sub>m topic_map r'"
    using reg_inv_slow[OF assms(1) res] by auto
qed

section \<open>Unsubscription refines its specification\<close>

lemma exact_subs_filter:
  "exact_subs t (filter (\<lambda>x. s_id x \<noteq> i) xs) = filter (\<lambda>x. s_id x \<noteq> i) (exact_subs t xs)"
  by (simp add: exact_subs_def conj_commute cong: conj_cong)

lemma map_sub_of_filter:
  "filter (\<lambda>y. subscriber.sub_id y \<noteq> i) (map sub_of xs) = map sub_of (filter (\<lambda>x. s_id x \<noteq> i) xs)"
  by (simp add: filter_map comp_def sub_of_def)

lemma trie_ids: "wild_ok ws xs b \<Longrightarrow> image_mset pid (trie_paths (trie b)) = mset (map s_id (filter wild xs))"
  by (simp add: wild_ok_def pid_def entry_of_def comp_def image_mset.compositionality)

lemma trie_ids_unique:
  assumes "wild_ok ws xs b" "distinct (map s_id xs)"
  shows "\<forall>j. count (image_mset pid (trie_paths (trie b))) j \<le> 1"
proof -
  have "distinct (map s_id (filter wild xs))"
    using assms(2) by (simp add: distinct_map inj_on_def)
  then show ?thesis
    using trie_ids[OF assms(1)] by (simp add: distinct_count_atmost_1)
qed

text \<open>A change of one wildcard subscription's slot and of the trie leaves the exact slots alone.\<close>

lemma exact_ok_frame:
  assumes "exact_ok types xs b"
    and "registry b' = registry b" "slots b' = slots b" "next_slot b \<le> next_slot b'"
    and "\<forall>i r. slots b i = Some r \<longrightarrow> store b' r = store b r"
    and "\<forall>t. exact_subs t xs' = exact_subs t xs"
  shows "exact_ok types xs' b'"
proof -
  have mem: "x \<in> set xs" if "x \<in> set xs'" "\<not> wild x" for x
  proof -
    have "x \<in> set (exact_subs (s_pattern x) xs')"
      using that by (simp add: exact_subs_def)
    then show ?thesis
      unfolding assms(6)[rule_format] by (simp add: exact_subs_def)
  qed
  show ?thesis
    unfolding exact_ok_def assms(2,3)
  proof (intro conjI allI impI ballI)
    fix t i r assume h: "topic_map (registry b) t = Some i \<and> slots b i = Some r"
    then have "r < next_slot b" "\<exists>ty. types t = Some ty \<and>
        store b r = Some \<lparr>msg_type = ty, subscribers = map sub_of (exact_subs t xs)\<rparr>"
      using assms(1) unfolding exact_ok_def by blast+
    then show "r < next_slot b'" "\<exists>ty. types t = Some ty \<and>
        store b' r = Some \<lparr>msg_type = ty, subscribers = map sub_of (exact_subs t xs')\<rparr>"
      using assms(4-6) h by auto
  next
    fix x assume "x \<in> set xs'" "\<not> wild x"
    then show "types (s_pattern x) = Some (s_type x)"
      using mem assms(1) unfolding exact_ok_def by blast
  qed (use assms(1) in \<open>unfold exact_ok_def, blast+\<close>)
qed

lemma unsubscribe_wild:
  assumes ref: "refines ws s b" and x: "x \<in> set (live s)" "wild x" "s_id x = i"
  shows "refines ws (spec_unsubscribe i s) (unsubscribe i b)"
proof -
  let ?xs = "live s" and ?ys = "filter (\<lambda>y. s_id y \<noteq> i) (live s)"
  have w: "wild_ok ws ?xs b" and e: "exact_ok (topic_types s) ?xs b" and d: "ids_ok s b" and rg: "reg_inv (registry b)"
    using ref by (auto simp: refines_def)
  have dist: "distinct (map s_id ?xs)" using d by (simp add: ids_ok_def)
  have sub: "sub_to_topic b i = Some \<lparr>tid = kInvalidTopicId, is_wildcard = True\<rparr>"
    using d x dist by (simp add: ids_ok_def find_by_id[THEN iffD2] info_of_def)
  let ?p = "entry_of ws x"
  have px: "?p \<in># trie_paths (trie b)" "pid ?p = i" "slot (snd ?p) = ws i"
    using w x by (auto simp: wild_ok_def pid_def entry_of_def)
  obtain snap st found where r: "trie_remove (trie b) (store b) i = (snap, st, found)"
    by (metis prod_cases3)
  have tok: "trie_ok (trie b)" using w by (simp add: wild_ok_def)
  note res = trie_remove_result[OF tok trie_ids_unique[OF w dist], where st = "store b" and i = i,
      unfolded r prod.case]
  have tr: "trie_ok snap" "trie_paths snap = filter_mset (\<lambda>p. pid p \<noteq> i) (trie_paths (trie b))"
    using res by blast+
  have "st = fst (store_remove (store b) (slot (snd ?p)) i)"
    using res px(1,2) by blast
  then have st: "st = fst (store_remove (store b) (ws i) i)"
    by (simp only: px(3))
  have sx: "store b (ws i) = Some \<lparr>msg_type = s_type x, subscribers = [sub_of x]\<rparr>"
    using w x by (auto simp: wild_ok_def)
  then have st_other: "st r' = store b r'" if "r' \<noteq> ws i" for r'
    using st store_remove_other[OF that] by simp
  let ?b = "b\<lparr>sub_to_topic := (sub_to_topic b)(i := None), trie := snap, store := st\<rparr>"
  have ub: "unsubscribe i b = ?b"
    using sub r by (simp add: unsubscribe_def)
  have paths: "trie_paths snap = mset (map (entry_of ws) (filter wild ?ys))"
  proof -
    have "trie_paths snap = mset (filter (\<lambda>p. pid p \<noteq> i) (map (entry_of ws) (filter wild ?xs)))"
      using tr(2) w by (simp add: wild_ok_def)
    also have "filter (\<lambda>p. pid p \<noteq> i) (map (entry_of ws) (filter wild ?xs)) =
        map (entry_of ws) (filter wild ?ys)"
      by (simp add: filter_map comp_def pid_def entry_of_def conj_commute)
    finally show ?thesis .
  qed
  have wsne: "ws (s_id y) \<noteq> ws i" if "y \<in> set ?ys" "wild y" for y
    using w x that unfolding wild_ok_def inj_on_def by force
  have "wild_ok ws ?ys ?b"
    unfolding wild_ok_def using tr(1) paths w wsne st_other
    by (auto simp: wild_ok_def inj_on_def)
  moreover have "exact_ok (topic_types s) ?ys ?b"
  proof (rule exact_ok_frame[OF e])
    have ne: "slots b j \<noteq> Some (ws i)" for j
      using w x by (auto simp: wild_ok_def)
    show "\<forall>j r. slots b j = Some r \<longrightarrow> store ?b r = store b r"
    proof (intro allI impI)
      fix j r assume "slots b j = Some r"
      then have "r \<noteq> ws i" using ne[of j] by auto
      then show "store ?b r = store b r" using st_other by simp
    qed
    show "\<forall>t. exact_subs t ?ys = exact_subs t ?xs"
      using filter_other_ids[OF dist x(1,3)] x(2) by (simp add: exact_subs_def)
  qed simp_all
  moreover have "ids_ok (spec_unsubscribe i s) ?b"
    using d unfolding ids_ok_def
    by (auto simp: spec_unsubscribe_def find_filter_id distinct_map inj_on_def)
  ultimately show ?thesis
    using rg by (simp add: refines_def spec_unsubscribe_def ub)
qed

lemma unsubscribe_exact:
  assumes ref: "refines ws s b" and x: "x \<in> set (live s)" "\<not> wild x" "s_id x = i"
  shows "refines ws (spec_unsubscribe i s) (unsubscribe i b)"
proof -
  let ?xs = "live s" and ?ys = "filter (\<lambda>y. s_id y \<noteq> i) (live s)"
  have w: "wild_ok ws ?xs b" and e: "exact_ok (topic_types s) ?xs b" and d: "ids_ok s b" and rg: "reg_inv (registry b)"
    using ref by (auto simp: refines_def)
  have dist: "distinct (map s_id ?xs)" using d by (simp add: ids_ok_def)
  have "topic_types s (s_pattern x) = Some (s_type x)"
    using e x by (simp add: exact_ok_def)
  then obtain t r where t: "topic_map (registry b) (s_pattern x) = Some t" "slots b t = Some r"
    using e unfolding exact_ok_def by blast
  then obtain ty where sr: "store b r = Some \<lparr>msg_type = ty, subscribers = map sub_of (exact_subs (s_pattern x) ?xs)\<rparr>"
    using e unfolding exact_ok_def by blast
  have sub: "sub_to_topic b i = Some \<lparr>tid = t, is_wildcard = False\<rparr>"
    using d x dist t by (simp add: ids_ok_def find_by_id[THEN iffD2] info_of_def)
  define st where "st = fst (store_remove (store b) r i)"
  have st_r: "st r = Some \<lparr>msg_type = ty, subscribers = map sub_of (exact_subs (s_pattern x) ?ys)\<rparr>"
    using sr by (simp add: st_def store_remove_Some map_sub_of_filter exact_subs_filter)
  have st_other: "st r' = store b r'" if "r' \<noteq> r" for r'
    using store_remove_other[OF that] by (simp add: st_def)
  let ?b = "b\<lparr>sub_to_topic := (sub_to_topic b)(i := None), store := st\<rparr>"
  have ub: "unsubscribe i b = ?b"
    using sub t by (simp add: unsubscribe_def st_def)
  have other: "exact_subs t' ?ys = exact_subs t' ?xs" if "t' \<noteq> s_pattern x" for t'
    using filter_other_ids[OF dist x(1,3)] that by (simp add: exact_subs_def)
  have wild_same: "filter wild ?ys = filter wild ?xs"
    using filter_other_ids[where P = wild, OF dist x(1,3,2)] .
  have wset: "x' \<in> set ?ys \<and> wild x' \<longleftrightarrow> x' \<in> set ?xs \<and> wild x'" for x'
    using arg_cong[OF wild_same, of "\<lambda>zs. x' \<in> set zs"] by simp
  have "wild_ok ws ?ys ?b"
  proof -
    have "st (ws (s_id y)) = store b (ws (s_id y))" if "y \<in> set ?xs" "wild y" for y
      using st_other t(2) w that unfolding wild_ok_def by metis
    moreover have "{y \<in> set ?ys. wild y} = {y \<in> set ?xs. wild y}"
      using wset by blast
    ultimately show ?thesis
      using w wset unfolding wild_ok_def wild_same by auto
  qed
  moreover have "exact_ok (topic_types s) ?ys ?b"
    unfolding exact_ok_def
  proof (intro conjI allI impI ballI)
    fix t' j r' assume "topic_map (registry ?b) t' = Some j \<and> slots ?b j = Some r'"
    then have h: "topic_map (registry b) t' = Some j" "slots b j = Some r'" by simp_all
    then obtain ty' where ty': "r' < next_slot b" "topic_types s t' = Some ty'"
        "store b r' = Some \<lparr>msg_type = ty', subscribers = map sub_of (exact_subs t' ?xs)\<rparr>"
      using e unfolding exact_ok_def by blast
    show "r' < next_slot ?b" using ty'(1) by simp
    show "\<exists>ty. topic_types s t' = Some ty \<and>
        store ?b r' = Some \<lparr>msg_type = ty, subscribers = map sub_of (exact_subs t' ?ys)\<rparr>"
    proof (cases "r' = r")
      case True
      then have "j = t" using e h(2) t(2) unfolding exact_ok_def by blast
      then have "t' = s_pattern x" using reg_inv_inj[OF rg] h(1) t(1) by blast
      then show ?thesis using True st_r sr ty' by simp
    next
      case False
      then have "j \<noteq> t" using h(2) t(2) by auto
      then have "t' \<noteq> s_pattern x" using h(1) t(1) by auto
      then show ?thesis using False st_other other ty' by simp
    qed
  next
    fix y assume "y \<in> set ?ys" "\<not> wild y"
    then show "topic_types s (s_pattern y) = Some (s_type y)"
      using e by (simp add: exact_ok_def)
  next
    fix t' ty' assume "topic_types s t' = Some ty'"
    then show "\<exists>j r'. topic_map (registry ?b) t' = Some j \<and> slots ?b j = Some r'"
      using exact_topic[OF e] by simp
  next
    fix j r' assume "slots ?b j = Some r'"
    then show "\<exists>t'. topic_map (registry ?b) t' = Some j"
      using exact_known[OF e] by simp
  next
    fix j k r' assume "slots ?b j = Some r' \<and> slots ?b k = Some r'"
    then show "j = k"
      using exact_inj[OF e, of j r' k] by simp
  qed
  moreover have "ids_ok (spec_unsubscribe i s) ?b"
    using d unfolding ids_ok_def
    by (auto simp: spec_unsubscribe_def find_filter_id distinct_map inj_on_def)
  ultimately show ?thesis
    using rg by (simp add: refines_def spec_unsubscribe_def ub)
qed

lemma unsubscribe_refines:
  assumes "refines ws s b"
  shows "refines ws (spec_unsubscribe i s) (unsubscribe i b)"
proof (cases "\<exists>x \<in> set (live s). s_id x = i")
  case True
  then show ?thesis
    using unsubscribe_wild unsubscribe_exact assms by metis
next
  case False
  then have "filter (\<lambda>x. s_id x \<noteq> i) (live s) = live s"
    by (simp add: filter_id_conv)
  moreover have "find (\<lambda>x. s_id x = i) (live s) = None"
    using False by (auto simp: find_by_id_None)
  then have "sub_to_topic b i = None"
    using assms by (simp add: refines_def ids_ok_def)
  ultimately show ?thesis
    using assms by (simp add: unsubscribe_def spec_unsubscribe_def)
qed

section \<open>Subscription refines its specification\<close>

lemma find_append_id:
  "s_id x \<notin> s_id ` set xs \<Longrightarrow>
   find (\<lambda>y. s_id y = j) (xs @ [x]) = (if j = s_id x then Some x else find (\<lambda>y. s_id y = j) xs)"
  by (induction xs) auto

lemma ids_ok_add:
  assumes "ids_ok s b" "s_id x \<notin> s_id ` set (live s)" "unat (s_id x) \<le> issued s"
    and "registry b' = registry b" "next_sub_id b' = next_sub_id b"
    and "sub_to_topic b' = (sub_to_topic b)(s_id x \<mapsto> info_of (registry b) x)"
  shows "ids_ok (s\<lparr>live := live s @ [x]\<rparr>) b'"
  using assms by (auto simp: ids_ok_def find_append_id)

lemma ids_ok_issue:
  assumes "ids_ok s b" "issued s + 1 < 2 ^ 64"
  shows "ids_ok (s\<lparr>issued := issued s + 1\<rparr>) (b\<lparr>next_sub_id := next_sub_id b + 1\<rparr>)"
  using assms next_id_fresh(3)[OF assms] by (fastforce simp: ids_ok_def)

lemma refines_issue:
  assumes "refines ws s b" "issued s + 1 < 2 ^ 64"
  shows "refines ws (s\<lparr>issued := issued s + 1\<rparr>) (b\<lparr>next_sub_id := next_sub_id b + 1\<rparr>)"
proof -
  let ?b = "b\<lparr>next_sub_id := next_sub_id b + 1\<rparr>"
  have "exact_ok (topic_types s) (live s) b" "wild_ok ws (live s) b" "ids_ok s b" "reg_inv (registry b)"
    using assms(1) by (simp_all add: refines_def)
  moreover from this(2) have "wild_ok ws (live s) ?b"
    by (simp add: wild_ok_def)
  ultimately show ?thesis
    using exact_ok_frame[of "topic_types s" "live s" b ?b "live s"] ids_ok_issue[OF _ assms(2)]
    by (simp add: refines_def)
qed

lemma add_wild:
  assumes ref: "refines ws s b" and x: "wild x" "s_id x \<notin> s_id ` set (live s)" "unat (s_id x) \<le> issued s"
  shows "refines (ws(s_id x := next_slot b)) (s\<lparr>live := live s @ [x]\<rparr>)
    (b\<lparr>store := (store b)(next_slot b \<mapsto> \<lparr>msg_type = s_type x, subscribers = [sub_of x]\<rparr>),
       next_slot := next_slot b + 1,
       trie := trie_insert (trie b) (s_pattern x) \<lparr>etype = s_type x, slot = next_slot b, sub_id = s_id x\<rparr>,
       sub_to_topic := (sub_to_topic b)(s_id x \<mapsto> \<lparr>tid = kInvalidTopicId, is_wildcard = True\<rparr>)\<rparr>)"
    (is "refines ?ws ?s ?b")
proof -
  let ?xs = "live s"
  have w: "wild_ok ws ?xs b" and e: "exact_ok (topic_types s) ?xs b" and d: "ids_ok s b" and rg: "reg_inv (registry b)"
    using ref by (auto simp: refines_def)
  have other: "?ws (s_id y) = ws (s_id y)" if "y \<in> set ?xs" for y
    using that x(2) by (metis fun_upd_other imageI)
  then have ent: "map (entry_of ?ws) (filter wild ?xs) = map (entry_of ws) (filter wild ?xs)"
    by (simp add: entry_of_def)
  have entm: "image_mset (entry_of ?ws) (filter_mset wild (mset ?xs)) =
      image_mset (entry_of ws) (filter_mset wild (mset ?xs))"
    using arg_cong[OF ent, of mset] by (simp only: mset_map mset_filter)
  have slots: "slots b j \<noteq> Some (next_slot b)" for j
    using exact_known[OF e, of j] exact_slot[OF e, of _ j] by fastforce
  have old: "ws (s_id y) \<noteq> next_slot b" if "y \<in> set ?xs" "wild y" for y
    using w that unfolding wild_ok_def by fastforce
  have "wild_ok ?ws (?xs @ [x]) ?b"
    unfolding wild_ok_def
  proof (intro conjI ballI impI allI)
    show "trie_ok (trie ?b)" "trie_paths (trie ?b) = mset (map (entry_of ?ws) (filter wild (?xs @ [x])))"
      using w x(1) entm by (simp_all add: wild_ok_def trie_insert_def insert_levels_ok insert_levels_paths entry_of_def)
    show "inj_on (\<lambda>y. ?ws (s_id y)) {y \<in> set (?xs @ [x]). wild y}"
    proof (rule inj_onI)
      fix y z assume h: "y \<in> {y \<in> set (?xs @ [x]). wild y}" "z \<in> {y \<in> set (?xs @ [x]). wild y}" "?ws (s_id y) = ?ws (s_id z)"
      have inj: "inj_on (\<lambda>y. ws (s_id y)) {y \<in> set ?xs. wild y}"
        using w by (simp add: wild_ok_def)
      show "y = z"
      proof (cases "y \<in> set ?xs"; cases "z \<in> set ?xs")
        assume "y \<in> set ?xs" "z \<in> set ?xs"
        then show ?thesis using h other inj_onD[OF inj, of y z] by simp
      next
        assume a: "y \<in> set ?xs" "z \<notin> set ?xs"
        then show ?thesis using h other old[of y] by simp
      next
        assume a: "y \<notin> set ?xs" "z \<in> set ?xs"
        then show ?thesis using h other old[of z] by simp
      next
        assume "y \<notin> set ?xs" "z \<notin> set ?xs"
        then show ?thesis using h by simp
      qed
    qed
  next
    fix y assume y: "y \<in> set (?xs @ [x])" "wild y"
    have "store ?b (?ws (s_id y)) = Some \<lparr>msg_type = s_type y, subscribers = [sub_of y]\<rparr> \<and>
        ?ws (s_id y) < next_slot ?b \<and> (\<forall>j. slots b j \<noteq> Some (?ws (s_id y)))"
    proof (cases "y \<in> set ?xs")
      case True
      then have o: "?ws (s_id y) = ws (s_id y)" "ws (s_id y) \<noteq> next_slot b"
        using other old y(2) by auto
      show ?thesis
        unfolding o(1) using o(2) w True y(2) by (auto simp: wild_ok_def)
    next
      case False
      then show ?thesis using y slots by simp
    qed
    then show "store ?b (?ws (s_id y)) = Some \<lparr>msg_type = s_type y, subscribers = [sub_of y]\<rparr>"
        "?ws (s_id y) < next_slot ?b" "slots ?b j \<noteq> Some (?ws (s_id y))" for j
      by simp_all
  qed
  moreover have "exact_ok (topic_types s) (?xs @ [x]) ?b"
    using slots x(1) by (intro exact_ok_frame[OF e]) (auto simp: exact_subs_def)
  moreover have "ids_ok ?s ?b"
    using x(1) by (intro ids_ok_add[OF d x(2,3)]) (simp_all add: info_of_def)
  ultimately show ?thesis
    using rg by (simp add: refines_def)
qed

lemma add_exact:
  assumes ref: "refines ws s b"
    and x: "\<not> wild x" "s_id x \<notin> s_id ` set (live s)" "unat (s_id x) \<le> issued s" "topic_types s (s_pattern x) = Some (s_type x)"
    and t: "topic_map (registry b) (s_pattern x) = Some t" "slots b t = Some r"
  shows "refines ws (s\<lparr>live := live s @ [x]\<rparr>)
    ((add_to_slot r (s_handler x) (s_id x) b)\<lparr>
       sub_to_topic := (sub_to_topic b)(s_id x \<mapsto> \<lparr>tid = t, is_wildcard = False\<rparr>)\<rparr>)"
    (is "refines ws ?s ?b")
proof -
  let ?xs = "live s"
  have w: "wild_ok ws ?xs b" and e: "exact_ok (topic_types s) ?xs b" and d: "ids_ok s b" and rg: "reg_inv (registry b)"
    using ref by (auto simp: refines_def)
  let ?slot = "\<lambda>ys. \<lparr>msg_type = s_type x, subscribers = map sub_of (exact_subs (s_pattern x) ys)\<rparr>"
  have sr: "store b r = Some (?slot ?xs)"
    using exact_slot[OF e t] x(4) by auto
  have add: "exact_subs (s_pattern x) (?xs @ [x]) = exact_subs (s_pattern x) ?xs @ [x]"
    using x(1) by (simp add: exact_subs_def)
  have other: "exact_subs t' (?xs @ [x]) = exact_subs t' ?xs" if "t' \<noteq> s_pattern x" for t'
    using that by (simp add: exact_subs_def)
  have b: "?b = b\<lparr>store := (store b)(r \<mapsto> ?slot (?xs @ [x])),
      sub_to_topic := (sub_to_topic b)(s_id x \<mapsto> \<lparr>tid = t, is_wildcard = False\<rparr>)\<rparr>"
    by (simp add: add_to_slot_def sr addSubscriber_def sub_of_def add)
  have ne: "ws (s_id y) \<noteq> r" if "y \<in> set ?xs" "wild y" for y
    using w that t(2) unfolding wild_ok_def by metis
  have "wild_ok ws (?xs @ [x]) ?b"
  proof -
    have "{y \<in> set (?xs @ [x]). wild y} = {y \<in> set ?xs. wild y}"
      using x(1) by auto
    then show ?thesis
      using w x(1) ne unfolding wild_ok_def b by auto
  qed
  moreover have "exact_ok (topic_types s) (?xs @ [x]) ?b"
    unfolding exact_ok_def b
  proof (intro conjI allI impI ballI, goal_cases)
    case (1 t' j r') then show ?case using exact_slot[OF e, of t' j r'] by simp
  next
    case (2 t' j r')
    then have h: "topic_map (registry b) t' = Some j" "slots b j = Some r'" by simp_all
    obtain ty' where ty': "topic_types s t' = Some ty'"
        "store b r' = Some \<lparr>msg_type = ty', subscribers = map sub_of (exact_subs t' ?xs)\<rparr>"
      using exact_slot[OF e h] by blast
    show ?case
    proof (cases "r' = r")
      case True
      then have "j = t" using exact_inj[OF e h(2)] t(2) by simp
      then have "t' = s_pattern x" using reg_inv_inj[OF rg] h(1) t(1) by blast
      then show ?thesis using True x(4) by simp
    next
      case False
      then have "t' \<noteq> s_pattern x" using h t by auto
      then show ?thesis using False ty' other by simp
    qed
  next
    case (3 t' ty') then show ?case using exact_topic[OF e] by simp
  next
    case (4 j r') then show ?case using exact_known[OF e] by simp
  next
    case (5 j k r') then show ?case using exact_inj[OF e, of j r' k] by simp
  next
    case (6 y) then show ?case using exact_type[OF e, of y] x(4) by auto
  qed
  moreover have "ids_ok ?s ?b"
    unfolding b using x(1) t(1) by (intro ids_ok_add[OF d x(2,3)]) (simp_all add: info_of_def)
  ultimately show ?thesis
    using rg unfolding b by (simp add: refines_def)
qed

lemma create_slot_refines:
  assumes ref: "refines ws s b" and t: "topic_map (registry b) topic = Some t" "slots b t = None"
  shows "refines ws (s\<lparr>topic_types := (topic_types s)(topic \<mapsto> ty)\<rparr>)
    (b\<lparr>store := (store b)(next_slot b \<mapsto> slot_new ty), next_slot := next_slot b + 1,
       slots := (slots b)(t \<mapsto> next_slot b)\<rparr>)" (is "refines ws ?s ?b")
proof -
  let ?xs = "live s"
  have w: "wild_ok ws ?xs b" and e: "exact_ok (topic_types s) ?xs b" and d: "ids_ok s b" and rg: "reg_inv (registry b)"
    using ref by (auto simp: refines_def)
  have none: "topic_types s topic = None"
    using exact_topic[OF e, of topic] t by fastforce
  have empty: "exact_subs topic ?xs = []"
    using exact_type[OF e] none by (auto simp: exact_subs_def filter_empty_conv)
  have lt: "r < next_slot b" if "slots b j = Some r" for j r
    using exact_known[OF e that] exact_slot[OF e _ that] by blast
  have "wild_ok ws ?xs ?b"
    using w unfolding wild_ok_def by (auto simp: less_SucI)
  moreover have "exact_ok (topic_types ?s) ?xs ?b"
    unfolding exact_ok_def
  proof (intro conjI allI impI ballI, goal_cases)
    case (1 t' j r') then show ?case using lt[of j r'] by (auto split: if_splits)
  next
    case (2 t' j r')
    show ?case
    proof (cases "j = t")
      case True
      then have "t' = topic" using reg_inv_inj[OF rg] 2 t(1) by simp
      then show ?thesis using True 2 empty by (simp add: slot_new_def)
    next
      case False
      then have h: "topic_map (registry b) t' = Some j" "slots b j = Some r'" "t' \<noteq> topic"
        using 2 t(1) by auto
      then show ?thesis using exact_slot[OF e h(1,2)] by auto
    qed
  next
    case (3 t' ty')
    then show ?case using exact_topic[OF e, of t' ty'] t(1) by (cases "t' = topic") auto
  next
    case (4 j r') then show ?case using exact_known[OF e, of j] t(1) by (auto split: if_splits)
  next
    case (5 j k r')
    then show ?case using exact_inj[OF e, of j r' k] lt[of j r'] lt[of k r'] by (auto split: if_splits)
  next
    case (6 y) then show ?case using exact_type[OF e, of y] none by auto
  qed
  moreover have "ids_ok ?s ?b"
    using d by (simp add: ids_ok_def)
  ultimately show ?thesis
    using rg by (simp add: refines_def)
qed

lemma refines_slot_type:
  assumes "refines ws s b" "topic_map (registry b) topic = Some t" "slots b t = Some r"
  obtains ty where "topic_types s topic = Some ty"
    "store b r = Some \<lparr>msg_type = ty, subscribers = map sub_of (exact_subs topic (live s))\<rparr>"
  using exact_slot[of "topic_types s" "live s" b topic t r] assms by (auto simp: refines_def)

lemma subscribe_exact_refines:
  assumes ref: "refines ws s b" and ex: "\<not> isWildcard topic"
    and fresh: "i \<notin> s_id ` set (live s)" "unat i \<le> issued s"
    and t: "topic_map (registry b) topic = Some t"
  shows "\<exists>b1 b2 r s'. getOrCreateSlot ty t b = (b1, r) \<and>
    (case r of
       Inl e \<Rightarrow> b2 = b1 \<and> e = TypeMismatch topic \<and> (\<exists>ty'. topic_types s topic = Some ty' \<and> ty' \<noteq> ty) \<and> s' = s
     | Inr r' \<Rightarrow>
         b2 = (add_to_slot r' h i b1)\<lparr>sub_to_topic := (sub_to_topic b1)(i \<mapsto> \<lparr>tid = t, is_wildcard = False\<rparr>)\<rparr> \<and>
         (topic_types s topic = None \<or> topic_types s topic = Some ty) \<and>
         s' = s\<lparr>topic_types := (topic_types s)(topic \<mapsto> ty),
               live := live s @ [\<lparr>s_id = i, s_pattern = topic, s_type = ty, s_handler = h\<rparr>]\<rparr>) \<and>
    refines ws s' b2"
proof -
  let ?x = "\<lparr>s_id = i, s_pattern = topic, s_type = ty, s_handler = h\<rparr>"
  have nw: "\<not> wild ?x" using ex by (simp add: wild_def)
  have rg: "reg_inv (registry b)" using ref by (simp add: refines_def)
  show ?thesis
  proof (cases "slots b t")
    case (Some r)
    obtain ty' where ty': "topic_types s topic = Some ty'"
        "store b r = Some \<lparr>msg_type = ty', subscribers = map sub_of (exact_subs topic (live s))\<rparr>"
      using refines_slot_type[OF ref t Some] by blast
    show ?thesis
    proof (cases "ty' = ty")
      case True
      have same: "(topic_types s)(topic \<mapsto> ty) = topic_types s"
        using ty'(1) True by (simp add: fun_upd_idem)
      have "refines ws (s\<lparr>live := live s @ [?x]\<rparr>) ((add_to_slot r h i b)\<lparr>
          sub_to_topic := (sub_to_topic b)(i \<mapsto> \<lparr>tid = t, is_wildcard = False\<rparr>)\<rparr>)"
        using add_exact[OF ref nw, of t r] fresh ty'(1) True t Some by simp
      then show ?thesis
        using Some True ty' same by (simp add: getOrCreateSlot_def checkedSlot_def)
    next
      case False
      then show ?thesis
        using Some ty' ref reg_inv_to_string[OF rg t] by (simp add: getOrCreateSlot_def checkedSlot_def)
    qed
  next
    case None
    let ?b = "b\<lparr>store := (store b)(next_slot b \<mapsto> slot_new ty), next_slot := next_slot b + 1,
       slots := (slots b)(t \<mapsto> next_slot b)\<rparr>"
    let ?s = "s\<lparr>topic_types := (topic_types s)(topic \<mapsto> ty)\<rparr>"
    have ref1: "refines ws ?s ?b"
      using create_slot_refines[OF ref t None] .
    have none: "topic_types s topic = None"
      using exact_topic[of "topic_types s" "live s" b topic] ref t None by (fastforce simp: refines_def)
    have get: "getOrCreateSlot ty t b = (?b, Inr (next_slot b))"
      using None by (simp add: getOrCreateSlot_def create_slot_def new_slot_def)
    have "refines ws (?s\<lparr>live := live ?s @ [?x]\<rparr>) ((add_to_slot (next_slot b) h i ?b)\<lparr>
        sub_to_topic := (sub_to_topic ?b)(i \<mapsto> \<lparr>tid = t, is_wildcard = False\<rparr>)\<rparr>)"
      using add_exact[OF ref1 nw, of t "next_slot b"] fresh t by simp
    then show ?thesis
      using get none by simp
  qed
qed

lemma subscribe_refines:
  assumes ref: "refines ws s b" and small: "issued s + 1 < 2 ^ 64" "topic_count (registry b) + 1 < 2 ^ 32"
  shows "\<exists>ws'. refines ws' (fst (spec_subscribe ty topic h s)) (fst (subscribe ty topic h b)) \<and>
    snd (subscribe ty topic h b) = snd (spec_subscribe ty topic h s) \<and>
    topic_count (registry (fst (subscribe ty topic h b))) \<le> topic_count (registry b) + 1"
proof -
  have d: "ids_ok s b" and rgb: "reg_inv (registry b)" using ref by (auto simp: refines_def)
  let ?i = "next_sub_id b + 1"
  note fr = next_id_fresh[OF d small(1)]
  have ref0: "refines ws (s\<lparr>issued := issued s + 1\<rparr>) (b\<lparr>next_sub_id := ?i\<rparr>)"
    using refines_issue[OF ref small(1)] .
  let ?s0 = "s\<lparr>issued := issued s + 1\<rparr>" and ?b0 = "b\<lparr>next_sub_id := ?i\<rparr>"
  let ?x = "\<lparr>s_id = ?i, s_pattern = topic, s_type = ty, s_handler = h\<rparr>"
  have fresh: "?i \<notin> s_id ` set (live ?s0)" "unat ?i \<le> issued ?s0"
    unfolding fr(3) using fr(1,2) by simp_all
  show ?thesis
  proof (cases "isWildcard topic")
    case True
    show ?thesis
    proof (cases "misplaced_hash topic")
      case mis: True
      then show ?thesis
        using True ref0 by (intro exI[of _ ws]) (simp add: subscribe_def spec_subscribe_def Let_def)
    next
      case False
      have "wild ?x" using True by (simp add: wild_def)
      note aw = add_wild[OF ref0 this]
      have eq: "fst (subscribe ty topic h b) = ?b0\<lparr>
          store := (store ?b0)(next_slot ?b0 \<mapsto> \<lparr>msg_type = ty, subscribers = [sub_of ?x]\<rparr>),
          next_slot := next_slot ?b0 + 1,
          trie := trie_insert (trie ?b0) topic \<lparr>etype = ty, slot = next_slot ?b0, sub_id = ?i\<rparr>,
          sub_to_topic := (sub_to_topic ?b0)(?i \<mapsto> \<lparr>tid = kInvalidTopicId, is_wildcard = True\<rparr>)\<rparr>"
          "snd (subscribe ty topic h b) = Inr ?i"
        using True False
        by (simp_all add: subscribe_def Let_def new_slot_def add_to_slot_def slot_new_def addSubscriber_def sub_of_def)
      have sp: "spec_subscribe ty topic h s = (?s0\<lparr>live := live s @ [?x]\<rparr>, Inr ?i)"
        using True False fr(3) by (simp add: spec_subscribe_def Let_def)
      show ?thesis
        using aw fresh by (intro exI[of _ "ws(?i := next_slot b)"]) (simp add: eq sp)
    qed
  next
    case False
    obtain rg t where res: "resolve (registry b) topic = (rg, t)" by force
    note gr = resolve_grows[OF rgb small(2) res]
    have ref1: "refines ws ?s0 (?b0\<lparr>registry := rg\<rparr>)"
      using refines_registry[OF ref0 gr(1)] gr(3) by simp
    have cnt: "topic_count rg \<le> topic_count (registry b) + 1"
      using topic_count_slow[of "registry b" topic rg t] reg_inv_count(2)[OF rgb] res
      by (simp add: resolve_is_slow)
    obtain b1 b2 r s' where g: "getOrCreateSlot ty t (?b0\<lparr>registry := rg\<rparr>) = (b1, r)" "refines ws s' b2"
      "case r of
         Inl e \<Rightarrow> b2 = b1 \<and> e = TypeMismatch topic \<and> (\<exists>ty'. topic_types ?s0 topic = Some ty' \<and> ty' \<noteq> ty) \<and> s' = ?s0
       | Inr r' \<Rightarrow>
         b2 = (add_to_slot r' h ?i b1)\<lparr>sub_to_topic := (sub_to_topic b1)(?i \<mapsto> \<lparr>tid = t, is_wildcard = False\<rparr>)\<rparr> \<and>
         (topic_types ?s0 topic = None \<or> topic_types ?s0 topic = Some ty) \<and>
         s' = ?s0\<lparr>topic_types := (topic_types ?s0)(topic \<mapsto> ty), live := live ?s0 @ [?x]\<rparr>"
      using subscribe_exact_refines[OF ref1 False fresh, of t ty h] gr(2) by auto
    have rgs: "registry b1 = rg"
      using g(1) by (auto simp: getOrCreateSlot_def create_slot_def new_slot_def split: option.splits)
    show ?thesis
    proof (cases r)
      case (Inl e)
      then show ?thesis
        using g False res rgs cnt
        by (intro exI[of _ ws]) (auto simp: subscribe_def spec_subscribe_def Let_def)
    next
      case (Inr r')
      have sub: "subscribe ty topic h b = (b2, Inr ?i)"
        using g Inr False res by (simp add: subscribe_def Let_def)
          (cases "store b1 r'"; simp add: add_to_slot_def)
      have rg2: "registry b2 = rg"
        using g(3) Inr rgs by (auto simp: add_to_slot_def split: option.splits)
      have "spec_subscribe ty topic h s = (s', Inr ?i)"
        using g(3) Inr False fr(3) by (auto simp: spec_subscribe_def Let_def fun_upd_idem)
      then show ?thesis
        using sub g(2) rg2 cnt by (intro exI[of _ ws]) simp
    qed
  qed
qed

section \<open>Sequences of calls\<close>

datatype bus_op = SubscribeOp type_info string handler_ref | UnsubscribeOp sub_id

fun run_bus :: "bus_op list \<Rightarrow> 'd bus \<Rightarrow> 'd bus \<times> (bus_error + sub_id) list" where
  "run_bus [] b = (b, [])"
| "run_bus (SubscribeOp ty topic h # ops) b =
     (case subscribe ty topic h b of (b1, r) \<Rightarrow>
        (case run_bus ops b1 of (b2, rs) \<Rightarrow> (b2, r # rs)))"
| "run_bus (UnsubscribeOp i # ops) b = run_bus ops (unsubscribe i b)"

fun run_spec :: "bus_op list \<Rightarrow> spec \<Rightarrow> spec \<times> (bus_error + sub_id) list" where
  "run_spec [] s = (s, [])"
| "run_spec (SubscribeOp ty topic h # ops) s =
     (case spec_subscribe ty topic h s of (s1, r) \<Rightarrow>
        (case run_spec ops s1 of (s2, rs) \<Rightarrow> (s2, r # rs)))"
| "run_spec (UnsubscribeOp i # ops) s = run_spec ops (spec_unsubscribe i s)"

lemma issued_subscribe: "issued (fst (spec_subscribe ty topic h s)) = issued s + 1"
  by (simp add: spec_subscribe_def Let_def split: option.split)

lemma registry_unsubscribe: "registry (unsubscribe i b) = registry b"
  by (simp add: unsubscribe_def Let_def split: option.split prod.split)

lemma run_refines:
  "refines ws s b \<Longrightarrow> issued s + length ops < 2 ^ 64 \<Longrightarrow> topic_count (registry b) + length ops < 2 ^ 32 \<Longrightarrow>
   \<exists>ws'. refines ws' (fst (run_spec ops s)) (fst (run_bus ops b)) \<and> snd (run_bus ops b) = snd (run_spec ops s) \<and>
     topic_count (registry (fst (run_bus ops b))) \<le> topic_count (registry b) + length ops"
proof (induction ops arbitrary: ws s b)
  case (Cons oper ops)
  show ?case
  proof (cases oper)
    case (SubscribeOp ty topic h)
    obtain s1 r where s1: "spec_subscribe ty topic h s = (s1, r)" by force
    obtain b1 r' where b1: "subscribe ty topic h b = (b1, r')" by force
    obtain ws1 where ws1: "refines ws1 s1 b1" "r' = r" "topic_count (registry b1) \<le> topic_count (registry b) + 1"
      using subscribe_refines[OF Cons.prems(1), where ty = ty and topic = topic and h = h] Cons.prems(2,3) s1 b1 by auto
    have "issued s1 = issued s + 1"
      using issued_subscribe[where ty = ty and topic = topic and h = h and s = s] s1 by simp
    then obtain ws' where "refines ws' (fst (run_spec ops s1)) (fst (run_bus ops b1))"
        "snd (run_bus ops b1) = snd (run_spec ops s1)"
        "topic_count (registry (fst (run_bus ops b1))) \<le> topic_count (registry b1) + length ops"
      using Cons.IH[OF ws1(1)] Cons.prems(2,3) ws1(3) by auto
    then show ?thesis
      using SubscribeOp s1 b1 ws1(2,3) by (intro exI[of _ ws']) (simp add: split_beta)
  next
    case (UnsubscribeOp i)
    then show ?thesis
      using Cons.IH[OF unsubscribe_refines[OF Cons.prems(1), of i]] Cons.prems(2,3)
      by (fastforce simp: spec_unsubscribe_def registry_unsubscribe)
  qed
qed auto

section \<open>Dispatch\<close>

text \<open>Handlers that leave the registrations alone; they may do anything else.\<close>

definition same_subs :: "'d bus \<Rightarrow> 'd bus \<Rightarrow> bool" where
  "same_subs b b' \<longleftrightarrow> slots b' = slots b \<and> store b' = store b \<and> trie b' = trie b"

definition quiet :: "('w \<Rightarrow> 'd bus) \<Rightarrow> ('d, 'w) handlers \<Rightarrow> bool" where
  "quiet bus_of call \<longleftrightarrow> (\<forall>h d w. same_subs (bus_of w) (bus_of (fst (call h d w))))"

lemma same_subs_refl [simp]: "same_subs b b"
  by (simp add: same_subs_def)

lemma same_subs_trans: "same_subs b b1 \<Longrightarrow> same_subs b1 b2 \<Longrightarrow> same_subs b b2"
  by (simp add: same_subs_def)

lemma quiet_loop:
  assumes "quiet bus_of call"
  shows "same_subs (bus_of w) (bus_of (dispatch_loop call d subs w))"
proof (induction subs arbitrary: w)
  case (Cons sub subs)
  have "same_subs (bus_of w) (bus_of (fst (call (handler sub) d w)))"
    using assms by (simp add: quiet_def)
  then show ?case
    using Cons[of "fst (call (handler sub) d w)"] same_subs_trans by (simp add: split_beta)
qed simp

definition calls_of :: "'d bus \<Rightarrow> 'd \<Rightarrow> slot_ref \<Rightarrow> (handler_ref \<times> 'd) list" where
  "calls_of b d r = (case store b r of None \<Rightarrow> [] | Some s \<Rightarrow> map (\<lambda>sub. (handler sub, d)) (subscribers s))"

lemma dispatch_slot_recorded:
  "dispatch_slot (\<lambda>p. bus_of (fst p)) (recorded call) d r (w, log) =
     (dispatch_slot bus_of call d r w, log @ calls_of (bus_of w) d r)"
  by (simp add: dispatch_slot_def slot_dispatch_def dispatch_loop_recorded calls_of_def Let_def split: option.split)

lemma dispatch_slot_quiet: "quiet bus_of call \<Longrightarrow> same_subs (bus_of w) (bus_of (dispatch_slot bus_of call d r w))"
  by (simp add: dispatch_slot_def slot_dispatch_def Let_def quiet_loop split: option.split)

lemma calls_of_same: "same_subs b b' \<Longrightarrow> calls_of b' = calls_of b"
  by (simp add: same_subs_def calls_of_def fun_eq_iff)

lemma dispatch_all_recorded:
  assumes "quiet bus_of call"
  shows "fold (dispatch_slot (\<lambda>p. bus_of (fst p)) (recorded call) d) rs (w, log) =
     (fold (dispatch_slot bus_of call d) rs w, log @ concat (map (calls_of (bus_of w) d) rs))"
proof (induction rs arbitrary: w log)
  case (Cons r rs)
  have "same_subs (bus_of w) (bus_of (dispatch_slot bus_of call d r w))"
    using dispatch_slot_quiet[OF assms] .
  then show ?case
    using Cons by (simp add: dispatch_slot_recorded calls_of_same)
qed simp

text \<open>What a dispatch calls, as a function of the bus it starts from.\<close>

definition exact_calls :: "'d bus \<Rightarrow> 'd message \<Rightarrow> (handler_ref \<times> 'd) list" where
  "exact_calls b msg =
     (case slots b (topic_id msg) of
        None \<Rightarrow> []
      | Some r \<Rightarrow> (case store b r of
                   None \<Rightarrow> []
                 | Some s \<Rightarrow> if msg_type s = mtype msg then calls_of b (data msg) r else []))"

definition wild_calls :: "'d bus \<Rightarrow> 'd message \<Rightarrow> (handler_ref \<times> 'd) list" where
  "wild_calls b msg = concat (map (calls_of b (data msg)) (trie_match (trie b) (topic_sv msg) (mtype msg) []))"

lemma dispatchMessage_recorded:
  assumes "quiet bus_of call"
  shows "dispatchMessage (\<lambda>p. bus_of (fst p)) (recorded call) msg (w, log) =
    (dispatchMessage bus_of call msg w, log @ exact_calls (bus_of w) msg @ wild_calls (bus_of w) msg)"
proof -
  have fin: "fold (dispatch_slot (\<lambda>p. bus_of (fst p)) (recorded call) (data msg))
        (trie_match (trie (bus_of w1)) (topic_sv msg) (mtype msg) []) (w1, log1) =
      (fold (dispatch_slot bus_of call (data msg))
        (trie_match (trie (bus_of w1)) (topic_sv msg) (mtype msg) []) w1, log1 @ wild_calls (bus_of w1) msg)"
    for w1 log1
    using dispatch_all_recorded[OF assms] by (simp add: wild_calls_def)
  have wc: "wild_calls (bus_of (dispatch_slot bus_of call (data msg) r w)) msg = wild_calls (bus_of w) msg" for r
    using dispatch_slot_quiet[OF assms, of w "data msg" r]
      calls_of_same[OF dispatch_slot_quiet[OF assms, of w "data msg" r]]
    by (simp add: wild_calls_def same_subs_def)
  show ?thesis
    unfolding dispatchMessage_def exact_calls_def
    using fin wc by (auto simp: Let_def dispatch_slot_recorded split: option.split)
qed

lemma exact_calls_refine:
  assumes ref: "refines ws s b" and t: "topic_map (registry b) (topic_sv msg) = Some (topic_id msg)"
  shows "exact_calls b msg = map (\<lambda>x. (s_handler x, data msg))
    (filter (\<lambda>x. \<not> wild x \<and> wants (topic_sv msg) (mtype msg) x) (live s))"
proof -
  let ?topic = "topic_sv msg" and ?ty = "mtype msg"
  have e: "exact_ok (topic_types s) (live s) b" using ref by (simp add: refines_def)
  have sub: "filter (\<lambda>x. \<not> wild x \<and> wants ?topic ?ty x) (live s) =
      filter (\<lambda>x. s_type x = ?ty) (exact_subs ?topic (live s))"
    by (auto simp: exact_subs_def wants_def intro!: filter_cong)
  show ?thesis
  proof (cases "slots b (topic_id msg)")
    case None
    then have "topic_types s ?topic = None"
      using exact_topic[OF e, of ?topic] t by fastforce
    then have "\<not> (\<not> wild x \<and> s_pattern x = ?topic)" if "x \<in> set (live s)" for x
      using exact_type[OF e that] by force
    then have "exact_subs ?topic (live s) = []"
      unfolding exact_subs_def filter_empty_conv by blast
    then show ?thesis using None sub by (simp add: exact_calls_def)
  next
    case (Some r)
    obtain ty where ty: "topic_types s ?topic = Some ty"
        "store b r = Some \<lparr>msg_type = ty, subscribers = map sub_of (exact_subs ?topic (live s))\<rparr>"
      using refines_slot_type[OF ref t Some] by blast
    have "s_type x = ty" if "x \<in> set (exact_subs ?topic (live s))" for x
      using exact_type[OF e, of x] ty(1) that by (auto simp: exact_subs_def)
    then have "filter (\<lambda>x. s_type x = ?ty) (exact_subs ?topic (live s)) =
        (if ty = ?ty then exact_subs ?topic (live s) else [])"
      by (auto simp: filter_id_conv filter_empty_conv)
    then show ?thesis
      using Some ty(2) sub by (simp add: exact_calls_def calls_of_def sub_of_def)
  qed
qed

lemma wild_calls_refine:
  assumes ref: "refines ws s b" and small: "length (live s) < 2 ^ 64"
    and conc: "concrete (splitLevels (topic_sv msg))"
  shows "mset (wild_calls b msg) = mset (map (\<lambda>x. (s_handler x, data msg))
    (filter (\<lambda>x. wild x \<and> wants (topic_sv msg) (mtype msg) x) (live s)))"
proof -
  let ?ts = "splitLevels (topic_sv msg)" and ?ty = "mtype msg" and ?d = "data msg"
  have w: "wild_ok ws (live s) b" using ref by (simp add: refines_def)
  have paths: "trie_paths (trie b) = mset (map (entry_of ws) (filter wild (live s)))" and ok: "trie_ok (trie b)"
    using w by (simp_all add: wild_ok_def)
  have "size (trie_paths (trie b)) = length (filter wild (live s))"
    unfolding paths by (simp flip: size_mset)
  then have sz: "size (trie_paths (trie b)) < 2 ^ 64"
    using small by (metis length_filter_le order.strict_trans1)
  have m: "mset (trie_match (trie b) (topic_sv msg) ?ty []) =
      mset (map (\<lambda>x. ws (s_id x)) (filter (\<lambda>x. wild x \<and> wants (topic_sv msg) ?ty x) (live s)))"
  proof -
    have "mset (trie_match (trie b) (topic_sv msg) ?ty []) = matching ?ty ?ts (trie_paths (trie b))"
      using trie_match_deliveries[OF ok sz] deliveries_matching[OF conc] by simp
    also have "\<dots> = mset (map (\<lambda>p. slot (snd p)) (filter (\<lambda>p. etype (snd p) = ?ty \<and> level_match (fst p) ?ts)
        (map (entry_of ws) (filter wild (live s)))))"
      by (simp add: matching_def paths)
    also have "filter (\<lambda>p. etype (snd p) = ?ty \<and> level_match (fst p) ?ts) (map (entry_of ws) (filter wild (live s))) =
        map (entry_of ws) (filter (\<lambda>x. etype (snd (entry_of ws x)) = ?ty \<and> level_match (fst (entry_of ws x)) ?ts)
          (filter wild (live s)))"
      by (simp only: filter_map comp_def)
    also have "filter (\<lambda>x. etype (snd (entry_of ws x)) = ?ty \<and> level_match (fst (entry_of ws x)) ?ts)
          (filter wild (live s)) = filter (\<lambda>x. wild x \<and> wants (topic_sv msg) ?ty x) (live s)"
      unfolding filter_filter by (rule filter_cong) (auto simp: entry_of_def wants_def)
    finally show ?thesis by (simp add: comp_def entry_of_def)
  qed
  have calls: "calls_of b ?d (ws (s_id x)) = [(s_handler x, ?d)]" if "x \<in> set (live s)" "wild x" for x
    using w that by (simp add: wild_ok_def calls_of_def sub_of_def)
  have "mset (wild_calls b msg) = (\<Sum>r\<in>#mset (trie_match (trie b) (topic_sv msg) ?ty []). mset (calls_of b ?d r))"
    unfolding wild_calls_def by (simp add: mset_concat sum_mset_sum_list[symmetric] comp_def)
  also have "\<dots> = sum_list (map (\<lambda>x. mset (calls_of b ?d (ws (s_id x))))
      (filter (\<lambda>x. wild x \<and> wants (topic_sv msg) ?ty x) (live s)))"
    unfolding m by (simp add: sum_mset_sum_list comp_def flip: mset_map)
  also have "\<dots> = sum_list (map (\<lambda>x. {#(s_handler x, ?d)#})
      (filter (\<lambda>x. wild x \<and> wants (topic_sv msg) ?ty x) (live s)))"
    using calls by (intro arg_cong[of _ _ sum_list] map_cong) auto
  also have "\<dots> = mset (map (\<lambda>x. (s_handler x, ?d)) (filter (\<lambda>x. wild x \<and> wants (topic_sv msg) ?ty x) (live s)))"
    by (induction "live s") (auto simp: mset_concat)
  finally show ?thesis .
qed

definition delivered :: "spec \<Rightarrow> 'd message \<Rightarrow> (handler_ref \<times> 'd) multiset" where
  "delivered s msg =
     image_mset (\<lambda>x. (s_handler x, data msg)) (mset (filter (wants (topic_sv msg) (mtype msg)) (live s)))"

lemma dispatch_calls_refine:
  assumes "refines ws s b" "length (live s) < 2 ^ 64"
    and "topic_map (registry b) (topic_sv msg) = Some (topic_id msg)" "concrete (splitLevels (topic_sv msg))"
  shows "mset (exact_calls b msg @ wild_calls b msg) = delivered s msg"
proof -
  let ?P = "wants (topic_sv msg) (mtype msg)"
  have "mset (filter ?P xs) = mset (filter (\<lambda>x. \<not> wild x \<and> ?P x) xs) + mset (filter (\<lambda>x. wild x \<and> ?P x) xs)" for xs
    by (induction xs) auto
  note split = this[of "live s"]
  show ?thesis
    unfolding delivered_def split mset_append wild_calls_refine[OF assms(1,2,4)] exact_calls_refine[OF assms(1,3)]
    by simp
qed

lemma length_live_le: "length (live (fst (run_spec ops s))) \<le> length (live s) + length ops"
proof (induction ops arbitrary: s)
  case (Cons oper ops)
  have sub: "length (live (fst (spec_subscribe ty topic h s))) \<le> length (live s) + 1" for ty topic h
    by (simp add: spec_subscribe_def Let_def split: option.split)
  show ?case
  proof (cases oper)
    case (SubscribeOp ty topic h)
    then show ?thesis
      using Cons[of "fst (spec_subscribe ty topic h s)"] sub[of ty topic h] by (simp add: split_beta)
  next
    case (UnsubscribeOp i)
    have "length (live (spec_unsubscribe i s)) \<le> length (live s)"
      by (simp add: spec_unsubscribe_def)
    then show ?thesis
      using Cons[of "spec_unsubscribe i s"] UnsubscribeOp by simp
  qed
qed simp

lemma run_bus_new_refines:
  assumes "length ops < 2 ^ 32 - 1"
  shows "\<exists>ws. refines ws (fst (run_spec ops spec_new)) (fst (run_bus ops (bus_new hw m cap n pol))) \<and>
    snd (run_bus ops (bus_new hw m cap n pol)) = snd (run_spec ops spec_new) \<and>
    topic_count (registry (fst (run_bus ops (bus_new hw m cap n pol)))) \<le> length ops"
proof -
  have "topic_count (registry (bus_new hw m cap n pol)) = 0"
    by (simp add: bus_new_def topic_count_def registry_new_def)
  then show ?thesis
    using run_refines[OF refines_new[of "\<lambda>_. 0" hw m cap n pol], of ops] assms
    by (simp add: spec_new_def)
qed

lemma subscriptions_deliver:
  assumes len: "length ops < 2 ^ 32 - 1"
    and calls: "run_bus ops (bus_new hw m cap n pol) = (b, rs)" "run_spec ops spec_new = (s, rs')"
    and res: "resolve (registry b) (topic_sv msg) = (rg, topic_id msg)"
    and w: "bus_of w = b\<lparr>registry := rg\<rparr>" and q: "quiet bus_of call"
    and conc: "concrete (splitLevels (topic_sv msg))"
  shows "rs = rs' \<and> (\<exists>log. dispatchMessage (\<lambda>p. bus_of (fst p)) (recorded call) msg (w, []) =
      (dispatchMessage bus_of call msg w, log) \<and> mset log = delivered s msg)"
proof -
  obtain ws where ws: "refines ws s b" "rs = rs'" "topic_count (registry b) \<le> length ops"
    using run_bus_new_refines[OF len, of hw m cap n pol] calls by auto
  have rgb: "reg_inv (registry b)" using ws(1) by (simp add: refines_def)
  have "topic_count (registry b) + 1 < 2 ^ 32"
    using ws(3) len by simp
  note gr = resolve_grows[OF rgb this res]
  have ref: "refines ws s (bus_of w)" unfolding w by (rule refines_registry[OF ws(1) gr(1,3)])
  have "length (live s) < 2 ^ 64"
    using length_live_le[of ops spec_new] calls(2) len by (simp add: spec_new_def)
  moreover have "topic_map (registry (bus_of w)) (topic_sv msg) = Some (topic_id msg)"
    using gr(2) by (simp add: w)
  ultimately have "mset (exact_calls (bus_of w) msg @ wild_calls (bus_of w) msg) = delivered s msg"
    using dispatch_calls_refine[OF ref] conc by blast
  then show ?thesis
    using dispatchMessage_recorded[OF q, of msg w "[]"] ws(2)
    by (metis append_Nil)
qed

section \<open>The properties\<close>

text \<open>C3: end to end, for any sequence of \<open>subscribe\<close> and \<open>unsubscribe\<close> calls on a new bus (fewer
  than \<open>2 ^ 32 - 1\<close> of them): every call returns or throws exactly what the abstract list of live
  subscriptions says, and a later dispatch of a message, its topic resolved as \<open>publish\<close> does,
  calls exactly the handlers of the live subscriptions whose type is the message's and whose
  pattern matches its topic, each once and with the message's data, exact and wildcard
  subscriptions alike, whichever handlers throw; nothing else is called.\<close>

theorem subscribed_handlers_called:
  assumes "length ops < 2 ^ 32 - 1"
    and "run_bus ops (bus_new hw m cap n pol) = (b, rs)" and "run_spec ops spec_new = (s, rs')"
    and "resolve (registry b) (topic_sv msg) = (rg, topic_id msg)"
    and "bus_of w = b\<lparr>registry := rg\<rparr>" and "quiet bus_of call"
    and "concrete (splitLevels (topic_sv msg))"
  shows "rs = rs' \<and> (\<exists>log. dispatchMessage (\<lambda>p. bus_of (fst p)) (recorded call) msg (w, []) =
      (dispatchMessage bus_of call msg w, log) \<and> mset log = delivered s msg)"
  using assms by (rule subscriptions_deliver)

definition example_ops :: "bus_op list" where
  "example_ops =
     [SubscribeOp 1 ''a/b'' 5, SubscribeOp 1 ''a/#'' 6, SubscribeOp 1 ''c'' 7, SubscribeOp 2 ''a/b'' 8,
      SubscribeOp 1 ''*/b'' 9, UnsubscribeOp 5]"

definition example_msg :: "topic_id \<Rightarrow> nat message" where
  "example_msg i = \<lparr>ref_count = 1, recycler = True, on_drop = None, topic_sv = ''a/b'', topic_id = i,
     data = 42, mtype = 1\<rparr>"

theorem subscribed_handlers_called_witness:
  "\<exists>(b :: nat bus) log.
     run_bus example_ops (bus_new 1 mem_new 2 1 DropOldest) =
       (b, [Inr 1, Inr 2, Inr 3, Inl (TypeMismatch ''a/b''), Inr 5]) \<and>
     (case resolve (registry b) ''a/b'' of (rg, i) \<Rightarrow>
        snd (dispatchMessage fst (recorded (\<lambda>h d b. (b, False))) (example_msg i) (b\<lparr>registry := rg\<rparr>, [])) = log \<and>
        mset log = {#(5, 42), (6, 42)#})"
proof -
  let ?b = "bus_new 1 (mem_new :: nat mem) 2 1 DropOldest"
  obtain b rs where b: "run_bus example_ops ?b = (b, rs)" by force
  obtain rg i where res: "resolve (registry b) ''a/b'' = (rg, i)" by force
  have s: "run_spec example_ops spec_new =
      (\<lparr>live = [\<lparr>s_id = 1, s_pattern = ''a/b'', s_type = 1, s_handler = 5\<rparr>,
                \<lparr>s_id = 2, s_pattern = ''a/#'', s_type = 1, s_handler = 6\<rparr>,
                \<lparr>s_id = 3, s_pattern = ''c'', s_type = 1, s_handler = 7\<rparr>],
        topic_types = [''a/b'' \<mapsto> 1, ''c'' \<mapsto> 1], issued = 5\<rparr>,
       [Inr 1, Inr 2, Inr 3, Inl (TypeMismatch ''a/b''), Inr 5])" (is "_ = (?s, ?rs)")
  proof -
    have w: "isWildcard ''a/#''" "\<not> misplaced_hash ''a/#''" "isWildcard ''*/b''" "\<not> misplaced_hash ''*/b''"
        "\<not> isWildcard ''a/b''" "\<not> isWildcard ''c''"
      by code_simp+
    show ?thesis
      by (simp add: example_ops_def spec_subscribe_def spec_unsubscribe_def spec_new_def w)
  qed
  have lv: "level_match (splitLevels ''a/#'') (splitLevels ''a/b'')" "concrete (splitLevels ''a/b'')"
      "isWildcard ''a/#''" "\<not> isWildcard ''a/b''" "\<not> isWildcard ''c''"
    by code_simp+
  have del: "delivered ?s (example_msg i) = {#(5, 42), (6, 42)#}"
    using lv by (simp add: delivered_def example_msg_def wants_def wild_def)
  have conc: "concrete (splitLevels (topic_sv (example_msg i)))"
    using lv(2) by (simp add: example_msg_def)
  have res': "resolve (registry b) (topic_sv (example_msg i)) = (rg, topic_id (example_msg i))"
    using res by (simp add: example_msg_def)
  have q: "quiet (\<lambda>b. b) (\<lambda>h d b. (b :: nat bus, False))" by (simp add: quiet_def)
  have "length example_ops < 2 ^ 32 - 1" by (simp add: example_ops_def)
  from subscribed_handlers_called[OF this b s res' refl q conc]
  show ?thesis
    using b res del by auto
qed

end
