(* ===== verification/Bus_Types.thy ===== *)
theory Bus_Types
  imports Bus_Subscribe
begin

text \<open>
  Type safety of the erased pointers. A slot is reached as an \<open>ITopicSlot*\<close> and a message as an
  \<open>IMessage\<close>; \<open>checkedSlot\<close> and \<open>dispatch\<close> cast them back with \<open>static_cast\<close>. The handlers here may
  call \<open>subscribe\<close>, \<open>unsubscribe\<close> and \<open>publish\<close> themselves while a dispatch runs.
\<close>

section \<open>The invariant\<close>

text \<open>\<open>tau\<close> is the parameter type each handler was compiled with.\<close>

definition slot_typed :: "(handler_ref \<Rightarrow> type_info) \<Rightarrow> topic_slot \<Rightarrow> bool" where
  "slot_typed tau s \<longleftrightarrow> (\<forall>x \<in> set (subscribers s). tau (handler x) = msg_type s)"

definition typed_bus :: "(handler_ref \<Rightarrow> type_info) \<Rightarrow> 'd bus \<Rightarrow> bool" where
  "typed_bus tau b \<longleftrightarrow>
     trie_ok (trie b) \<and>
     (\<forall>r s. store b r = Some s \<longrightarrow> r < next_slot b \<and> slot_typed tau s) \<and>
     (\<forall>p \<in># trie_paths (trie b). map_option msg_type (store b (slot (snd p))) = Some (etype (snd p))) \<and>
     (\<forall>i r. slots b i = Some r \<longrightarrow> store b r \<noteq> None)"

text \<open>Slots are never destroyed or retyped while something may still point to them.\<close>

definition types_kept :: "'d bus \<Rightarrow> 'd bus \<Rightarrow> bool" where
  "types_kept b b' \<longleftrightarrow>
     (\<forall>r s. store b r = Some s \<longrightarrow> map_option msg_type (store b' r) = Some (msg_type s))"

lemma types_kept_refl [simp]: "types_kept b b"
  by (simp add: types_kept_def)

lemma types_kept_trans: "types_kept b b1 \<Longrightarrow> types_kept b1 b2 \<Longrightarrow> types_kept b b2"
  unfolding types_kept_def by (metis map_option_eq_Some)

lemma typed_busI:
  assumes "trie_ok (trie b)"
    and "\<And>r s. store b r = Some s \<Longrightarrow> r < next_slot b \<and> slot_typed tau s"
    and "\<And>p. p \<in># trie_paths (trie b) \<Longrightarrow> map_option msg_type (store b (slot (snd p))) = Some (etype (snd p))"
    and "\<And>i r. slots b i = Some r \<Longrightarrow> store b r \<noteq> None"
  shows "typed_bus tau b"
  using assms unfolding typed_bus_def by blast

lemma typed_busD:
  assumes "typed_bus tau b"
  shows "trie_ok (trie b)"
    and "store b r = Some s \<Longrightarrow> r < next_slot b" and "store b r = Some s \<Longrightarrow> slot_typed tau s"
    and "p \<in># trie_paths (trie b) \<Longrightarrow> map_option msg_type (store b (slot (snd p))) = Some (etype (snd p))"
    and "slots b i = Some r \<Longrightarrow> store b r \<noteq> None"
  using assms unfolding typed_bus_def by blast+

text \<open>The fields the invariant does not read.\<close>

lemma typed_bus_other [simp]:
  "typed_bus tau (b\<lparr>registry := rg\<rparr>) = typed_bus tau b"
  "typed_bus tau (b\<lparr>next_sub_id := i\<rparr>) = typed_bus tau b"
  "typed_bus tau (b\<lparr>sub_to_topic := m\<rparr>) = typed_bus tau b"
  "types_kept c (b\<lparr>registry := rg\<rparr>) = types_kept c b"
  "types_kept c (b\<lparr>next_sub_id := i\<rparr>) = types_kept c b"
  "types_kept c (b\<lparr>sub_to_topic := m\<rparr>) = types_kept c b"
  "types_kept c (b\<lparr>slots := sl\<rparr>) = types_kept c b"
  "types_kept c (b\<lparr>trie := t\<rparr>) = types_kept c b"
  by (simp_all add: typed_bus_def types_kept_def)

lemma typed_bus_new: "typed_bus tau (bus_new hw m cap n pol)"
  using trie_new_ok by (auto simp: bus_new_def intro!: typed_busI)

section \<open>The operations keep it\<close>

lemma new_slot_typed:
  assumes "typed_bus tau b" "new_slot ty b = (b1, r)"
  shows "typed_bus tau b1" "types_kept b b1" "store b1 r = Some (slot_new ty)" "trie b1 = trie b"
proof -
  have b1: "b1 = b\<lparr>store := (store b)(next_slot b \<mapsto> slot_new ty), next_slot := next_slot b + 1\<rparr>"
      and r: "r = next_slot b"
    using assms(2) by (auto simp: new_slot_def)
  have fresh: "store b (next_slot b) = None"
    using typed_busD(2)[OF assms(1), of "next_slot b"] by (cases "store b (next_slot b)") auto
  then have ne: "store b x = Some s \<Longrightarrow> x \<noteq> next_slot b" for x s by auto
  show "typed_bus tau b1"
  proof (rule typed_busI)
    show "trie_ok (trie b1)" using typed_busD(1)[OF assms(1)] by (simp add: b1)
    show "x < next_slot b1 \<and> slot_typed tau s" if "store b1 x = Some s" for x s
      using typed_busD(2,3)[OF assms(1), of x s] that
      by (auto simp: b1 slot_typed_def slot_new_def split: if_splits)
    show "map_option msg_type (store b1 (slot (snd p))) = Some (etype (snd p))" if "p \<in># trie_paths (trie b1)" for p
      using typed_busD(4)[OF assms(1), of p] that fresh by (auto simp: b1)
    show "store b1 x \<noteq> None" if "slots b1 i = Some x" for i x
      using typed_busD(5)[OF assms(1), of i x] that by (simp add: b1)
  qed
  show "types_kept b b1" using ne by (auto simp: types_kept_def b1)
  show "store b1 r = Some (slot_new ty)" "trie b1 = trie b" by (simp_all add: b1 r)
qed

lemma store_update_typed:
  assumes "typed_bus tau b" "store b r = Some s" "slot_typed tau s'" "msg_type s' = msg_type s"
  shows "typed_bus tau (b\<lparr>store := (store b)(r \<mapsto> s')\<rparr>)" "types_kept b (b\<lparr>store := (store b)(r \<mapsto> s')\<rparr>)"
proof -
  show "typed_bus tau (b\<lparr>store := (store b)(r \<mapsto> s')\<rparr>)"
  proof (rule typed_busI, goal_cases)
    case 1 then show ?case using typed_busD(1)[OF assms(1)] by simp
  next
    case (2 x t) then show ?case
      using typed_busD(2)[OF assms(1,2)] typed_busD(2,3)[OF assms(1), of x t] assms(3) by (auto split: if_splits)
  next
    case (3 p) then show ?case using typed_busD(4)[OF assms(1), of p] assms(2,4) by auto
  next
    case (4 i x) then show ?case using typed_busD(5)[OF assms(1), of i x] by auto
  qed
  show "types_kept b (b\<lparr>store := (store b)(r \<mapsto> s')\<rparr>)"
    using assms(2,4) by (auto simp: types_kept_def)
qed

lemma add_to_slot_typed:
  assumes "typed_bus tau b" "map_option msg_type (store b r) = Some (tau h)"
  shows "typed_bus tau (add_to_slot r h i b)" "types_kept b (add_to_slot r h i b)"
proof -
  obtain s where s: "store b r = Some s" "msg_type s = tau h" using assms(2) by auto
  have "slot_typed tau (fst (addSubscriber s h i))" "msg_type (fst (addSubscriber s h i)) = msg_type s"
    using typed_busD(3)[OF assms(1) s(1)] s(2) by (auto simp: slot_typed_def addSubscriber_def)
  note up = store_update_typed[OF assms(1) s(1) this]
  show "typed_bus tau (add_to_slot r h i b)" "types_kept b (add_to_slot r h i b)"
    using up s(1) by (simp_all add: add_to_slot_def)
qed

lemma trie_insert_typed:
  assumes "typed_bus tau b" "map_option msg_type (store b (slot e)) = Some (etype e)"
  shows "typed_bus tau (b\<lparr>trie := trie_insert (trie b) topic e\<rparr>)"
  using assms insert_levels_ok typed_busD[OF assms(1)]
  by (intro typed_busI) (auto simp: trie_insert_def insert_levels_paths)

lemma types_kept_type: "types_kept b b' \<Longrightarrow> map_option msg_type (store b r) = Some ty \<Longrightarrow> map_option msg_type (store b' r) = Some ty"
  by (auto simp: types_kept_def)

lemma getOrCreateSlot_typed:
  assumes "typed_bus tau b" "getOrCreateSlot ty i b = (b1, res)"
  shows "typed_bus tau b1" "types_kept b b1" "res = Inr r \<Longrightarrow> map_option msg_type (store b1 r) = Some ty"
proof -
  have found: "typed_bus tau b1 \<and> types_kept b b1 \<and> (res = Inr r \<longrightarrow> map_option msg_type (store b1 r) = Some ty)"
    if h: "slots b i = Some r'" "b1 = b" "res = checkedSlot ty b i r'" for r'
  proof -
    obtain s where "store b r' = Some s" using typed_busD(5)[OF assms(1) h(1)] by auto
    then show ?thesis using assms(1) h(2,3) by (auto simp: checkedSlot_def)
  qed
  have made: "typed_bus tau b1 \<and> types_kept b b1 \<and> (res = Inr r \<longrightarrow> map_option msg_type (store b1 r) = Some ty)"
    if h: "new_slot ty b = (c, r')" "b1 = c\<lparr>slots := (slots c)(i \<mapsto> r')\<rparr>" "res = Inr r'" for c r'
  proof -
    note ns = new_slot_typed[OF assms(1) h(1)]
    have "typed_bus tau b1"
      using typed_busD[OF ns(1)] ns(3) h(2) by (intro typed_busI) (auto split: if_splits)
    then show ?thesis using ns(2,3) h(2,3) by (auto simp: slot_new_def)
  qed
  have "typed_bus tau b1 \<and> types_kept b b1 \<and> (res = Inr r \<longrightarrow> map_option msg_type (store b1 r) = Some ty)"
    using assms(2) found made
    by (auto simp: getOrCreateSlot_def create_slot_def split: option.splits prod.splits)
  then show "typed_bus tau b1" "types_kept b b1" "res = Inr r \<Longrightarrow> map_option msg_type (store b1 r) = Some ty"
    by blast+
qed

lemma subscribe_typed:
  assumes "typed_bus tau b"
  shows "typed_bus tau (fst (subscribe (tau h) topic h b)) \<and> types_kept b (fst (subscribe (tau h) topic h b))"
proof -
  let ?i = "next_sub_id b + 1"
  let ?b0 = "b\<lparr>next_sub_id := ?i\<rparr>"
  have b0: "typed_bus tau ?b0" using assms by simp
  have kept0: "types_kept ?b0 c \<Longrightarrow> types_kept b c" for c by (simp add: types_kept_def)
  show ?thesis
  proof (cases "isWildcard topic \<and> \<not> misplaced_hash topic")
    case True
    obtain b1 r where ns: "new_slot (tau h) ?b0 = (b1, r)" by force
    note n = new_slot_typed[OF b0 ns]
    have ty: "map_option msg_type (store b1 r) = Some (tau h)"
      using n(3) by (simp add: slot_new_def)
    note a = add_to_slot_typed[OF n(1) ty, of ?i]
    let ?b2 = "add_to_slot r h ?i b1" and ?e = "\<lparr>etype = tau h, slot = r, sub_id = ?i\<rparr>"
    have "typed_bus tau (?b2\<lparr>trie := trie_insert (trie ?b2) topic ?e\<rparr>)"
      using types_kept_type[OF a(2) ty] by (intro trie_insert_typed[OF a(1)]) simp
    then show ?thesis
      using True ns kept0[OF types_kept_trans[OF n(2) a(2)]] by (simp add: subscribe_def Let_def)
  next
    case False
    show ?thesis
    proof (cases "isWildcard topic")
      case True
      then show ?thesis using False b0 by (simp add: subscribe_def Let_def)
    next
      case exact: False
      obtain rg t where res: "resolve (registry b) topic = (rg, t)" by force
      obtain b1 res' where g: "getOrCreateSlot (tau h) t (?b0\<lparr>registry := rg\<rparr>) = (b1, res')" by force
      have "typed_bus tau (?b0\<lparr>registry := rg\<rparr>)" using assms by simp
      note gt = getOrCreateSlot_typed[OF this g]
      have kept: "types_kept b b1" using gt(2) by (simp add: types_kept_def)
      show ?thesis
      proof (cases res')
        case (Inl e)
        then show ?thesis using exact res g gt(1) kept by (simp add: subscribe_def Let_def)
      next
        case (Inr r)
        note a = add_to_slot_typed[OF gt(1) gt(3)[OF Inr], of ?i]
        show ?thesis
          using exact res g Inr a(1) types_kept_trans[OF kept a(2)] by (simp add: subscribe_def Let_def)
      qed
    qed
  qed
qed

lemma store_remove_typed:
  assumes "typed_bus tau b"
  shows "typed_bus tau (b\<lparr>store := fst (store_remove (store b) r i)\<rparr>)"
    "types_kept b (b\<lparr>store := fst (store_remove (store b) r i)\<rparr>)"
proof -
  have "typed_bus tau (b\<lparr>store := fst (store_remove (store b) r i)\<rparr>) \<and>
      types_kept b (b\<lparr>store := fst (store_remove (store b) r i)\<rparr>)"
  proof (cases "store b r")
    case (Some s)
    have "slot_typed tau (s\<lparr>subscribers := filter (\<lambda>x. subscriber.sub_id x \<noteq> i) (subscribers s)\<rparr>)"
      using typed_busD(3)[OF assms Some] by (simp add: slot_typed_def)
    from store_update_typed[OF assms Some this] show ?thesis
      by (simp add: store_remove_Some[of "store b", OF Some])
  qed (simp add: assms store_remove_None types_kept_def)
  then show "typed_bus tau (b\<lparr>store := fst (store_remove (store b) r i)\<rparr>)"
    "types_kept b (b\<lparr>store := fst (store_remove (store b) r i)\<rparr>)" by blast+
qed

lemma trie_remove_typed:
  assumes "typed_bus tau b" "trie_remove (trie b) (store b) i = (snap, st, found)"
  shows "typed_bus tau (b\<lparr>trie := snap, store := st\<rparr>) \<and> types_kept b (b\<lparr>trie := snap, store := st\<rparr>)"
proof (cases found)
  case True
  then obtain ls e where e: "trie_paths (trie b) = add_mset (ls, e) (trie_paths snap)"
      "st = fst (store_remove (store b) (slot e) i)"
    using trie_remove_hit[of "trie b" "store b" i snap st] assms(2) by auto
  note sr = store_remove_typed[OF assms(1), of "slot e" i, folded e(2)]
  have "typed_bus tau (b\<lparr>trie := snap, store := st\<rparr>)"
    using typed_busD[OF sr(1)] trie_remove_ok[OF typed_busD(1)[OF assms(1)] assms(2)] e(1)
    by (intro typed_busI) auto
  then show ?thesis using sr(2) by (simp add: types_kept_def)
next
  case False
  then have "snap = trie b" "st = store b"
    using trie_remove_miss[of "trie b" "store b" i snap st] assms(2) by auto
  then show ?thesis using assms(1) by simp
qed

lemma unsubscribe_typed:
  assumes "typed_bus tau b"
  shows "typed_bus tau (unsubscribe i b) \<and> types_kept b (unsubscribe i b)"
proof (cases "sub_to_topic b i")
  case (Some info)
  let ?b1 = "b\<lparr>sub_to_topic := (sub_to_topic b)(i := None)\<rparr>"
  have b1: "typed_bus tau ?b1" using assms by simp
  have kept: "types_kept ?b1 c \<Longrightarrow> types_kept b c" for c by (simp add: types_kept_def)
  show ?thesis
  proof (cases "is_wildcard info")
    case True
    obtain snap st found where tr: "trie_remove (trie b) (store b) i = (snap, st, found)"
      by (metis prod_cases3)
    then show ?thesis
      using trie_remove_typed[OF b1, of i snap st found] True Some kept by (auto simp: unsubscribe_def Let_def)
  next
    case False
    then show ?thesis
      using store_remove_typed[OF b1, of _ i] b1 Some kept
      by (auto simp: unsubscribe_def Let_def split: option.split)
  qed
qed (simp add: unsubscribe_def assms)

section \<open>Calls from handlers\<close>

text \<open>What a client may have done to the registrations, through the public interface, between two
  points in time: any number of subscriptions, each with the type of its handler, removals, and
  calls that only touch the rest of the bus (\<open>publish\<close>, \<open>start\<close>, \<open>stop\<close>).\<close>

inductive touches :: "(handler_ref \<Rightarrow> type_info) \<Rightarrow> 'd bus \<Rightarrow> 'd bus \<Rightarrow> bool" for tau where
  touch_none: "touches tau b b"
| touch_subscribe: "touches tau b c \<Longrightarrow> touches tau b (fst (subscribe (tau h) topic h c))"
| touch_unsubscribe: "touches tau b c \<Longrightarrow> touches tau b (unsubscribe i c)"
| touch_other: "touches tau b c \<Longrightarrow> same_subs c c' \<Longrightarrow> next_slot c' = next_slot c \<Longrightarrow> touches tau b c'"

lemma touches_typed: "touches tau b c \<Longrightarrow> typed_bus tau b \<Longrightarrow> typed_bus tau c \<and> types_kept b c"
proof (induction rule: touches.induct)
  case (touch_subscribe b c h topic)
  then show ?case using subscribe_typed types_kept_trans by blast
next
  case (touch_unsubscribe b c i)
  then show ?case using unsubscribe_typed types_kept_trans by blast
next
  case (touch_other b c c')
  then show ?case by (auto simp: typed_bus_def types_kept_def same_subs_def)
qed simp

lemma matchNode_types:
  assumes "trie_ok snap" "r \<in> set (trie_match snap topic ty [])"
  shows "\<exists>p \<in># trie_paths snap. slot (snd p) = r \<and> etype (snd p) = ty"
proof -
  have "set (trie_match snap topic ty []) \<subseteq> set_mset (deliveries ty (splitLevels topic) (trie_paths snap))"
    using matchNode_deliveries[of "root snap" 0 "splitLevels topic" ty "[]"] assms(1)
    by (auto simp: trie_match_def trie_ok_def trie_paths_def simp flip: set_mset_mset)
  then obtain p where "p \<in># trie_paths snap" "r \<in># deliver ty (splitLevels topic) p"
    using assms(2) by (auto simp: deliveries_def in_Union_mset_iff)
  then show ?thesis
    by (cases p) (force split: if_splits simp: in_replicate_mset)
qed

section \<open>Dispatch\<close>

definition bus_client :: "(handler_ref \<Rightarrow> type_info) \<Rightarrow> ('w \<Rightarrow> 'd bus) \<Rightarrow> ('d, 'w) handlers \<Rightarrow> bool" where
  "bus_client tau bus_of call \<longleftrightarrow> (\<forall>h d w. touches tau (bus_of w) (bus_of (fst (call h d w))))"

lemma bus_clientD: "bus_client tau bus_of call \<Longrightarrow> touches tau (bus_of w) (bus_of (fst (call h d w)))"
  by (simp add: bus_client_def)

lemma dispatch_loop_touches:
  assumes "bus_client tau bus_of call"
    and "typed_bus tau (bus_of w)"
  shows "typed_bus tau (bus_of (dispatch_loop call d subs w)) \<and>
    types_kept (bus_of w) (bus_of (dispatch_loop call d subs w))"
  using assms(2)
proof (induction subs arbitrary: w)
  case (Cons sub subs)
  have "typed_bus tau (bus_of (fst (call (handler sub) d w)))"
      "types_kept (bus_of w) (bus_of (fst (call (handler sub) d w)))"
    using touches_typed[OF bus_clientD[OF assms(1)] Cons.prems] by blast+
  then show ?case
    using Cons.IH types_kept_trans by (auto simp: split_beta)
qed simp

lemma dispatch_slot_touches:
  assumes "bus_client tau bus_of call"
    and "typed_bus tau (bus_of w)" and "map_option msg_type (store (bus_of w) r) = Some ty"
  shows "typed_bus tau (bus_of (dispatch_slot bus_of call d r w)) \<and>
    types_kept (bus_of w) (bus_of (dispatch_slot bus_of call d r w)) \<and>
    (\<exists>hs. dispatch_slot (\<lambda>p. bus_of (fst p)) (recorded call) d r (w, log) =
       (dispatch_slot bus_of call d r w, log @ map (\<lambda>h. (h, d)) hs) \<and> (\<forall>h \<in> set hs. tau h = ty))"
proof -
  obtain s where s: "store (bus_of w) r = Some s" "msg_type s = ty" using assms(3) by auto
  have "\<forall>h \<in> set (map handler (subscribers s)). tau h = ty"
    using typed_busD(3)[OF assms(2) s(1)] s(2) by (simp add: slot_typed_def)
  moreover have "dispatch_slot (\<lambda>p. bus_of (fst p)) (recorded call) d r (w, log) =
      (dispatch_slot bus_of call d r w, log @ map (\<lambda>h. (h, d)) (map handler (subscribers s)))"
    using s(1) by (simp add: dispatch_slot_recorded calls_of_def comp_def)
  ultimately show ?thesis
    using dispatch_loop_touches[OF assms(1,2), of d "subscribers s"] s(1)
    by (intro conjI exI[of _ "map handler (subscribers s)"]) (simp_all add: dispatch_slot_def slot_dispatch_def)
qed

lemma dispatch_all_touches:
  assumes call: "bus_client tau bus_of call"
    and "typed_bus tau (bus_of w)" and "\<forall>r \<in> set rs. map_option msg_type (store (bus_of w) r) = Some ty"
  shows "typed_bus tau (bus_of (fold (dispatch_slot bus_of call d) rs w)) \<and>
    (\<exists>hs. fold (dispatch_slot (\<lambda>p. bus_of (fst p)) (recorded call) d) rs (w, log) =
       (fold (dispatch_slot bus_of call d) rs w, log @ map (\<lambda>h. (h, d)) hs) \<and> (\<forall>h \<in> set hs. tau h = ty))"
  using assms(2,3)
proof (induction rs arbitrary: w log)
  case (Cons r rs)
  have r: "map_option msg_type (store (bus_of w) r) = Some ty" using Cons.prems(2) by simp
  let ?w1 = "dispatch_slot bus_of call d r w"
  obtain hs where d1: "typed_bus tau (bus_of ?w1)" "types_kept (bus_of w) (bus_of ?w1)"
      "dispatch_slot (\<lambda>p. bus_of (fst p)) (recorded call) d r (w, log) = (?w1, log @ map (\<lambda>h. (h, d)) hs)"
      "\<forall>h \<in> set hs. tau h = ty"
    using dispatch_slot_touches[OF call Cons.prems(1) r] by blast
  have "\<forall>r \<in> set rs. map_option msg_type (store (bus_of ?w1) r) = Some ty"
    using Cons.prems(2) types_kept_type[OF d1(2)] by simp
  then obtain hs' where d2: "typed_bus tau (bus_of (fold (dispatch_slot bus_of call d) rs ?w1))"
      "fold (dispatch_slot (\<lambda>p. bus_of (fst p)) (recorded call) d) rs (?w1, log @ map (\<lambda>h. (h, d)) hs) =
       (fold (dispatch_slot bus_of call d) rs ?w1, (log @ map (\<lambda>h. (h, d)) hs) @ map (\<lambda>h. (h, d)) hs')"
      "\<forall>h \<in> set hs'. tau h = ty"
    using Cons.IH[OF d1(1)] by blast
  show ?case
    using d1(3,4) d2 by (auto intro!: exI[of _ "hs @ hs'"])
qed simp

text \<open>The two halves of a dispatch, the exact slot as an optional reference.\<close>

definition exact_target :: "'d bus \<Rightarrow> 'd message \<Rightarrow> slot_ref option" where
  "exact_target b msg =
     (case slots b (topic_id msg) of
        Some r \<Rightarrow> (case store b r of Some s \<Rightarrow> if msg_type s = mtype msg then Some r else None | None \<Rightarrow> None)
      | None \<Rightarrow> None)"

lemma exact_target_type: "exact_target b msg = Some r \<Longrightarrow> map_option msg_type (store b r) = Some (mtype msg)"
  by (auto simp: exact_target_def split: option.splits if_splits)

definition dispatch_exact :: "('w \<Rightarrow> 'd bus) \<Rightarrow> ('d, 'w) handlers \<Rightarrow> 'd message \<Rightarrow> 'w \<Rightarrow> 'w" where
  "dispatch_exact bus_of call msg w =
     (case exact_target (bus_of w) msg of Some r \<Rightarrow> dispatch_slot bus_of call (data msg) r w | None \<Rightarrow> w)"

lemma dispatchMessage_halves:
  "dispatchMessage bus_of call msg w =
     (let w1 = dispatch_exact bus_of call msg w in
      fold (dispatch_slot bus_of call (data msg)) (trie_match (trie (bus_of w1)) (topic_sv msg) (mtype msg) []) w1)"
  by (simp add: dispatchMessage_def dispatch_exact_def exact_target_def split: option.split)

lemma dispatch_exact_touches:
  assumes "bus_client tau bus_of call" "typed_bus tau (bus_of w)"
  shows "typed_bus tau (bus_of (dispatch_exact bus_of call msg w)) \<and>
    (\<exists>hs. dispatch_exact (\<lambda>p. bus_of (fst p)) (recorded call) msg (w, []) =
       (dispatch_exact bus_of call msg w, map (\<lambda>h. (h, data msg)) hs) \<and> (\<forall>h \<in> set hs. tau h = mtype msg))"
proof (cases "exact_target (bus_of w) msg")
  case (Some r)
  from dispatch_slot_touches[OF assms exact_target_type[OF Some], of "data msg" "[]"] Some
  show ?thesis by (simp add: dispatch_exact_def)
qed (simp add: dispatch_exact_def assms(2))

lemma dispatch_typed:
  assumes call: "bus_client tau bus_of call"
    and start: "touches tau (bus_new hw m cap n pol) (bus_of w)"
  shows "typed_bus tau (bus_of (dispatchMessage bus_of call msg w)) \<and>
    (\<exists>hs. dispatchMessage (\<lambda>p. bus_of (fst p)) (recorded call) msg (w, []) =
       (dispatchMessage bus_of call msg w, map (\<lambda>h. (h, data msg)) hs) \<and> (\<forall>h \<in> set hs. tau h = mtype msg))"
proof -
  have w: "typed_bus tau (bus_of w)"
    using touches_typed[OF start typed_bus_new] by blast
  let ?w1 = "dispatch_exact bus_of call msg w"
  obtain hs where hs: "typed_bus tau (bus_of ?w1)" "\<forall>h \<in> set hs. tau h = mtype msg"
      "dispatch_exact (\<lambda>p. bus_of (fst p)) (recorded call) msg (w, []) = (?w1, map (\<lambda>h. (h, data msg)) hs)"
    using dispatch_exact_touches[OF call w] by blast
  let ?rs = "trie_match (trie (bus_of ?w1)) (topic_sv msg) (mtype msg) []"
  have "\<forall>r \<in> set ?rs. map_option msg_type (store (bus_of ?w1) r) = Some (mtype msg)"
    using matchNode_types[OF typed_busD(1)[OF hs(1)]] typed_busD(4)[OF hs(1)] by fastforce
  from dispatch_all_touches[OF call hs(1) this, of "data msg" "map (\<lambda>h. (h, data msg)) hs"]
  obtain hs' where fin: "typed_bus tau (bus_of (fold (dispatch_slot bus_of call (data msg)) ?rs ?w1))"
      "fold (dispatch_slot (\<lambda>p. bus_of (fst p)) (recorded call) (data msg)) ?rs (?w1, map (\<lambda>h. (h, data msg)) hs) =
        (fold (dispatch_slot bus_of call (data msg)) ?rs ?w1, map (\<lambda>h. (h, data msg)) (hs @ hs'))"
      "\<forall>h \<in> set hs'. tau h = mtype msg"
    by auto
  have "\<forall>h \<in> set (hs @ hs'). tau h = mtype msg" using fin(3) hs(2) by auto
  moreover have "dispatchMessage (\<lambda>p. bus_of (fst p)) (recorded call) msg (w, []) =
      (dispatchMessage bus_of call msg w, map (\<lambda>h. (h, data msg)) (hs @ hs'))"
    using fin(2) by (simp add: dispatchMessage_halves hs(3) Let_def)
  moreover have "typed_bus tau (bus_of (dispatchMessage bus_of call msg w))"
    using fin(1) by (simp add: dispatchMessage_halves Let_def)
  ultimately show ?thesis by blast
qed

text \<open>C19: dispatch is type safe, also when handlers call back into the bus: on a bus reached by any
  sequence of public calls from a new one, where every subscription is made with the type its
  handler takes, every handler a dispatch calls takes exactly the type of the message, whatever
  the handlers subscribe, unsubscribe or publish while the dispatch runs, so the casts of
  \<open>checkedSlot\<close> and \<open>dispatch\<close> are never applied at the wrong type.\<close>

theorem dispatch_type_safe:
  assumes "bus_client tau bus_of call"
    and "touches tau (bus_new hw m cap n pol) (bus_of w)"
  shows "typed_bus tau (bus_of (dispatchMessage bus_of call msg w)) \<and>
    (\<exists>hs. dispatchMessage (\<lambda>p. bus_of (fst p)) (recorded call) msg (w, []) =
       (dispatchMessage bus_of call msg w, map (\<lambda>h. (h, data msg)) hs) \<and> (\<forall>h \<in> set hs. tau h = mtype msg))"
  using assms by (rule dispatch_typed)

text \<open>A handler that removes its own subscription and makes another one.\<close>

theorem dispatch_type_safe_witness:
  "\<exists>hs. snd (dispatchMessage fst
      (recorded (\<lambda>h d b. (unsubscribe 1 (fst (subscribe (h mod 2) ''a/#'' h b)), False)))
      (example_msg 1) (fst (subscribe (5 mod 2) ''a/b'' 5 (bus_new 1 mem_new 2 1 DropOldest)), [])) =
    map (\<lambda>h. (h, 42)) hs \<and> (\<forall>h \<in> set hs. h mod 2 = 1)"
proof -
  have "touches (\<lambda>h. h mod 2) b (unsubscribe 1 (fst (subscribe (h mod 2) ''a/#'' h b)))"
    for h and b :: "nat bus"
    by (rule touch_unsubscribe, rule touch_subscribe, rule touch_none)
  then have call: "bus_client (\<lambda>h. h mod 2) (\<lambda>b. b)
      (\<lambda>h d b. (unsubscribe 1 (fst (subscribe (h mod 2) ''a/#'' h (b :: nat bus))), False))"
    by (simp add: bus_client_def)
  have start: "touches (\<lambda>h. h mod 2) (bus_new 1 mem_new 2 1 DropOldest)
      (fst (subscribe (5 mod 2) ''a/b'' 5 (bus_new 1 mem_new 2 1 DropOldest :: nat bus)))"
    by (rule touch_subscribe, rule touch_none)
  show ?thesis
    using dispatch_type_safe[where bus_of = "\<lambda>b. b" and tau = "\<lambda>h. h mod 2" and
        call = "\<lambda>h d b. (unsubscribe 1 (fst (subscribe (h mod 2) ''a/#'' h b)), False)" and msg = "example_msg 1",
        OF call start]
    by (auto simp: example_msg_def)
qed

end
