(* ===== verification/Async_Wait.thy ===== *)
theory Async_Wait
  imports Bus_Subscribe
begin

text \<open>
  \<open>MessageBus::AsyncWaitAwaitable\<close>: \<open>co_await bus.async_wait<T>(topic)\<close> subscribes a handler that
  stores the first message it is given and resumes the coroutine. The handler may be entered by
  several dispatcher threads at once, and before \<open>await_suspend\<close> has stored the identifier that
  \<open>subscribe\<close> returned; each step below is one access to the shared state.
\<close>

section \<open>The code\<close>

text \<open>Where an invocation of the handler is; the last two points are the coroutine running inside
  \<open>handle.resume()\<close>: \<open>await_resume\<close>, and the destructor of the awaitable at the end of the
  \<open>co_await\<close> expression.\<close>

datatype 'd call_pc = Guard 'd | Store_result 'd | Resume | Destroy_awaitable

text \<open>The shared state and, beside it: what \<open>await_suspend\<close> has got from \<open>subscribe\<close> and not yet
  stored, the running invocations, the data the handler was entered with, and the values
  \<open>await_resume\<close> returned (\<open>None\<close> for the undefined read of an empty optional).\<close>

record ('d, 'b) async =
  abus :: "'b bus"
  wait_topic :: string
  wait_id :: sub_id
  result :: "'d option"
  fired :: bool
  fresh_id :: "sub_id option"
  running_calls :: "nat \<rightharpoonup> 'd call_pc"
  entered :: "'d list"
  returned :: "'d option list"

definition async_wait :: "'b bus \<Rightarrow> string \<Rightarrow> ('d, 'b) async" where
  "async_wait b topic =
     \<lparr>abus = b, wait_topic = topic, wait_id = 0, result = None, fired = False, fresh_id = None,
      running_calls = Map.empty, entered = [], returned = []\<rparr>"

definition await_subscribe :: "type_info \<Rightarrow> handler_ref \<Rightarrow> ('d, 'b) async \<Rightarrow> ('d, 'b) async option" where
  "await_subscribe ty h s =
     (case subscribe ty (wait_topic s) h (abus s) of
        (b, Inr i) \<Rightarrow> Some (s\<lparr>abus := b, fresh_id := Some i\<rparr>)
      | (b, Inl e) \<Rightarrow> None)"

definition await_assign :: "('d, 'b) async \<Rightarrow> ('d, 'b) async option" where
  "await_assign s = map_option (\<lambda>i. s\<lparr>wait_id := i, fresh_id := None\<rparr>) (fresh_id s)"

definition handler_enter :: "nat \<Rightarrow> 'd \<Rightarrow> ('d, 'b) async \<Rightarrow> ('d, 'b) async" where
  "handler_enter t d s =
     s\<lparr>running_calls := (running_calls s)(t \<mapsto> Guard d), entered := entered s @ [d]\<rparr>"

definition await_resume :: "('d, 'b) async \<Rightarrow> ('d, 'b) async" where
  "await_resume s =
     s\<lparr>abus := unsubscribe (wait_id s) (abus s), wait_id := 0, returned := returned s @ [result s]\<rparr>"

definition awaitable_destroy :: "('d, 'b) async \<Rightarrow> ('d, 'b) async" where
  "awaitable_destroy s = (if wait_id s \<noteq> 0 then s\<lparr>abus := unsubscribe (wait_id s) (abus s)\<rparr> else s)"

fun handler_step :: "nat \<Rightarrow> 'd call_pc \<Rightarrow> ('d, 'b) async \<Rightarrow> ('d, 'b) async" where
  "handler_step t (Guard d) s =
     (if fired s then s\<lparr>running_calls := (running_calls s)(t := None)\<rparr>
      else s\<lparr>fired := True, running_calls := (running_calls s)(t \<mapsto> Store_result d)\<rparr>)"
| "handler_step t (Store_result d) s =
     s\<lparr>result := Some d, running_calls := (running_calls s)(t \<mapsto> Resume)\<rparr>"
| "handler_step t Resume s =
     (let s1 = await_resume s in s1\<lparr>running_calls := (running_calls s1)(t \<mapsto> Destroy_awaitable)\<rparr>)"
| "handler_step t Destroy_awaitable s =
     (let s1 = awaitable_destroy s in s1\<lparr>running_calls := (running_calls s1)(t := None)\<rparr>)"

text \<open>The interleavings: \<open>await_suspend\<close> runs once; a handler can be entered by any thread as soon
  as \<open>subscribe\<close> has returned, also after \<open>unsubscribe\<close>, from a snapshot taken before; the rest of
  the program may change the bus at any time.\<close>

inductive async_step ::
    "type_info \<Rightarrow> handler_ref \<Rightarrow> bool \<times> ('d, 'b) async \<Rightarrow> bool \<times> ('d, 'b) async \<Rightarrow> bool" for ty h where
  Suspend: "await_subscribe ty h s = Some s' \<Longrightarrow> async_step ty h (False, s) (True, s')"
| Assign: "await_assign s = Some s' \<Longrightarrow> async_step ty h (True, s) (True, s')"
| Enter: "running_calls s t = None \<Longrightarrow> async_step ty h (True, s) (True, handler_enter t d s)"
| Environment: "async_step ty h (sus, s) (sus, s\<lparr>abus := b\<rparr>)"
| Run: "running_calls s t = Some pc \<Longrightarrow> async_step ty h (sus, s) (sus, handler_step t pc s)"

section \<open>At most one resumption\<close>

text \<open>Past the guard there is at most one invocation, and only when \<open>fired\<close> is set.\<close>

definition past :: "('d, 'b) async \<Rightarrow> nat \<Rightarrow> bool" where
  "past s t \<longleftrightarrow> (case running_calls s t of None \<Rightarrow> False | Some (Guard d) \<Rightarrow> False | Some pc \<Rightarrow> True)"

definition one_past :: "('d, 'b) async \<Rightarrow> bool" where
  "one_past s \<longleftrightarrow> (\<forall>t t'. past s t \<and> past s t' \<longrightarrow> t = t') \<and> (\<not> fired s \<longrightarrow> (\<forall>t. \<not> past s t))"

text \<open>What a point of the handler says about the rest of the state.\<close>

fun pc_ok :: "'d call_pc \<Rightarrow> ('d, 'b) async \<Rightarrow> bool" where
  "pc_ok (Guard d) s = (d \<in> set (entered s))"
| "pc_ok (Store_result d) s = (d \<in> set (entered s) \<and> returned s = [])"
| "pc_ok Resume s = (result s \<noteq> None \<and> returned s = [])"
| "pc_ok Destroy_awaitable s = True"

definition async_inv :: "('d, 'b) async \<Rightarrow> bool" where
  "async_inv s \<longleftrightarrow>
     one_past s \<and> (\<forall>t pc. running_calls s t = Some pc \<longrightarrow> pc_ok pc s) \<and>
     (\<not> fired s \<longrightarrow> returned s = []) \<and>
     (\<forall>d. result s = Some d \<longrightarrow> d \<in> set (entered s)) \<and>
     length (returned s) \<le> 1 \<and> (\<forall>r \<in> set (returned s). \<exists>d \<in> set (entered s). r = Some d)"

lemma async_inv_new: "async_inv (async_wait b topic)"
  by (simp add: async_inv_def async_wait_def one_past_def past_def)

lemma pc_ok_cong:
  "entered s = entered s' \<Longrightarrow> returned s = returned s' \<Longrightarrow> result s = result s' \<Longrightarrow> pc_ok pc s = pc_ok pc s'"
  by (cases pc) auto

lemma async_inv_other:
  assumes "async_inv s" "running_calls s' = running_calls s" "entered s' = entered s" "returned s' = returned s"
    "result s' = result s" "fired s' = fired s"
  shows "async_inv s'"
  using assms pc_ok_cong[of s' s] by (simp add: async_inv_def one_past_def past_def)

lemma pc_ok_enter: "pc_ok pc s \<Longrightarrow> pc_ok pc (handler_enter t d s)"
  by (cases pc) (auto simp: handler_enter_def)

lemma handler_enter_inv:
  assumes "async_inv s" "running_calls s t = None"
  shows "async_inv (handler_enter t d s)"
proof -
  let ?s = "handler_enter t d s"
  have p: "past ?s = past s"
    using assms(2) by (auto simp: past_def handler_enter_def fun_eq_iff)
  have o: "one_past ?s" using assms(1) p by (auto simp: async_inv_def one_past_def handler_enter_def)
  have pc: "pc_ok pc ?s" if "running_calls ?s u = Some pc" for u pc
  proof (cases "u = t")
    case True
    then show ?thesis using that by (auto simp: handler_enter_def)
  next
    case False
    then show ?thesis
      using that assms(1) pc_ok_enter[of pc s t d] by (simp add: async_inv_def handler_enter_def)
  qed
  have rest: "fired ?s = fired s" "returned ?s = returned s" "result ?s = result s"
      "entered ?s = entered s @ [d]"
    by (simp_all add: handler_enter_def)
  show ?thesis
    unfolding async_inv_def rest
    using assms(1) o pc by (auto simp: async_inv_def split: option.splits)
qed

text \<open>A step of the only invocation past the guard: the others are at the guard, and stay right as
  long as nothing is taken from \<open>entered\<close>.\<close>

lemma winner_step:
  assumes inv: "async_inv s" and others: "\<And>u. u \<noteq> t \<Longrightarrow> \<not> past s u"
    and s': "running_calls s' = (running_calls s)(t := pc)" "entered s' = entered s" "fired s'"
    and pc: "\<And>p. pc = Some p \<Longrightarrow> pc_ok p s'"
    and res: "\<forall>d. result s' = Some d \<longrightarrow> d \<in> set (entered s)"
    and ret: "length (returned s') \<le> 1" "\<forall>r \<in> set (returned s'). \<exists>d \<in> set (entered s). r = Some d"
  shows "async_inv s'"
proof -
  have none: "\<not> past s' u" if "u \<noteq> t" for u
    using others[OF that] that by (simp add: past_def s'(1))
  have "pc_ok p s'" if h: "running_calls s' u = Some p" for u p
  proof (cases "u = t")
    case True
    then show ?thesis using h pc s'(1) by simp
  next
    case False
    then obtain d where "p = Guard d"
      using none[OF False] h by (cases p) (auto simp: past_def)
    moreover have "pc_ok p s"
      using h False inv by (simp add: s'(1) async_inv_def)
    ultimately show ?thesis using s'(2) by simp
  qed
  moreover have "one_past s'"
    using none s'(3) unfolding one_past_def by metis
  ultimately show ?thesis
    using s'(2,3) res ret by (simp add: async_inv_def)
qed

lemma handler_step_inv:
  assumes inv: "async_inv s" and pc: "running_calls s t = Some pc"
  shows "async_inv (handler_step t pc s)"
proof -
  have others: "\<not> past s u" if "u \<noteq> t" "past s t \<or> \<not> fired s" for u
    using inv that unfolding async_inv_def one_past_def by metis
  have ok: "pc_ok pc s" and res: "\<forall>d. result s = Some d \<longrightarrow> d \<in> set (entered s)"
    and ret: "length (returned s) \<le> 1" "\<forall>r \<in> set (returned s). \<exists>d \<in> set (entered s). r = Some d"
    using inv pc unfolding async_inv_def by blast+
  have fired: "past s t \<Longrightarrow> fired s" using inv unfolding async_inv_def one_past_def by blast
  show ?thesis
  proof (cases pc)
    case (Guard d)
    show ?thesis
    proof (cases "fired s")
      case True
      let ?s = "s\<lparr>running_calls := (running_calls s)(t := None)\<rparr>"
      have p: "past ?s u \<Longrightarrow> past s u" for u by (auto simp: past_def split: if_splits)
      have "one_past ?s" using inv p True unfolding async_inv_def one_past_def by auto
      moreover have "pc_ok p ?s" if "running_calls ?s u = Some p" for u p
        using inv that pc_ok_cong[of ?s s] by (simp add: async_inv_def split: if_splits)
      ultimately show ?thesis using inv True Guard by (simp add: async_inv_def)
    next
      case False
      then have "returned s = []" using inv by (simp add: async_inv_def)
      then show ?thesis
        using False Guard ok res others by (auto intro!: winner_step[OF inv, of t])
    qed
  next
    case (Store_result d)
    then have "past s t" using pc by (simp add: past_def)
    then show ?thesis
      using Store_result ok others fired by (auto intro!: winner_step[OF inv, of t])
  next
    case Resume
    then have "past s t" using pc by (simp add: past_def)
    then show ?thesis
      using Resume ok others fired res
      by (auto simp: await_resume_def Let_def intro!: winner_step[OF inv, of t])
  next
    case Destroy_awaitable
    then have "past s t" using pc by (simp add: past_def)
    then show ?thesis
      using Destroy_awaitable others fired res ret
      by (auto simp: awaitable_destroy_def Let_def intro!: winner_step[OF inv, of t])
  qed
qed

lemma async_step_inv: "async_step ty h c c' \<Longrightarrow> async_inv (snd c) \<Longrightarrow> async_inv (snd c')"
proof (induction rule: async_step.induct)
  case (Suspend s s')
  then obtain b i where "s' = s\<lparr>abus := b, fresh_id := Some i\<rparr>"
    by (auto simp: await_subscribe_def split: prod.splits sum.splits)
  then have "async_inv s'" using Suspend(2) by (intro async_inv_other[of s s']) auto
  then show ?case by simp
next
  case (Assign s s')
  then obtain i where "s' = s\<lparr>wait_id := i, fresh_id := None\<rparr>"
    by (auto simp: await_assign_def)
  then have "async_inv s'" using Assign(2) by (intro async_inv_other[of s s']) auto
  then show ?case by simp
next
  case (Environment sus s b)
  then show ?case
    using async_inv_other[of s "s\<lparr>abus := b\<rparr>"] by simp
next
  case (Enter s t d)
  then show ?case using handler_enter_inv by simp
next
  case (Run s t pc sus)
  then show ?case using handler_step_inv by simp
qed

lemma async_reachable_inv:
  "(async_step ty h)\<^sup>*\<^sup>* (False, async_wait b topic) c \<Longrightarrow> async_inv (snd c)"
proof (induction rule: rtranclp_induct)
  case base
  show ?case by (simp add: async_inv_new)
next
  case (step c c')
  then show ?case using async_step_inv by blast
qed

text \<open>C30: in every interleaving of \<open>await_suspend\<close>, any number of concurrent invocations of the
  handler and the rest of the program, the coroutine is resumed at most once, \<open>await_resume\<close> never
  reads an empty result, and what it returns is the data of an invocation of the handler; at most
  one invocation is past the \<open>fired\<close> guard, so the write of the result is not raced.\<close>

theorem async_wait_once:
  assumes "(async_step ty h)\<^sup>*\<^sup>* (False, async_wait b topic) (sus, s)"
  shows "returned s \<in> insert [] ((\<lambda>d. [Some d]) ` set (entered s)) \<and>
    (\<forall>t t'. past s t \<and> past s t' \<longrightarrow> t = t')"
proof -
  have "async_inv s" using async_reachable_inv[OF assms] by simp
  then show ?thesis
    by (cases "returned s") (auto simp: async_inv_def one_past_def)
qed

section \<open>The identifier\<close>

text \<open>When the handler runs after \<open>await_suspend\<close> has stored the identifier, \<open>await_resume\<close> removes
  the subscription.\<close>

lemma await_resume_unsubscribes: "sub_to_topic (abus (await_resume s)) (wait_id s) = None"
  by (simp add: await_resume_def unsubscribe_def Let_def split: option.split prod.split)

text \<open>When it runs before, \<open>await_resume\<close> and the destructor both see identifier 0, and nothing ever
  removes the subscription: the coroutine is over and the handler stays on the bus.\<close>

definition early_run :: "type_info \<Rightarrow> handler_ref \<Rightarrow> 'd \<Rightarrow> ('d, 'b) async \<Rightarrow> ('d, 'b) async option" where
  "early_run ty h d s =
     (case await_subscribe ty h s of
        None \<Rightarrow> None
      | Some s1 \<Rightarrow>
          let s2 = handler_enter 0 d s1;
              s3 = handler_step 0 (Guard d) s2;
              s4 = handler_step 0 (Store_result d) s3;
              s5 = handler_step 0 Resume s4;
              s6 = handler_step 0 Destroy_awaitable s5
          in await_assign s6)"

lemma unsubscribe_unknown: "sub_to_topic b i = None \<Longrightarrow> unsubscribe i b = b"
  by (simp add: unsubscribe_def)

lemma add_to_slot_ids [simp]: "sub_to_topic (add_to_slot r h i b) = sub_to_topic b"
  by (simp add: add_to_slot_def split: option.split)

lemma new_slot_ids: "new_slot ty b = (b1, r) \<Longrightarrow> sub_to_topic b1 = sub_to_topic b"
  by (auto simp: new_slot_def)

lemma getOrCreateSlot_ids: "getOrCreateSlot ty t b = (b1, r) \<Longrightarrow> sub_to_topic b1 = sub_to_topic b"
  using new_slot_ids by (fastforce simp: getOrCreateSlot_def create_slot_def split: option.splits prod.splits)

lemma subscribe_ids:
  assumes "subscribe ty topic h b = (b', Inr i)"
  shows "i = next_sub_id b + 1" "sub_to_topic b' i \<noteq> None" "j \<noteq> i \<Longrightarrow> sub_to_topic b' j = sub_to_topic b j"
  using assms new_slot_ids getOrCreateSlot_ids
  by (fastforce simp: subscribe_def Let_def split: if_splits prod.splits sum.splits)+

lemma early_handler_leaks:
  assumes "sub_to_topic b 0 = None" "next_sub_id b + 1 \<noteq> 0"
    and "early_run ty h d (async_wait b topic) = Some s"
  shows "returned s = [Some d]" "running_calls s 0 = None" "sub_to_topic (abus s) (wait_id s) \<noteq> None"
proof -
  obtain b' i where sub: "subscribe ty topic h b = (b', Inr i)"
    using assms(3) by (auto simp: early_run_def await_subscribe_def async_wait_def split: prod.splits sum.splits)
  have "sub_to_topic b' 0 = None"
    using subscribe_ids(1,3)[OF sub] assms(1,2) by metis
  then have "early_run ty h d (async_wait b topic) =
      Some \<lparr>abus = b', wait_topic = topic, wait_id = i, result = Some d, fired = True, fresh_id = None,
        running_calls = Map.empty(0 := None), entered = [d], returned = [Some d]\<rparr>"
    using sub unsubscribe_unknown[of b' 0]
    by (simp add: early_run_def await_subscribe_def async_wait_def handler_enter_def await_resume_def
        awaitable_destroy_def await_assign_def Let_def)
  then show "returned s = [Some d]" "running_calls s 0 = None" "sub_to_topic (abus s) (wait_id s) \<noteq> None"
    using assms(3) subscribe_ids(2)[OF sub] by auto
qed

section \<open>A run\<close>

lemma subscribe_example:
  "\<exists>b. subscribe 1 ''t'' 5 (bus_new 1 mem_new 2 1 DropOldest :: nat bus) = (b, Inr 1)"
proof -
  obtain b r where sub: "subscribe 1 ''t'' 5 (bus_new 1 mem_new 2 1 DropOldest :: nat bus) = (b, r)" by force
  have "snd (run_bus [SubscribeOp 1 ''t'' 5] (bus_new 1 mem_new 2 1 DropOldest :: nat bus)) =
      snd (run_spec [SubscribeOp 1 ''t'' 5] spec_new)"
    using run_bus_new_refines[of "[SubscribeOp 1 ''t'' 5]" 1 mem_new 2 1 DropOldest] by auto
  moreover have "\<not> isWildcard ''t''" by code_simp
  ultimately show ?thesis
    using sub by (simp add: spec_subscribe_def spec_new_def)
qed

theorem async_wait_once_witness:
  "\<exists>s :: (nat, nat) async. returned s = [Some 42] \<and> entered s = [42, 43] \<and>
     returned s \<in> insert [] ((\<lambda>d. [Some d]) ` set (entered s)) \<and> (\<forall>t t'. past s t \<and> past s t' \<longrightarrow> t = t')"
proof -
  obtain b where sub: "subscribe 1 ''t'' 5 (bus_new 1 mem_new 2 1 DropOldest :: nat bus) = (b, Inr 1)"
    using subscribe_example by blast
  let ?s0 = "async_wait (bus_new 1 mem_new 2 1 DropOldest :: nat bus) ''t'' :: (nat, nat) async"
  let ?s1 = "?s0\<lparr>abus := b, fresh_id := Some 1\<rparr>"
  let ?s2 = "handler_enter 0 42 ?s1"
  let ?s3 = "handler_enter 1 43 ?s2"
  let ?s4 = "handler_step 0 (Guard 42) ?s3"
  let ?s5 = "handler_step 0 (Store_result 42) ?s4"
  let ?s6 = "handler_step 0 Resume ?s5"
  let ?step = "async_step 1 5"
  have "?step (False, ?s0) (True, ?s1)"
    using sub by (intro Suspend) (simp add: await_subscribe_def async_wait_def)
  moreover have "?step (True, ?s1) (True, ?s2)" by (rule Enter) (simp add: async_wait_def)
  moreover have "?step (True, ?s2) (True, ?s3)" by (rule Enter) (simp add: async_wait_def handler_enter_def)
  moreover have "?step (True, ?s3) (True, ?s4)" by (rule Run) (simp add: async_wait_def handler_enter_def)
  moreover have "?step (True, ?s4) (True, ?s5)" by (rule Run) (simp add: async_wait_def handler_enter_def)
  moreover have "?step (True, ?s5) (True, ?s6)" by (rule Run) (simp add: async_wait_def handler_enter_def)
  ultimately have "?step\<^sup>*\<^sup>* (False, ?s0) (True, ?s6)"
    by (blast intro: converse_rtranclp_into_rtranclp)
  from async_wait_once[OF this] show ?thesis
    by (intro exI[of _ ?s6] conjI)
       (simp_all add: async_wait_def handler_enter_def await_resume_def Let_def)
qed

end
