(* ===== verification/Bus_Threads.thy ===== *)
theory Bus_Threads
  imports Bus_Publish
begin

text \<open>
  The dispatcher threads of \<open>message_bus.h\<close>: \<open>start\<close>, \<open>stop\<close>, the single dispatcher loop, and the
  router with its workers, as a step relation. One step is one queue operation, one load of
  \<open>running_\<close> or \<open>router_drained_\<close>, one \<open>dispatchMessage\<close>, or one wake-up; the queue operations are
  those of the modelled \<open>LockFreeQueue\<close>, whose steps are shown elsewhere to take effect atomically.
  Queue elements are the messages the pointers refer to.
\<close>

section \<open>The code\<close>

definition kSpinThreshold :: nat where "kSpinThreshold = 64"
definition kYieldThreshold :: nat where "kYieldThreshold = 256"

text \<open>The loops of a thread: the main \<open>while (running_)\<close> loop, a worker's loop until the router has
  drained, the last draining loop.\<close>

datatype loop = MainLoop | UntilDrained | LastLoop

text \<open>Program points: the loop condition with the idle counter, the \<open>try_dequeue\<close>, a dequeued
  message still to be handled, the timed wait, the end of the thread.\<close>

datatype 'd point =
    Condition loop nat
  | Dequeue loop nat
  | Have loop "'d message"
  | Nap nat
  | Finished

text \<open>Where \<open>stop()\<close> is: not running (also before \<open>start\<close>), running, joining \<open>dispatchers_[0]\<close>,
  joining the workers one after the other.\<close>

datatype life = Down | Up | Join_main | Join_worker nat

text \<open>\<open>left\<close>, \<open>accepted\<close>, \<open>dispatched\<close> and \<open>stop_mark\<close> record history: the messages that left the main
  queue (true: to the dispatcher or router, false: evicted by \<open>DropOldest\<close>), those accepted by the
  main queue, the \<open>dispatchMessage\<close> calls with their thread, and how many messages had been
  accepted when \<open>stop\<close> was called.\<close>

record 'd threads =
  t_running :: bool
  router_drained :: bool
  main_queue :: "'d message lfq"
  worker_queues :: "'d message lfq list"
  dispatcher_sleeping :: bool
  worker_sleeping :: "bool list"
  main_at :: "'d point"
  worker_at :: "'d point list"
  life :: life
  left :: "(bool \<times> 'd message) list"
  accepted :: "'d message list"
  dispatched :: "(nat \<times> 'd message) list"
  stop_mark :: nat

definition threads_new :: "size_t \<Rightarrow> 'd threads" where
  "threads_new capacity =
     \<lparr>t_running = False, router_drained = False, main_queue = lfq_new capacity, worker_queues = [],
      dispatcher_sleeping = False, worker_sleeping = [], main_at = Finished, worker_at = [], life = Down,
      left = [], accepted = [], dispatched = [], stop_mark = 0\<rparr>"

definition start :: "nat \<Rightarrow> size_t \<Rightarrow> 'd threads \<Rightarrow> 'd threads" where
  "start n capacity s =
     (if t_running s then s
      else if n = 1 then s\<lparr>t_running := True, life := Up, main_at := Condition MainLoop 0\<rparr>
      else s\<lparr>t_running := True, life := Up,
             worker_queues := replicate n (lfq_new capacity), worker_sleeping := replicate n False,
             main_at := Condition MainLoop 0, worker_at := replicate n (Condition MainLoop 0)\<rparr>)"

text \<open>The backoff of an empty poll: spin, then yield, then a wait of at most one millisecond.\<close>

definition backoff :: "nat \<Rightarrow> 'd point" where
  "backoff idle =
     (if idle < kSpinThreshold then Condition MainLoop (idle + 1)
      else if idle < kYieldThreshold then Condition MainLoop (idle + 1)
      else Nap idle)"

text \<open>\<open>cv.wait_for(lk, 1ms, pred)\<close> with the predicate \<open>!running_\<close>: a notification makes the thread test
  the predicate, and it goes on waiting when that is false and the time is not over.\<close>

definition wait_over :: "bool \<Rightarrow> bool \<Rightarrow> bool" where
  "wait_over up expired \<longleftrightarrow> expired \<or> \<not> up"

definition worker_index :: "(topic_id \<Rightarrow> size_t) \<Rightarrow> nat \<Rightarrow> 'd message \<Rightarrow> nat" where
  "worker_index hsh n m = unat (hsh (topic_id m)) mod n"

text \<open>\<open>dispatchLoop\<close>. A step without effect stands for a spin, a yield or a wait that goes on.\<close>

definition dispatchLoop :: "bool \<Rightarrow> 'd threads \<Rightarrow> 'd threads option" where
  "dispatchLoop expired s =
     (case main_at s of
        Condition l idle \<Rightarrow>
          Some (s\<lparr>main_at := if t_running s then Dequeue MainLoop idle else Dequeue LastLoop 0\<rparr>)
      | Dequeue l idle \<Rightarrow>
          do { (q, ok, x) \<leftarrow> try_dequeue (main_queue s);
               (case x of
                  Some m \<Rightarrow> Some (s\<lparr>main_queue := q, left := left s @ [(True, m)], main_at := Have l m\<rparr>)
                | None \<Rightarrow>
                    (case l of
                       LastLoop \<Rightarrow> Some (s\<lparr>main_at := Finished\<rparr>)
                     | _ \<Rightarrow> Some (case backoff idle of
                                   Nap i \<Rightarrow> s\<lparr>main_at := Nap i, dispatcher_sleeping := True\<rparr>
                                 | p \<Rightarrow> s\<lparr>main_at := p\<rparr>))) }
      | Have l m \<Rightarrow>
          Some (s\<lparr>dispatched := dispatched s @ [(0, m)],
                  main_at := case l of LastLoop \<Rightarrow> Dequeue LastLoop 0 | _ \<Rightarrow> Condition MainLoop 0\<rparr>)
      | Nap idle \<Rightarrow>
          Some (if wait_over (t_running s) expired
                then s\<lparr>main_at := Condition MainLoop idle, dispatcher_sleeping := False\<rparr> else s)
      | Finished \<Rightarrow> Some s)"

text \<open>\<open>routeToWorker\<close>: one round of its loop; the result says whether the message was passed on.\<close>

definition routeToWorker ::
    "(topic_id \<Rightarrow> size_t) \<Rightarrow> nat \<Rightarrow> 'd message \<Rightarrow> 'd threads \<Rightarrow> ('d threads \<times> bool) option" where
  "routeToWorker hsh n m s =
     (let idx = worker_index hsh n m in
      do { (q, ok) \<leftarrow> try_enqueue (worker_queues s ! idx) m;
           Some (s\<lparr>worker_queues := (worker_queues s)[idx := q]\<rparr>, ok) })"

definition routerLoop :: "(topic_id \<Rightarrow> size_t) \<Rightarrow> nat \<Rightarrow> bool \<Rightarrow> 'd threads \<Rightarrow> 'd threads option" where
  "routerLoop hsh n expired s =
     (case main_at s of
        Condition l idle \<Rightarrow>
          Some (s\<lparr>main_at := if t_running s then Dequeue MainLoop idle else Dequeue LastLoop 0\<rparr>)
      | Dequeue l idle \<Rightarrow>
          do { (q, ok, x) \<leftarrow> try_dequeue (main_queue s);
               (case x of
                  Some m \<Rightarrow> Some (s\<lparr>main_queue := q, left := left s @ [(True, m)], main_at := Have l m\<rparr>)
                | None \<Rightarrow>
                    (case l of
                       LastLoop \<Rightarrow> Some (s\<lparr>main_at := Finished\<rparr>)
                     | _ \<Rightarrow> Some (case backoff idle of
                                   Nap i \<Rightarrow> s\<lparr>main_at := Nap i, dispatcher_sleeping := True\<rparr>
                                 | p \<Rightarrow> s\<lparr>main_at := p\<rparr>))) }
      | Have l m \<Rightarrow>
          do { (s1, ok) \<leftarrow> routeToWorker hsh n m s;
               Some (if ok then s1\<lparr>main_at := case l of LastLoop \<Rightarrow> Dequeue LastLoop 0 | _ \<Rightarrow> Condition MainLoop 0\<rparr>
                     else s1) }
      | Nap idle \<Rightarrow>
          Some (if wait_over (t_running s) expired
                then s\<lparr>main_at := Condition MainLoop idle, dispatcher_sleeping := False\<rparr> else s)
      | Finished \<Rightarrow> Some s)"

definition workerLoop :: "nat \<Rightarrow> bool \<Rightarrow> 'd threads \<Rightarrow> 'd threads option" where
  "workerLoop w expired s =
     (let go = (\<lambda>p s. s\<lparr>worker_at := (worker_at s)[w := p]\<rparr>) in
      case worker_at s ! w of
        Condition MainLoop idle \<Rightarrow>
          Some (go (if t_running s then Dequeue MainLoop idle else Condition UntilDrained 0) s)
      | Condition l k \<Rightarrow>
          Some (go (if router_drained s then Dequeue LastLoop 0 else Dequeue UntilDrained k) s)
      | Dequeue l idle \<Rightarrow>
          do { (q, ok, x) \<leftarrow> try_dequeue (worker_queues s ! w);
               (case x of
                  Some m \<Rightarrow> Some (go (Have l m) (s\<lparr>worker_queues := (worker_queues s)[w := q]\<rparr>))
                | None \<Rightarrow>
                    (case l of
                       MainLoop \<Rightarrow>
                         Some (case backoff idle of
                                 Nap i \<Rightarrow> go (Nap i) (s\<lparr>worker_sleeping := (worker_sleeping s)[w := True]\<rparr>)
                               | p \<Rightarrow> go p s)
                     | UntilDrained \<Rightarrow>
                         Some (go (Condition UntilDrained (if idle < kSpinThreshold then idle + 1 else idle)) s)
                     | LastLoop \<Rightarrow> Some (go Finished s))) }
      | Have l m \<Rightarrow>
          Some (go (case l of LastLoop \<Rightarrow> Dequeue LastLoop 0 | _ \<Rightarrow> Condition l 0)
                   (s\<lparr>dispatched := dispatched s @ [(w, m)]\<rparr>))
      | Nap idle \<Rightarrow>
          Some (if wait_over (t_running s) expired
                then go (Condition MainLoop idle) (s\<lparr>worker_sleeping := (worker_sleeping s)[w := False]\<rparr>) else s)
      | Finished \<Rightarrow> Some s)"

text \<open>\<open>stop\<close>, cut at its joins: the exchange on \<open>running_\<close>; the join of \<open>dispatchers_[0]\<close> and the
  store to \<open>router_drained_\<close>; the join of each worker; the clean-up.\<close>

definition stop_call :: "'d threads \<Rightarrow> 'd threads" where
  "stop_call s =
     (if \<not> t_running s then s
      else s\<lparr>t_running := False, life := Join_main, stop_mark := length (accepted s)\<rparr>)"

definition stop_clear :: "'d threads \<Rightarrow> 'd threads" where
  "stop_clear s =
     s\<lparr>worker_queues := [], worker_sleeping := [], worker_at := [], router_drained := False,
       dispatcher_sleeping := False, life := Down\<rparr>"

definition stop_join :: "'d threads \<Rightarrow> 'd threads option" where
  "stop_join s =
     (case life s of
        Join_main \<Rightarrow>
          if main_at s = Finished then
            Some (if worker_at s \<noteq> [] then s\<lparr>router_drained := True, life := Join_worker 0\<rparr> else stop_clear s)
          else None
      | Join_worker i \<Rightarrow>
          if i < length (worker_at s) then
            (if worker_at s ! i = Finished then Some (s\<lparr>life := Join_worker (i + 1)\<rparr>) else None)
          else Some (stop_clear s)
      | _ \<Rightarrow> None)"

section \<open>The steps\<close>

text \<open>What the threads of the bus and a running \<open>stop\<close> do.\<close>

inductive internal ::
    "(topic_id \<Rightarrow> size_t) \<Rightarrow> nat \<Rightarrow> 'd threads \<Rightarrow> 'd threads \<Rightarrow> bool" for hsh n where
  Main: "life s \<noteq> Down \<Longrightarrow>
    (if n = 1 then dispatchLoop expired s else routerLoop hsh n expired s) = Some s' \<Longrightarrow> internal hsh n s s'"
| Worker: "w < length (worker_at s) \<Longrightarrow> workerLoop w expired s = Some s' \<Longrightarrow> internal hsh n s s'"
| Join: "stop_join s = Some s' \<Longrightarrow> internal hsh n s s'"

text \<open>What clients do: a publisher's accepted \<open>try_enqueue\<close>, the eviction of \<open>DropOldest\<close>, \<open>start\<close>
  while no thread is left, \<open>stop\<close>.\<close>

inductive client :: "nat \<Rightarrow> size_t \<Rightarrow> 'd threads \<Rightarrow> 'd threads \<Rightarrow> bool" for n capacity where
  Publish: "try_enqueue (main_queue s) m = Some (q, True) \<Longrightarrow>
    client n capacity s (s\<lparr>main_queue := q, accepted := accepted s @ [m]\<rparr>)"
| Evict: "try_dequeue (main_queue s) = Some (q, True, Some m) \<Longrightarrow>
    client n capacity s (s\<lparr>main_queue := q, left := left s @ [(False, m)]\<rparr>)"
| Start: "life s = Down \<Longrightarrow> client n capacity s (start n capacity s)"
| Stop: "client n capacity s (stop_call s)"

definition bus_step :: "(topic_id \<Rightarrow> size_t) \<Rightarrow> nat \<Rightarrow> size_t \<Rightarrow> 'd threads \<Rightarrow> 'd threads \<Rightarrow> bool" where
  "bus_step hsh n capacity s s' \<longleftrightarrow> internal hsh n s s' \<or> client n capacity s s'"

section \<open>Where a message is\<close>

definition of_topic :: "topic_id \<Rightarrow> 'd message list \<Rightarrow> 'd message list" where
  "of_topic t ms = filter (\<lambda>m. topic_id m = t) ms"

lemma of_topic_simps [simp]:
  "of_topic t [] = []" "of_topic t (xs @ ys) = of_topic t xs @ of_topic t ys"
  "of_topic t (m # xs) = (if topic_id m = t then m # of_topic t xs else of_topic t xs)"
  by (simp_all add: of_topic_def)

definition taken :: "'d threads \<Rightarrow> 'd message list" where
  "taken s = map snd (filter fst (left s))"

fun held_at :: "'d point \<Rightarrow> 'd message list" where
  "held_at (Have l m) = [m]"
| "held_at _ = []"

definition pipe :: "'d threads \<Rightarrow> nat \<Rightarrow> 'd message list" where
  "pipe s i = (if i < length (worker_at s) then held_at (worker_at s ! i) @ lfq_list (worker_queues s ! i) else [])"

fun last_point :: "'d point \<Rightarrow> bool" where
  "last_point Finished = True"
| "last_point (Dequeue LastLoop k) = True"
| "last_point (Have LastLoop m) = True"
| "last_point _ = False"

section \<open>The invariant\<close>

definition shape_inv :: "nat \<Rightarrow> 'd threads \<Rightarrow> bool" where
  "shape_inv n s \<longleftrightarrow>
     0 < n \<and> lfq_inv (main_queue s) \<and> (\<forall>q \<in> set (worker_queues s). lfq_inv q) \<and>
     length (worker_queues s) = length (worker_at s) \<and>
     length (worker_at s) = (if life s = Down \<or> n = 1 then 0 else n)"

text \<open>Nothing is lost, duplicated or reordered within a topic, and a topic has one thread.\<close>

definition flow_inv :: "(topic_id \<Rightarrow> size_t) \<Rightarrow> nat \<Rightarrow> 'd threads \<Rightarrow> bool" where
  "flow_inv hsh n s \<longleftrightarrow>
     accepted s = map snd (left s) @ lfq_list (main_queue s) \<and>
     (\<forall>t. of_topic t (taken s) =
        of_topic t (map snd (dispatched s) @ pipe s (unat (hsh t) mod n) @ held_at (main_at s))) \<and>
     (\<forall>i. \<forall>m \<in> set (pipe s i). worker_index hsh n m = i) \<and>
     (\<forall>wm \<in> set (dispatched s). worker_index hsh n (snd wm) = fst wm)"

text \<open>The order in which the threads end.\<close>

definition stop_inv :: "'d threads \<Rightarrow> bool" where
  "stop_inv s \<longleftrightarrow>
     (t_running s \<longleftrightarrow> life s = Up) \<and> (router_drained s \<longleftrightarrow> (\<exists>i. life s = Join_worker i)) \<and>
     (router_drained s \<or> life s = Down \<longrightarrow> main_at s = Finished) \<and>
     (last_point (main_at s) \<longrightarrow> \<not> t_running s) \<and>
     (main_at s = Finished \<longrightarrow> stop_mark s \<le> length (left s)) \<and> stop_mark s \<le> length (accepted s) \<and>
     (\<forall>i < length (worker_at s). last_point (worker_at s ! i) \<longrightarrow> router_drained s) \<and>
     (\<forall>i < length (worker_at s). worker_at s ! i = Finished \<longrightarrow> lfq_list (worker_queues s ! i) = []) \<and>
     (\<forall>i j. life s = Join_worker i \<and> j < i \<and> j < length (worker_at s) \<longrightarrow> worker_at s ! j = Finished)"

definition threads_inv :: "(topic_id \<Rightarrow> size_t) \<Rightarrow> nat \<Rightarrow> 'd threads \<Rightarrow> bool" where
  "threads_inv hsh n s \<longleftrightarrow> shape_inv n s \<and> flow_inv hsh n s \<and> stop_inv s"

lemma threads_inv_new:
  assumes "0 < n" "unat capacity \<le> 2 ^ 63"
  shows "threads_inv hsh n (threads_new capacity)"
  by (simp add: threads_inv_def shape_inv_def flow_inv_def stop_inv_def threads_new_def taken_def pipe_def
      assms(1) lfq_new_inv(1,2)[OF assms(2)])

lemma threads_invD:
  assumes "threads_inv hsh n s"
  shows "shape_inv n s" "flow_inv hsh n s" "stop_inv s" "lfq_inv (main_queue s)"
    "accepted s = map snd (left s) @ lfq_list (main_queue s)" "stop_mark s \<le> length (accepted s)"
    "q \<in> set (worker_queues s) \<Longrightarrow> lfq_inv q" "length (worker_queues s) = length (worker_at s)"
  using assms unfolding threads_inv_def shape_inv_def flow_inv_def stop_inv_def by blast+

lemma threads_invI: "shape_inv n s \<Longrightarrow> flow_inv hsh n s \<Longrightarrow> stop_inv s \<Longrightarrow> threads_inv hsh n s"
  by (simp add: threads_inv_def)

text \<open>A step that only moves the main thread between points that hold no message.\<close>

lemma main_move:
  assumes "threads_inv hsh n s" "held_at (main_at s) = []" "held_at p = []"
    and "last_point p \<Longrightarrow> \<not> t_running s" "router_drained s \<or> life s = Down \<Longrightarrow> p = Finished"
    and "p = Finished \<Longrightarrow> stop_mark s \<le> length (left s)"
  shows "threads_inv hsh n (s\<lparr>main_at := p, dispatcher_sleeping := b\<rparr>)"
proof (rule threads_invI)
  note inv = threads_invD(1-3)[OF assms(1)]
  show "shape_inv n (s\<lparr>main_at := p, dispatcher_sleeping := b\<rparr>)"
    using inv(1) by (simp add: shape_inv_def)
  show "flow_inv hsh n (s\<lparr>main_at := p, dispatcher_sleeping := b\<rparr>)"
    using inv(2) assms(2,3) by (simp add: flow_inv_def taken_def pipe_def)
  show "stop_inv (s\<lparr>main_at := p, dispatcher_sleeping := b\<rparr>)"
    using inv(3) assms(4-6) unfolding stop_inv_def by (simp, blast)
qed

lemma main_move':
  assumes "threads_inv hsh n s" "held_at (main_at s) = []" "held_at p = []"
    and "last_point p \<Longrightarrow> \<not> t_running s" "router_drained s \<or> life s = Down \<Longrightarrow> p = Finished"
    and "p = Finished \<Longrightarrow> stop_mark s \<le> length (left s)"
  shows "threads_inv hsh n (s\<lparr>main_at := p\<rparr>)"
  using main_move[OF assms, of "dispatcher_sleeping s"] by simp

lemma main_active:
  assumes "threads_inv hsh n s" "main_at s \<noteq> Finished"
  shows "\<not> router_drained s" "life s \<noteq> Down"
  using assms by (auto simp: threads_inv_def stop_inv_def)

lemma backoff_point: "held_at (backoff i) = []" "\<not> last_point (backoff i)" "backoff i \<noteq> Finished"
  by (auto simp: backoff_def)

lemma backoff_main:
  assumes "threads_inv hsh n s" "held_at (main_at s) = []" "\<not> router_drained s" "life s \<noteq> Down"
  shows "threads_inv hsh n (case backoff i of Nap i \<Rightarrow> s\<lparr>main_at := Nap i, dispatcher_sleeping := True\<rparr>
    | p \<Rightarrow> s\<lparr>main_at := p\<rparr>)"
  using main_move[OF assms(1,2), of "Nap i" True] main_move'[OF assms(1,2), of "Condition MainLoop (Suc i)"]
    assms(3,4) by (auto simp: backoff_def)

text \<open>The two main loops differ only in what they do with a message.\<close>

lemma routerLoop_poll:
  "held_at (main_at s) = [] \<Longrightarrow> routerLoop hsh n e s = dispatchLoop e s"
  by (cases "main_at s") (simp_all add: routerLoop_def dispatchLoop_def)

lemma dispatchLoop_poll_inv:
  assumes inv: "threads_inv hsh n s" and st: "dispatchLoop e s = Some s'" "held_at (main_at s) = []"
  shows "threads_inv hsh n s'"
proof (cases "main_at s")
  case (Condition l i)
  note act = main_active[OF inv]
  show ?thesis
  proof (cases "t_running s")
    case True
    then show ?thesis
      using st Condition act main_move'[OF inv st(2), of "Dequeue MainLoop i"] by (simp add: dispatchLoop_def)
  next
    case False
    then show ?thesis
      using st Condition act main_move'[OF inv st(2), of "Dequeue LastLoop 0"] by (simp add: dispatchLoop_def)
  qed
next
  case (Dequeue l i)
  note act = main_active[OF inv]
  have q: "lfq_inv (main_queue s)" and acc: "accepted s = map snd (left s) @ lfq_list (main_queue s)"
    and mark: "stop_mark s \<le> length (accepted s)"
    using threads_invD(4-6)[OF inv] .
  show ?thesis
  proof (cases rule: lfq.deq_cases[OF q])
    case (1 q' m)
    then have s': "s' = s\<lparr>main_queue := q', left := left s @ [(True, m)], main_at := Have l m\<rparr>"
      using st(1) Dequeue by (simp add: dispatchLoop_def)
    have "shape_inv n s'" using inv 1 by (simp add: threads_inv_def shape_inv_def s')
    moreover have "flow_inv hsh n s'"
      using inv 1 Dequeue by (simp add: threads_inv_def flow_inv_def s' taken_def pipe_def)
    moreover have "stop_inv s'"
      using threads_invD(3,6)[OF inv] act Dequeue unfolding stop_inv_def s' by (cases l) auto
    ultimately show ?thesis by (simp add: threads_inv_def)
  next
    case 2
    show ?thesis
    proof (cases "l = LastLoop")
      case True
      then have "s' = s\<lparr>main_at := Finished\<rparr>" using st(1) Dequeue 2 by (simp add: dispatchLoop_def)
      moreover have "\<not> t_running s" using threads_invD(3)[OF inv] Dequeue True unfolding stop_inv_def by auto
      moreover have "stop_mark s \<le> length (left s)" using mark acc 2(1) by simp
      ultimately show ?thesis using main_move'[OF inv st(2), of Finished] by simp
    next
      case False
      then have "s' = (case backoff i of Nap i \<Rightarrow> s\<lparr>main_at := Nap i, dispatcher_sleeping := True\<rparr>
          | p \<Rightarrow> s\<lparr>main_at := p\<rparr>)"
        using st(1) Dequeue 2 by (cases l) (simp_all add: dispatchLoop_def)
      then show ?thesis using backoff_main[OF inv st(2)] act Dequeue by simp
    qed
  qed
next
  case (Nap i)
  then show ?thesis
    using st main_move[OF inv st(2), of "Condition MainLoop i" False] main_active[OF inv] inv
    by (auto simp: dispatchLoop_def split: if_splits)
next
  case Finished
  then show ?thesis using st inv by (simp add: dispatchLoop_def)
next
  case (Have l m)
  then show ?thesis using st(2) by simp
qed

lemma dispatchLoop_inv:
  assumes inv: "threads_inv hsh 1 s" and st: "dispatchLoop e s = Some s'"
  shows "threads_inv hsh 1 s'"
proof (cases "\<exists>l m. main_at s = Have l m")
  case True
  then obtain l m where m: "main_at s = Have l m" by blast
  then have s': "s' = s\<lparr>dispatched := dispatched s @ [(0, m)],
      main_at := case l of LastLoop \<Rightarrow> Dequeue LastLoop 0 | _ \<Rightarrow> Condition MainLoop 0\<rparr>"
    using st by (simp add: dispatchLoop_def)
  note act = main_active[OF inv] and d = threads_invD[OF inv]
  have w: "worker_at s = []" using d(1) by (simp add: shape_inv_def split: if_splits)
  have "shape_inv 1 s'" using d(1) by (simp add: shape_inv_def s')
  moreover have "flow_inv hsh 1 s'"
    using d(2) m w by (cases l) (simp_all add: flow_inv_def s' taken_def pipe_def worker_index_def)
  moreover have "stop_inv s'"
    using d(3) act m w unfolding stop_inv_def s' by (cases l) auto
  ultimately show ?thesis by (rule threads_invI)
next
  case False
  then have "held_at (main_at s) = []" by (cases "main_at s") auto
  then show ?thesis using dispatchLoop_poll_inv[OF inv st] by blast
qed

lemma flow_invD:
  assumes "flow_inv hsh n s"
  shows "of_topic t (taken s) = of_topic t (map snd (dispatched s) @ pipe s (unat (hsh t) mod n) @ held_at (main_at s))"
    and "m \<in> set (pipe s i) \<Longrightarrow> worker_index hsh n m = i"
    and "(w, m) \<in> set (dispatched s) \<Longrightarrow> worker_index hsh n m = w"
  using assms unfolding flow_inv_def by fastforce+

lemma of_topic_none: "\<forall>m \<in> set ms. topic_id m \<noteq> t \<Longrightarrow> of_topic t ms = []"
  by (simp add: of_topic_def filter_empty_conv)

lemma index_less: "0 < n \<Longrightarrow> worker_index hsh n m < n"
  by (simp add: worker_index_def)

lemma routerLoop_inv:
  assumes inv: "threads_inv hsh n s" and n: "n \<noteq> 1" and st: "routerLoop hsh n e s = Some s'"
  shows "threads_inv hsh n s'"
proof (cases "\<exists>l m. main_at s = Have l m")
  case True
  then obtain l m where m: "main_at s = Have l m" by blast
  note act = main_active[OF inv] and d = threads_invD[OF inv]
  let ?i = "worker_index hsh n m" and ?p = "case l of LastLoop \<Rightarrow> Dequeue LastLoop 0 | _ \<Rightarrow> Condition MainLoop 0"
  have len: "length (worker_at s) = n" "0 < n" using d(1) n act m by (simp_all add: shape_inv_def)
  have i: "?i < length (worker_queues s)" using index_less[OF len(2)] d(8) len(1) by simp
  have wq: "lfq_inv (worker_queues s ! ?i)" using d(7) i by simp
  show ?thesis
  proof (cases rule: lfq.enq_cases[OF wq, of m])
    case (1 q)
    let ?qs = "(worker_queues s)[?i := q]"
    have s': "s' = s\<lparr>worker_queues := ?qs, main_at := ?p\<rparr>"
      using st m 1 by (simp add: routerLoop_def routeToWorker_def Let_def)
    have qs: "j < length (worker_at s) \<Longrightarrow> lfq_list (?qs ! j) = lfq_list (worker_queues s ! j) @ (if j = ?i then [m] else [])" for j
      using 1 d(8) by (simp add: nth_list_update)
    have pipe: "pipe s' j = pipe s j @ (if j = ?i then [m] else [])" for j
      using qs[of j] i d(8) by (simp add: pipe_def s')
    have p: "held_at ?p = []" by (cases l) simp_all
    have "shape_inv n s'"
      using d(1) 1 set_update_subset_insert[of "worker_queues s" ?i q] by (auto simp: shape_inv_def s')
    moreover have "flow_inv hsh n s'"
    proof -
      have t: "of_topic t (pipe s (unat (hsh t) mod n)) @ of_topic t [m] = of_topic t (pipe s' (unat (hsh t) mod n))" for t
        using pipe by (auto simp: worker_index_def)
      have same: "accepted s' = accepted s" "left s' = left s" "main_queue s' = main_queue s"
          "dispatched s' = dispatched s" "main_at s' = ?p" "taken s' = taken s"
        by (simp_all add: s' taken_def)
      show ?thesis
        using d(2) t pipe unfolding flow_inv_def same by (auto simp: m p)
    qed
    moreover have "stop_inv s'"
    proof -
      have "\<forall>j < length (worker_at s). worker_at s ! j \<noteq> Finished"
        using d(3) act m unfolding stop_inv_def by fastforce
      then show ?thesis
        using d(3) act m unfolding stop_inv_def s' by (cases l) auto
    qed
    ultimately show ?thesis by (rule threads_invI)
  next
    case 2
    have "s\<lparr>worker_queues := (worker_queues s)[?i := worker_queues s ! ?i]\<rparr> = s" by simp
    then show ?thesis
      using st m 2 inv by (simp add: routerLoop_def routeToWorker_def Let_def)
  qed
next
  case False
  then have h: "held_at (main_at s) = []" by (cases "main_at s") auto
  then show ?thesis using dispatchLoop_poll_inv[OF inv] st routerLoop_poll[OF h] by metis
qed

text \<open>A worker that moves between points without touching a queue or a message.\<close>

lemma worker_move:
  assumes inv: "threads_inv hsh n s" and w: "w < length (worker_at s)"
    and p: "held_at p = held_at (worker_at s ! w)" "last_point p \<Longrightarrow> router_drained s"
    and fin: "p = Finished \<Longrightarrow> lfq_list (worker_queues s ! w) = []" "worker_at s ! w \<noteq> Finished"
  shows "threads_inv hsh n (s\<lparr>worker_sleeping := b, worker_at := (worker_at s)[w := p]\<rparr>)"
proof (rule threads_invI)
  note d = threads_invD(1-3)[OF inv]
  let ?s = "s\<lparr>worker_sleeping := b, worker_at := (worker_at s)[w := p]\<rparr>"
  show "shape_inv n ?s" using d(1) by (simp add: shape_inv_def)
  have "pipe ?s i = pipe s i" for i using p(1) w by (simp add: pipe_def nth_list_update)
  then show "flow_inv hsh n ?s" using d(2) by (simp add: flow_inv_def taken_def)
  show "stop_inv ?s"
    using d(3) p(2) fin w unfolding stop_inv_def by (auto simp: nth_list_update split: if_splits)
qed

lemma worker_move':
  assumes "threads_inv hsh n s" "w < length (worker_at s)"
    and "held_at p = held_at (worker_at s ! w)" "last_point p \<Longrightarrow> router_drained s"
    and "p = Finished \<Longrightarrow> lfq_list (worker_queues s ! w) = []" "worker_at s ! w \<noteq> Finished"
  shows "threads_inv hsh n (s\<lparr>worker_at := (worker_at s)[w := p]\<rparr>)"
  using worker_move[OF assms, of "worker_sleeping s"] by simp

lemma worker_take:
  assumes inv: "threads_inv hsh n s" and w: "w < length (worker_at s)" and at: "worker_at s ! w = Dequeue l k"
    and q: "lfq_list (worker_queues s ! w) = m # lfq_list q" "lfq_inv q"
  shows "threads_inv hsh n (s\<lparr>worker_queues := (worker_queues s)[w := q], worker_at := (worker_at s)[w := Have l m]\<rparr>)"
    (is "threads_inv hsh n ?s")
proof (rule threads_invI)
  note d = threads_invD[OF inv]
  show "shape_inv n ?s"
    using d(1) q(2) set_update_subset_insert[of "worker_queues s" w q] by (auto simp: shape_inv_def)
  have "pipe ?s i = pipe s i" for i using at q(1) w d(8) by (auto simp: pipe_def nth_list_update)
  then show "flow_inv hsh n ?s" using d(2) by (simp add: flow_inv_def taken_def)
  have "last_point (Have l m) \<Longrightarrow> router_drained s"
    using d(3) w at unfolding stop_inv_def by (cases l) fastforce+
  moreover have "worker_at s ! w \<noteq> Finished" using at by simp
  ultimately show "stop_inv ?s"
    using d(3) w unfolding stop_inv_def by (auto simp: nth_list_update split: if_splits)
qed

lemma worker_dispatch:
  assumes inv: "threads_inv hsh n s" and w: "w < length (worker_at s)" and at: "worker_at s ! w = Have l m"
    and p: "held_at p = []" "last_point p \<Longrightarrow> l = LastLoop" "p \<noteq> Finished"
  shows "threads_inv hsh n (s\<lparr>dispatched := dispatched s @ [(w, m)], worker_at := (worker_at s)[w := p]\<rparr>)"
    (is "threads_inv hsh n ?s")
proof (rule threads_invI)
  note d = threads_invD[OF inv]
  have m: "worker_index hsh n m = w"
    using flow_invD(2)[OF d(2), of m w] at w by (simp add: pipe_def)
  show "shape_inv n ?s" using d(1) by (simp add: shape_inv_def)
  have pipe: "pipe s i = (if i = w then [m] else []) @ pipe ?s i" for i
    using at p(1) w by (auto simp: pipe_def nth_list_update)
  have t: "of_topic t (pipe s (unat (hsh t) mod n)) = of_topic t [m] @ of_topic t (pipe ?s (unat (hsh t) mod n))" for t
    using pipe m by (auto simp: worker_index_def)
  have sub: "set (pipe ?s i) \<subseteq> set (pipe s i)" for i using pipe[of i] by auto
  have same: "accepted ?s = accepted s" "left ?s = left s" "main_queue ?s = main_queue s"
      "dispatched ?s = dispatched s @ [(w, m)]" "main_at ?s = main_at s" "taken ?s = taken s"
    by (simp_all add: taken_def)
  have "\<forall>i. \<forall>m \<in> set (pipe ?s i). worker_index hsh n m = i"
    using flow_invD(2)[OF d(2)] sub by blast
  moreover have "of_topic t (taken s) = of_topic t (map snd (dispatched s @ [(w, m)]) @
      pipe ?s (unat (hsh t) mod n) @ held_at (main_at s))" for t
    using flow_invD(1)[OF d(2), of t] t[of t] by simp
  moreover have "\<forall>wm \<in> set (dispatched s @ [(w, m)]). worker_index hsh n (snd wm) = fst wm"
    using flow_invD(3)[OF d(2)] m by auto
  ultimately show "flow_inv hsh n ?s"
    using d(5) unfolding flow_inv_def same by blast
  have "last_point p \<Longrightarrow> router_drained s"
    using d(3) w at p(2) unfolding stop_inv_def by fastforce
  then show "stop_inv ?s"
    using d(3) w at p(3) unfolding stop_inv_def by (auto simp: nth_list_update split: if_splits)
qed

lemma workerLoop_inv:
  assumes inv: "threads_inv hsh n s" and w: "w < length (worker_at s)" and st: "workerLoop w e s = Some s'"
  shows "threads_inv hsh n s'"
proof (cases "worker_at s ! w")
  case (Condition l k)
  have up: "\<not> last_point (Condition l' k')" "held_at (Condition l' k' :: 'a point) = []" for l' k' by simp_all
  show ?thesis
    using st Condition worker_move'[OF inv w, of "Dequeue MainLoop k"] worker_move'[OF inv w, of "Condition UntilDrained 0"]
      worker_move'[OF inv w, of "Dequeue LastLoop 0"] worker_move'[OF inv w, of "Dequeue UntilDrained k"]
    by (cases l) (auto simp: workerLoop_def Let_def split: if_splits)
next
  case (Dequeue l k)
  note d = threads_invD[OF inv]
  have wq: "lfq_inv (worker_queues s ! w)" using d(7,8) w by simp
  show ?thesis
  proof (cases rule: lfq.deq_cases[OF wq])
    case (1 q m)
    then show ?thesis
      using st Dequeue worker_take[OF inv w Dequeue 1(1) 1(3)] by (simp add: workerLoop_def Let_def)
  next
    case 2
    have last: "l = LastLoop \<Longrightarrow> router_drained s"
      using d(3) w Dequeue unfolding stop_inv_def by fastforce
    show ?thesis
      using st Dequeue 2 last worker_move'[OF inv w, of Finished] worker_move'[OF inv w, of "Condition UntilDrained k"]
        worker_move'[OF inv w, of "Condition UntilDrained (Suc k)"] worker_move'[OF inv w, of "Condition MainLoop (Suc k)"]
        worker_move[OF inv w, of "Nap k"]
      by (cases l) (auto simp: workerLoop_def Let_def backoff_def split: if_splits)
  qed
next
  case (Have l m)
  then show ?thesis
    using st worker_dispatch[OF inv w Have, of "Dequeue LastLoop 0"] worker_dispatch[OF inv w Have, of "Condition l 0"]
    by (cases l) (simp_all add: workerLoop_def Let_def)
next
  case (Nap k)
  then show ?thesis
    using st inv worker_move[OF inv w, of "Condition MainLoop k"] by (auto simp: workerLoop_def Let_def split: if_splits)
next
  case Finished
  then show ?thesis using st inv by (simp add: workerLoop_def)
qed

lemma start_inv:
  assumes inv: "threads_inv hsh n s" and "unat capacity \<le> 2 ^ 63" and down: "life s = Down"
  shows "threads_inv hsh n (start n capacity s)"
proof (rule threads_invI)
  note d = threads_invD[OF inv] and q = lfq_new_inv(1,2)[OF assms(2)]
  have s: "\<not> t_running s" "main_at s = Finished" "worker_at s = []" "worker_queues s = []" "\<not> router_drained s"
    using d(1,3) down unfolding stop_inv_def shape_inv_def by auto
  show "shape_inv n (start n capacity s)"
    using d(1,4) s q by (auto simp: start_def shape_inv_def)
  have "pipe (start n capacity s) i = []" "pipe s i = []" for i
    using s q by (auto simp: start_def pipe_def)
  then show "flow_inv hsh n (start n capacity s)"
    using d(2) s by (auto simp: start_def flow_inv_def taken_def)
  show "stop_inv (start n capacity s)"
    using d(3,6) s q by (auto simp: start_def stop_inv_def)
qed

lemma stop_clear_inv:
  assumes inv: "threads_inv hsh n s" and main: "main_at s = Finished" "\<not> t_running s"
    and "\<forall>i < length (worker_at s). worker_at s ! i = Finished"
  shows "threads_inv hsh n (stop_clear s)"
proof (rule threads_invI)
  note d = threads_invD[OF inv]
  show "shape_inv n (stop_clear s)" using d(1) by (auto simp: stop_clear_def shape_inv_def)
  have "pipe (stop_clear s) i = []" "pipe s i = []" for i
    using assms(4) d(3) unfolding stop_inv_def by (auto simp: stop_clear_def pipe_def)
  then show "flow_inv hsh n (stop_clear s)"
    using d(2) by (simp add: stop_clear_def flow_inv_def taken_def)
  show "stop_inv (stop_clear s)" using d(3) main by (auto simp: stop_clear_def stop_inv_def)
qed

lemma stop_join_inv:
  assumes inv: "threads_inv hsh n s" and st: "stop_join s = Some s'"
  shows "threads_inv hsh n s'"
proof (cases "life s")
  case Join_main
  note d = threads_invD[OF inv]
  have main: "main_at s = Finished" and s': "s' = (if worker_at s \<noteq> []
      then s\<lparr>router_drained := True, life := Join_worker 0\<rparr> else stop_clear s)"
    using st Join_main by (auto simp: stop_join_def split: if_splits)
  have nr: "\<not> t_running s" using d(3) Join_main unfolding stop_inv_def by auto
  show ?thesis
  proof (cases "worker_at s = []")
    case True
    then show ?thesis using stop_clear_inv[OF inv main nr] s' by simp
  next
    case False
    then have s': "s' = s\<lparr>router_drained := True, life := Join_worker 0\<rparr>" using s' by simp
    have "shape_inv n s'" using d(1) Join_main by (simp add: s' shape_inv_def)
    moreover have "flow_inv hsh n s'" using d(2) by (simp add: s' flow_inv_def taken_def pipe_def)
    moreover have "stop_inv s'" using d(3) main nr by (auto simp: s' stop_inv_def)
    ultimately show ?thesis by (rule threads_invI)
  qed
next
  case (Join_worker i)
  note d = threads_invD[OF inv]
  have main: "main_at s = Finished" and nr: "\<not> t_running s"
    and before: "\<forall>j < length (worker_at s). j < i \<longrightarrow> worker_at s ! j = Finished"
    using d(3) Join_worker unfolding stop_inv_def by auto
  show ?thesis
  proof (cases "i < length (worker_at s)")
    case True
    then have fin: "worker_at s ! i = Finished" and s': "s' = s\<lparr>life := Join_worker (i + 1)\<rparr>"
      using st Join_worker by (auto simp: stop_join_def split: if_splits)
    have "shape_inv n s'" using d(1) Join_worker by (simp add: s' shape_inv_def)
    moreover have "flow_inv hsh n s'" using d(2) by (simp add: s' flow_inv_def taken_def pipe_def)
    moreover have "stop_inv s'"
      using d(3) Join_worker nr before fin by (auto simp: s' stop_inv_def less_Suc_eq)
    ultimately show ?thesis by (rule threads_invI)
  next
    case False
    then have "s' = stop_clear s" using st Join_worker by (simp add: stop_join_def)
    moreover have "\<forall>j < length (worker_at s). worker_at s ! j = Finished"
      using before False by auto
    ultimately show ?thesis using stop_clear_inv[OF inv main nr] by simp
  qed
qed (use st in \<open>simp_all add: stop_join_def\<close>)

lemma stop_inv_grow:
  assumes "stop_inv s"
  shows "stop_inv (s\<lparr>main_queue := q, accepted := accepted s @ ms\<rparr>)"
    and "stop_inv (s\<lparr>main_queue := q, left := left s @ ls\<rparr>)"
proof -
  have "stop_mark s \<le> length (left s) \<Longrightarrow> stop_mark s \<le> length (left s) + length ls"
    "stop_mark s \<le> length (accepted s) \<Longrightarrow> stop_mark s \<le> length (accepted s) + length ms" by simp_all
  then show "stop_inv (s\<lparr>main_queue := q, accepted := accepted s @ ms\<rparr>)"
    "stop_inv (s\<lparr>main_queue := q, left := left s @ ls\<rparr>)"
    using assms unfolding stop_inv_def by (simp_all, blast+)
qed

lemma client_inv:
  assumes inv: "threads_inv hsh n s" and cap: "unat capacity \<le> 2 ^ 63" and st: "client n capacity s s'"
  shows "threads_inv hsh n s'"
  using st
proof cases
  case (Publish m q)
  note d = threads_invD[OF inv] and q = lfq.enq_Some_iff[OF threads_invD(4)[OF inv] Publish(2)]
  have "shape_inv n s'" using d(1) q by (simp add: Publish(1) shape_inv_def)
  moreover have "flow_inv hsh n s'" using d(2) q by (simp add: Publish(1) flow_inv_def taken_def pipe_def)
  moreover have "stop_inv s'" unfolding Publish(1) using d(3) by (rule stop_inv_grow)
  ultimately show ?thesis by (rule threads_invI)
next
  case (Evict q m)
  note d = threads_invD[OF inv]
  have q: "lfq_inv q" "lfq_list (main_queue s) = m # lfq_list q"
    using lfq.deq_Some_iff[OF d(4) Evict(2)] by blast+
  have "shape_inv n s'" using d(1) q by (simp add: Evict(1) shape_inv_def)
  moreover have "flow_inv hsh n s'" using d(2) q by (simp add: Evict(1) flow_inv_def taken_def pipe_def)
  moreover have "stop_inv s'" unfolding Evict(1) using d(3) by (rule stop_inv_grow)
  ultimately show ?thesis by (rule threads_invI)
next
  case Start
  then show ?thesis using start_inv[OF inv cap] by simp
next
  case Stop
  note d = threads_invD[OF inv]
  show ?thesis
  proof (cases "t_running s")
    case True
    then have up: "life s = Up" and s': "s' = s\<lparr>t_running := False, life := Join_main, stop_mark := length (accepted s)\<rparr>"
      using d(3) Stop unfolding stop_inv_def by (auto simp: stop_call_def)
    have "shape_inv n s'" using d(1) up by (simp add: s' shape_inv_def)
    moreover have "flow_inv hsh n s'" using d(2) by (simp add: s' flow_inv_def taken_def pipe_def)
    moreover have "stop_inv s'" using d(3) up True by (auto simp: s' stop_inv_def)
    ultimately show ?thesis by (rule threads_invI)
  qed (use Stop inv in \<open>simp add: stop_call_def\<close>)
qed

lemma internal_inv:
  assumes inv: "threads_inv hsh n s" and st: "internal hsh n s s'"
  shows "threads_inv hsh n s'"
  using st
proof cases
  case (Main e)
  then show ?thesis using dispatchLoop_inv routerLoop_inv inv by (cases "n = 1") auto
next
  case (Worker w e)
  then show ?thesis using workerLoop_inv[OF inv] by blast
next
  case Join
  then show ?thesis using stop_join_inv[OF inv] by blast
qed

lemma bus_step_inv:
  "threads_inv hsh n s \<Longrightarrow> unat capacity \<le> 2 ^ 63 \<Longrightarrow> bus_step hsh n capacity s s' \<Longrightarrow> threads_inv hsh n s'"
  using internal_inv client_inv by (auto simp: bus_step_def)

lemma reachable_inv:
  assumes "(bus_step hsh n capacity)\<^sup>*\<^sup>* (threads_new capacity) s" "0 < n" "unat capacity \<le> 2 ^ 63"
  shows "threads_inv hsh n s"
  using assms(1) by (induction rule: rtranclp_induct) (simp_all add: threads_inv_new[OF assms(2,3)] bus_step_inv[OF _ assms(3)])

section \<open>Order and completeness\<close>

lemma of_topic_eq_mset:
  fixes xs ys :: "'d message list"
  assumes eq: "\<And>t. of_topic t xs = of_topic t ys"
  shows "mset xs = mset ys"
proof (rule multiset_eqI)
  fix m :: "'d message"
  have "count (mset zs) m = count (mset (of_topic (topic_id m) zs)) m" for zs
    by (simp add: of_topic_def)
  then show "count (mset xs) m = count (mset ys) m" using eq by metis
qed

lemma dispatch_order_inv:
  assumes "threads_inv hsh n s"
  shows "accepted s = map snd (left s) @ lfq_list (main_queue s) \<and>
    (\<forall>t. \<exists>rest. of_topic t (taken s) = of_topic t (map snd (dispatched s)) @ rest) \<and>
    (\<forall>(w, m) \<in> set (dispatched s). w = worker_index hsh n m)"
  using threads_invD(5)[OF assms] flow_invD[OF threads_invD(2)[OF assms]] by auto

lemma down_complete:
  assumes inv: "threads_inv hsh n s" and down: "life s = Down"
  shows "of_topic t (map snd (dispatched s)) = of_topic t (taken s)"
    and "mset (map snd (dispatched s)) = mset (taken s)"
    and "stop_mark s \<le> length (left s)" "take (stop_mark s) (accepted s) = take (stop_mark s) (map snd (left s))"
proof -
  note d = threads_invD[OF inv]
  have s: "main_at s = Finished" "worker_at s = []" "stop_mark s \<le> length (left s)"
    using d(1,3) down unfolding stop_inv_def shape_inv_def by auto
  have eq: "of_topic t (map snd (dispatched s)) = of_topic t (taken s)" for t
    using flow_invD(1)[OF d(2), of t] s by (simp add: pipe_def)
  show "of_topic t (map snd (dispatched s)) = of_topic t (taken s)" by (rule eq)
  show "mset (map snd (dispatched s)) = mset (taken s)" using of_topic_eq_mset[OF eq] .
  show "stop_mark s \<le> length (left s)" by (rule s)
  then show "take (stop_mark s) (accepted s) = take (stop_mark s) (map snd (left s))"
    using d(5) by simp
qed

section \<open>Stopping ends\<close>

declare length_lfq_list [simp del]

text \<open>What is left to do: messages weigh more the further they are from a handler, program points
  the further they are from the end of their thread.\<close>

fun point_work :: "'d point \<Rightarrow> nat" where
  "point_work Finished = 0"
| "point_work (Dequeue LastLoop k) = 1"
| "point_work (Have LastLoop m) = 1"
| "point_work (Dequeue UntilDrained k) = 2"
| "point_work (Condition UntilDrained k) = 2"
| "point_work (Condition LastLoop k) = 3"
| "point_work (Have UntilDrained m) = 2"
| "point_work (Condition MainLoop k) = 3"
| "point_work (Have MainLoop m) = 3"
| "point_work (Nap k) = 4"
| "point_work (Dequeue MainLoop k) = 5"

fun main_point_work :: "'d point \<Rightarrow> nat" where
  "main_point_work (Dequeue UntilDrained k) = 5"
| "main_point_work p = point_work p"

definition main_work :: "'d threads \<Rightarrow> nat" where
  "main_work s = 6 * length (lfq_list (main_queue s)) + 5 * length (held_at (main_at s)) + main_point_work (main_at s)"

definition one_work :: "'d threads \<Rightarrow> nat \<Rightarrow> nat" where
  "one_work s i = 3 * length (lfq_list (worker_queues s ! i)) + 2 * length (held_at (worker_at s ! i)) +
     point_work (worker_at s ! i)"

definition join_work :: "'d threads \<Rightarrow> nat" where
  "join_work s =
     (case life s of
        Join_main \<Rightarrow> length (worker_at s) + 2
      | Join_worker i \<Rightarrow> length (worker_at s) - i + 1
      | _ \<Rightarrow> 0)"

definition work :: "'d threads \<Rightarrow> nat" where
  "work s = main_work s + (\<Sum>i<length (worker_at s). one_work s i) + join_work s"

definition stopping :: "'d threads \<Rightarrow> bool" where
  "stopping s \<longleftrightarrow> life s = Join_main \<or> (\<exists>i. life s = Join_worker i)"

lemma sum_one:
  fixes f g :: "nat \<Rightarrow> nat"
  assumes "w < k" "\<And>i. i < k \<Longrightarrow> i \<noteq> w \<Longrightarrow> g i = f i"
  shows "(\<Sum>i<k. g i) + f w = (\<Sum>i<k. f i) + g w"
proof -
  have "(\<Sum>i<k. h i) = h w + (\<Sum>i\<in>{..<k} - {w}. h i)" for h :: "nat \<Rightarrow> nat"
    using assms(1) by (intro sum.remove) auto
  moreover have "(\<Sum>i\<in>{..<k} - {w}. g i) = (\<Sum>i\<in>{..<k} - {w}. f i)"
    using assms(2) by (intro sum.cong) auto
  ultimately show ?thesis by simp
qed

lemma join_work_cong: "length (worker_at s') = length (worker_at s) \<Longrightarrow> life s' = life s \<Longrightarrow> join_work s' = join_work s"
  by (auto simp: join_work_def split: life.split)

text \<open>A step of worker \<open>w\<close> changes its own share only.\<close>

lemma worker_work:
  assumes "w < length (worker_at s)" "length (worker_at s') = length (worker_at s)"
    and "\<And>i. i \<noteq> w \<Longrightarrow> worker_at s' ! i = worker_at s ! i \<and> worker_queues s' ! i = worker_queues s ! i"
    and "main_queue s' = main_queue s" "main_at s' = main_at s" "life s' = life s"
  shows "work s' + one_work s w = work s + one_work s' w"
proof -
  have "one_work s' i = one_work s i" if "i \<noteq> w" for i using assms(3)[OF that] by (simp add: one_work_def)
  then have "(\<Sum>i<length (worker_at s). one_work s' i) + one_work s w =
      (\<Sum>i<length (worker_at s). one_work s i) + one_work s' w"
    using sum_one[OF assms(1)] by blast
  moreover have "main_work s' = main_work s" "join_work s' = join_work s"
    using assms join_work_cong[of s' s] by (simp_all add: main_work_def)
  ultimately show ?thesis using assms(2) by (simp add: work_def)
qed

lemma worker_share:
  assumes inv: "threads_inv hsh n s" and w: "w < length (worker_at s)" and nr: "\<not> t_running s"
    and st: "workerLoop w e s = Some s'"
  shows "one_work s' w \<le> one_work s w \<and>
    (one_work s' w = one_work s w \<longrightarrow>
       worker_at s ! w = Finished \<or> (\<exists>k. worker_at s ! w = Condition UntilDrained k \<and>
          \<not> router_drained s \<and> worker_at s' ! w = Dequeue UntilDrained k \<and> worker_queues s' = worker_queues s) \<or>
       (\<exists>k k'. worker_at s ! w = Dequeue UntilDrained k \<and> lfq_list (worker_queues s ! w) = [] \<and>
          worker_at s' ! w = Condition UntilDrained k')) \<and>
    length (worker_at s') = length (worker_at s) \<and> main_queue s' = main_queue s \<and> main_at s' = main_at s \<and>
    life s' = life s \<and> router_drained s' = router_drained s \<and> t_running s' = t_running s \<and>
    (\<forall>i. i \<noteq> w \<longrightarrow> worker_at s' ! i = worker_at s ! i \<and> worker_queues s' ! i = worker_queues s ! i)"
proof (cases "worker_at s ! w")
  case (Condition l k)
  then show ?thesis
    using st nr w by (cases l; cases "router_drained s") (auto simp: workerLoop_def Let_def one_work_def)
next
  case (Dequeue l k)
  note d = threads_invD[OF inv]
  have wq: "lfq_inv (worker_queues s ! w)" and w': "w < length (worker_queues s)" using d(7,8) w by simp_all
  show ?thesis
  proof (cases rule: lfq.deq_cases[OF wq])
    case (1 q m)
    have len: "length (lfq_list (worker_queues s ! w)) = Suc (length (lfq_list q))" using 1(1) by (metis length_Cons)
    have "s' = s\<lparr>worker_queues := (worker_queues s)[w := q], worker_at := (worker_at s)[w := Have l m]\<rparr>"
      using st Dequeue 1(2) by (simp add: workerLoop_def Let_def)
    then show ?thesis using len w w' Dequeue by (cases l) (simp_all add: one_work_def)
  next
    case 2
    then show ?thesis
      using st Dequeue w by (cases l) (auto simp: workerLoop_def Let_def one_work_def backoff_def split: if_splits)
  qed
next
  case (Have l m)
  then show ?thesis
    using st w by (cases l) (auto simp: workerLoop_def Let_def one_work_def)
next
  case (Nap k)
  then show ?thesis
    using st w nr by (auto simp: workerLoop_def Let_def one_work_def wait_over_def)
next
  case Finished
  then show ?thesis using st by (simp add: workerLoop_def)
qed

lemma worker_internal_work:
  assumes "threads_inv hsh n s" "w < length (worker_at s)" "\<not> t_running s" "workerLoop w e s = Some s'"
  shows "work s' \<le> work s" "one_work s' w < one_work s w \<Longrightarrow> work s' < work s"
proof -
  note ws = worker_share[OF assms]
  have "work s' + one_work s w = work s + one_work s' w"
    using ws by (intro worker_work[OF assms(2)]) blast+
  then show "work s' \<le> work s" "one_work s' w < one_work s w \<Longrightarrow> work s' < work s" using ws by linarith+
qed

lemma workerLoop_total:
  assumes "threads_inv hsh n s" "w < length (worker_at s)"
  shows "\<exists>s'. workerLoop w e s = Some s'"
proof (cases "worker_at s ! w")
  case (Dequeue l k)
  have "lfq_inv (worker_queues s ! w)" using threads_invD(7,8)[OF assms(1)] assms(2) by simp
  then obtain q ok x where "try_dequeue (worker_queues s ! w) = Some (q, ok, x)"
    using lfq.deq_total by blast
  then show ?thesis using Dequeue by (auto simp: workerLoop_def Let_def split: option.split loop.split)
next
  case (Condition l k)
  then show ?thesis by (cases l) (auto simp: workerLoop_def Let_def)
qed (auto simp: workerLoop_def Let_def)

text \<open>In at most two steps of its own an unfinished worker has less to do, unless it waits for the
  router with nothing to take.\<close>

lemma worker_progress:
  assumes inv: "threads_inv hsh n s" and w: "w < length (worker_at s)" and nr: "\<not> t_running s"
    and nf: "worker_at s ! w \<noteq> Finished" and ne: "router_drained s \<or> lfq_list (worker_queues s ! w) \<noteq> []"
  shows "\<exists>s'. (internal hsh n)\<^sup>+\<^sup>+ s s' \<and> work s' < work s"
proof -
  obtain s1 where s1: "workerLoop w False s = Some s1" using workerLoop_total[OF inv w] by blast
  have i1: "internal hsh n s s1" using Worker[OF w s1] .
  note ws = worker_share[OF inv w nr s1] and ww = worker_internal_work[OF inv w nr s1]
  show ?thesis
  proof (cases "one_work s1 w < one_work s w")
    case True
    then show ?thesis using i1 ww(2) by blast
  next
    case False
    have inv1: "threads_inv hsh n s1" using workerLoop_inv[OF inv w s1] .
    have w1: "w < length (worker_at s1)" and nr1: "\<not> t_running s1" using ws w nr by auto
    obtain s2 where s2: "workerLoop w False s1 = Some s2" using workerLoop_total[OF inv1 w1] by blast
    have i2: "internal hsh n s1 s2" using Worker[OF w1 s2] .
    note ws2 = worker_share[OF inv1 w1 nr1 s2] and ww2 = worker_internal_work[OF inv1 w1 nr1 s2]
    have "one_work s2 w < one_work s1 w"
    proof (rule ccontr)
      assume no: "\<not> one_work s2 w < one_work s1 w"
      have eq: "one_work s1 w = one_work s w" using ws False by linarith
      have eq2: "one_work s2 w = one_work s1 w" using ws2 no by linarith
      from ws eq nf consider
          (wait) k where "\<not> router_drained s" "worker_at s1 ! w = Dequeue UntilDrained k" "worker_queues s1 = worker_queues s"
        | (empty) k where "lfq_list (worker_queues s ! w) = []" "worker_at s1 ! w = Condition UntilDrained k"
        by blast
      then show False
      proof cases
        case wait
        then show ?thesis using ws2 eq2 ne by auto
      next
        case empty
        then show ?thesis using ws2 eq2 ne ws by auto
      qed
    qed
    then have "work s2 < work s" using ww2(2) ww(1) by linarith
    then show ?thesis using i1 i2 by (meson tranclp.intros)
  qed
qed

definition main_loop :: "(topic_id \<Rightarrow> size_t) \<Rightarrow> nat \<Rightarrow> bool \<Rightarrow> 'd threads \<Rightarrow> 'd threads option" where
  "main_loop hsh n e s = (if n = 1 then dispatchLoop e s else routerLoop hsh n e s)"

lemma main_loop_poll: "held_at (main_at s) = [] \<Longrightarrow> main_loop hsh n e s = dispatchLoop e s"
  by (simp add: main_loop_def routerLoop_poll)

lemma workers_length:
  "threads_inv hsh n s \<Longrightarrow> n \<noteq> 1 \<Longrightarrow> life s \<noteq> Down \<Longrightarrow> length (worker_at s) = n \<and> 0 < n"
  using threads_invD(1)[of hsh n s] by (simp add: shape_inv_def)

text \<open>A step of the main thread; the only one that leaves as much to do as before is the router's
  failed attempt on a full worker queue.\<close>

lemma main_share:
  fixes s :: "'d threads"
  assumes inv: "threads_inv hsh n s" and nr: "\<not> t_running s" and life: "life s \<noteq> Down"
    and st: "main_loop hsh n e s = Some s'" and nf: "main_at s \<noteq> Finished"
  shows "work s' < work s \<or>
    (n \<noteq> 1 \<and> s' = s \<and> (\<exists>l m. main_at s = Have l m \<and>
       length (lfq_list (worker_queues s ! worker_index hsh n m)) = lfq_cap (worker_queues s ! worker_index hsh n m)))"
proof (cases "held_at (main_at s) = []")
  case True
  then have d: "dispatchLoop e s = Some s'" using st main_loop_poll by metis
  note q = threads_invD(4)[OF inv]
  have same: "work s' < work s"
    if "main_work s' < main_work s" "worker_at s' = worker_at s" "worker_queues s' = worker_queues s" "life s' = life s"
    using that join_work_cong[of s' s] by (simp add: work_def one_work_def)
  show ?thesis
  proof (cases "main_at s")
    case (Condition l k)
    then show ?thesis
      by (intro disjI1 same; use d nr in \<open>cases l; simp add: dispatchLoop_def main_work_def; auto\<close>)
  next
    case (Dequeue l k)
    show ?thesis
    proof (cases rule: lfq.deq_cases[OF q])
      case (1 q' m)
      have len: "length (lfq_list (main_queue s)) = Suc (length (lfq_list q'))" using 1(1) by (metis length_Cons)
      have "s' = s\<lparr>main_queue := q', left := left s @ [(True, m)], main_at := Have l m\<rparr>"
        using d Dequeue 1(2) by (simp add: dispatchLoop_def)
      then show ?thesis
        using Dequeue by (intro disjI1 same; use len in \<open>cases l; simp add: main_work_def\<close>)
    next
      case 2
      then show ?thesis
        using Dequeue by (intro disjI1 same; use d in
          \<open>cases l; auto simp: dispatchLoop_def main_work_def backoff_def split: if_splits\<close>)
    qed
  next
    case (Nap k)
    then show ?thesis
      by (intro disjI1 same; use d nr in \<open>auto simp: dispatchLoop_def main_work_def wait_over_def\<close>)
  next
    case (Have l m)
    then show ?thesis using True by simp
  next
    case Finished
    then show ?thesis using nf by simp
  qed
next
  case False
  then obtain l m where m: "main_at s = Have l m" by (cases "main_at s") auto
  let ?p = "(case l of LastLoop \<Rightarrow> Dequeue LastLoop 0 | _ \<Rightarrow> Condition MainLoop 0) :: 'd point"
  have p: "held_at ?p = []" "main_point_work ?p \<le> main_point_work (Have l m) + 1" by (cases l; simp)+
  show ?thesis
  proof (cases "n = 1")
    case True
    then have "s' = s\<lparr>dispatched := dispatched s @ [(0, m)], main_at := ?p\<rparr>"
      using st m by (simp add: main_loop_def dispatchLoop_def)
    then show ?thesis using m p join_work_cong[of s' s] by (simp add: work_def one_work_def main_work_def del: main_point_work.simps)
  next
    case False
    note wl = workers_length[OF inv False life] and d = threads_invD[OF inv]
    let ?i = "worker_index hsh n m"
    have i: "?i < length (worker_at s)" "?i < length (worker_queues s)"
      using index_less[of n hsh m] wl d(8) by simp_all
    have wq: "lfq_inv (worker_queues s ! ?i)" using d(7) i by simp
    show ?thesis
    proof (cases rule: lfq.enq_cases[OF wq, of m])
      case (1 q)
      have s': "s' = s\<lparr>worker_queues := (worker_queues s)[?i := q], main_at := ?p\<rparr>"
        using st m 1 False by (simp add: main_loop_def routerLoop_def routeToWorker_def Let_def)
      have other: "one_work s' j = one_work s j" if "j \<noteq> ?i" for j using that by (simp add: one_work_def s')
      have len: "length (lfq_list q) = Suc (length (lfq_list (worker_queues s ! ?i)))"
        using 1 by simp
      have "one_work s' ?i = one_work s ?i + 3" using i len by (simp add: one_work_def s')
      then have "(\<Sum>j<length (worker_at s). one_work s' j) = (\<Sum>j<length (worker_at s). one_work s j) + 3"
        using sum_one[OF i(1), of "one_work s'" "one_work s", OF other] by simp
      moreover have "main_work s' + 4 \<le> main_work s"
        using m p by (simp add: main_work_def s' del: main_point_work.simps)
      moreover have "join_work s' = join_work s" "worker_at s' = worker_at s"
        using join_work_cong[of s' s] by (simp_all add: s')
      ultimately show ?thesis by (simp add: work_def)
    next
      case 2
      have "s\<lparr>worker_queues := (worker_queues s)[?i := worker_queues s ! ?i]\<rparr> = s" by simp
      then show ?thesis
        using st m 2 False by (simp add: main_loop_def routerLoop_def routeToWorker_def Let_def)
    qed
  qed
qed

lemma main_loop_total:
  assumes inv: "threads_inv hsh n s" and life: "life s \<noteq> Down"
  shows "\<exists>s'. main_loop hsh n e s = Some s'"
proof (cases "held_at (main_at s) = []")
  case True
  obtain q ok x where "try_dequeue (main_queue s) = Some (q, ok, x)"
    using lfq.deq_total[OF threads_invD(4)[OF inv]] by blast
  then show ?thesis
    using main_loop_poll[OF True, of hsh n e]
    by (cases "main_at s") (auto simp: dispatchLoop_def split: option.split loop.split)
next
  case False
  then obtain l m where m: "main_at s = Have l m" by (cases "main_at s") auto
  show ?thesis
  proof (cases "n = 1")
    case True
    then show ?thesis using m by (simp add: main_loop_def dispatchLoop_def)
  next
    case False
    have "lfq_inv (worker_queues s ! worker_index hsh n m)"
      using workers_length[OF inv False life] threads_invD(7,8)[OF inv] index_less[of n hsh m] by simp
    then obtain q ok where "try_enqueue (worker_queues s ! worker_index hsh n m) m = Some (q, ok)"
      using lfq.enq_total[of "worker_queues s ! worker_index hsh n m" m] by blast
    then show ?thesis using m False by (simp add: main_loop_def routerLoop_def routeToWorker_def Let_def)
  qed
qed

lemma internalE:
  assumes "internal hsh n s s'"
  obtains (main) e where "life s \<noteq> Down" "main_loop hsh n e s = Some s'"
    | (worker) w e where "w < length (worker_at s)" "workerLoop w e s = Some s'"
    | (join) "stop_join s = Some s'"
  using assms by cases (auto simp: main_loop_def)

lemma internal_main: "life s \<noteq> Down \<Longrightarrow> main_loop hsh n e s = Some s' \<Longrightarrow> internal hsh n s s'"
  by (rule Main) (simp_all add: main_loop_def)

lemma clear_work: "stopping s \<Longrightarrow> main_at s = Finished \<Longrightarrow> work (stop_clear s) < work s"
  by (auto simp: work_def main_work_def stop_clear_def stopping_def join_work_def)

lemma join_less:
  assumes "stop_join s = Some s'"
  shows "work s' < work s"
proof (cases "life s")
  case Join_main
  have fin: "main_at s = Finished" using assms Join_main by (simp add: stop_join_def split: if_splits)
  show ?thesis
  proof (cases "worker_at s = []")
    case True
    then show ?thesis
      using assms Join_main fin clear_work[of s] by (simp add: stop_join_def stopping_def)
  next
    case False
    then have "s' = s\<lparr>router_drained := True, life := Join_worker 0\<rparr>"
      using assms Join_main fin by (simp add: stop_join_def)
    then show ?thesis using Join_main by (simp add: work_def main_work_def one_work_def join_work_def)
  qed
next
  case (Join_worker i)
  show ?thesis
  proof (cases "i < length (worker_at s)")
    case True
    then have "s' = s\<lparr>life := Join_worker (i + 1)\<rparr>"
      using assms Join_worker by (simp add: stop_join_def split: if_splits)
    then show ?thesis using Join_worker True by (simp add: work_def main_work_def one_work_def join_work_def)
  next
    case False
    then have "s' = stop_clear s" using assms Join_worker by (simp add: stop_join_def)
    moreover have "join_work (stop_clear s) < join_work s"
      using Join_worker by (simp add: stop_clear_def join_work_def)
    ultimately show ?thesis by (simp add: work_def main_work_def stop_clear_def)
  qed
qed (use assms in \<open>simp_all add: stop_join_def\<close>)

lemma stopping_idle: "threads_inv hsh n s \<Longrightarrow> stopping s \<Longrightarrow> \<not> t_running s \<and> life s \<noteq> Down"
  using threads_invD(3)[of hsh n s] by (auto simp: stopping_def stop_inv_def)

lemma dispatchLoop_Finished: "main_at s = Finished \<Longrightarrow> main_loop hsh n e s = Some s' \<Longrightarrow> s' = s"
  by (simp add: main_loop_poll dispatchLoop_def)

lemma internal_work:
  assumes inv: "threads_inv hsh n s" and "stopping s" and st: "internal hsh n s s'"
  shows "work s' \<le> work s"
proof -
  have nr: "\<not> t_running s" and life: "life s \<noteq> Down" using stopping_idle[OF assms(1,2)] by auto
  from st show ?thesis
  proof (cases rule: internalE)
    case (main e)
    show ?thesis
    proof (cases "main_at s = Finished")
      case True
      then show ?thesis using dispatchLoop_Finished[OF _ main(2)] by simp
    next
      case False
      then show ?thesis using main_share[OF inv nr life main(2)] by auto
    qed
  next
    case (worker w e)
    then show ?thesis using worker_internal_work(1)[OF inv _ nr] by blast
  next
    case join
    then show ?thesis using join_less by fastforce
  qed
qed

lemma stopping_step:
  assumes inv: "threads_inv hsh n s" and "stopping s" and "internal hsh n s s'"
  shows "stopping s' \<or> life s' = Down"
  using assms(3)
proof (cases rule: internalE)
  case (main e)
  have nr: "\<not> t_running s" and life: "life s \<noteq> Down" using stopping_idle[OF assms(1,2)] by auto
  have "life s' = life s"
    using main(2) by (auto simp: main_loop_def dispatchLoop_def routerLoop_def routeToWorker_def Let_def option_bind_Some_iff
        split: point.splits prod.splits option.splits loop.splits if_splits)
  then show ?thesis using assms(2) by (simp add: stopping_def)
next
  case (worker w e)
  have nr: "\<not> t_running s" using stopping_idle[OF assms(1,2)] by auto
  have "life s' = life s" using worker_share[OF inv worker(1) nr worker(2)] by blast
  then show ?thesis using assms(2) by (simp add: stopping_def)
next
  case join
  then show ?thesis
    by (auto simp: stop_join_def stopping_def stop_clear_def split: life.splits if_splits)
qed

lemma stopping_progress:
  fixes s :: "'d threads"
  assumes inv: "threads_inv hsh n s" and stop: "stopping s"
  shows "\<exists>s'. (internal hsh n)\<^sup>+\<^sup>+ s s' \<and> work s' < work s"
proof -
  have nr: "\<not> t_running s" and life: "life s \<noteq> Down" using stopping_idle[OF assms] by auto
  note d = threads_invD[OF inv]
  have join: ?thesis if "stop_join s = Some s'" for s'
    using Join[OF that, of hsh n] join_less[OF that] by blast
  show ?thesis
  proof (cases "main_at s = Finished")
    case False
    obtain s1 where s1: "main_loop hsh n False s = Some s1" using main_loop_total[OF inv life] by blast
    from main_share[OF inv nr life s1 False] show ?thesis
    proof
      assume "work s1 < work s"
      then show ?thesis using internal_main[OF life s1] by blast
    next
      assume "n \<noteq> 1 \<and> s1 = s \<and> (\<exists>l m. main_at s = Have l m \<and>
        length (lfq_list (worker_queues s ! worker_index hsh n m)) = lfq_cap (worker_queues s ! worker_index hsh n m))"
      then obtain m :: "'d message" where n: "n \<noteq> 1" and full:
          "length (lfq_list (worker_queues s ! worker_index hsh n m)) = lfq_cap (worker_queues s ! worker_index hsh n m)"
        by blast
      let ?w = "worker_index hsh n m"
      have w: "?w < length (worker_at s)" using workers_length[OF inv n life] index_less[of n hsh m] by simp
      have q: "lfq_inv (worker_queues s ! ?w)" using d(7,8) w by simp
      have "lfq_list (worker_queues s ! ?w) \<noteq> []" using full lfq.cap_pos[OF q] by auto
      moreover have "worker_at s ! ?w \<noteq> Finished"
        using d(3) w main_active[OF inv False] unfolding stop_inv_def by fastforce
      ultimately show ?thesis using worker_progress[OF inv w nr] by blast
    qed
  next
    case fin: True
    show ?thesis
    proof (cases "life s")
      case Join_main
      then have "\<exists>s'. stop_join s = Some s'" using fin by (simp add: stop_join_def)
      then show ?thesis using join by blast
    next
      case (Join_worker i)
      have dr: "router_drained s" using d(3) Join_worker unfolding stop_inv_def by auto
      show ?thesis
      proof (cases "i < length (worker_at s) \<and> worker_at s ! i \<noteq> Finished")
        case True
        then show ?thesis using worker_progress[OF inv _ nr] dr by blast
      next
        case False
        then have "\<exists>s'. stop_join s = Some s'" using Join_worker by (auto simp: stop_join_def)
        then show ?thesis using join by blast
      qed
    qed (use stop in \<open>auto simp: stopping_def\<close>)
  qed
qed

lemma stopping_path:
  assumes "threads_inv hsh n s" "stopping s" "(internal hsh n)\<^sup>*\<^sup>* s s'"
  shows "threads_inv hsh n s' \<and> (stopping s' \<or> (\<exists>s1. (internal hsh n)\<^sup>*\<^sup>* s s1 \<and> life s1 = Down))"
  using assms(3)
proof (induction rule: rtranclp_induct)
  case (step s1 s2)
  then show ?case
    using internal_inv[of hsh n s1 s2] stopping_step[of hsh n s1 s2] by (meson rtranclp.rtrancl_into_rtrancl)
qed (use assms in simp)

lemma stop_finishes:
  "threads_inv hsh n s \<Longrightarrow> stopping s \<Longrightarrow> \<exists>s'. (internal hsh n)\<^sup>*\<^sup>* s s' \<and> life s' = Down"
proof (induction "work s" arbitrary: s rule: less_induct)
  case less
  obtain s1 where s1: "(internal hsh n)\<^sup>+\<^sup>+ s s1" "work s1 < work s" using stopping_progress[OF less.prems] by blast
  have path: "(internal hsh n)\<^sup>*\<^sup>* s s1" using s1(1) by (rule tranclp_into_rtranclp)
  from stopping_path[OF less.prems path] show ?case
    using less.hyps[OF s1(2)] path by (meson rtranclp_trans)
qed

section \<open>The properties\<close>

text \<open>C5: ordering of delivery with any number of dispatcher threads, in every interleaving of
  publishers, evictions, \<open>start\<close>, \<open>stop\<close>, router and workers: the messages that left the main queue
  did so in the order they were accepted; for each topic the \<open>dispatchMessage\<close> calls are, in order
  and without loss or duplication, a prefix of the messages of that topic that the router took;
  and all calls for a topic are made by one thread, the one its hash selects.\<close>

theorem dispatch_order:
  assumes "(bus_step hsh n capacity)\<^sup>*\<^sup>* (threads_new capacity) s" and "0 < n" and "unat capacity \<le> 2 ^ 63"
  shows "accepted s = map snd (left s) @ lfq_list (main_queue s) \<and>
    (\<forall>t. \<exists>rest. of_topic t (taken s) = of_topic t (map snd (dispatched s)) @ rest) \<and>
    (\<forall>(w, m) \<in> set (dispatched s). w = worker_index hsh n m)"
  using dispatch_order_inv[OF reachable_inv[OF assms]] .


text \<open>C9: \<open>stop\<close> does not deadlock and its work is finite: from every state reached while it waits
  for the threads there is a run to its return; no step of any thread ever adds to the remaining
  work, and some steps always reduce it (in particular a router that waits for room in a full
  worker queue always has a worker that can take from that queue). Messages accepted meanwhile add
  to the work, so a publisher that never pauses can keep the last loop busy.\<close>

theorem stop_terminates:
  assumes "(bus_step hsh n capacity)\<^sup>*\<^sup>* (threads_new capacity) s" and "0 < n" and "unat capacity \<le> 2 ^ 63"
    and "stopping s"
  shows "(\<exists>s'. (internal hsh n)\<^sup>*\<^sup>* s s' \<and> life s' = Down) \<and>
    (\<forall>s'. internal hsh n s s' \<longrightarrow> work s' \<le> work s) \<and>
    (\<exists>s'. (internal hsh n)\<^sup>+\<^sup>+ s s' \<and> work s' < work s)"
  using stop_finishes stopping_progress internal_work reachable_inv[OF assms(1-3)] assms(4) by blast

section \<open>Runs\<close>

definition event :: "nat message" where
  "event = \<lparr>ref_count = 1, recycler = True, on_drop = None, topic_sv = ''t'', topic_id = 1, data = 42, mtype = 1\<rparr>"

text \<open>One dispatcher: started, a message published, dispatched, stop called.\<close>

lemma example_run:
  "\<exists>s :: nat threads. (bus_step hsh 1 2)\<^sup>*\<^sup>* (threads_new 2) s \<and> stopping s \<and> dispatched s = [(0, event)] \<and> taken s = [event] \<and>
     stop_mark s = 1"
proof -
  let ?s0 = "threads_new 2 :: nat threads"
  let ?s1 = "start 1 2 ?s0"
  have inv0: "threads_inv hsh 1 ?s0" by (rule threads_inv_new) simp_all
  have "bus_step hsh 1 2 ?s0 ?s1" by (simp add: bus_step_def Start threads_new_def)
  then have r1: "(bus_step hsh 1 2)\<^sup>*\<^sup>* ?s0 ?s1" by blast
  have new: "lfq_inv (lfq_new 2 :: nat message lfq)" "lfq_list (lfq_new 2 :: nat message lfq) = []"
    by (rule lfq_new_inv; simp)+
  have "length (lfq_list (lfq_new 2 :: nat message lfq)) < lfq_cap (lfq_new 2 :: nat message lfq)"
    using new(2) lfq.cap_pos[OF new(1)] by simp
  from lfq.enq_free[OF new(1) this, of event] obtain q where q: "try_enqueue (lfq_new 2) event = Some (q, True)"
      "lfq_inv q" "lfq_list q = [event]" using new(2) by auto
  from lfq.deq_some[OF q(2), of event "[]"] q(3) obtain q2 where q2: "try_dequeue q = Some (q2, True, Some event)" by auto
  let ?s2 = "?s1\<lparr>main_queue := q, accepted := [event]\<rparr>"
  have mq: "main_queue ?s1 = lfq_new 2" "accepted ?s1 = []" "left ?s1 = []" "t_running ?s1" "life ?s1 = Up"
      "main_at ?s1 = Condition MainLoop 0" "dispatched ?s1 = []"
    by (simp_all add: start_def threads_new_def)
  have "bus_step hsh 1 2 ?s1 ?s2"
    using Publish[of ?s1 event q] mq q(1) by (simp add: bus_step_def)
  moreover have "bus_step hsh 1 2 ?s2 (?s2\<lparr>main_at := Dequeue MainLoop 0\<rparr>)"
    using internal_main[of ?s2 hsh 1 False] mq by (simp add: bus_step_def main_loop_def dispatchLoop_def)
  moreover have "bus_step hsh 1 2 (?s2\<lparr>main_at := Dequeue MainLoop 0\<rparr>)
      (?s2\<lparr>main_queue := q2, left := [(True, event)], main_at := Have MainLoop event\<rparr>)"
    using internal_main[of "?s2\<lparr>main_at := Dequeue MainLoop 0\<rparr>" hsh 1 False] mq q2
    by (simp add: bus_step_def main_loop_def dispatchLoop_def)
  moreover have "bus_step hsh 1 2 (?s2\<lparr>main_queue := q2, left := [(True, event)], main_at := Have MainLoop event\<rparr>)
      (?s2\<lparr>main_queue := q2, left := [(True, event)], dispatched := [(0, event)], main_at := Condition MainLoop 0\<rparr>)"
    using internal_main[of "?s2\<lparr>main_queue := q2, left := [(True, event)], main_at := Have MainLoop event\<rparr>" hsh 1 False] mq
    by (simp add: bus_step_def main_loop_def dispatchLoop_def)
  moreover have "bus_step hsh 1 2 s (stop_call s)" for s :: "nat threads"
    by (simp add: bus_step_def client.Stop)
  ultimately have "(bus_step hsh 1 2)\<^sup>*\<^sup>* ?s0 (stop_call
      (?s2\<lparr>main_queue := q2, left := [(True, event)], dispatched := [(0, event)], main_at := Condition MainLoop 0\<rparr>))"
    using r1 by (meson rtranclp.rtrancl_into_rtrancl)
  then show ?thesis
    by (intro exI conjI, assumption) (simp_all add: stop_call_def start_def threads_new_def stopping_def taken_def)
qed

theorem dispatch_order_witness:
  "\<exists>s :: nat threads. dispatched s = [(0, event)] \<and> accepted s = map snd (left s) @ lfq_list (main_queue s)"
proof -
  obtain s where s: "(bus_step (\<lambda>t. ucast t) 1 2)\<^sup>*\<^sup>* (threads_new 2) s" "dispatched s = [(0, event)]"
    using example_run by blast
  show ?thesis using dispatch_order[OF s(1)] s(2) by auto
qed

theorem stop_terminates_witness:
  "\<exists>s s' :: nat threads. dispatched s = [(0, event)] \<and> (internal (\<lambda>t. ucast t) 1)\<^sup>*\<^sup>* s s' \<and> life s' = Down"
proof -
  obtain s where s: "(bus_step (\<lambda>t. ucast t) 1 2)\<^sup>*\<^sup>* (threads_new 2) s" "dispatched s = [(0, event)]" "stopping s"
    using example_run by blast
  show ?thesis using stop_terminates[OF s(1) _ _ s(3)] s(2) by auto
qed

lemma internal_history: "internal hsh n s s' \<Longrightarrow> stop_mark s' = stop_mark s \<and> accepted s' = accepted s"
  by (cases rule: internal.cases, assumption)
     (auto simp: dispatchLoop_def routerLoop_def routeToWorker_def workerLoop_def stop_join_def stop_clear_def Let_def
        option_bind_Some_iff split: point.splits prod.splits option.splits loop.splits if_splits life.splits)


section \<open>Notifications\<close>

text \<open>A notification on \<open>cv_\<close> or on a worker's variable while the bus runs (\<open>wakeDispatcher\<close>,
  \<open>wakeWorker\<close>): the sleeper tests \<open>!running_\<close>, which is false, and goes on sleeping until its
  millisecond is over, whatever is in its queue.\<close>

lemma notification_does_not_wake:
  "t_running s \<Longrightarrow> main_at s = Nap i \<Longrightarrow> main_loop hsh n False s = Some s"
  "t_running s \<Longrightarrow> worker_at s ! w = Nap i \<Longrightarrow> workerLoop w False s = Some s"
  by (simp_all add: main_loop_def dispatchLoop_def routerLoop_def workerLoop_def wait_over_def)

end
