(* ===== verification/Backpressure.thy ===== *)
theory Backpressure
  imports Lock_Free_Queue
begin

text \<open>
  The waiting of publishers under the policies \<open>Block\<close> and \<open>BlockTimeout\<close> (\<open>message_bus.h\<close>): any number of
  threads in \<open>enqueueMessage\<close> with \<open>cv_not_full_\<close> and its mutex, the thread that dequeues and notifies,
  and \<open>stop\<close>, interleaved at single accesses. A notification reaches only threads that are asleep on the
  condition variable at that moment; neither the dispatcher nor \<open>stop\<close> takes the mutex to notify, so it
  can fall between a publisher's last look at the queue and its sleep. The queue's operations are single
  steps here (\<open>Lock_Free_Queue_Concurrent\<close> has their parts), handling or routing a message ends, and a
  thread that has passed the check in \<open>publish\<close> may call \<open>enqueueMessage\<close> at any time.
\<close>

section \<open>The code\<close>

text \<open>Where a publisher is: the first \<open>try_enqueue\<close>; taking the mutex; the two parts of the predicate; just
  before it sleeps, with the mutex; asleep; giving the mutex back with its result. The flag is set
  when the deadline has passed and the predicate is asked for the last time.\<close>

datatype 'a publisher =
    Outside
  | First 'a
  | Locking bool 'a
  | Check_running bool 'a
  | Check_queue bool 'a
  | Drowsy 'a
  | Asleep 'a
  | Unlocking bool

text \<open>The dispatcher or router: loop condition, \<open>mainDequeue\<close> and \<open>notifyNotFull\<close>, in the main loop or (flag)
  draining. \<open>stop\<close>: not called, about to notify, joining, returned.\<close>

datatype consumer = Loop_condition | Poll bool | Notify bool | Consumer_ended
datatype stopper = Not_stopped | Notify_all | Joining | Stopped

record 'a waiting =
  w_running :: bool
  w_queue :: "'a lfq"
  w_mutex :: "nat option"
  publishers :: "nat \<Rightarrow> 'a publisher"
  consumer :: consumer
  stopper :: stopper

definition waiting_new :: "size_t \<Rightarrow> 'a waiting" where
  "waiting_new capacity =
     \<lparr>w_running = True, w_queue = lfq_new capacity, w_mutex = None, publishers = (\<lambda>_. Outside),
      consumer = Loop_condition, stopper = Not_stopped\<rparr>"

definition move :: "nat \<Rightarrow> 'a publisher \<Rightarrow> 'a waiting \<Rightarrow> 'a waiting" where
  "move t p s = s\<lparr>publishers := (publishers s)(t := p)\<rparr>"

text \<open>The next access of a publisher; \<open>None\<close> if it waits or is not in a call.\<close>

definition publisher_step :: "nat \<Rightarrow> 'a waiting \<Rightarrow> 'a waiting option" where
  "publisher_step t s =
     (case publishers s t of
        Outside \<Rightarrow> None
      | First m \<Rightarrow>
          (case try_enqueue (w_queue s) m of
             None \<Rightarrow> None
           | Some (q, ok) \<Rightarrow> Some (move t (if ok then Outside else Locking False m) (s\<lparr>w_queue := q\<rparr>)))
      | Locking late m \<Rightarrow> if w_mutex s = None then Some (move t (Check_running late m) (s\<lparr>w_mutex := Some t\<rparr>)) else None
      | Check_running late m \<Rightarrow> Some (move t (if \<not> w_running s then Unlocking False else Check_queue late m) s)
      | Check_queue late m \<Rightarrow>
          (case try_enqueue (w_queue s) m of
             None \<Rightarrow> None
           | Some (q, ok) \<Rightarrow>
               Some (move t (if ok then Unlocking True else if late then Unlocking False else Drowsy m) (s\<lparr>w_queue := q\<rparr>)))
      | Drowsy m \<Rightarrow> Some (move t (Asleep m) (s\<lparr>w_mutex := None\<rparr>))
      | Asleep m \<Rightarrow> None
      | Unlocking ok \<Rightarrow> Some (move t Outside (s\<lparr>w_mutex := None\<rparr>)))"

definition wake :: "'a publisher \<Rightarrow> 'a publisher" where
  "wake p = (case p of Asleep m \<Rightarrow> Locking False m | _ \<Rightarrow> p)"

definition is_asleep :: "'a publisher \<Rightarrow> bool" where
  "is_asleep p \<longleftrightarrow> (case p of Asleep _ \<Rightarrow> True | _ \<Rightarrow> False)"

definition notify_all :: "'a waiting \<Rightarrow> 'a waiting" where
  "notify_all s = s\<lparr>publishers := \<lambda>t. wake (publishers s t)\<rparr>"

text \<open>\<open>notify_one\<close> wakes one of the threads asleep, the choice \<open>w\<close>, if there is one.\<close>

definition consumer_step :: "nat \<Rightarrow> 'a waiting \<Rightarrow> 'a waiting option" where
  "consumer_step w s =
     (case consumer s of
        Loop_condition \<Rightarrow> Some (s\<lparr>consumer := Poll (\<not> w_running s)\<rparr>)
      | Poll draining \<Rightarrow>
          (case try_dequeue (w_queue s) of
             None \<Rightarrow> None
           | Some (q, ok, x) \<Rightarrow>
               Some (s\<lparr>w_queue := q, consumer := if ok then Notify draining else if draining then Consumer_ended else Loop_condition\<rparr>))
      | Notify draining \<Rightarrow>
          Some (move w (wake (publishers s w)) (s\<lparr>consumer := if draining then Poll True else Loop_condition\<rparr>))
      | Consumer_ended \<Rightarrow> None)"

definition stop_step :: "'a waiting \<Rightarrow> 'a waiting option" where
  "stop_step s =
     (case stopper s of
        Not_stopped \<Rightarrow> Some (s\<lparr>w_running := False, stopper := Notify_all\<rparr>)
      | Notify_all \<Rightarrow> Some ((notify_all s)\<lparr>stopper := Joining\<rparr>)
      | Joining \<Rightarrow> if consumer s = Consumer_ended then Some (s\<lparr>stopper := Stopped\<rparr>) else None
      | Stopped \<Rightarrow> None)"

inductive waiting_step :: "bool \<Rightarrow> 'a waiting \<Rightarrow> 'a waiting \<Rightarrow> bool" for timed where
  call: "publishers s t = Outside \<Longrightarrow> waiting_step timed s (move t (First m) s)"
| publisher: "publisher_step t s = Some s' \<Longrightarrow> waiting_step timed s s'"
| deadline: "timed \<Longrightarrow> publishers s t = Asleep m \<Longrightarrow> waiting_step timed s (move t (Locking True m) s)"
| consume: "consumer_step w s = Some s' \<Longrightarrow> is_asleep (publishers s w) \<or> (\<forall>t. \<not> is_asleep (publishers s t)) \<Longrightarrow>
    waiting_step timed s s'"
| stop: "stop_step s = Some s' \<Longrightarrow> waiting_step timed s s'"

inductive_cases waiting_stepE: "waiting_step timed s s'"

text \<open>States are reached with wake-ups without cause as well.\<close>

inductive waiting_reach :: "bool \<Rightarrow> size_t \<Rightarrow> 'a waiting \<Rightarrow> bool" for timed capacity where
  init: "waiting_reach timed capacity (waiting_new capacity)"
| step: "waiting_reach timed capacity s \<Longrightarrow> waiting_step timed s s' \<Longrightarrow> waiting_reach timed capacity s'"
| spurious: "waiting_reach timed capacity s \<Longrightarrow> publishers s t = Asleep m \<Longrightarrow>
    waiting_reach timed capacity (move t (Locking False m) s)"

section \<open>The invariant\<close>

fun has_mutex :: "'a publisher \<Rightarrow> bool" where
  "has_mutex (Check_running _ _) = True"
| "has_mutex (Check_queue _ _) = True"
| "has_mutex (Drowsy _) = True"
| "has_mutex (Unlocking _) = True"
| "has_mutex _ = False"

definition waiting_inv :: "'a waiting \<Rightarrow> bool" where
  "waiting_inv s \<longleftrightarrow>
     lfq_inv (w_queue s) \<and> (\<forall>t. has_mutex (publishers s t) \<longleftrightarrow> w_mutex s = Some t) \<and>
     finite {t. publishers s t \<noteq> Outside} \<and> (w_running s \<longleftrightarrow> stopper s = Not_stopped)"

lemma waiting_inv_move:
  assumes "waiting_inv s" "has_mutex p \<longleftrightarrow> has_mutex (publishers s t)"
  shows "waiting_inv (move t p s)"
proof -
  have "{u. publishers (move t p s) u \<noteq> Outside} \<subseteq> insert t {u. publishers s u \<noteq> Outside}" by (auto simp: move_def)
  then have "finite {u. publishers (move t p s) u \<noteq> Outside}"
    by (rule finite_subset) (use assms(1) in \<open>simp add: waiting_inv_def\<close>)
  then show ?thesis using assms by (auto simp: waiting_inv_def move_def)
qed

lemma waiting_inv_queue: "waiting_inv s \<Longrightarrow> lfq_inv q \<Longrightarrow> waiting_inv (s\<lparr>w_queue := q\<rparr>)"
  by (simp add: waiting_inv_def)

lemma waiting_inv_consumer: "waiting_inv s \<Longrightarrow> waiting_inv (s\<lparr>consumer := c\<rparr>)"
  by (simp add: waiting_inv_def)

lemma waiting_inv_lock:
  assumes "waiting_inv s" "has_mutex p" "w_mutex s = None"
  shows "waiting_inv (move t p (s\<lparr>w_mutex := Some t\<rparr>))"
proof -
  have "\<not> has_mutex (publishers s u)" for u using assms(1,3) by (simp add: waiting_inv_def)
  then show ?thesis using assms waiting_inv_move[of s "publishers s t" t] finite_insert[of t "{u. publishers s u \<noteq> Outside}"]
    by (auto simp: waiting_inv_def move_def intro: finite_subset[of _ "insert t {u. publishers s u \<noteq> Outside}"])
qed

lemma waiting_inv_unlock:
  assumes "waiting_inv s" "\<not> has_mutex p" "w_mutex s = Some t"
  shows "waiting_inv (move t p (s\<lparr>w_mutex := None\<rparr>))"
  using assms finite_insert[of t "{u. publishers s u \<noteq> Outside}"]
  by (auto simp: waiting_inv_def move_def intro: finite_subset[of _ "insert t {u. publishers s u \<noteq> Outside}"])

lemma has_mutex_wake [simp]: "has_mutex (wake p) = has_mutex p"
  by (cases p) (auto simp: wake_def)

lemma wake_Outside [simp]: "wake p = Outside \<longleftrightarrow> p = Outside"
  by (cases p) (auto simp: wake_def)

lemma enqueue_result:
  assumes "lfq_inv q"
  obtains q' where "try_enqueue q m = Some (q', length (lfq_list q) < lfq_cap q)" "lfq_inv q'"
    "lfq_list q' \<noteq> []"
proof (rule lfq.enq_cases[OF assms, of m])
  fix q' assume "length (lfq_list q) < lfq_cap q" "try_enqueue q m = Some (q', True)" "lfq_inv q'"
    "lfq_list q' = lfq_list q @ [m]"
  then show thesis using that[of q'] by simp
next
  assume "length (lfq_list q) = lfq_cap q" "try_enqueue q m = Some (q, False)"
  moreover have "0 < lfq_cap q" using assms by (rule lfq.cap_pos)
  ultimately show thesis using that[of q] assms by (cases "lfq_list q") auto
qed

lemma publisher_step_inv:
  assumes "publisher_step t s = Some s'" "waiting_inv s"
  shows "waiting_inv s'"
proof -
  have q: "lfq_inv (w_queue s)" and held: "has_mutex (publishers s t) \<Longrightarrow> w_mutex s = Some t"
    using assms(2) by (simp_all add: waiting_inv_def)
  show ?thesis
  proof (cases "publishers s t")
    case (First m)
    obtain q' where "try_enqueue (w_queue s) m = Some (q', length (lfq_list (w_queue s)) < lfq_cap (w_queue s))" "lfq_inv q'"
      using enqueue_result[OF q] .
    then show ?thesis using assms First
      by (auto simp: publisher_step_def intro!: waiting_inv_move waiting_inv_queue split: if_splits)
  next
    case (Check_queue late m)
    obtain q' where "try_enqueue (w_queue s) m = Some (q', length (lfq_list (w_queue s)) < lfq_cap (w_queue s))" "lfq_inv q'"
      using enqueue_result[OF q] .
    then show ?thesis using assms Check_queue
      by (auto simp: publisher_step_def intro!: waiting_inv_move waiting_inv_queue split: if_splits)
  next
    case (Locking late m)
    then show ?thesis using assms waiting_inv_lock[of s "Check_running late m" t]
      by (simp add: publisher_step_def split: if_splits)
  next
    case (Check_running late m)
    then show ?thesis using assms by (auto simp: publisher_step_def intro!: waiting_inv_move split: if_splits)
  next
    case (Drowsy m)
    then show ?thesis using assms held waiting_inv_unlock[of s "Asleep m" t] by (simp add: publisher_step_def)
  next
    case (Unlocking ok)
    then show ?thesis using assms held waiting_inv_unlock[of s Outside t] by (simp add: publisher_step_def)
  qed (use assms in \<open>simp_all add: publisher_step_def\<close>)
qed

lemma dequeue_result:
  assumes "lfq_inv q"
  obtains q' x where "try_dequeue q = Some (q', lfq_list q \<noteq> [], x)" "lfq_inv q'"
proof (rule lfq.deq_cases[OF assms])
  fix q' v assume "lfq_list q = v # lfq_list q'" "try_dequeue q = Some (q', True, Some v)" "lfq_inv q'"
  then show thesis using that[of q' "Some v"] by simp
next
  assume "lfq_list q = []" "try_dequeue q = Some (q, False, None)"
  then show thesis using that[of q None] assms by simp
qed

lemma consumer_step_inv:
  assumes "consumer_step w s = Some s'" "waiting_inv s"
  shows "waiting_inv s'"
proof -
  have "lfq_inv (w_queue s)" using assms(2) by (simp add: waiting_inv_def)
  from dequeue_result[OF this] obtain q x where "try_dequeue (w_queue s) = Some (q, lfq_list (w_queue s) \<noteq> [], x)" "lfq_inv q" .
  then show ?thesis
    using assms
    by (auto simp: consumer_step_def split: consumer.splits intro!: waiting_inv_move waiting_inv_consumer)
      (auto simp: waiting_inv_def)
qed

lemma stop_step_inv:
  assumes "stop_step s = Some s'" "waiting_inv s"
  shows "waiting_inv s'"
  using assms by (auto simp: stop_step_def waiting_inv_def notify_all_def split: stopper.splits if_splits)

lemma waiting_step_inv: "waiting_step timed s s' \<Longrightarrow> waiting_inv s \<Longrightarrow> waiting_inv s'"
  by (erule waiting_stepE)
    (auto intro: publisher_step_inv consumer_step_inv stop_step_inv intro!: waiting_inv_move)

lemma waiting_reach_inv:
  assumes "waiting_reach timed capacity s" "unat capacity \<le> 2 ^ 63"
  shows "waiting_inv s"
  using assms(1)
proof (induction rule: waiting_reach.induct)
  case init
  show ?case using lfq_new_inv[OF assms(2)] by (simp add: waiting_inv_def waiting_new_def)
next
  case (spurious s t m)
  then show ?case by (auto intro!: waiting_inv_move)
qed (auto intro: waiting_step_inv)

section \<open>Progress\<close>

abbreviation waiting_steps :: "bool \<Rightarrow> 'a waiting \<Rightarrow> 'a waiting \<Rightarrow> bool" where
  "waiting_steps timed \<equiv> (waiting_step timed)\<^sup>*\<^sup>*"

lemma waiting_steps_inv: "waiting_steps timed s s' \<Longrightarrow> waiting_inv s \<Longrightarrow> waiting_inv s'"
  by (induction rule: rtranclp_induct) (auto intro: waiting_step_inv)

lemma publisher_stepI: "publisher_step t s = Some s' \<Longrightarrow> waiting_steps timed s' s'' \<Longrightarrow> waiting_steps timed s s''"
  by (meson converse_rtranclp_into_rtranclp waiting_step.publisher)

text \<open>What the steps of one publisher leave alone.\<close>

definition same_around :: "nat \<Rightarrow> 'a waiting \<Rightarrow> 'a waiting \<Rightarrow> bool" where
  "same_around u s s' \<longleftrightarrow>
     (\<forall>v. v \<noteq> u \<longrightarrow> publishers s' v = publishers s v) \<and> w_running s' = w_running s \<and>
     consumer s' = consumer s \<and> stopper s' = stopper s"

lemma same_around_refl [simp]: "same_around u s s"
  by (simp add: same_around_def)

lemma same_around_trans: "same_around u s s' \<Longrightarrow> same_around u s' s'' \<Longrightarrow> same_around u s s''"
  by (simp add: same_around_def)

lemma publisher_step_around: "publisher_step u s = Some s' \<Longrightarrow> same_around u s s'"
  by (auto simp: publisher_step_def same_around_def move_def split: publisher.splits option.splits if_splits)

lemma release_Unlocking:
  assumes "publishers s u = Unlocking r"
  shows "\<exists>s'. waiting_steps timed s s' \<and> w_mutex s' = None \<and> publishers s' u = Outside \<and> same_around u s s'"
proof -
  have step: "publisher_step u s = Some (move u Outside (s\<lparr>w_mutex := None\<rparr>))"
    using assms by (simp add: publisher_step_def)
  show ?thesis
    using publisher_stepI[OF step rtranclp.rtrancl_refl] publisher_step_around[OF step]
    by (intro exI[of _ "move u Outside (s\<lparr>w_mutex := None\<rparr>)"]) (simp add: move_def)
qed

lemma release_Drowsy:
  assumes "publishers s u = Drowsy m"
  shows "\<exists>s'. waiting_steps timed s s' \<and> w_mutex s' = None \<and> same_around u s s'"
proof -
  have step: "publisher_step u s = Some (move u (Asleep m) (s\<lparr>w_mutex := None\<rparr>))"
    using assms by (simp add: publisher_step_def)
  show ?thesis
    using publisher_stepI[OF step rtranclp.rtrancl_refl] publisher_step_around[OF step]
    by (intro exI[of _ "move u (Asleep m) (s\<lparr>w_mutex := None\<rparr>)"]) (simp add: move_def)
qed

lemma release_Check_queue:
  assumes "waiting_inv s" "publishers s u = Check_queue late m"
  shows "\<exists>s'. waiting_steps timed s s' \<and> w_mutex s' = None \<and> (late \<longrightarrow> publishers s' u = Outside) \<and> same_around u s s'"
proof -
  have "lfq_inv (w_queue s)" using assms(1) by (simp add: waiting_inv_def)
  then obtain q where q: "try_enqueue (w_queue s) m = Some (q, length (lfq_list (w_queue s)) < lfq_cap (w_queue s))"
    by (rule enqueue_result)
  let ?ok = "length (lfq_list (w_queue s)) < lfq_cap (w_queue s)"
  let ?s = "move u (if ?ok then Unlocking True else if late then Unlocking False else Drowsy m) (s\<lparr>w_queue := q\<rparr>)"
  have step: "publisher_step u s = Some ?s" using assms(2) q by (simp add: publisher_step_def)
  have "\<exists>s'. waiting_steps timed ?s s' \<and> w_mutex s' = None \<and> (late \<longrightarrow> publishers s' u = Outside) \<and> same_around u ?s s'"
  proof (cases "?ok \<or> late")
    case True
    then show ?thesis using release_Unlocking[of ?s u ?ok timed] by (auto simp: move_def)
  next
    case False
    then show ?thesis using release_Drowsy[of ?s u m timed] by (auto simp: move_def)
  qed
  then show ?thesis
    using publisher_stepI[OF step] same_around_trans[OF publisher_step_around[OF step]] by blast
qed

lemma release_Check_running:
  assumes "waiting_inv s" "publishers s u = Check_running late m"
  shows "\<exists>s'. waiting_steps timed s s' \<and> w_mutex s' = None \<and> (late \<or> \<not> w_running s \<longrightarrow> publishers s' u = Outside) \<and>
    same_around u s s'"
proof -
  let ?s = "move u (if \<not> w_running s then Unlocking False else Check_queue late m) s"
  have step: "publisher_step u s = Some ?s" using assms(2) by (simp add: publisher_step_def)
  have inv: "waiting_inv ?s" by (rule publisher_step_inv[OF step assms(1)])
  have "\<exists>s'. waiting_steps timed ?s s' \<and> w_mutex s' = None \<and> (late \<or> \<not> w_running s \<longrightarrow> publishers s' u = Outside) \<and>
      same_around u ?s s'"
  proof (cases "w_running s")
    case True
    then show ?thesis using release_Check_queue[OF inv, of u late m timed] by (auto simp: move_def)
  next
    case False
    then show ?thesis using release_Unlocking[of ?s u False timed] by (auto simp: move_def)
  qed
  then show ?thesis
    using publisher_stepI[OF step] same_around_trans[OF publisher_step_around[OF step]] by blast
qed

text \<open>The holder of the mutex gives it back, by itself and without touching the others.\<close>

lemma mutex_released:
  assumes "waiting_inv s" "w_mutex s = Some u"
  shows "\<exists>s'. waiting_steps timed s s' \<and> w_mutex s' = None \<and> same_around u s s'"
proof -
  have "has_mutex (publishers s u)" using assms by (simp add: waiting_inv_def)
  then consider (running) late m where "publishers s u = Check_running late m"
    | (look) late m where "publishers s u = Check_queue late m"
    | (drowsy) m where "publishers s u = Drowsy m"
    | (unlocking) r where "publishers s u = Unlocking r"
    by (cases "publishers s u") auto
  then show ?thesis
  proof cases
    case running
    then show ?thesis using release_Check_running[OF assms(1)] by blast
  next
    case look
    then show ?thesis using release_Check_queue[OF assms(1)] by blast
  next
    case drowsy
    then show ?thesis by (rule release_Drowsy)
  next
    case unlocking
    then show ?thesis using release_Unlocking by blast
  qed
qed

text \<open>A publisher that asks the predicate for the last time, or after \<open>stop\<close>, returns.\<close>

lemma locking_returns:
  assumes "waiting_inv s" "publishers s t = Locking late m" "late \<or> \<not> w_running s"
  shows "\<exists>s'. waiting_steps timed s s' \<and> publishers s' t = Outside"
proof -
  obtain s1 where s1: "waiting_steps timed s s1" "w_mutex s1 = None" "publishers s1 t = Locking late m"
    "w_running s1 = w_running s"
  proof (cases "w_mutex s")
    case None
    then show thesis using that[of s] assms(2) by simp
  next
    case (Some u)
    then have "has_mutex (publishers s u)" using assms(1) by (simp add: waiting_inv_def)
    then have "t \<noteq> u" using assms(2) by auto
    then show thesis using mutex_released[OF assms(1) Some, of timed] that assms(2) by (auto simp: same_around_def)
  qed
  have inv: "waiting_inv s1" by (rule waiting_steps_inv[OF s1(1) assms(1)])
  let ?s = "move t (Check_running late m) (s1\<lparr>w_mutex := Some t\<rparr>)"
  have step: "publisher_step t s1 = Some ?s" using s1 by (simp add: publisher_step_def)
  have "waiting_inv ?s" by (rule publisher_step_inv[OF step inv])
  then obtain s' where "waiting_steps timed ?s s'" "publishers s' t = Outside"
    using release_Check_running[of ?s t late m timed] assms(3) s1(4) by (auto simp: move_def)
  then show ?thesis using publisher_stepI[OF step] s1(1) rtranclp_trans by metis
qed

lemma waiting_stepsI: "waiting_step timed s s' \<Longrightarrow> \<exists>s''. waiting_steps timed s' s'' \<and> P s'' \<Longrightarrow>
    \<exists>s''. waiting_steps timed s s'' \<and> P s''"
  by (meson converse_rtranclp_into_rtranclp)

text \<open>The dispatcher wakes the publisher it chooses.\<close>

lemma notify_returns:
  assumes "waiting_inv s" "publishers s t = Asleep m" "\<not> w_running s" "consumer s = Notify draining"
  shows "\<exists>s'. waiting_steps timed s s' \<and> publishers s' t = Outside"
proof -
  let ?s = "move t (Locking False m) (s\<lparr>consumer := if draining then Poll True else Loop_condition\<rparr>)"
  have step: "consumer_step t s = Some ?s" using assms(2,4) by (simp add: consumer_step_def wake_def)
  have "waiting_inv ?s" by (rule consumer_step_inv[OF step assms(1)])
  then have "\<exists>s'. waiting_steps timed ?s s' \<and> publishers s' t = Outside"
    by (rule locking_returns) (use assms(3) in \<open>auto simp: move_def\<close>)
  then show ?thesis
    using waiting_step.consume[OF step, of timed] assms(2) by (auto simp: is_asleep_def intro: waiting_stepsI)
qed

lemma poll_returns:
  assumes "waiting_inv s" "publishers s t = Asleep m" "\<not> w_running s" "consumer s = Poll draining" "lfq_list (w_queue s) \<noteq> []"
  shows "\<exists>s'. waiting_steps timed s s' \<and> publishers s' t = Outside"
proof -
  have "lfq_inv (w_queue s)" using assms(1) by (simp add: waiting_inv_def)
  then obtain q x where q: "try_dequeue (w_queue s) = Some (q, True, x)" using dequeue_result assms(5) by metis
  let ?s = "s\<lparr>w_queue := q, consumer := Notify draining\<rparr>"
  have step: "consumer_step t s = Some ?s" using assms(4) q by (simp add: consumer_step_def)
  have "waiting_inv ?s" by (rule consumer_step_inv[OF step assms(1)])
  then have "\<exists>s'. waiting_steps timed ?s s' \<and> publishers s' t = Outside"
    by (rule notify_returns) (use assms(2,3) in auto)
  then show ?thesis
    using waiting_step.consume[OF step, of timed] assms(2) by (auto simp: is_asleep_def intro: waiting_stepsI)
qed

lemma poll_or_loop_returns:
  assumes "waiting_inv s" "publishers s t = Asleep m" "\<not> w_running s" "consumer s = Poll draining \<or> consumer s = Loop_condition"
    "lfq_list (w_queue s) \<noteq> []"
  shows "\<exists>s'. waiting_steps timed s s' \<and> publishers s' t = Outside"
proof (cases "consumer s = Loop_condition")
  case True
  let ?s = "s\<lparr>consumer := Poll True\<rparr>"
  have step: "consumer_step t s = Some ?s" using True assms(3) by (simp add: consumer_step_def)
  have "waiting_inv ?s" by (rule consumer_step_inv[OF step assms(1)])
  then have "\<exists>s'. waiting_steps timed ?s s' \<and> publishers s' t = Outside"
    by (rule poll_returns) (use assms(2,3,5) in auto)
  then show ?thesis
    using waiting_step.consume[OF step, of timed] assms(2) by (auto simp: is_asleep_def intro: waiting_stepsI)
qed (use assms poll_returns[OF assms(1-3)] in auto)

text \<open>Another call fills the queue, if nothing is in it.\<close>

lemma another_call:
  assumes "waiting_inv s" "publishers s t = Asleep m"
  shows "\<exists>s'. waiting_steps timed s s' \<and> lfq_list (w_queue s') \<noteq> [] \<and> publishers s' t = Asleep m \<and>
    w_running s' = w_running s \<and> consumer s' = consumer s"
proof -
  have "finite {u. publishers s u \<noteq> Outside}" "lfq_inv (w_queue s)" using assms(1) by (simp_all add: waiting_inv_def)
  then obtain u where u: "publishers s u = Outside" using ex_new_if_finite[of "{u. publishers s u \<noteq> Outside}"] by auto
  from \<open>lfq_inv (w_queue s)\<close> obtain q where
    q: "try_enqueue (w_queue s) m = Some (q, length (lfq_list (w_queue s)) < lfq_cap (w_queue s))" "lfq_list q \<noteq> []"
    by (rule enqueue_result)
  let ?ok = "length (lfq_list (w_queue s)) < lfq_cap (w_queue s)"
  let ?s = "move u (if ?ok then Outside else Locking False m) ((move u (First m) s)\<lparr>w_queue := q\<rparr>)"
  have step: "publisher_step u (move u (First m) s) = Some ?s" using q by (simp add: publisher_step_def move_def)
  have "waiting_steps timed s ?s"
    by (rule converse_rtranclp_into_rtranclp[of "waiting_step timed", OF waiting_step.call[OF u]])
      (rule publisher_stepI[OF step rtranclp.rtrancl_refl])
  moreover have "t \<noteq> u" using u assms(2) by auto
  ultimately show ?thesis using q assms(2) by (intro exI[of _ ?s]) (simp add: move_def)
qed

lemma draining_returns:
  assumes "waiting_inv s" "publishers s t = Asleep m" "\<not> w_running s" "consumer s \<noteq> Consumer_ended"
  shows "\<exists>s'. waiting_steps timed s s' \<and> publishers s' t = Outside"
proof (cases "\<exists>d. consumer s = Notify d")
  case True
  then show ?thesis using notify_returns[OF assms(1-3)] by blast
next
  case False
  obtain s1 where s1: "waiting_steps timed s s1" "lfq_list (w_queue s1) \<noteq> []" "publishers s1 t = Asleep m"
    "w_running s1 = w_running s" "consumer s1 = consumer s"
    using another_call[OF assms(1,2)] by blast
  have "\<exists>draining. consumer s = Poll draining \<or> consumer s = Loop_condition"
    using False assms(4) by (cases "consumer s") auto
  then obtain s' where "waiting_steps timed s1 s'" "publishers s' t = Outside"
    using poll_or_loop_returns[OF waiting_steps_inv[OF s1(1) assms(1)] s1(3)] s1 assms(3) by metis
  then show ?thesis using s1(1) rtranclp_trans by metis
qed

text \<open>\<open>stop\<close> wakes whoever is asleep when it notifies.\<close>

lemma notify_all_returns:
  assumes "waiting_inv s" "publishers s t = Asleep m" "stopper s = Notify_all"
  shows "\<exists>s'. waiting_steps timed s s' \<and> publishers s' t = Outside"
proof -
  let ?s = "(notify_all s)\<lparr>stopper := Joining\<rparr>"
  have step: "stop_step s = Some ?s" using assms(3) by (simp add: stop_step_def)
  have "waiting_inv ?s" by (rule stop_step_inv[OF step assms(1)])
  moreover have "\<not> w_running s" using assms(1,3) by (simp add: waiting_inv_def)
  ultimately have "\<exists>s'. waiting_steps timed ?s s' \<and> publishers s' t = Outside"
    using assms(2) by (intro locking_returns[of ?s t False m]) (auto simp: notify_all_def wake_def)
  then show ?thesis by (rule waiting_stepsI[OF waiting_step.stop[OF step]])
qed

lemma stop_returns:
  assumes "waiting_inv s" "publishers s t = Asleep m" "stopper s = Not_stopped"
  shows "\<exists>s'. waiting_steps timed s s' \<and> publishers s' t = Outside"
proof -
  let ?s = "s\<lparr>w_running := False, stopper := Notify_all\<rparr>"
  have step: "stop_step s = Some ?s" using assms(3) by (simp add: stop_step_def)
  have "\<exists>s'. waiting_steps timed ?s s' \<and> publishers s' t = Outside"
    by (rule notify_all_returns[OF stop_step_inv[OF step assms(1)]]) (use assms(2) in auto)
  then show ?thesis by (rule waiting_stepsI[OF waiting_step.stop[OF step]])
qed

lemma deadline_returns:
  assumes "waiting_inv s" "publishers s t = Asleep m"
  shows "\<exists>s'. waiting_steps True s s' \<and> publishers s' t = Outside"
proof -
  have "\<exists>s'. waiting_steps True (move t (Locking True m) s) s' \<and> publishers s' t = Outside"
    by (rule locking_returns[of _ t True m]) (use assms waiting_inv_move[of s "Locking True m" t] in \<open>auto simp: move_def\<close>)
  then show ?thesis by (rule waiting_stepsI[OF waiting_step.deadline[OF TrueI assms(2)]])
qed

text \<open>Behind the last notification nobody wakes it.\<close>

lemma asleep_for_ever:
  assumes "waiting_steps False s s'" "publishers s t = Asleep m" "stopper s \<in> {Joining, Stopped}" "consumer s = Consumer_ended"
  shows "publishers s' t = Asleep m \<and> stopper s' \<in> {Joining, Stopped} \<and> consumer s' = Consumer_ended"
  using assms
proof (induction rule: rtranclp_induct)
  case (step s1 s2)
  from step.hyps(2) step.IH[OF step.prems] show ?case
    by (elim waiting_stepE)
      (auto simp: consumer_step_def stop_step_def move_def publisher_step_def
        split: stopper.splits publisher.splits option.splits if_splits)
qed auto

section \<open>A notification that is lost\<close>

lemma reach_consume:
  "waiting_reach timed capacity s \<Longrightarrow> consumer_step w s = Some s' \<Longrightarrow> \<forall>t. \<not> is_asleep (publishers s t) \<Longrightarrow>
   waiting_reach timed capacity s'"
  by (erule waiting_reach.step) (auto intro: waiting_step.consume)

lemma reach_publisher:
  "waiting_reach timed capacity s \<Longrightarrow> publisher_step t s = Some s' \<Longrightarrow> waiting_reach timed capacity s'"
  by (erule waiting_reach.step) (rule waiting_step.publisher)

lemma reach_stop:
  "waiting_reach timed capacity s \<Longrightarrow> stop_step s = Some s' \<Longrightarrow> waiting_reach timed capacity s'"
  by (erule waiting_reach.step) (rule waiting_step.stop)

lemma reach_filled:
  assumes "unat capacity \<le> 2 ^ 63" "n \<le> lfq_cap (lfq_new capacity :: 'a lfq)"
  shows "\<exists>q. waiting_reach timed capacity ((waiting_new capacity)\<lparr>w_queue := q :: 'a lfq\<rparr>) \<and> lfq_inv q \<and>
    length (lfq_list q) = n \<and> lfq_cap q = lfq_cap (lfq_new capacity :: 'a lfq)"
  using assms(2)
proof (induction n)
  case 0
  have "(waiting_new capacity :: 'a waiting) = (waiting_new capacity)\<lparr>w_queue := lfq_new capacity\<rparr>"
    by (simp add: waiting_new_def)
  then show ?case
    using waiting_reach.init[where 'a = 'a, of timed capacity] lfq_new_inv(1,2)[OF assms(1), where 'a = 'a]
    by (intro exI[of _ "lfq_new capacity"]) simp
next
  case (Suc n)
  then obtain q :: "'a lfq" where q: "waiting_reach timed capacity ((waiting_new capacity)\<lparr>w_queue := q\<rparr>)" "lfq_inv q"
    "length (lfq_list q) = n" "lfq_cap q = lfq_cap (lfq_new capacity :: 'a lfq)" by auto
  let ?s = "(waiting_new capacity)\<lparr>w_queue := q\<rparr> :: 'a waiting"
  fix m :: 'a
  obtain q' where q': "try_enqueue q m = Some (q', True)" "lfq_inv q'" "lfq_cap q' = lfq_cap q"
    "lfq_list q' = lfq_list q @ [m]"
    using lfq.enq_free[OF q(2), of m] Suc.prems q(3,4) by auto
  have "waiting_reach timed capacity (move 0 (First m) ?s)"
    by (rule waiting_reach.step[OF q(1) waiting_step.call]) (simp add: waiting_new_def)
  then have "waiting_reach timed capacity ((waiting_new capacity)\<lparr>w_queue := q'\<rparr>)"
    by (rule reach_publisher[where t = 0])
      (use q'(1) in \<open>auto simp: publisher_step_def move_def waiting_new_def fun_eq_iff\<close>)
  moreover have "length (lfq_list q') = Suc n" by (simp only: q'(4) length_append q(3)) simp
  ultimately show ?case using q'(2,3) q(4) by metis
qed

text \<open>The dispatcher drains the queue while the publisher is about to sleep.\<close>

lemma reach_drained:
  assumes "waiting_reach timed capacity s" "lfq_inv (w_queue s)" "consumer s = Poll True" "\<forall>t. \<not> is_asleep (publishers s t)"
  shows "\<exists>q. waiting_reach timed capacity (s\<lparr>w_queue := q, consumer := Consumer_ended\<rparr>)"
  using assms
proof (induction "lfq_list (w_queue s)" arbitrary: s)
  case Nil
  then have "try_dequeue (w_queue s) = Some (w_queue s, False, None)" using lfq.deq_none by metis
  then have "consumer_step 0 s = Some (s\<lparr>w_queue := w_queue s, consumer := Consumer_ended\<rparr>)"
    using Nil.prems by (simp add: consumer_step_def)
  then show ?case using reach_consume Nil.prems(1,4) by blast
next
  case (Cons x xs)
  obtain q where q: "try_dequeue (w_queue s) = Some (q, True, Some x)" "lfq_inv q" "lfq_list q = xs"
    using lfq.deq_some[OF Cons.prems(2) Cons.hyps(2)[symmetric]] by blast
  let ?s = "s\<lparr>w_queue := q, consumer := Notify True\<rparr>"
  let ?t = "s\<lparr>w_queue := q, consumer := Poll True\<rparr>"
  have awake: "wake (publishers s 0) = publishers s 0"
    using Cons.prems(4) by (cases "publishers s 0") (auto simp: wake_def is_asleep_def dest!: spec[of _ 0])
  have "consumer_step 0 s = Some ?s" using Cons.prems(3) q(1) by (simp add: consumer_step_def)
  with Cons.prems(1,4) have s: "waiting_reach timed capacity ?s" by (blast intro: reach_consume)
  have "consumer_step 0 ?s = Some ?t" using awake by (simp add: consumer_step_def move_def)
  with s have "waiting_reach timed capacity ?t" by (rule reach_consume) (use Cons.prems(4) in simp)
  then have "\<exists>q. waiting_reach timed capacity (?t\<lparr>w_queue := q, consumer := Consumer_ended\<rparr>)"
    by (rule Cons.hyps(1)[of ?t, rotated]) (use q Cons.prems(4) in simp_all)
  then show ?case by simp
qed

lemma reach_lost_wakeup:
  assumes "unat capacity \<le> 2 ^ 63"
  shows "\<exists>s. waiting_reach timed capacity s \<and> stopper s = Stopped \<and> consumer s = Consumer_ended \<and>
    publishers s t = Asleep (m :: 'a)"
proof -
  obtain q :: "'a lfq" where q: "waiting_reach timed capacity ((waiting_new capacity)\<lparr>w_queue := q\<rparr>)" "lfq_inv q"
    "length (lfq_list q) = lfq_cap q"
    using reach_filled[OF assms order_refl] by metis
  have full: "try_enqueue q m = Some (q, False)" using q by (intro lfq.enq_full)
  let ?s = "(waiting_new capacity)\<lparr>w_queue := q\<rparr>"
  let ?drowsy = "move t (Drowsy m) (?s\<lparr>w_mutex := Some t\<rparr>)"
  have "waiting_reach timed capacity (move t (First m) ?s)"
    by (rule waiting_reach.step[OF q(1) waiting_step.call]) (simp add: waiting_new_def)
  then have "waiting_reach timed capacity (move t (Locking False m) ?s)"
    by (rule reach_publisher[where t = t]) (simp add: publisher_step_def move_def full waiting_new_def)
  then have "waiting_reach timed capacity (move t (Check_running False m) (?s\<lparr>w_mutex := Some t\<rparr>))"
    by (rule reach_publisher[where t = t]) (simp add: publisher_step_def move_def waiting_new_def)
  then have "waiting_reach timed capacity (move t (Check_queue False m) (?s\<lparr>w_mutex := Some t\<rparr>))"
    by (rule reach_publisher[where t = t]) (simp add: publisher_step_def move_def waiting_new_def)
  then have "waiting_reach timed capacity ?drowsy"
    by (rule reach_publisher[where t = t]) (simp add: publisher_step_def move_def full waiting_new_def)
  then have "waiting_reach timed capacity (?drowsy\<lparr>w_running := False, stopper := Notify_all\<rparr>)"
    by (rule reach_stop) (simp add: stop_step_def move_def waiting_new_def)
  then have "waiting_reach timed capacity (?drowsy\<lparr>w_running := False, stopper := Joining\<rparr>)"
    by (rule reach_stop) (auto simp: stop_step_def notify_all_def wake_def move_def waiting_new_def fun_eq_iff)
  then have draining: "waiting_reach timed capacity (?drowsy\<lparr>w_running := False, stopper := Joining, consumer := Poll True\<rparr>)"
    by (rule reach_consume[where w = 0]) (simp_all add: consumer_step_def move_def waiting_new_def is_asleep_def)
  have awake: "\<forall>u. \<not> is_asleep (((\<lambda>_. Outside)(t := Drowsy m)) u)" by (simp add: is_asleep_def)
  obtain q' where ended:
    "waiting_reach timed capacity (?drowsy\<lparr>w_running := False, stopper := Joining, w_queue := q', consumer := Consumer_ended\<rparr>)"
    using reach_drained[OF draining] q(2) awake by (auto simp: move_def waiting_new_def)
  let ?t = "?drowsy\<lparr>w_running := False, stopper := Stopped, w_queue := q', consumer := Consumer_ended\<rparr>"
  from ended have "waiting_reach timed capacity ?t"
    by (rule reach_stop) (simp add: stop_step_def move_def)
  then have "waiting_reach timed capacity (move t (Asleep m) (?t\<lparr>w_mutex := None\<rparr>))"
    by (rule reach_publisher[where t = t]) (simp add: publisher_step_def move_def)
  then show ?thesis by (intro exI conjI) (assumption, simp_all add: move_def)
qed

text \<open>Under \<open>Block\<close>, \<open>stop\<close> can return and leave a publisher asleep that no later step wakes, whatever
  the capacity: both notifications fell between its last look at the full queue and its sleep.\<close>

lemma lost_wakeup:
  assumes "unat capacity \<le> 2 ^ 63"
  shows "\<exists>s. waiting_reach False capacity s \<and> stopper s = Stopped \<and> publishers s t = Asleep m \<and>
    \<not> (\<exists>s'. (waiting_step False)\<^sup>*\<^sup>* s s' \<and> publishers s' t \<noteq> Asleep m)"
proof -
  obtain s where s: "waiting_reach False capacity s" "stopper s = Stopped" "consumer s = Consumer_ended"
    "publishers s t = Asleep m"
    using reach_lost_wakeup[OF assms, of False t m] by blast
  have "publishers s' t = Asleep m" if "waiting_steps False s s'" for s'
    using asleep_for_ever[OF that s(4) _ s(3)] s(2) by simp
  with s show ?thesis by blast
qed

section \<open>The properties\<close>

lemma returns_if_notified:
  assumes "waiting_inv s" "publishers s t = Asleep m"
    "timed \<or> stopper s \<in> {Not_stopped, Notify_all} \<or> consumer s \<noteq> Consumer_ended"
  shows "\<exists>s'. waiting_steps timed s s' \<and> publishers s' t = Outside"
proof -
  consider "timed" | "stopper s = Not_stopped" | "stopper s = Notify_all" | "\<not> w_running s" "consumer s \<noteq> Consumer_ended"
    using assms(1,3) by (auto simp: waiting_inv_def)
  then show ?thesis
  proof cases
    case 1
    then show ?thesis using deadline_returns[OF assms(1,2)] by simp
  next
    case 2
    then show ?thesis by (rule stop_returns[OF assms(1,2)])
  next
    case 3
    then show ?thesis by (rule notify_all_returns[OF assms(1,2)])
  next
    case 4
    then show ?thesis by (rule draining_returns[OF assms(1,2)])
  qed
qed



end
