(* ===== verification/Broker.thy ===== *)
theory Broker
  imports Bus_Subscribe
begin

text \<open>
  The bus as a whole, with one dispatcher: clients subscribe, unsubscribe, publish directly or through
  a \<open>TopicHandle\<close>, and the dispatcher takes messages from the queue and calls handlers, which may
  publish themselves. Every run refines an abstract broker: a list of live subscriptions, a bounded
  queue of publications and the log of drop callbacks. This composes the queue, the pool and the
  reference counts, the registry, the slots, the trie and the policies.
\<close>

section \<open>The code\<close>

type_synonym 'd publication = "type_info \<times> string \<times> 'd \<times> handler_ref option"

definition about :: "'d publication \<Rightarrow> string" where
  "about x = (case x of (ty, topic, d, cb) \<Rightarrow> topic)"

text \<open>A turn of \<open>dispatchLoop\<close> that finds a message, or none: \<open>msg\<close> is a local of the loop's body.\<close>

definition poll :: "('w \<Rightarrow> 'd bus) \<Rightarrow> ('d bus \<Rightarrow> 'w \<Rightarrow> 'w) \<Rightarrow> ('d, 'w) handlers \<Rightarrow> 'w \<Rightarrow> ('w \<times> bool) option" where
  "poll bus_of put call w =
     do { (b, ok, mptr) \<leftarrow> dequeue_into None (bus_of w);
          if ok then
            do { a \<leftarrow> mptr;
                 msg \<leftarrow> heap (bmem b) a;
                 let w1 = dispatchMessage bus_of call msg (put b w);
                 b2 \<leftarrow> destroy mptr (bus_of w1);
                 Some (put b2 w1, True) }
          else Some (put b w, False) }"

text \<open>The loop after \<open>stop\<close>: \<open>msg\<close> is declared before it, so each message is held until the next one is
  moved into the pointer.\<close>

partial_function (option) drain_loop ::
  "('w \<Rightarrow> 'd bus) \<Rightarrow> ('d bus \<Rightarrow> 'w \<Rightarrow> 'w) \<Rightarrow> ('d, 'w) handlers \<Rightarrow> msg_ptr \<Rightarrow> 'w \<Rightarrow> ('w \<times> msg_ptr) option" where
  "drain_loop bus_of put call old w =
     Option.bind (dequeue_into old (bus_of w)) (\<lambda>(b, ok, mptr).
       if ok then
         Option.bind mptr (\<lambda>a. Option.bind (heap (bmem b) a) (\<lambda>msg.
           drain_loop bus_of put call mptr (dispatchMessage bus_of call msg (put b w))))
       else Some (put b w, mptr))"

definition drain_rest :: "('w \<Rightarrow> 'd bus) \<Rightarrow> ('d bus \<Rightarrow> 'w \<Rightarrow> 'w) \<Rightarrow> ('d, 'w) handlers \<Rightarrow> 'w \<Rightarrow> 'w option" where
  "drain_rest bus_of put call w =
     do { (w1, mptr) \<leftarrow> drain_loop bus_of put call None w;
          b \<leftarrow> destroy mptr (bus_of w1);
          Some (put b w1) }"

section \<open>Clients\<close>

text \<open>A handler works on the state of the client and may publish; it sees the result of each call.
  The flag says that it throws at the end.\<close>

datatype ('d, 'u) reaction =
    Finish 'u bool
  | Publishing "'d publication" "bool \<Rightarrow> ('d, 'u) reaction"

primrec run_reaction :: "('d, 'u) reaction \<Rightarrow> 'd bus \<Rightarrow> ('d bus \<times> 'u \<times> bool) option" where
  "run_reaction (Finish u throws) b = Some (b, u, throws)"
| "run_reaction (Publishing x k) b =
     (case x of (ty, topic, d, cb) \<Rightarrow>
        (case publish [] ty topic d cb b of
           Some (b', Some r) \<Rightarrow> run_reaction (k r) b'
         | _ \<Rightarrow> None))"

text \<open>The bus, whether something undefined was done, and the client's state.\<close>

type_synonym ('d, 'u) world = "'d bus \<times> bool \<times> 'u"

definition reacting :: "(handler_ref \<Rightarrow> 'd \<Rightarrow> 'u \<Rightarrow> ('d, 'u) reaction) \<Rightarrow> ('d, ('d, 'u) world) handlers" where
  "reacting react h d w =
     (case w of (b, fault, u) \<Rightarrow>
        (case run_reaction (react h d u) b of
           Some (b', u', throws) \<Rightarrow> ((b', fault, u'), throws)
         | None \<Rightarrow> ((b, True, u), False)))"

datatype 'd client_op =
    Subscribe type_info string handler_ref
  | Unsubscribe sub_id
  | Publish "'d publication"
  | Handle string "handler_ref option"
  | Publish_through nat type_info 'd
  | Poll

datatype 'd answer =
    Subscribed "bus_error + sub_id"
  | Returned
  | Published bool
  | Called "(handler_ref \<times> 'd) list"
  | Idle

fun client_step ::
  "(handler_ref \<Rightarrow> 'd \<Rightarrow> 'u \<Rightarrow> ('d, 'u) reaction) \<Rightarrow> 'd client_op \<Rightarrow> ('d, 'u) world \<times> topic_handle list \<Rightarrow>
   ((('d, 'u) world \<times> topic_handle list) \<times> 'd answer) option"
where
  "client_step react (Subscribe ty topic h) ((b, f, u), hs) =
     (case subscribe ty topic h b of (b', r) \<Rightarrow> Some (((b', f, u), hs), Subscribed r))"
| "client_step react (Unsubscribe i) ((b, f, u), hs) = Some (((unsubscribe i b, f, u), hs), Returned)"
| "client_step react (Publish (ty, topic, d, cb)) ((b, f, u), hs) =
     (case publish [] ty topic d cb b of
        Some (b', Some r) \<Rightarrow> Some (((b', f, u), hs), Published r)
      | _ \<Rightarrow> None)"
| "client_step react (Handle topic cb) ((b, f, u), hs) =
     (case make_handle topic cb b of (b', h) \<Rightarrow> Some (((b', f, u), hs @ [h]), Returned))"
| "client_step react (Publish_through k ty d) ((b, f, u), hs) =
     (if k < length hs then
        (case handle_publish [] ty (hs ! k) d b of
           Some (b', Some r) \<Rightarrow> Some (((b', f, u), hs), Published r)
         | _ \<Rightarrow> None)
      else Some (((b, f, u), hs), Returned))"
| "client_step react Poll (w, hs) =
     (case poll (\<lambda>p. fst (fst p)) (\<lambda>b p. ((b, snd (fst p)), snd p)) (recorded (reacting react)) (w, []) of
        Some ((w', calls), got) \<Rightarrow> if fst (snd w') then None else Some ((w', hs), if got then Called calls else Idle)
      | None \<Rightarrow> None)"

fun client_run where
  "client_run react [] s = Some (s, [])"
| "client_run react (x # ops) s =
     (case client_step react x s of
        None \<Rightarrow> None
      | Some (s', r) \<Rightarrow> map_option (\<lambda>(t, rs). (t, r # rs)) (client_run react ops s'))"

section \<open>The specification\<close>

record 'd broker =
  subs :: spec
  pending :: "'d publication list"
  drops :: "(handler_ref \<times> string \<times> 'd) list"

definition broker_new :: "'d broker" where
  "broker_new = \<lparr>subs = spec_new, pending = [], drops = []\<rparr>"

definition drop_call :: "'d publication \<Rightarrow> (handler_ref \<times> string \<times> 'd) list" where
  "drop_call x = (case x of (ty, topic, d, cb) \<Rightarrow> (case cb of None \<Rightarrow> [] | Some c \<Rightarrow> [(c, topic, d)]))"

definition broker_publish :: "full_policy \<Rightarrow> nat \<Rightarrow> 'd publication \<Rightarrow> 'd broker \<Rightarrow> 'd broker \<times> bool" where
  "broker_publish pol cap x s =
     (if length (pending s) < cap then (s\<lparr>pending := pending s @ [x]\<rparr>, True)
      else if pol = DropOldest then
        (s\<lparr>pending := tl (pending s) @ [x], drops := drops s @ drop_call (hd (pending s))\<rparr>, True)
      else if pol = DropNewest then (s\<lparr>drops := drops s @ drop_call x\<rparr>, True)
      else (s, False))"

primrec broker_react :: "full_policy \<Rightarrow> nat \<Rightarrow> ('d, 'u) reaction \<Rightarrow> 'd broker \<Rightarrow> 'd broker \<times> 'u" where
  "broker_react pol cap (Finish u throws) s = (s, u)"
| "broker_react pol cap (Publishing x k) s =
     (case broker_publish pol cap x s of (s', r) \<Rightarrow> broker_react pol cap (k r) s')"

fun broker_calls ::
  "full_policy \<Rightarrow> nat \<Rightarrow> (handler_ref \<Rightarrow> 'd \<Rightarrow> 'u \<Rightarrow> ('d, 'u) reaction) \<Rightarrow> (handler_ref \<times> 'd) list \<Rightarrow>
   'd broker \<times> 'u \<Rightarrow> 'd broker \<times> 'u" where
  "broker_calls pol cap react [] p = p"
| "broker_calls pol cap react ((h, d) # xs) (s, u) =
     broker_calls pol cap react xs (broker_react pol cap (react h d u) s)"

text \<open>Who is called for a publication: the exact subscribers in the order they subscribed, then the
  wildcard subscribers in some order.\<close>

definition recipients :: "'d publication \<Rightarrow> spec \<Rightarrow> (handler_ref \<times> 'd) list \<Rightarrow> bool" where
  "recipients x s calls \<longleftrightarrow>
     (case x of (ty, topic, d, cb) \<Rightarrow>
        \<exists>rest. calls = map (\<lambda>y. (s_handler y, d)) (filter (\<lambda>y. \<not> wild y \<and> wants topic ty y) (live s)) @ rest \<and>
          mset rest = mset (map (\<lambda>y. (s_handler y, d)) (filter (\<lambda>y. wild y \<and> wants topic ty y) (live s))))"

text \<open>The abstract state with the client's state and the topics of the handles.\<close>

type_synonym ('d, 'u) bstate = "'d broker \<times> 'u \<times> (string \<times> handler_ref option) list"

inductive broker_step ::
  "full_policy \<Rightarrow> nat \<Rightarrow> (handler_ref \<Rightarrow> 'd \<Rightarrow> 'u \<Rightarrow> ('d, 'u) reaction) \<Rightarrow>
   'd client_op \<Rightarrow> ('d, 'u) bstate \<Rightarrow> 'd answer \<Rightarrow> ('d, 'u) bstate \<Rightarrow> bool"
  for pol cap react where
  subscribe: "spec_subscribe ty topic h (subs s) = (sp, r) \<Longrightarrow>
    broker_step pol cap react (Subscribe ty topic h) (s, u, hs) (Subscribed r) (s\<lparr>subs := sp\<rparr>, u, hs)"
| unsubscribe:
    "broker_step pol cap react (Unsubscribe i) (s, u, hs) Returned (s\<lparr>subs := spec_unsubscribe i (subs s)\<rparr>, u, hs)"
| publish: "broker_publish pol cap x s = (s', r) \<Longrightarrow>
    broker_step pol cap react (Publish x) (s, u, hs) (Published r) (s', u, hs)"
| handle: "broker_step pol cap react (Handle topic cb) (s, u, hs) Returned (s, u, hs @ [(topic, cb)])"
| publish_through: "k < length hs \<Longrightarrow> hs ! k = (topic, cb) \<Longrightarrow> broker_publish pol cap (ty, topic, d, cb) s = (s', r) \<Longrightarrow>
    broker_step pol cap react (Publish_through k ty d) (s, u, hs) (Published r) (s', u, hs)"
| no_handle: "\<not> k < length hs \<Longrightarrow> broker_step pol cap react (Publish_through k ty d) (s, u, hs) Returned (s, u, hs)"
| deliver: "pending s = x # rest \<Longrightarrow> recipients x (subs s) calls \<Longrightarrow>
    broker_calls pol cap react calls (s\<lparr>pending := rest\<rparr>, u) = (s', u') \<Longrightarrow>
    broker_step pol cap react Poll (s, u, hs) (Called calls) (s', u', hs)"
| idle: "pending s = [] \<Longrightarrow> broker_step pol cap react Poll (s, u, hs) Idle (s, u, hs)"

inductive broker_run for pol cap react where
  nil: "broker_run pol cap react [] s [] s"
| cons: "broker_step pol cap react x s r s1 \<Longrightarrow> broker_run pol cap react ops s1 rs s' \<Longrightarrow>
    broker_run pol cap react (x # ops) s (r # rs) s'"

section \<open>The relation\<close>

definition carries :: "'d bus \<Rightarrow> msg_ptr \<Rightarrow> 'd publication \<Rightarrow> bool" where
  "carries b p x \<longleftrightarrow>
     (case x of (ty, topic, d, cb) \<Rightarrow>
        \<exists>a msg i. p = Some a \<and> heap (bmem b) a = Some msg \<and> visible msg = (i, topic, ty, d) \<and> on_drop msg = cb \<and>
          topic_map (registry b) topic = Some i)"

definition broker_rel ::
  "string set \<Rightarrow> full_policy \<Rightarrow> nat \<Rightarrow> addr multiset \<Rightarrow> (sub_id \<Rightarrow> slot_ref) \<Rightarrow> 'd broker \<Rightarrow> 'd bus \<Rightarrow> bool" where
  "broker_rel T pol cap refs ws s b \<longleftrightarrow>
     refines ws (subs s) b \<and> bus_ok refs b \<and> policy b = pol \<and> lfq_cap (queue b) = cap \<and>
     dom (topic_map (registry b)) \<subseteq> T \<and> distinct (queued b) \<and>
     list_all2 (carries b) (queued b) (pending s) \<and> dropped (bmem b) = drops s"

lemma held_member: "a \<in># held ps \<longleftrightarrow> Some a \<in> set ps"
  by (induction ps) (auto simp: holds_def split: option.splits)

lemma refines_frame:
  assumes "refines ws s b" "slots b' = slots b" "store b' = store b" "trie b' = trie b" "registry b' = registry b"
    "sub_to_topic b' = sub_to_topic b" "next_slot b' = next_slot b" "next_sub_id b' = next_sub_id b"
  shows "refines ws s b'"
  using assms(1) unfolding refines_def wild_ok_def exact_ok_def ids_ok_def assms(2-8) .

lemma refines_evolves: "refines ws s b \<Longrightarrow> evolves A b b' \<Longrightarrow> refines ws s b'"
  by (rule refines_frame) (simp_all add: evolves_fields)

lemma carries_keeps:
  assumes "carries b p x" "keeps A (bmem b) (bmem b')" "p \<in> Some ` A" "topic_map (registry b) \<subseteq>\<^sub>m topic_map (registry b')"
  shows "carries b' p x"
proof -
  obtain ty topic d cb where x: "x = (ty, topic, d, cb)" by (cases x)
  then obtain a msg i where a: "p = Some a" "heap (bmem b) a = Some msg" "visible msg = (i, topic, ty, d)" "on_drop msg = cb"
      "topic_map (registry b) topic = Some i"
    using assms(1) by (auto simp: carries_def)
  have "map_option payload (heap (bmem b') a) = Some (payload msg)"
    using assms(2,3) a(1,2) by (auto simp: keeps_def)
  then obtain msg' where msg': "heap (bmem b') a = Some msg'" "payload msg' = payload msg" by auto
  have "visible msg' = visible (payload msg')" "visible msg = visible (payload msg)"
      "on_drop msg' = on_drop (payload msg')" "on_drop msg = on_drop (payload msg)"
    by (simp_all add: visible_def payload_def)
  moreover have "topic_map (registry b') topic = Some i"
    using assms(4) a(5) by (auto simp: map_le_def dom_def)
  ultimately show ?thesis using x a msg' by (auto simp: carries_def)
qed

lemma carried_note: "carries b p x \<Longrightarrow> note_of b p = drop_call x"
  by (auto simp: carries_def note_of_def drop_note_def drop_call_def visible_def split: option.splits)

lemma all_carried:
  assumes "list_all2 (carries b) ps xs" "keeps A (bmem b) (bmem b')" "\<forall>a. Some a \<in> set ps \<longrightarrow> a \<in> A"
    "topic_map (registry b) \<subseteq>\<^sub>m topic_map (registry b')"
  shows "list_all2 (carries b') ps xs"
proof (rule list.rel_mono_strong[OF assms(1)])
  fix p x assume "p \<in> set ps" "x \<in> set xs" "carries b p x"
  moreover from this have "p \<in> Some ` A" using assms(3) by (cases p) (auto simp: carries_def split: prod.splits)
  ultimately show "carries b' p x" using carries_keeps assms(2,4) by blast
qed

lemma broker_rel_full:
  assumes "broker_rel T pol cap refs ws s b"
  shows "full b \<longleftrightarrow> \<not> length (pending s) < cap" "length (queued b) = length (pending s)"
proof -
  show l: "length (queued b) = length (pending s)"
    using assms list_all2_lengthD by (fastforce simp: broker_rel_def)
  have "length (queued b) \<le> cap"
    using assms lfq.bounded[of "queue b"] by (simp add: broker_rel_def bus_ok_def queued_def)
  then show "full b \<longleftrightarrow> \<not> length (pending s) < cap"
    using l assms by (auto simp: full_def broker_rel_def)
qed

section \<open>Publishing\<close>

lemma enqueue_rel:
  assumes rel: "broker_rel T pol cap refs ws s b" and pol: "pol \<in> {ReturnFalse, DropNewest, DropOldest}"
    and rg: "reg_inv rg" "topic_map (registry b) \<subseteq>\<^sub>m topic_map rg" "dom (topic_map rg) \<subseteq> T" "topic_map rg topic = Some i"
  shows "\<exists>m raw m' b' r s'. build_message ty i topic d cb (bmem b) = Some (m, raw) \<and>
    mp_adopt (Some raw) m = Some (m', Some raw) \<and>
    enqueueMessage [] (Some raw) (b\<lparr>registry := rg, bmem := m'\<rparr>) = Some (b', Some r) \<and>
    broker_publish pol cap (ty, topic, d, cb) s = (s', r) \<and> broker_rel T pol cap refs ws s' b' \<and> same_subs b b' \<and>
    registry b' = rg"
proof -
  let ?x = "(ty, topic, d, cb)"
  have ok: "bus_ok refs b" and pb: "policy b = pol" using rel by (simp_all add: broker_rel_def)
  obtain m raw m' b' r where e: "build_message ty i topic d cb (bmem b) = Some (m, raw)"
      "mp_adopt (Some raw) m = Some (m', Some raw)"
      "enqueueMessage [] (Some raw) (b\<lparr>registry := rg, bmem := m'\<rparr>) = Some (b', Some r)" "bus_ok refs b'"
      "raw \<notin># held (queued b) + refs" "r = (policy b \<noteq> ReturnFalse \<or> \<not> full b)"
      "b' = b\<lparr>registry := rg, queue := queue b', bmem := bmem b'\<rparr>" "lfq_cap (queue b') = lfq_cap (queue b)"
      "queued b' = (if \<not> full b then queued b @ [Some raw]
         else if policy b = DropOldest then tl (queued b) @ [Some raw] else queued b)"
      "\<not> full b \<or> policy b = DropOldest \<longrightarrow>
        (\<exists>msg. heap (bmem b') raw = Some msg \<and> visible msg = (i, topic, ty, d) \<and> on_drop msg = cb)"
      "dropped (bmem b') = dropped (bmem b) @
        (if \<not> full b \<or> policy b = ReturnFalse then []
         else if policy b = DropOldest then note_of b (hd (queued b))
         else (case cb of None \<Rightarrow> [] | Some c \<Rightarrow> [(c, topic, d)]))"
      "keeps (set_mset (held (queued b)) \<inter> set_mset (held (queued b')) - given_up b raw) (bmem b) (bmem b')"
    using build_enqueue_ok[OF ok, of ty i topic d cb "[]" rg] pol unfolding pb by blast
  have f: "policy b' = policy b" "slots b' = slots b" "store b' = store b" "trie b' = trie b" "registry b' = rg"
      "sub_to_topic b' = sub_to_topic b" "next_slot b' = next_slot b" "next_sub_id b' = next_sub_id b"
    by (subst e(7), simp)+
  have ref: "refines ws (subs s) b'"
    by (rule refines_frame[OF refines_registry[OF _ rg(1,2)]]) (use rel f in \<open>simp_all add: broker_rel_def\<close>)
  have all: "list_all2 (carries b) (queued b) (pending s)" and dist: "distinct (queued b)"
    using rel by (simp_all add: broker_rel_def)
  have fresh: "Some raw \<notin> set (queued b)" using e(5) by (simp add: held_member)
  note fl = broker_rel_full[OF rel]
  have new: "carries b' (Some raw) ?x" if "\<not> full b \<or> pol = DropOldest"
    using e(10) that rg(4) f(5) pb by (auto simp: carries_def)
  note kept = all_carried[where b' = b', unfolded f(5), OF _ e(12) _ rg(2)]
  have front: "queued b \<noteq> [] \<and> pending s \<noteq> []" if "full b"
  proof -
    have "0 < lfq_cap (queue b)" using ok lfq.cap_pos by (auto simp: bus_ok_def)
    then have "0 < length (queued b)" using that by (simp add: full_def)
    then show ?thesis using fl(2) by auto
  qed
  define s' where "s' = fst (broker_publish pol cap ?x s)"
  have s': "broker_publish pol cap ?x s = (s', r)"
    using pol e(6) fl(1) pb by (auto simp: s'_def broker_publish_def)
  consider (room) "\<not> full b" | (oldest) "full b" "pol = DropOldest" | (newest) "full b" "pol = DropNewest"
    | (refused) "full b" "pol = ReturnFalse"
    using pol by auto
  then have "list_all2 (carries b') (queued b') (pending s') \<and> distinct (queued b') \<and> dropped (bmem b') = drops s' \<and>
      subs s' = subs s"
  proof cases
    case room
    then have "list_all2 (carries b') (queued b) (pending s)"
      by (intro kept[OF all]) (auto simp: held_member e(9) given_up_def)
    then show ?thesis
      using room new dist fresh rel e(9,11) fl
      by (simp add: s'_def broker_publish_def list_all2_appendI broker_rel_def)
  next
    case oldest
    obtain p ps y ys where q: "queued b = p # ps" "pending s = y # ys"
      using front[OF oldest(1)] by (auto simp: neq_Nil_conv)
    have c: "carries b p y" "list_all2 (carries b) ps ys" "p \<notin> set ps" using all dist q by simp_all
    have "list_all2 (carries b') ps ys"
      by (intro kept[OF c(2)]) (use oldest c(3) q pb in \<open>auto simp: held_member e(9) given_up_def\<close>)
    then show ?thesis
      using oldest new dist fresh rel e(9,11) fl q carried_note[OF c(1)] pb
      by (simp add: s'_def broker_publish_def list_all2_appendI broker_rel_def)
  next
    case newest
    have "list_all2 (carries b') (queued b) (pending s)"
      by (intro kept[OF all]) (use newest fresh pb in \<open>auto simp: held_member e(9) given_up_def\<close>)
    then show ?thesis
      using newest dist rel e(9,11) fl pb by (simp add: s'_def broker_publish_def broker_rel_def drop_call_def)
  next
    case refused
    have "list_all2 (carries b') (queued b) (pending s)"
      by (intro kept[OF all]) (use refused pb in \<open>auto simp: held_member e(9) given_up_def\<close>)
    then show ?thesis
      using refused dist rel e(9,11) fl pb by (simp add: s'_def broker_publish_def broker_rel_def)
  qed
  then have "broker_rel T pol cap refs ws s' b'"
    using ref e(4,8) rel f(1,5) rg(3) by (simp add: broker_rel_def)
  then show ?thesis
    using e(1-3) s' f by (auto simp: same_subs_def)
qed

lemma resolve_in:
  assumes "reg_inv r" "finite T" "card T + 1 < 2 ^ 32" "dom (topic_map r) \<subseteq> T" "topic \<in> T" "resolve r topic = (r', i)"
  shows "reg_inv r'" "topic_map r \<subseteq>\<^sub>m topic_map r'" "dom (topic_map r') \<subseteq> T" "topic_map r' topic = Some i"
    "to_string r' i = topic"
proof -
  have "topic_count r \<le> card T" unfolding topic_count_def by (rule card_mono[OF assms(2,4)])
  then have c: "topic_count r + 1 < 2 ^ 32" using assms(3) by simp
  show "reg_inv r'" "topic_map r \<subseteq>\<^sub>m topic_map r'" "topic_map r' topic = Some i"
    using resolve_grows[OF assms(1) c assms(6)] by auto
  show "to_string r' i = topic" using resolve_ok[OF assms(1) c, of topic] assms(6) by simp
  show "dom (topic_map r') \<subseteq> T"
    using resolve_slow_map[of r topic r' i] assms(4-6) by (simp add: resolve_is_slow)
qed

definition grown :: "'d bus \<Rightarrow> 'd bus \<Rightarrow> bool" where
  "grown b b' \<longleftrightarrow> same_subs b b' \<and> topic_map (registry b) \<subseteq>\<^sub>m topic_map (registry b')"

lemma grown_refl [simp]: "grown b b"
  by (simp add: grown_def)

lemma grown_trans: "grown b b1 \<Longrightarrow> grown b1 b2 \<Longrightarrow> grown b b2"
  using same_subs_trans map_le_trans by (auto simp: grown_def)

lemma publish_rel:
  assumes rel: "broker_rel T pol cap refs ws s b" and pol: "pol \<in> {ReturnFalse, DropNewest, DropOldest}"
    and T: "finite T" "card T + 1 < 2 ^ 32" "topic \<in> T"
  shows "\<exists>b' r s'. publish [] ty topic d cb b = Some (b', Some r) \<and>
    broker_publish pol cap (ty, topic, d, cb) s = (s', r) \<and> broker_rel T pol cap refs ws s' b' \<and> grown b b'"
proof -
  obtain rg i where res: "resolve (registry b) topic = (rg, i)" by force
  have "reg_inv (registry b)" "dom (topic_map (registry b)) \<subseteq> T"
    using rel by (simp_all add: broker_rel_def refines_def)
  note rg = resolve_in[OF this(1) T(1,2) this(2) T(3) res]
  obtain m raw m' b' r s' where e: "build_message ty i topic d cb (bmem b) = Some (m, raw)"
      "mp_adopt (Some raw) m = Some (m', Some raw)"
      "enqueueMessage [] (Some raw) (b\<lparr>registry := rg, bmem := m'\<rparr>) = Some (b', Some r)"
      "broker_publish pol cap (ty, topic, d, cb) s = (s', r)" "broker_rel T pol cap refs ws s' b'" "same_subs b b'" "registry b' = rg"
    using enqueue_rel[OF rel pol rg(1-4), of ty d cb] by blast
  have "publish [] ty topic d cb b = Some (b', Some r)"
    using res e(1-3) rg(5) by (simp add: publish_def)
  then show ?thesis using e(4-7) rg(2) by (auto simp: grown_def)
qed

section \<open>Handlers that publish\<close>

primrec topics_of :: "('d, 'u) reaction \<Rightarrow> string set" where
  "topics_of (Finish u throws) = {}"
| "topics_of (Publishing x k) = insert (about x) (\<Union>r. topics_of (k r))"

lemma reaction_rel:
  assumes "broker_rel T pol cap refs ws s b" "pol \<in> {ReturnFalse, DropNewest, DropOldest}"
    and "finite T" "card T + 1 < 2 ^ 32" "topics_of p \<subseteq> T"
  shows "\<exists>b' u throws s'. run_reaction p b = Some (b', u, throws) \<and> broker_react pol cap p s = (s', u) \<and>
    broker_rel T pol cap refs ws s' b' \<and> grown b b'"
  using assms(1,5)
proof (induction p arbitrary: s b)
  case (Publishing x k)
  obtain ty topic d cb where x: "x = (ty, topic, d, cb)" by (cases x)
  then have "topic \<in> T" using Publishing.prems(2) by (simp add: about_def)
  from publish_rel[OF Publishing.prems(1) assms(2-4) this] obtain b1 r s1 where
    1: "publish [] ty topic d cb b = Some (b1, Some r)" "broker_publish pol cap x s = (s1, r)"
      "broker_rel T pol cap refs ws s1 b1" "grown b b1"
    using x by blast
  have "topics_of (k r) \<subseteq> T" using Publishing.prems(2) by auto
  from Publishing.IH[OF _ 1(3) this] obtain b' u throws s' where
    "run_reaction (k r) b1 = Some (b', u, throws)" "broker_react pol cap (k r) s1 = (s', u)"
      "broker_rel T pol cap refs ws s' b'" "grown b1 b'"
    by blast
  then show ?case using 1 x grown_trans[OF 1(4)] by simp
qed simp

abbreviation world_bus :: "('d, 'u) world \<times> (handler_ref \<times> 'd) list \<Rightarrow> 'd bus" where
  "world_bus \<equiv> \<lambda>p. fst (fst p)"

lemma broker_calls_append:
  "broker_calls pol cap react (xs @ ys) p = broker_calls pol cap react ys (broker_calls pol cap react xs p)"
proof (induction xs arbitrary: p)
  case (Cons x xs)
  then show ?case by (cases x, cases p) simp
qed simp

lemma loop_rel:
  assumes "broker_rel T pol cap refs ws s b" "pol \<in> {ReturnFalse, DropNewest, DropOldest}"
    and "finite T" "card T + 1 < 2 ^ 32" "\<forall>h d u. topics_of (react h d u) \<subseteq> T"
  shows "\<exists>b' u' s'. dispatch_loop (recorded (reacting react)) d xs ((b, f, u), log) =
      ((b', f, u'), log @ map (\<lambda>x. (handler x, d)) xs) \<and>
    broker_calls pol cap react (map (\<lambda>x. (handler x, d)) xs) (s, u) = (s', u') \<and>
    broker_rel T pol cap refs ws s' b' \<and> grown b b'"
  using assms(1)
proof (induction xs arbitrary: s b u log)
  case (Cons x xs)
  obtain b1 u1 throws s1 where 1: "run_reaction (react (handler x) d u) b = Some (b1, u1, throws)"
      "broker_react pol cap (react (handler x) d u) s = (s1, u1)" "broker_rel T pol cap refs ws s1 b1" "grown b b1"
    using reaction_rel[OF Cons.prems assms(2-4), of "react (handler x) d u"] assms(5) by blast
  obtain b' u' s' where "dispatch_loop (recorded (reacting react)) d xs ((b1, f, u1), log @ [(handler x, d)]) =
      ((b', f, u'), (log @ [(handler x, d)]) @ map (\<lambda>x. (handler x, d)) xs)"
      "broker_calls pol cap react (map (\<lambda>x. (handler x, d)) xs) (s1, u1) = (s', u')"
      "broker_rel T pol cap refs ws s' b'" "grown b1 b'"
    using Cons.IH[OF 1(3), of u1 "log @ [(handler x, d)]"] by blast
  moreover have "recorded (reacting react) (handler x) d ((b, f, u), log) = (((b1, f, u1), log @ [(handler x, d)]), throws)"
    using 1(1) by (simp add: recorded_def reacting_def)
  ultimately show ?case using 1(2) grown_trans[OF 1(4)] by auto
qed simp

lemma slot_rel:
  assumes "broker_rel T pol cap refs ws s b" "pol \<in> {ReturnFalse, DropNewest, DropOldest}"
    and "finite T" "card T + 1 < 2 ^ 32" "\<forall>h d u. topics_of (react h d u) \<subseteq> T"
  shows "\<exists>b' u' s'. dispatch_slot world_bus (recorded (reacting react)) d r ((b, f, u), log) =
      ((b', f, u'), log @ calls_of b d r) \<and>
    broker_calls pol cap react (calls_of b d r) (s, u) = (s', u') \<and>
    broker_rel T pol cap refs ws s' b' \<and> grown b b'"
proof (cases "store b r")
  case None
  then show ?thesis using assms(1) by (simp add: dispatch_slot_def calls_of_def)
next
  case (Some sl)
  then show ?thesis using loop_rel[OF assms, of d "subscribers sl" f u log]
    by (simp add: dispatch_slot_def slot_dispatch_def calls_of_def Let_def)
qed

lemma slots_rel:
  assumes "broker_rel T pol cap refs ws s b" "pol \<in> {ReturnFalse, DropNewest, DropOldest}"
    and "finite T" "card T + 1 < 2 ^ 32" "\<forall>h d u. topics_of (react h d u) \<subseteq> T"
  shows "\<exists>b' u' s'. fold (dispatch_slot world_bus (recorded (reacting react)) d) rs ((b, f, u), log) =
      ((b', f, u'), log @ concat (map (calls_of b d) rs)) \<and>
    broker_calls pol cap react (concat (map (calls_of b d) rs)) (s, u) = (s', u') \<and>
    broker_rel T pol cap refs ws s' b' \<and> grown b b'"
  using assms(1)
proof (induction rs arbitrary: s b u log)
  case (Cons r rs)
  obtain b1 u1 s1 where 1: "dispatch_slot world_bus (recorded (reacting react)) d r ((b, f, u), log) =
      ((b1, f, u1), log @ calls_of b d r)" "broker_calls pol cap react (calls_of b d r) (s, u) = (s1, u1)"
      "broker_rel T pol cap refs ws s1 b1" "grown b b1"
    using slot_rel[OF Cons.prems assms(2-5), of d r f u log] by blast
  obtain b' u' s' where "fold (dispatch_slot world_bus (recorded (reacting react)) d) rs ((b1, f, u1), log @ calls_of b d r) =
      ((b', f, u'), (log @ calls_of b d r) @ concat (map (calls_of b1 d) rs))"
      "broker_calls pol cap react (concat (map (calls_of b1 d) rs)) (s1, u1) = (s', u')"
      "broker_rel T pol cap refs ws s' b'" "grown b1 b'"
    using Cons.IH[OF 1(3), of u1 "log @ calls_of b d r"] by blast
  then show ?case
    using 1 grown_trans[OF 1(4)] calls_of_same[of b b1] grown_def[of b b1] by (simp add: broker_calls_append)
qed simp

lemma dispatch_rel:
  assumes "broker_rel T pol cap refs ws s b" "pol \<in> {ReturnFalse, DropNewest, DropOldest}"
    and "finite T" "card T + 1 < 2 ^ 32" "\<forall>h d u. topics_of (react h d u) \<subseteq> T"
  shows "\<exists>b' u' s'. dispatchMessage world_bus (recorded (reacting react)) msg ((b, f, u), log) =
      ((b', f, u'), log @ exact_calls b msg @ wild_calls b msg) \<and>
    broker_calls pol cap react (exact_calls b msg @ wild_calls b msg) (s, u) = (s', u') \<and>
    broker_rel T pol cap refs ws s' b' \<and> grown b b'"
proof -
  define w1 where "w1 = (case slots b (topic_id msg) of
      Some r \<Rightarrow> (case store b r of
          Some sl \<Rightarrow> if msg_type sl = mtype msg
            then dispatch_slot world_bus (recorded (reacting react)) (data msg) r ((b, f, u), log) else ((b, f, u), log)
        | None \<Rightarrow> ((b, f, u), log))
    | None \<Rightarrow> ((b, f, u), log))"
  have "\<exists>b1 u1 s1. w1 = ((b1, f, u1), log @ exact_calls b msg) \<and>
      broker_calls pol cap react (exact_calls b msg) (s, u) = (s1, u1) \<and>
      broker_rel T pol cap refs ws s1 b1 \<and> grown b b1"
  proof (cases "\<exists>r sl. slots b (topic_id msg) = Some r \<and> store b r = Some sl \<and> msg_type sl = mtype msg")
    case True
    then obtain r sl where r: "slots b (topic_id msg) = Some r" "store b r = Some sl" "msg_type sl = mtype msg" by blast
    then show ?thesis using slot_rel[OF assms, of "data msg" r f u log] by (simp add: w1_def exact_calls_def)
  next
    case False
    then have "w1 = ((b, f, u), log)" "exact_calls b msg = []"
      by (auto simp: w1_def exact_calls_def split: option.split)
    then show ?thesis using assms(1) by simp
  qed
  then obtain b1 u1 s1 where 1: "w1 = ((b1, f, u1), log @ exact_calls b msg)"
      "broker_calls pol cap react (exact_calls b msg) (s, u) = (s1, u1)"
      "broker_rel T pol cap refs ws s1 b1" "grown b b1" by blast
  have wild: "wild_calls b1 msg = wild_calls b msg"
    using 1(4) calls_of_same[of b b1] by (simp add: wild_calls_def same_subs_def grown_def)
  have "dispatchMessage world_bus (recorded (reacting react)) msg ((b, f, u), log) =
      fold (dispatch_slot world_bus (recorded (reacting react)) (data msg))
        (trie_match (trie b1) (topic_sv msg) (mtype msg) []) ((b1, f, u1), log @ exact_calls b msg)"
    unfolding dispatchMessage_def fst_conv w1_def[symmetric] Let_def unfolding 1(1) by simp
  with slots_rel[OF 1(3) assms(2-5), of "data msg" "trie_match (trie b1) (topic_sv msg) (mtype msg) []" f u1 "log @ exact_calls b msg"]
  show ?thesis
    using 1(2) grown_trans[OF 1(4)] wild
    by (simp add: wild_calls_def[of b1, symmetric] broker_calls_append) blast
qed

section \<open>The other operations\<close>

lemma live_small: "refines ws s b \<Longrightarrow> issued s + 1 < 2 ^ 64 \<Longrightarrow> length (live s) < 2 ^ 64"
proof -
  assume ref: "refines ws s b" and small: "issued s + 1 < 2 ^ 64"
  have d: "distinct (map s_id (live s))" "\<forall>x \<in> set (live s). unat (s_id x) \<le> issued s"
    using ref by (simp_all add: refines_def ids_ok_def)
  have "distinct (map unat (map s_id (live s)))"
    using d(1) by (subst distinct_map) (simp add: inj_on_def word_unat_eq_iff del: set_map map_map)
  then have "card (unat ` s_id ` set (live s)) = length (live s)"
    using distinct_card by (metis image_set length_map)
  moreover have "card (unat ` s_id ` set (live s)) \<le> card {..issued s}"
    using d(2) by (intro card_mono) auto
  ultimately show ?thesis using small by simp
qed

lemma rel_other:
  assumes "broker_rel T pol cap refs ws s b" "refines ws' sp b'" "queue b' = queue b" "bmem b' = bmem b" "policy b' = policy b"
    "topic_map (registry b) \<subseteq>\<^sub>m topic_map (registry b')" "dom (topic_map (registry b')) \<subseteq> T"
  shows "broker_rel T pol cap refs ws' (s\<lparr>subs := sp\<rparr>) b'"
proof -
  have "list_all2 (carries b') (queued b) (pending s)"
    by (rule all_carried[where A = UNIV and b = b]) (use assms(1,4,6) in \<open>simp_all add: broker_rel_def\<close>)
  then show ?thesis using assms(1-5,7) by (simp only: broker_rel_def bus_ok_def queued_def) simp
qed

lemma subscribe_fields:
  "queue (fst (subscribe ty topic h b)) = queue b" "bmem (fst (subscribe ty topic h b)) = bmem b"
  "policy (fst (subscribe ty topic h b)) = policy b"
  "registry (fst (subscribe ty topic h b)) = (if isWildcard topic then registry b else fst (resolve (registry b) topic))"
  by (simp_all add: subscribe_def Let_def new_slot_def add_to_slot_def getOrCreateSlot_def create_slot_def
      split: prod.split option.split sum.split)

lemma unsubscribe_fields:
  "queue (unsubscribe i b) = queue b" "bmem (unsubscribe i b) = bmem b" "policy (unsubscribe i b) = policy b"
  by (simp_all add: unsubscribe_def Let_def split: option.split prod.split)

lemma subscribe_rel:
  assumes rel: "broker_rel T pol cap refs ws s b" and T: "finite T" "card T + 1 < 2 ^ 32" "isWildcard topic \<or> topic \<in> T"
    and small: "issued (subs s) + 1 < 2 ^ 64"
  shows "\<exists>b' r sp ws'. subscribe ty topic h b = (b', r) \<and> spec_subscribe ty topic h (subs s) = (sp, r) \<and>
    broker_rel T pol cap refs ws' (s\<lparr>subs := sp\<rparr>) b' \<and> topic_map (registry b) \<subseteq>\<^sub>m topic_map (registry b') \<and>
    issued sp = issued (subs s) + 1"
proof -
  have ref: "refines ws (subs s) b" and rgb: "reg_inv (registry b)" and dom: "dom (topic_map (registry b)) \<subseteq> T"
    using rel by (simp_all add: broker_rel_def refines_def)
  have "topic_count (registry b) \<le> card T" unfolding topic_count_def by (rule card_mono[OF T(1) dom])
  then have "topic_count (registry b) + 1 < 2 ^ 32" using T(2) by simp
  from subscribe_refines[OF ref small this, of ty topic h] obtain ws' where
    ws': "refines ws' (fst (spec_subscribe ty topic h (subs s))) (fst (subscribe ty topic h b))"
      "snd (subscribe ty topic h b) = snd (spec_subscribe ty topic h (subs s))" by blast
  obtain rg i where res: "resolve (registry b) topic = (rg, i)" by force
  have grow: "topic_map (registry b) \<subseteq>\<^sub>m topic_map (registry (fst (subscribe ty topic h b)))"
      "dom (topic_map (registry (fst (subscribe ty topic h b)))) \<subseteq> T"
    using resolve_in(2,3)[OF rgb T(1,2) dom _ res] T(3) dom res by (auto simp: subscribe_fields)
  have "broker_rel T pol cap refs ws' (s\<lparr>subs := fst (spec_subscribe ty topic h (subs s))\<rparr>) (fst (subscribe ty topic h b))"
    by (rule rel_other[OF rel ws'(1) _ _ _ grow]) (simp_all add: subscribe_fields)
  then show ?thesis
    using ws'(2) grow(1) issued_subscribe[where ty = ty and topic = topic and h = h and s = "subs s"]
    by (metis prod.collapse)
qed

lemma unsubscribe_rel:
  assumes rel: "broker_rel T pol cap refs ws s b"
  shows "broker_rel T pol cap refs ws (s\<lparr>subs := spec_unsubscribe i (subs s)\<rparr>) (unsubscribe i b)"
  by (rule rel_other[OF rel unsubscribe_refines])
    (use rel in \<open>simp_all add: broker_rel_def unsubscribe_fields registry_unsubscribe\<close>)

definition handle_rel :: "'d bus \<Rightarrow> topic_handle \<Rightarrow> string \<times> handler_ref option \<Rightarrow> bool" where
  "handle_rel b h x \<longleftrightarrow>
     h_topic_sv h = fst x \<and> cached_on_drop h = snd x \<and> topic_map (registry b) (fst x) = Some (h_tid h)"

lemma handles_grow:
  assumes "list_all2 (handle_rel b) hs xs" "topic_map (registry b) \<subseteq>\<^sub>m topic_map (registry b')"
  shows "list_all2 (handle_rel b') hs xs"
  by (rule list.rel_mono_strong[OF assms(1)]) (use assms(2) in \<open>force simp: handle_rel_def map_le_def\<close>)

lemma make_handle_rel:
  assumes rel: "broker_rel T pol cap refs ws s b" and T: "finite T" "card T + 1 < 2 ^ 32" "topic \<in> T"
  shows "\<exists>b' h. make_handle topic cb b = (b', h) \<and> broker_rel T pol cap refs ws s b' \<and> handle_rel b' h (topic, cb) \<and>
    topic_map (registry b) \<subseteq>\<^sub>m topic_map (registry b')"
proof -
  have ref: "refines ws (subs s) b" and rgb: "reg_inv (registry b)" and dom: "dom (topic_map (registry b)) \<subseteq> T"
    using rel by (simp_all add: broker_rel_def refines_def)
  obtain rg i where res: "resolve (registry b) topic = (rg, i)" by force
  note rg = resolve_in[OF rgb T(1,2) dom T(3) res]
  have "broker_rel T pol cap refs ws (s\<lparr>subs := subs s\<rparr>) (b\<lparr>registry := rg\<rparr>)"
    by (rule rel_other[OF rel refines_registry[OF ref rg(1,2)]]) (use rg in simp_all)
  then show ?thesis using res rg by (simp add: make_handle_def handle_rel_def)
qed

lemma handle_publish_rel:
  assumes rel: "broker_rel T pol cap refs ws s b" and pol: "pol \<in> {ReturnFalse, DropNewest, DropOldest}"
    and h: "handle_rel b h (topic, cb)"
  shows "\<exists>b' r s'. handle_publish [] ty h d b = Some (b', Some r) \<and>
    broker_publish pol cap (ty, topic, d, cb) s = (s', r) \<and> broker_rel T pol cap refs ws s' b' \<and>
    topic_map (registry b) \<subseteq>\<^sub>m topic_map (registry b')"
proof -
  have "reg_inv (registry b)" "dom (topic_map (registry b)) \<subseteq> T" "topic_map (registry b) topic = Some (h_tid h)"
    using rel h by (simp_all add: broker_rel_def refines_def handle_rel_def)
  from enqueue_rel[OF rel pol this(1) _ this(2,3), of ty d cb] obtain m raw m' b' r s' where
    e: "build_message ty (h_tid h) topic d cb (bmem b) = Some (m, raw)" "mp_adopt (Some raw) m = Some (m', Some raw)"
      "enqueueMessage [] (Some raw) (b\<lparr>registry := registry b, bmem := m'\<rparr>) = Some (b', Some r)"
      "broker_publish pol cap (ty, topic, d, cb) s = (s', r)" "broker_rel T pol cap refs ws s' b'" "registry b' = registry b"
    by auto
  then show ?thesis using h by (simp add: handle_publish_def handle_rel_def)
qed

section \<open>A turn of the dispatcher\<close>

lemma rel_evolves:
  assumes rel: "broker_rel T pol cap refs ws s b" and ev: "evolves A b b'" and ok: "bus_ok refs' b'"
    and q: "list_all2 (carries b) (queued b') xs" "distinct (queued b')" "\<forall>a. Some a \<in> set (queued b') \<longrightarrow> a \<in> A"
    and "dropped (bmem b') = dropped (bmem b)"
  shows "broker_rel T pol cap refs' ws (s\<lparr>pending := xs\<rparr>) b'"
proof -
  have "list_all2 (carries b') (queued b') xs"
    by (rule all_carried[OF q(1) evolves_fields(11)[OF ev] q(3)]) (simp add: evolves_fields[OF ev])
  moreover have "refines ws (subs s) b'" using rel refines_evolves[OF _ ev] by (simp add: broker_rel_def)
  ultimately show ?thesis
    using rel ok q(2) assms(7) evolves_fields(1,3,4)[OF ev] unfolding broker_rel_def by simp
qed

lemma turn_rel:
  assumes rel: "broker_rel T pol cap (holds old) ws s b" and pol: "pol \<in> {ReturnFalse, DropNewest, DropOldest}"
    and T: "finite T" "card T + 1 < 2 ^ 32" "\<forall>h d u. topics_of (react h d u) \<subseteq> T" "\<forall>t\<in>T. concrete (splitLevels t)"
    and small: "issued (subs s) + 1 < 2 ^ 64" and q: "pending s = x # rest"
  shows "\<exists>b1 a msg b2 u' calls s'. dequeue_into old b = Some (b1, True, Some a) \<and> heap (bmem b1) a = Some msg \<and>
    dispatchMessage world_bus (recorded (reacting react)) msg ((b1, f, u), log) = ((b2, f, u'), log @ calls) \<and>
    recipients x (subs s) calls \<and> broker_calls pol cap react calls (s\<lparr>pending := rest\<rparr>, u) = (s', u') \<and>
    broker_rel T pol cap {#a#} ws s' b2 \<and> topic_map (registry b) \<subseteq>\<^sub>m topic_map (registry b2)"
proof -
  have all: "list_all2 (carries b) (queued b) (x # rest)" and ok: "bus_ok (holds old + {#}) b" and dist: "distinct (queued b)"
    using rel q by (simp_all add: broker_rel_def)
  obtain p ps where ps: "queued b = p # ps" "carries b p x" "list_all2 (carries b) ps rest"
    using all by (cases "queued b") auto
  obtain b1 a where b1: "p = Some a" "dequeue_into old b = Some (b1, True, p)" "bus_ok {#a#} b1"
      "evolves (set_mset (held (queued b) + {#})) b b1" "queued b1 = ps" "dropped (bmem b1) = dropped (bmem b)"
    using dequeue_into_ok[OF ok ps(1)] by auto
  have keep: "keeps (set_mset (held (queued b))) (bmem b) (bmem b1)" using evolves_fields(11)[OF b1(4)] by simp
  have reg: "registry b1 = registry b" using evolves_fields(4)[OF b1(4)] .
  have cx: "carries b1 p x"
    by (rule carries_keeps[OF ps(2) keep]) (simp_all add: b1(1) held_member ps(1) reg)
  have rel1: "broker_rel T pol cap {#a#} ws (s\<lparr>pending := rest\<rparr>) b1"
    by (rule rel_evolves[OF rel b1(4,3)]) (use ps dist b1(5,6) in \<open>auto simp: held_member\<close>)
  obtain ty topic d cb where x: "x = (ty, topic, d, cb)" by (cases x)
  then obtain msg i where msg: "heap (bmem b1) a = Some msg" "visible msg = (i, topic, ty, d)"
      "topic_map (registry b1) topic = Some i"
    using cx b1(1) by (auto simp: carries_def)
  have fields: "topic_id msg = i" "topic_sv msg = topic" "mtype msg = ty" "data msg = d"
    using msg(2) by (simp_all add: visible_def)
  let ?calls = "exact_calls b1 msg @ wild_calls b1 msg"
  obtain b2 u' s' where b2: "dispatchMessage world_bus (recorded (reacting react)) msg ((b1, f, u), log) = ((b2, f, u'), log @ ?calls)"
      "broker_calls pol cap react ?calls (s\<lparr>pending := rest\<rparr>, u) = (s', u')"
      "broker_rel T pol cap {#a#} ws s' b2" "grown b1 b2"
    using dispatch_rel[OF rel1 pol T(1-3), of msg f u log] by blast
  have ref1: "refines ws (subs s) b1" using rel1 by (simp add: broker_rel_def)
  have "topic \<in> T" using rel1 msg(3) by (auto simp: broker_rel_def)
  then have "recipients x (subs s) ?calls"
    using exact_calls_refine[OF ref1, of msg] wild_calls_refine[OF ref1 live_small[OF ref1 small], of msg] msg(3) T(4)
    by (auto simp: recipients_def x fields)
  then show ?thesis using b1(1,2) msg(1) b2 reg unfolding grown_def by metis
qed

text \<open>What a pointer held, destroyed.\<close>

lemma destroy_rel:
  assumes "broker_rel T pol cap (holds p) ws s b"
  shows "\<exists>b'. destroy p b = Some b' \<and> broker_rel T pol cap {#} ws s b' \<and> registry b' = registry b"
proof -
  have "bus_ok (holds p + {#}) b" using assms by (simp add: broker_rel_def)
  then obtain b' where b': "destroy p b = Some b'" "bus_ok {#} b'"
      "evolves (set_mset (held (queued b) + {#})) b b'" "queued b' = queued b" "dropped (bmem b') = dropped (bmem b)"
    using destroy_ok by blast
  have "broker_rel T pol cap {#} ws (s\<lparr>pending := pending s\<rparr>) b'"
    by (rule rel_evolves[OF assms b'(3,2)]) (use assms b'(4,5) in \<open>auto simp: broker_rel_def held_member\<close>)
  then show ?thesis using b'(1) evolves_fields(4)[OF b'(3)] by simp
qed

lemma poll_rel:
  assumes rel: "broker_rel T pol cap {#} ws s b" and pol: "pol \<in> {ReturnFalse, DropNewest, DropOldest}"
    and T: "finite T" "card T + 1 < 2 ^ 32" "\<forall>h d u. topics_of (react h d u) \<subseteq> T" "\<forall>t\<in>T. concrete (splitLevels t)"
    and small: "issued (subs s) + 1 < 2 ^ 64" and q: "pending s = x # rest"
  shows "\<exists>b' u' calls s'.
    poll world_bus (\<lambda>b p. ((b, snd (fst p)), snd p)) (recorded (reacting react)) ((b, f, u), []) =
      Some (((b', f, u'), calls), True) \<and>
    recipients x (subs s) calls \<and> broker_calls pol cap react calls (s\<lparr>pending := rest\<rparr>, u) = (s', u') \<and>
    broker_rel T pol cap {#} ws s' b' \<and> topic_map (registry b) \<subseteq>\<^sub>m topic_map (registry b')"
proof -
  have "broker_rel T pol cap (holds None) ws s b" using rel by simp
  from turn_rel[OF this pol T small q, of f u "[]"] obtain b1 a msg b2 u' calls s' where
    1: "dequeue_into None b = Some (b1, True, Some a)" "heap (bmem b1) a = Some msg"
      "dispatchMessage world_bus (recorded (reacting react)) msg ((b1, f, u), []) = ((b2, f, u'), calls)"
      "recipients x (subs s) calls" "broker_calls pol cap react calls (s\<lparr>pending := rest\<rparr>, u) = (s', u')"
      "broker_rel T pol cap {#a#} ws s' b2" "topic_map (registry b) \<subseteq>\<^sub>m topic_map (registry b2)"
    by auto
  have "broker_rel T pol cap (holds (Some a)) ws s' b2" using 1(6) by simp
  from destroy_rel[OF this] obtain b3 where
    b3: "destroy (Some a) b2 = Some b3" "broker_rel T pol cap {#} ws s' b3" "registry b3 = registry b2" by blast
  have "poll world_bus (\<lambda>b p. ((b, snd (fst p)), snd p)) (recorded (reacting react)) ((b, f, u), []) =
      Some (((b3, f, u'), calls), True)"
    using 1(1-3) b3(1) by (simp add: poll_def Let_def)
  then show ?thesis using 1(4,5,7) b3(2,3) by auto
qed

lemma poll_idle:
  assumes "broker_rel T pol cap {#} ws s b" "pending s = []"
  shows "poll world_bus (\<lambda>b p. ((b, snd (fst p)), snd p)) (recorded (reacting react)) ((b, f, u), []) =
      Some (((b, f, u), []), False)"
proof -
  have "queued b = []" "bus_ok {#} b" using assms by (simp_all add: broker_rel_def)
  then show ?thesis using dequeue_into_empty[of "{#}" b None] by (simp add: poll_def)
qed

section \<open>The loop after \<open>stop\<close>\<close>

text \<open>Handlers that do not publish; with others the loop may go on for ever.\<close>

definition silent :: "(handler_ref \<Rightarrow> 'd \<Rightarrow> 'u \<Rightarrow> 'u) \<Rightarrow> handler_ref \<Rightarrow> 'd \<Rightarrow> 'u \<Rightarrow> ('d, 'u) reaction" where
  "silent g h d u = Finish (g h d u) False"

lemma broker_calls_silent: "broker_calls pol cap (silent g) xs (s, u) = (s, fold (\<lambda>(h, d). g h d) xs u)"
  by (induction xs arbitrary: u) (auto simp: silent_def)

lemma drain_loop_rel:
  assumes "broker_rel T pol cap (holds old) ws s b" and pol: "pol \<in> {ReturnFalse, DropNewest, DropOldest}"
    and T: "finite T" "card T + 1 < 2 ^ 32" "\<forall>t\<in>T. concrete (splitLevels t)"
    and "issued (subs s) + 1 < 2 ^ 64"
  shows "\<exists>b' p css.
    drain_loop world_bus (\<lambda>b p. ((b, snd (fst p)), snd p)) (recorded (reacting (silent g))) old ((b, f, u), log) =
      Some (((b', f, fold (\<lambda>(h, d). g h d) (concat css) u), log @ concat css), p) \<and>
    list_all2 (\<lambda>x calls. recipients x (subs s) calls) (pending s) css \<and>
    broker_rel T pol cap (holds p) ws (s\<lparr>pending := []\<rparr>) b'"
  using assms(1,6)
proof (induction "pending s" arbitrary: s b old u log)
  case Nil
  have "queued b = []" "bus_ok (holds old) b" using Nil by (simp_all add: broker_rel_def)
  then have "dequeue_into old b = Some (b, False, old)" by (intro dequeue_into_empty)
  moreover have "s\<lparr>pending := []\<rparr> = s" using Nil.hyps by simp
  then have "broker_rel T pol cap (holds old) ws (s\<lparr>pending := []\<rparr>) b" using Nil.prems(1) by (simp only:)
  ultimately show ?case
    by (intro exI[of _ b] exI[of _ old] exI[of _ "[]"]) (simp add: drain_loop.simps flip: Nil.hyps)
next
  case (Cons x rest)
  have silent: "\<forall>h d u. topics_of (silent g h d u) \<subseteq> T" by (simp add: silent_def)
  from turn_rel[OF Cons.prems(1) pol T(1,2) silent T(3) Cons.prems(2) Cons.hyps(2)[symmetric], of f u log]
  obtain b1 a msg b2 u' calls s' where 1: "dequeue_into old b = Some (b1, True, Some a)" "heap (bmem b1) a = Some msg"
      "dispatchMessage world_bus (recorded (reacting (silent g))) msg ((b1, f, u), log) = ((b2, f, u'), log @ calls)"
      "recipients x (subs s) calls" "broker_calls pol cap (silent g) calls (s\<lparr>pending := rest\<rparr>, u) = (s', u')"
      "broker_rel T pol cap {#a#} ws s' b2" by blast
  have s': "s' = s\<lparr>pending := rest\<rparr>" "u' = fold (\<lambda>(h, d). g h d) calls u"
    using 1(5) by (simp_all add: broker_calls_silent)
  have "broker_rel T pol cap (holds (Some a)) ws s' b2" using 1(6) by simp
  from Cons.hyps(1)[OF _ this, of u' "log @ calls"] obtain b' p css where
    2: "drain_loop world_bus (\<lambda>b p. ((b, snd (fst p)), snd p)) (recorded (reacting (silent g))) (Some a) ((b2, f, u'), log @ calls) =
        Some (((b', f, fold (\<lambda>(h, d). g h d) (concat css) u'), (log @ calls) @ concat css), p)"
      "list_all2 (\<lambda>x calls. recipients x (subs s) calls) rest css" "broker_rel T pol cap (holds p) ws (s\<lparr>pending := []\<rparr>) b'"
    using s'(1) Cons.prems(2) by auto
  have "drain_loop world_bus (\<lambda>b p. ((b, snd (fst p)), snd p)) (recorded (reacting (silent g))) old ((b, f, u), log) =
      drain_loop world_bus (\<lambda>b p. ((b, snd (fst p)), snd p)) (recorded (reacting (silent g))) (Some a) ((b2, f, u'), log @ calls)"
    using 1(1-3) by (subst drain_loop.simps) simp
  with 2 1(4) show ?case
    by (intro exI[of _ b'] exI[of _ p] exI[of _ "calls # css"])
      (simp add: s'(2) list_all2_Cons1 flip: Cons.hyps(2))
qed

section \<open>Runs\<close>

inductive_simps broker_step_simps:
  "broker_step pol cap react (Subscribe ty topic h) (s, u, hs) r A"
  "broker_step pol cap react (Publish x) (s, u, hs) r A"
  "broker_step pol cap react Poll (s, u, hs) r A"

inductive_simps broker_run_simps:
  "broker_run pol cap react [] A rs A'"
  "broker_run pol cap react (x # ops) A rs A'"

definition op_in :: "string set \<Rightarrow> 'd client_op \<Rightarrow> bool" where
  "op_in T x \<longleftrightarrow>
     (case x of
        Subscribe ty topic h \<Rightarrow> isWildcard topic \<or> topic \<in> T
      | Publish p \<Rightarrow> about p \<in> T
      | Handle topic cb \<Rightarrow> topic \<in> T
      | _ \<Rightarrow> True)"

definition system_rel ::
  "string set \<Rightarrow> full_policy \<Rightarrow> nat \<Rightarrow> ('d, 'u) world \<times> topic_handle list \<Rightarrow> ('d, 'u) bstate \<Rightarrow> bool" where
  "system_rel T pol cap S A \<longleftrightarrow>
     (case S of ((b, f, u), hs) \<Rightarrow> case A of (s, u', xs) \<Rightarrow>
        \<not> f \<and> u = u' \<and> list_all2 (handle_rel b) hs xs \<and> (\<exists>ws. broker_rel T pol cap {#} ws s b))"

definition subscriptions :: "('d, 'u) bstate \<Rightarrow> nat" where
  "subscriptions A = issued (subs (fst A))"

lemma broker_publish_subs: "broker_publish pol cap x s = (s', r) \<Longrightarrow> subs s' = subs s"
  by (auto simp: broker_publish_def split: if_splits)

lemma broker_react_subs: "broker_react pol cap p s = (s', u) \<Longrightarrow> subs s' = subs s"
proof (induction p arbitrary: s)
  case (Publishing x k)
  obtain s1 r where s1: "broker_publish pol cap x s = (s1, r)" by force
  then have "broker_react pol cap (k r) s1 = (s', u)" using Publishing.prems by simp
  then show ?case using Publishing.IH[OF rangeI] broker_publish_subs[OF s1] by metis
qed simp

lemma broker_calls_subs: "broker_calls pol cap react xs (s, u) = (s', u') \<Longrightarrow> subs s' = subs s"
proof (induction xs arbitrary: s u)
  case (Cons x xs)
  obtain h d where x: "x = (h, d)" by force
  obtain s1 u1 where s1: "broker_react pol cap (react h d u) s = (s1, u1)" by force
  then show ?case using Cons.IH[of s1 u1] Cons.prems x broker_react_subs[OF s1] by simp
qed simp

lemma step_rel:
  assumes rel: "system_rel T pol cap S A" and pol: "pol \<in> {ReturnFalse, DropNewest, DropOldest}"
    and T: "finite T" "card T + 1 < 2 ^ 32" "\<forall>h d u. topics_of (react h d u) \<subseteq> T" "\<forall>t\<in>T. concrete (splitLevels t)"
    and x: "op_in T x" "subscriptions A + 1 < 2 ^ 64"
  shows "\<exists>S' A' r. client_step react x S = Some (S', r) \<and> broker_step pol cap react x A r A' \<and>
    system_rel T pol cap S' A' \<and> subscriptions A' \<le> subscriptions A + 1"
proof -
  obtain b u hs s xs ws where S: "S = ((b, False, u), hs)" "A = (s, u, xs)" and hs: "list_all2 (handle_rel b) hs xs"
    and b: "broker_rel T pol cap {#} ws s b"
    using rel by (auto simp: system_rel_def split: prod.splits)
  have small: "issued (subs s) + 1 < 2 ^ 64" using x(2) S(2) by (simp add: subscriptions_def)
  show ?thesis
  proof (cases x)
    case (Subscribe ty topic h)
    have "isWildcard topic \<or> topic \<in> T" using x(1) Subscribe by (simp add: op_in_def)
    from subscribe_rel[OF b T(1,2) this small, of ty h] obtain b' r sp ws' where
      1: "subscribe ty topic h b = (b', r)" "spec_subscribe ty topic h (subs s) = (sp, r)"
        "broker_rel T pol cap {#} ws' (s\<lparr>subs := sp\<rparr>) b'" "topic_map (registry b) \<subseteq>\<^sub>m topic_map (registry b')"
        "issued sp = issued (subs s) + 1" by blast
    have "system_rel T pol cap ((b', False, u), hs) (s\<lparr>subs := sp\<rparr>, u, xs)"
      using 1(3) handles_grow[OF hs 1(4)] by (auto simp: system_rel_def)
    then show ?thesis
      using Subscribe S 1(1,5) broker_step.subscribe[OF 1(2)]
      by (intro exI[of _ "((b', False, u), hs)"] exI[of _ "(s\<lparr>subs := sp\<rparr>, u, xs)"] exI[of _ "Subscribed r"])
        (simp add: subscriptions_def)
  next
    case (Unsubscribe i)
    have "system_rel T pol cap ((unsubscribe i b, False, u), hs) (s\<lparr>subs := spec_unsubscribe i (subs s)\<rparr>, u, xs)"
      using unsubscribe_rel[OF b, of i] handles_grow[OF hs, of "unsubscribe i b"]
      by (auto simp: system_rel_def registry_unsubscribe)
    then show ?thesis
      using Unsubscribe S broker_step.unsubscribe
      by (fastforce simp: subscriptions_def spec_unsubscribe_def)
  next
    case (Publish y)
    obtain ty topic d cb where y: "y = (ty, topic, d, cb)" by (cases y)
    have "topic \<in> T" using x(1) Publish y by (simp add: op_in_def about_def)
    from publish_rel[OF b pol T(1,2) this, of ty d cb] obtain b' r s' where
      1: "publish [] ty topic d cb b = Some (b', Some r)" "broker_publish pol cap y s = (s', r)"
        "broker_rel T pol cap {#} ws s' b'" "grown b b'" unfolding y by blast
    have "system_rel T pol cap ((b', False, u), hs) (s', u, xs)"
      using 1(3,4) handles_grow[OF hs] by (auto simp: system_rel_def grown_def)
    then show ?thesis
      using Publish S 1(1) broker_step.publish[OF 1(2)] broker_publish_subs[OF 1(2)] y
      by (intro exI[of _ "((b', False, u), hs)"] exI[of _ "(s', u, xs)"] exI[of _ "Published r"])
        (simp add: subscriptions_def)
  next
    case (Handle topic cb)
    have "topic \<in> T" using x(1) Handle by (simp add: op_in_def)
    from make_handle_rel[OF b T(1,2) this, of cb] obtain b' h where
      1: "make_handle topic cb b = (b', h)" "broker_rel T pol cap {#} ws s b'" "handle_rel b' h (topic, cb)"
        "topic_map (registry b) \<subseteq>\<^sub>m topic_map (registry b')" by blast
    have "system_rel T pol cap ((b', False, u), hs @ [h]) (s, u, xs @ [(topic, cb)])"
      using 1(2,3) handles_grow[OF hs 1(4)] by (auto simp: system_rel_def list_all2_appendI)
    then show ?thesis
      using Handle S 1(1) broker_step.handle
      by (intro exI[of _ "((b', False, u), hs @ [h])"] exI[of _ "(s, u, xs @ [(topic, cb)])"] exI[of _ Returned])
        (simp add: subscriptions_def)
  next
    case (Publish_through k ty d)
    have len: "length hs = length xs" using hs by (rule list_all2_lengthD)
    show ?thesis
    proof (cases "k < length hs")
      case False
      then show ?thesis
        using Publish_through S rel len broker_step.no_handle[of k xs]
        by (intro exI[of _ S] exI[of _ A] exI[of _ Returned]) simp
    next
      case True
      obtain topic cb where k: "xs ! k = (topic, cb)" by force
      have "handle_rel b (hs ! k) (topic, cb)" using list_all2_nthD[OF hs True] k by simp
      from handle_publish_rel[OF b pol this, of ty d] obtain b' r s' where
        1: "handle_publish [] ty (hs ! k) d b = Some (b', Some r)" "broker_publish pol cap (ty, topic, d, cb) s = (s', r)"
          "broker_rel T pol cap {#} ws s' b'" "topic_map (registry b) \<subseteq>\<^sub>m topic_map (registry b')" by blast
      have "system_rel T pol cap ((b', False, u), hs) (s', u, xs)"
        using 1(3) handles_grow[OF hs 1(4)] by (auto simp: system_rel_def)
      then show ?thesis
        using Publish_through S 1(1) broker_step.publish_through[OF _ k 1(2)] broker_publish_subs[OF 1(2)] True len
        by (intro exI[of _ "((b', False, u), hs)"] exI[of _ "(s', u, xs)"] exI[of _ "Published r"])
          (simp add: subscriptions_def)
    qed
  next
    case Poll
    show ?thesis
    proof (cases "pending s")
      case Nil
      then show ?thesis
        using Poll S rel poll_idle[OF b Nil, of react False u] broker_step.idle[OF Nil]
        by (intro exI[of _ S] exI[of _ A] exI[of _ Idle]) simp
    next
      case (Cons y rest)
      from poll_rel[OF b pol T small Cons, of False u] obtain b' u' calls s' where
        1: "poll world_bus (\<lambda>b p. ((b, snd (fst p)), snd p)) (recorded (reacting react)) ((b, False, u), []) =
            Some (((b', False, u'), calls), True)"
          "recipients y (subs s) calls" "broker_calls pol cap react calls (s\<lparr>pending := rest\<rparr>, u) = (s', u')"
          "broker_rel T pol cap {#} ws s' b'" "topic_map (registry b) \<subseteq>\<^sub>m topic_map (registry b')" by blast
      have "system_rel T pol cap ((b', False, u'), hs) (s', u', xs)"
        using 1(4) handles_grow[OF hs 1(5)] by (auto simp: system_rel_def)
      then show ?thesis
        using Poll S 1(1) broker_step.deliver[OF Cons 1(2,3)] broker_calls_subs[OF 1(3)]
        by (intro exI[of _ "((b', False, u'), hs)"] exI[of _ "(s', u', xs)"] exI[of _ "Called calls"])
          (simp add: subscriptions_def)
    qed
  qed
qed

lemma run_rel:
  assumes "system_rel T pol cap S A" and pol: "pol \<in> {ReturnFalse, DropNewest, DropOldest}"
    and T: "finite T" "card T + 1 < 2 ^ 32" "\<forall>h d u. topics_of (react h d u) \<subseteq> T" "\<forall>t\<in>T. concrete (splitLevels t)"
    and "list_all (op_in T) ops" "subscriptions A + length ops < 2 ^ 64"
  shows "\<exists>S' A' rs. client_run react ops S = Some (S', rs) \<and> broker_run pol cap react ops A rs A' \<and>
    system_rel T pol cap S' A'"
  using assms(1,7,8)
proof (induction ops arbitrary: S A)
  case Nil
  then show ?case by (intro exI[of _ S] exI[of _ A] exI[of _ "[]"]) (simp add: broker_run.nil)
next
  case (Cons x ops)
  have "op_in T x" "subscriptions A + 1 < 2 ^ 64" using Cons.prems(2,3) by simp_all
  from step_rel[OF Cons.prems(1) pol T this] obtain S1 A1 r where
    1: "client_step react x S = Some (S1, r)" "broker_step pol cap react x A r A1" "system_rel T pol cap S1 A1"
      "subscriptions A1 \<le> subscriptions A + 1" by blast
  have "list_all (op_in T) ops" "subscriptions A1 + length ops < 2 ^ 64" using Cons.prems(2,3) 1(4) by simp_all
  from Cons.IH[OF 1(3) this] obtain S' A' rs where
    "client_run react ops S1 = Some (S', rs)" "broker_run pol cap react ops A1 rs A'" "system_rel T pol cap S' A'" by blast
  then show ?case using 1(1) broker_run.cons[OF 1(2)] by fastforce
qed

lemma step_subscriptions: "broker_step pol cap react x A r A' \<Longrightarrow> subscriptions A' \<le> subscriptions A + 1"
  by (induction rule: broker_step.induct)
    (auto simp: subscriptions_def spec_unsubscribe_def spec_subscribe_def Let_def
      dest!: broker_publish_subs broker_calls_subs split: if_splits option.splits)

lemma run_subscriptions:
  "broker_run pol cap react ops A rs A' \<Longrightarrow> subscriptions A' \<le> subscriptions A + length ops"
  by (induction rule: broker_run.induct) (auto dest!: step_subscriptions)

lemma system_rel_new:
  assumes "unat capacity \<le> 2 ^ 63"
  shows "system_rel T pol (unat (roundUpPowerOf2 (max 2 capacity)))
    ((bus_new hw mem_new capacity n pol :: 'd bus, False, u), []) (broker_new, u, [])"
proof -
  let ?b = "bus_new hw mem_new capacity n pol :: 'd bus"
  have "refines (\<lambda>_. 0) (subs broker_new) ?b" using refines_new by (simp add: broker_new_def)
  moreover have "bus_ok {#} ?b" "queued ?b = []" by (rule bus_new_ok[OF assms mem_ok_new])+
  moreover have "lfq_cap (queue ?b) = unat (roundUpPowerOf2 (max 2 capacity))"
    using lfq_new_inv(4)[OF assms] by (simp add: bus_new_def)
  ultimately have "broker_rel T pol (unat (roundUpPowerOf2 (max 2 capacity))) {#} (\<lambda>_. 0) broker_new ?b"
    by (simp add: broker_rel_def broker_new_def bus_new_def registry_new_def mem_new_def)
  then show ?thesis by (auto simp: system_rel_def)
qed

section \<open>The property\<close>

text \<open>C1: the whole bus with one dispatcher and a non-blocking policy refines the broker. For any
  sequence of calls by clients and turns of the dispatcher, with handlers that publish themselves and
  look at the results, on fewer than \<open>2 ^ 32 - 1\<close> topics without wildcards: nothing undefined happens,
  every call returns or throws what the broker says, every turn calls exactly the recipients of the
  oldest publication still queued, the drop callbacks called are the broker's in the same order, and
  at the end the queued messages are the pending publications, with no other message on the heap than
  these and the ones in the pools.\<close>

theorem bus_refines_broker:
  assumes "unat capacity \<le> 2 ^ 63" and "pol \<in> {ReturnFalse, DropNewest, DropOldest}"
    and "finite T" and "card T + 1 < 2 ^ 32" and "\<forall>t\<in>T. concrete (splitLevels t)"
    and "\<forall>h d u. topics_of (react h d u) \<subseteq> T"
    and "list_all (op_in T) ops" and "length ops < 2 ^ 64"
  shows "\<exists>b u' hs rs s xs.
    client_run react ops ((bus_new hw mem_new capacity n pol, False, u), []) = Some (((b, False, u'), hs), rs) \<and>
    broker_run pol (unat (roundUpPowerOf2 (max 2 capacity))) react ops (broker_new, u, []) rs (s, u', xs) \<and>
    dropped (bmem b) = drops s \<and> list_all2 (carries b) (queued b) (pending s) \<and> bus_ok {#} b"
proof -
  have "subscriptions (broker_new :: 'a broker, u, []) + length ops < 2 ^ 64"
    using assms(8) by (simp add: subscriptions_def broker_new_def spec_new_def)
  from run_rel[OF system_rel_new[OF assms(1)] assms(2,3,4,6,5,7) this] show ?thesis
    by (fastforce simp: system_rel_def broker_rel_def split: prod.splits)
qed

text \<open>C6: after any run with handlers that do not publish, the loop that \<open>dispatchLoop\<close> runs after \<open>stop\<close>
  returns; it has called exactly the recipients of each pending publication, one publication after
  the other, and leaves the queue empty and no message held: every message is back in a pool.\<close>

theorem drain_delivers:
  assumes "unat capacity \<le> 2 ^ 63" and "pol \<in> {ReturnFalse, DropNewest, DropOldest}"
    and "finite T" and "card T + 1 < 2 ^ 32" and "\<forall>t\<in>T. concrete (splitLevels t)"
    and "list_all (op_in T) ops" and "length ops + 1 < 2 ^ 64"
  shows "\<exists>b hs rs u' s xs b' css.
    client_run (silent g) ops ((bus_new hw mem_new capacity n pol, False, u), []) = Some (((b, False, u'), hs), rs) \<and>
    broker_run pol (unat (roundUpPowerOf2 (max 2 capacity))) (silent g) ops (broker_new, u, []) rs (s, u', xs) \<and>
    drain_rest (\<lambda>p. fst (fst p)) (\<lambda>b p. ((b, snd (fst p)), snd p)) (recorded (reacting (silent g))) ((b, False, u'), []) =
      Some ((b', False, fold (\<lambda>(h, d). g h d) (concat css) u'), concat css) \<and>
    list_all2 (\<lambda>x calls. recipients x (subs s) calls) (pending s) css \<and>
    queued b' = [] \<and> dropped (bmem b') = drops s \<and> dom (heap (bmem b')) = pooled (bmem b')"
proof -
  have silent: "\<forall>h d u. topics_of (silent g h d u) \<subseteq> T" by (simp add: silent_def)
  have len: "subscriptions (broker_new :: 'a broker, u, []) + length ops < 2 ^ 64"
    using assms(7) by (simp add: subscriptions_def broker_new_def spec_new_def)
  from run_rel[OF system_rel_new[OF assms(1)] assms(2,3,4) silent assms(5,6) len] obtain b u' hs s xs rs ws where
    run: "client_run (silent g) ops ((bus_new hw mem_new capacity n pol, False, u), []) = Some (((b, False, u'), hs), rs)"
      "broker_run pol (unat (roundUpPowerOf2 (max 2 capacity))) (silent g) ops (broker_new, u, []) rs (s, u', xs)"
      "broker_rel T pol (unat (roundUpPowerOf2 (max 2 capacity))) {#} ws s b"
    by (fastforce simp: system_rel_def split: prod.splits)
  have "issued (subs s) \<le> length ops"
    using run_subscriptions[OF run(2)] by (simp add: subscriptions_def broker_new_def spec_new_def)
  then have small: "issued (subs s) + 1 < 2 ^ 64" using assms(7) by simp
  have "broker_rel T pol (unat (roundUpPowerOf2 (max 2 capacity))) (holds None) ws s b" using run(3) by simp
  from drain_loop_rel[OF this assms(2-5) small, of g False u' "[]"] obtain b1 p css where
    1: "drain_loop world_bus (\<lambda>b p. ((b, snd (fst p)), snd p)) (recorded (reacting (silent g))) None ((b, False, u'), []) =
        Some (((b1, False, fold (\<lambda>(h, d). g h d) (concat css) u'), concat css), p)"
      "list_all2 (\<lambda>x calls. recipients x (subs s) calls) (pending s) css"
      "broker_rel T pol (unat (roundUpPowerOf2 (max 2 capacity))) (holds p) ws (s\<lparr>pending := []\<rparr>) b1"
    by auto
  from destroy_rel[OF 1(3)] obtain b' where
    b': "destroy p b1 = Some b'" "broker_rel T pol (unat (roundUpPowerOf2 (max 2 capacity))) {#} ws (s\<lparr>pending := []\<rparr>) b'" by blast
  have "drain_rest world_bus (\<lambda>b p. ((b, snd (fst p)), snd p)) (recorded (reacting (silent g))) ((b, False, u'), []) =
      Some ((b', False, fold (\<lambda>(h, d). g h d) (concat css) u'), concat css)"
    using 1(1) b'(1) by (simp add: drain_rest_def)
  moreover have "queued b' = []" "dropped (bmem b') = drops s" using b'(2) by (simp_all add: broker_rel_def)
  moreover have "dom (heap (bmem b')) = pooled (bmem b')"
    using b'(2) \<open>queued b' = []\<close> by (simp add: broker_rel_def bus_ok_def mem_ok_def)
  ultimately show ?thesis using run(1,2) 1(2) by blast
qed

text \<open>A handler of a wildcard answers the first message by one of its own, on a topic nobody listens to.\<close>

definition echo :: "handler_ref \<Rightarrow> nat \<Rightarrow> nat \<Rightarrow> (nat, nat) reaction" where
  "echo h d u = (if d = 7 then Publishing (1, ''c'', 8, None) (\<lambda>r. Finish (u + 1) r) else Finish u False)"

definition echo_ops :: "nat client_op list" where
  "echo_ops = [Subscribe 1 ''a/#'' 5, Publish (1, ''a/b'', 7, None), Poll, Poll, Poll]"

theorem bus_refines_broker_witness:
  "\<exists>b hs. client_run echo echo_ops ((bus_new 1 mem_new 2 1 DropOldest, False, 0), []) =
     Some (((b, False, 1), hs), [Subscribed (Inr 1), Published True, Called [(5, 7)], Called [], Idle])"
proof -
  let ?T = "{''a/b'', ''c''}"
  have f: "isWildcard ''a/#''" "\<not> misplaced_hash ''a/#''" "concrete (splitLevels ''a/b'')" "concrete (splitLevels ''c'')"
    "level_match (splitLevels ''a/#'') (splitLevels ''a/b'')" "\<not> level_match (splitLevels ''a/#'') (splitLevels ''c'')"
    by code_simp+
  have cap: "unat (roundUpPowerOf2 (max 2 (2 :: size_t))) = 2" by code_simp
  have ops: "list_all (op_in ?T) echo_ops" "\<forall>h d u. topics_of (echo h d u) \<subseteq> ?T" "length echo_ops < 2 ^ 64"
    using f(1) by (simp_all add: echo_ops_def op_in_def about_def echo_def)
  have T: "unat (2 :: size_t) \<le> 2 ^ 63" "DropOldest \<in> {ReturnFalse, DropNewest, DropOldest}" "finite ?T"
    "card ?T + 1 < 2 ^ 32" "\<forall>t\<in>?T. concrete (splitLevels t)"
    using f(3,4) by simp_all
  from bus_refines_broker[where hw = 1 and n = 1 and u = 0, OF T ops(2,1,3), unfolded cap]
  obtain b :: "nat bus" and u' hs rs s xs where
    r: "client_run echo echo_ops ((bus_new 1 mem_new 2 1 DropOldest, False, 0), []) = Some (((b, False, u'), hs), rs)"
      "broker_run DropOldest 2 echo echo_ops (broker_new, 0, []) rs (s, u', xs)"
    by (elim exE conjE) (rule that)
  let ?step = "broker_step DropOldest 2 echo"
  let ?sp = "\<lparr>live = [\<lparr>s_id = 1, s_pattern = ''a/#'', s_type = 1, s_handler = 5\<rparr>], topic_types = Map.empty, issued = 1\<rparr>"
  let ?s = "\<lambda>p. (\<lparr>subs = ?sp, pending = p, drops = []\<rparr> :: nat broker)"
  have 1: "?step (Subscribe 1 ''a/#'' 5) (broker_new, 0, []) r A \<longleftrightarrow> r = Subscribed (Inr 1) \<and> A = (?s [], 0, [])" for r A
    using f(1,2) by (cases A) (auto simp: broker_step_simps spec_subscribe_def broker_new_def spec_new_def simp del: One_nat_def)
  have 2: "?step (Publish x) (?s [], 0, []) r A \<longleftrightarrow> r = Published True \<and> A = (?s [x], 0, [])" for x r A
    by (cases A) (auto simp: broker_step_simps broker_publish_def simp del: One_nat_def)
  have to: "recipients (1, ''a/b'', 7, None) ?sp calls \<longleftrightarrow> calls = [(5, 7)]"
      "recipients (1, ''c'', 8, None) ?sp calls' \<longleftrightarrow> calls' = []" for calls :: "(handler_ref \<times> nat) list" and calls'
    using f(1,5,6) by (simp_all add: recipients_def wants_def wild_def del: One_nat_def)
  have 3: "?step Poll (?s [(1, ''a/b'', 7, None)], 0, []) r A \<longleftrightarrow> r = Called [(5, 7)] \<and> A = (?s [(1, ''c'', 8, None)], 1, [])" for r A
    by (cases A) (auto simp: broker_step_simps to broker_publish_def echo_def simp del: One_nat_def)
  have 4: "?step Poll (?s [(1, ''c'', 8, None)], 1, []) r A \<longleftrightarrow> r = Called [] \<and> A = (?s [], 1, [])" for r A
    by (cases A) (auto simp: broker_step_simps to echo_def simp del: One_nat_def)
  have 5: "?step Poll (?s [], 1, []) r A \<longleftrightarrow> r = Idle \<and> A = (?s [], 1, [])" for r A
    by (cases A) (auto simp: broker_step_simps simp del: One_nat_def)
  have "rs = [Subscribed (Inr 1), Published True, Called [(5, 7)], Called [], Idle] \<and> u' = 1"
    using r(2) unfolding echo_ops_def broker_run_simps 1 by (auto simp: broker_run_simps 2 3 4 5 simp del: One_nat_def)
  then show ?thesis using r(1) by blast
qed

text \<open>Two messages wait when the bus stops; their handler adds them up.\<close>

definition sum_ops :: "nat client_op list" where
  "sum_ops = [Subscribe 1 ''a'' 5, Publish (1, ''a'', 7, None), Publish (1, ''a'', 8, None)]"

theorem drain_delivers_witness:
  "\<exists>b hs rs. client_run (silent (\<lambda>h d u. u + d)) sum_ops ((bus_new 1 mem_new 2 1 DropNewest, False, 0), []) =
      Some (((b, False, 0), hs), rs) \<and>
    (\<exists>b'. drain_rest (\<lambda>p. fst (fst p)) (\<lambda>b p. ((b, snd (fst p)), snd p)) (recorded (reacting (silent (\<lambda>h d u. u + d))))
        ((b, False, 0), []) = Some ((b', False, 15 :: nat), [(5, 7), (5, 8)]) \<and> queued b' = [])"
proof -
  let ?T = "{''a''}" and ?g = "\<lambda>h d u. u + d :: nat"
  have f: "\<not> isWildcard ''a''" "concrete (splitLevels ''a'')"
    by code_simp+
  have cap: "unat (roundUpPowerOf2 (max 2 (2 :: size_t))) = 2" by code_simp
  have ops: "list_all (op_in ?T) sum_ops" "length sum_ops + 1 < 2 ^ 64"
    by (simp_all add: sum_ops_def op_in_def about_def)
  have T: "unat (2 :: size_t) \<le> 2 ^ 63" "DropNewest \<in> {ReturnFalse, DropNewest, DropOldest}" "finite ?T"
    "card ?T + 1 < 2 ^ 32" "\<forall>t\<in>?T. concrete (splitLevels t)"
    using f(2) by simp_all
  from drain_delivers[where hw = 1 and n = 1 and u = 0 and g = ?g, OF T ops, unfolded cap]
  obtain b :: "nat bus" and hs rs u' s xs b' css where
    r: "client_run (silent ?g) sum_ops ((bus_new 1 mem_new 2 1 DropNewest, False, 0), []) = Some (((b, False, u'), hs), rs)"
      "broker_run DropNewest 2 (silent ?g) sum_ops (broker_new, 0, []) rs (s, u', xs)"
      "drain_rest world_bus (\<lambda>b p. ((b, snd (fst p)), snd p)) (recorded (reacting (silent ?g))) ((b, False, u'), []) =
        Some ((b', False, fold (\<lambda>(h, d). ?g h d) (concat css) u'), concat css)"
      "list_all2 (\<lambda>x calls. recipients x (subs s) calls) (pending s) css" "queued b' = []"
    by (elim exE conjE) (rule that)
  let ?step = "broker_step DropNewest 2 (silent ?g)"
  let ?sp = "\<lparr>live = [\<lparr>s_id = 1, s_pattern = ''a'', s_type = 1, s_handler = 5\<rparr>], topic_types = [''a'' \<mapsto> 1], issued = 1\<rparr>"
  let ?s = "\<lambda>p. (\<lparr>subs = ?sp, pending = p, drops = []\<rparr> :: nat broker)"
  let ?x = "\<lambda>d. (1, ''a'', d, None) :: nat publication"
  have 1: "?step (Subscribe 1 ''a'' 5) (broker_new, 0, []) r A \<longleftrightarrow> r = Subscribed (Inr 1) \<and> A = (?s [], 0, [])" for r A
    using f(1) by (cases A) (auto simp: broker_step_simps spec_subscribe_def broker_new_def spec_new_def simp del: One_nat_def)
  have 2: "?step (Publish x) (?s [], 0, []) r A \<longleftrightarrow> r = Published True \<and> A = (?s [x], 0, [])" for x r A
    by (cases A) (auto simp: broker_step_simps broker_publish_def simp del: One_nat_def)
  have 3: "?step (Publish x) (?s [y], 0, []) r A \<longleftrightarrow> r = Published True \<and> A = (?s [y, x], 0, [])" for x y r A
    by (cases A) (auto simp: broker_step_simps broker_publish_def simp del: One_nat_def)
  have s: "s = ?s [?x 7, ?x 8]" "u' = 0"
    using r(2) unfolding sum_ops_def broker_run_simps 1 by (auto simp: broker_run_simps 2 3 simp del: One_nat_def)
  have to: "recipients (?x d) ?sp calls \<longleftrightarrow> calls = [(5, d)]" for d calls
    using f by (simp add: recipients_def wants_def wild_def del: One_nat_def)
  have "css = [[(5, 7)], [(5, 8)]]"
    using r(4) by (auto simp: s list_all2_Cons1 to simp del: One_nat_def)
  then show ?thesis using r(1,3,5) s(2) by auto
qed

end
