(* ===== verification/Logging.thy ===== *)
theory Logging
  imports Prelude
begin

text \<open>
  \<open>log.hpp\<close> and \<open>log.cpp\<close>: the registry of loggers with its cached level and cached default
  logger, the filters and the formatting interface, and the part of spdlog's \<open>logger\<close> they rest on.
  Loggers are shared objects in a store. Every function runs under the registry's mutex or is one
  atomic load. The state refines an abstract log: a threshold, thresholds per module, and what has
  been written.
\<close>

section \<open>Levels\<close>

text \<open>\<open>enum class Level : uint8_t\<close>: a cast can produce any byte.\<close>

type_synonym level = "8 word"

abbreviation Trace :: level where "Trace \<equiv> 0"
abbreviation Debug :: level where "Debug \<equiv> 1"
abbreviation Info :: level where "Info \<equiv> 2"
abbreviation Warn :: level where "Warn \<equiv> 3"
abbreviation Error :: level where "Error \<equiv> 4"
abbreviation Critical :: level where "Critical \<equiv> 5"
abbreviation Off :: level where "Off \<equiv> 6"

text \<open>\<open>spdlog::level::level_enum\<close> is an \<open>int\<close>, from \<open>trace = 0\<close> to \<open>off = 6\<close>.\<close>

type_synonym level_enum = int

definition to_spdlog_level :: "level \<Rightarrow> level_enum" where
  "to_spdlog_level l =
     (if l = Trace then 0
      else if l = Debug then 1
      else if l = Info then 2
      else if l = Warn then 3
      else if l = Error then 4
      else if l = Critical then 5
      else if l = Off then 6
      else 2)"

record log_options =
  level :: level
  flush_level :: level
  logger_name :: string
  pattern :: string
  file_path :: string
  max_file_size :: size_t
  max_files :: size_t
  truncate_file :: bool
  console :: bool

definition default_options :: log_options where
  "default_options =
     \<lparr>level = Info, flush_level = Warn, logger_name = ''livio_ark'',
      pattern = ''[%Y-%m-%d %H:%M:%S.%e] [%^%l%$] [%n] %v'', file_path = [],
      max_file_size = 10 * 1024 * 1024, max_files = 3, truncate_file = False, console = True\<rparr>"

section \<open>Loggers and sinks of spdlog\<close>

datatype sink_kind = ConsoleSink | RotatingFile string size_t size_t bool

text \<open>\<open>written\<close> is what the sink has been given, \<open>pending\<close> how many of these are not yet flushed.\<close>

record sink =
  kind :: sink_kind
  sink_pattern :: string
  written :: "(level_enum \<times> string) list"
  pending :: nat

record logger =
  lname :: string
  sinks :: "sink list"
  lg_level :: level_enum
  lg_flush_level :: level_enum

definition logger_new :: "string \<Rightarrow> sink list \<Rightarrow> logger" where
  "logger_new n ss = \<lparr>lname = n, sinks = ss, lg_level = 2, lg_flush_level = 6\<rparr>"

definition logger_should_log :: "logger \<Rightarrow> level_enum \<Rightarrow> bool" where
  "logger_should_log lg l \<longleftrightarrow> l \<ge> lg_level lg"

definition logger_flush :: "logger \<Rightarrow> logger" where
  "logger_flush lg = lg\<lparr>sinks := map (\<lambda>s. s\<lparr>pending := 0\<rparr>) (sinks lg)\<rparr>"

definition should_flush :: "logger \<Rightarrow> level_enum \<Rightarrow> bool" where
  "should_flush lg l \<longleftrightarrow> l \<ge> lg_flush_level lg \<and> l \<noteq> 6"

definition sink_it :: "level_enum \<Rightarrow> string \<Rightarrow> logger \<Rightarrow> logger" where
  "sink_it l msg lg =
     (let lg1 = lg\<lparr>sinks := map (\<lambda>s. s\<lparr>written := written s @ [(l, msg)], pending := pending s + 1\<rparr>) (sinks lg)\<rparr>
      in if should_flush lg l then logger_flush lg1 else lg1)"

definition logger_log :: "level_enum \<Rightarrow> string \<Rightarrow> logger \<Rightarrow> logger" where
  "logger_log l msg lg = (if logger_should_log lg l then sink_it l msg lg else lg)"

section \<open>The registry\<close>

text \<open>The build flag and whether a file can be opened.\<close>

record log_env =
  ndebug :: bool
  can_open :: "string \<Rightarrow> bool"

datatype log_error = SpdlogEx | FormatError

record log_registry =
  options :: log_options
  default_logger :: "nat option"
  modules :: "string \<rightharpoonup> nat"
  default_level :: int
  default_cache :: "nat option"
  loggers :: "nat \<rightharpoonup> logger"
  fresh :: nat

definition log_new :: log_registry where
  "log_new =
     \<lparr>options = default_options, default_logger = None, modules = Map.empty, default_level = uint Info,
      default_cache = None, loggers = Map.empty, fresh = 0\<rparr>"

definition new_sink :: "sink_kind \<Rightarrow> sink" where
  "new_sink k = \<lparr>kind = k, sink_pattern = ''%+'', written = [], pending = 0\<rparr>"

text \<open>The constructor of the rotating sink throws for a zero size, more than 200000 files, or a
  file that cannot be opened.\<close>

definition rotating_file_sink :: "log_env \<Rightarrow> string \<Rightarrow> size_t \<Rightarrow> size_t \<Rightarrow> bool \<Rightarrow> sink option" where
  "rotating_file_sink env path limit files on_open =
     (if limit = 0 \<or> files > 200000 \<or> \<not> can_open env path then None
      else Some (new_sink (RotatingFile path limit files on_open)))"

definition create_sinks :: "log_env \<Rightarrow> log_options \<Rightarrow> sink list option" where
  "create_sinks env opt =
     (let enable_console = (if ndebug env then console opt else True);
          ss = (if enable_console then [new_sink ConsoleSink] else [])
      in if file_path opt \<noteq> [] then
           map_option (\<lambda>f. ss @ [f])
             (rotating_file_sink env (file_path opt) (max_file_size opt) (max_files opt) (truncate_file opt))
         else Some ss)"

definition make_logger :: "log_env \<Rightarrow> string \<Rightarrow> log_options \<Rightarrow> logger option" where
  "make_logger env n opt =
     map_option
       (\<lambda>ss. let lg = logger_new n ss;
                 lg = lg\<lparr>lg_level := to_spdlog_level (level opt)\<rparr>;
                 lg = lg\<lparr>sinks := map (\<lambda>s. s\<lparr>sink_pattern := pattern opt\<rparr>) (sinks lg)\<rparr>
             in lg\<lparr>lg_flush_level := to_spdlog_level (flush_level opt)\<rparr>)
       (create_sinks env opt)"

definition new_logger :: "logger \<Rightarrow> log_registry \<Rightarrow> log_registry \<times> nat" where
  "new_logger lg s = (s\<lparr>loggers := (loggers s)(fresh s \<mapsto> lg), fresh := fresh s + 1\<rparr>, fresh s)"

definition on_logger :: "(logger \<Rightarrow> logger) \<Rightarrow> nat \<Rightarrow> log_registry \<Rightarrow> log_registry" where
  "on_logger f r s = s\<lparr>loggers := (loggers s)(r := map_option f (loggers s r))\<rparr>"

definition ensure_default :: "log_env \<Rightarrow> log_registry \<Rightarrow> log_registry \<times> (log_error + nat)" where
  "ensure_default env s =
     (case default_logger s of
        Some r \<Rightarrow> (s, Inr r)
      | None \<Rightarrow>
          (case make_logger env (logger_name (options s)) (options s) of
             None \<Rightarrow> (s, Inl SpdlogEx)
           | Some lg \<Rightarrow> (case new_logger lg s of (s1, r) \<Rightarrow> (s1\<lparr>default_logger := Some r\<rparr>, Inr r))))"

definition ensure_module :: "log_env \<Rightarrow> string \<Rightarrow> log_registry \<Rightarrow> log_registry \<times> (log_error + nat)" where
  "ensure_module env md s =
     (case modules s md of
        Some r \<Rightarrow> (s, Inr r)
      | None \<Rightarrow>
          (case make_logger env md ((options s)\<lparr>logger_name := md\<rparr>) of
             None \<Rightarrow> (s, Inl SpdlogEx)
           | Some lg \<Rightarrow> (case new_logger lg s of (s1, r) \<Rightarrow> (s1\<lparr>modules := (modules s1)(md \<mapsto> r)\<rparr>, Inr r))))"

definition log_init :: "log_env \<Rightarrow> log_options \<Rightarrow> log_registry \<Rightarrow> log_registry \<times> (log_error + unit)" where
  "log_init env opt s =
     (let s1 = s\<lparr>options := opt\<rparr> in
      case make_logger env (logger_name opt) opt of
        None \<Rightarrow> (s1, Inl SpdlogEx)
      | Some lg \<Rightarrow>
          (case new_logger lg s1 of
             (s2, r) \<Rightarrow> (s2\<lparr>default_logger := Some r, default_level := uint (level opt), default_cache := Some r\<rparr>,
                         Inr ())))"

definition set_level :: "log_env \<Rightarrow> level \<Rightarrow> log_registry \<Rightarrow> log_registry \<times> (log_error + unit)" where
  "set_level env l s =
     (let s1 = s\<lparr>options := (options s)\<lparr>level := l\<rparr>, default_level := uint l\<rparr> in
      case ensure_default env s1 of
        (s2, Inl e) \<Rightarrow> (s2, Inl e)
      | (s2, Inr r) \<Rightarrow> (on_logger (\<lambda>lg. lg\<lparr>lg_level := to_spdlog_level l\<rparr>) r s2, Inr ()))"

definition set_module_level :: "log_env \<Rightarrow> string \<Rightarrow> level \<Rightarrow> log_registry \<Rightarrow> log_registry \<times> (log_error + unit)" where
  "set_module_level env md l s =
     (case ensure_module env md s of
        (s1, Inl e) \<Rightarrow> (s1, Inl e)
      | (s1, Inr r) \<Rightarrow> (on_logger (\<lambda>lg. lg\<lparr>lg_level := to_spdlog_level l\<rparr>) r s1, Inr ()))"

definition get_level :: "log_registry \<Rightarrow> level" where
  "get_level s = word_of_int (default_level s)"

definition get_module_level :: "log_env \<Rightarrow> string \<Rightarrow> log_registry \<Rightarrow> log_registry \<times> (log_error + level)" where
  "get_module_level env md s =
     (case ensure_module env md s of
        (s1, Inl e) \<Rightarrow> (s1, Inl e)
      | (s1, Inr r) \<Rightarrow> (s1, Inr (case loggers s1 r of Some lg \<Rightarrow> word_of_int (lg_level lg) | None \<Rightarrow> 0)))"

definition should_log :: "level \<Rightarrow> log_registry \<Rightarrow> bool" where
  "should_log l s \<longleftrightarrow> uint l \<ge> default_level s"

definition should_log_module :: "log_env \<Rightarrow> string \<Rightarrow> level \<Rightarrow> log_registry \<Rightarrow> log_registry \<times> (log_error + bool)" where
  "should_log_module env md l s =
     (case ensure_module env md s of
        (s1, Inl e) \<Rightarrow> (s1, Inl e)
      | (s1, Inr r) \<Rightarrow>
          (s1, Inr (case loggers s1 r of Some lg \<Rightarrow> logger_should_log lg (to_spdlog_level l) | None \<Rightarrow> False)))"

text \<open>The loop over the unordered map, whose order does not matter, as one update.\<close>

definition log_flush :: "log_registry \<Rightarrow> log_registry" where
  "log_flush s =
     (let s1 = (case default_logger s of Some r \<Rightarrow> on_logger logger_flush r s | None \<Rightarrow> s)
      in s1\<lparr>loggers := (\<lambda>r. if r \<in> ran (modules s1) then map_option logger_flush (loggers s1 r) else loggers s1 r)\<rparr>)"

section \<open>Logging\<close>

definition detail_log :: "log_env \<Rightarrow> level \<Rightarrow> string \<Rightarrow> log_registry \<Rightarrow> log_registry \<times> (log_error + unit)" where
  "detail_log env l msg s =
     (case default_cache s of
        Some r \<Rightarrow> (on_logger (logger_log (to_spdlog_level l) msg) r s, Inr ())
      | None \<Rightarrow>
          (case ensure_default env s of
             (s1, Inl e) \<Rightarrow> (s1, Inl e)
           | (s1, Inr r) \<Rightarrow>
               (on_logger (logger_log (to_spdlog_level l) msg) r (s1\<lparr>default_cache := Some r\<rparr>), Inr ())))"

definition detail_log_module ::
    "log_env \<Rightarrow> string \<Rightarrow> level \<Rightarrow> string \<Rightarrow> log_registry \<Rightarrow> log_registry \<times> (log_error + unit)" where
  "detail_log_module env md l msg s =
     (case ensure_module env md s of
        (s1, Inl e) \<Rightarrow> (s1, Inl e)
      | (s1, Inr r) \<Rightarrow> (on_logger (logger_log (to_spdlog_level l) msg) r s1, Inr ()))"

text \<open>The arguments are formatted after the filter: \<open>None\<close> stands for a formatter that throws.\<close>

definition log_at :: "log_env \<Rightarrow> level \<Rightarrow> string option \<Rightarrow> log_registry \<Rightarrow> log_registry \<times> (log_error + unit)" where
  "log_at env l fmt s =
     (if \<not> should_log l s then (s, Inr ())
      else (case fmt of
              None \<Rightarrow> (s, Inl FormatError)
            | Some msg \<Rightarrow> detail_log env l msg s))"

definition log_module_at ::
    "log_env \<Rightarrow> string \<Rightarrow> level \<Rightarrow> string option \<Rightarrow> log_registry \<Rightarrow> log_registry \<times> (log_error + unit)" where
  "log_module_at env md l fmt s =
     (case should_log_module env md l s of
        (s1, Inl e) \<Rightarrow> (s1, Inl e)
      | (s1, Inr b) \<Rightarrow>
          if \<not> b then (s1, Inr ())
          else (case fmt of
                  None \<Rightarrow> (s1, Inl FormatError)
                | Some msg \<Rightarrow> detail_log_module env md l msg s1))"

section \<open>The macros\<close>

text \<open>\<open>LOG_INFO(...)\<close> and its family: \<open>active\<close> is \<open>LIVIO_LOG_ACTIVE_LEVEL\<close>, \<open>num\<close> the level's number.
  A macro is a statement on a state that ends normally or throws.\<close>

type_synonym 's statement = "'s \<Rightarrow> 's \<times> (log_error + unit)"

definition LOG_IMPL :: "nat \<Rightarrow> nat \<Rightarrow> log_env \<Rightarrow> level \<Rightarrow> string option \<Rightarrow> log_registry statement" where
  "LOG_IMPL active num env l fmt s = (if num \<ge> active then log_at env l fmt s else (s, Inr ()))"

definition LOGM_IMPL ::
    "nat \<Rightarrow> nat \<Rightarrow> log_env \<Rightarrow> string \<Rightarrow> level \<Rightarrow> string option \<Rightarrow> log_registry statement" where
  "LOGM_IMPL active num env md l fmt s = (if num \<ge> active then log_module_at env md l fmt s else (s, Inr ()))"

definition LOG_IF :: "bool \<Rightarrow> 's statement \<Rightarrow> 's statement" where
  "LOG_IF cond stmt s = (if cond then stmt s else (s, Inr ()))"

text \<open>The function-local static of \<open>LIVIO_ARK_LOG_ONCE\<close>, one per place in the program: its
  initialisation is retried when it throws.\<close>

definition LOG_ONCE :: "nat \<Rightarrow> 's statement \<Rightarrow> (nat set \<times> 's) statement" where
  "LOG_ONCE site stmt st =
     (case st of (once, s) \<Rightarrow>
        if site \<in> once then (st, Inr ())
        else (case stmt s of
                (s1, Inl e) \<Rightarrow> ((once, s1), Inl e)
              | (s1, Inr u) \<Rightarrow> ((insert site once, s1), Inr ())))"

section \<open>The specification\<close>

text \<open>A threshold, the thresholds of the modules seen so far, what the default logger has written
  since it was last replaced, what each module has written.\<close>

record log_spec =
  threshold :: level
  module_threshold :: "string \<rightharpoonup> level"
  out :: "(level \<times> string) list"
  module_out :: "string \<Rightarrow> (level \<times> string) list"

definition spec_log_new :: log_spec where
  "spec_log_new = \<lparr>threshold = Info, module_threshold = Map.empty, out = [], module_out = (\<lambda>_. [])\<rparr>"

text \<open>A module gets the threshold of the moment it is first named.\<close>

definition touch :: "string \<Rightarrow> log_spec \<Rightarrow> log_spec" where
  "touch md s =
     (case module_threshold s md of
        None \<Rightarrow> s\<lparr>module_threshold := (module_threshold s)(md \<mapsto> threshold s)\<rparr>
      | Some l \<Rightarrow> s)"

datatype log_op =
    Init log_options
  | SetLevel level
  | SetModuleLevel string level
  | GetLevel
  | GetModuleLevel string
  | ShouldLog level
  | ShouldLogModule string level
  | LogMsg level "string option"
  | LogModule string level "string option"
  | Flush

datatype log_result = Done | LevelIs level | Answer bool | Raised log_error

fun spec_log_op :: "log_op \<Rightarrow> log_spec \<Rightarrow> log_spec \<times> log_result" where
  "spec_log_op (Init opt) s = (s\<lparr>threshold := level opt, out := []\<rparr>, Done)"
| "spec_log_op (SetLevel l) s = (s\<lparr>threshold := l\<rparr>, Done)"
| "spec_log_op (SetModuleLevel md l) s =
     ((touch md s)\<lparr>module_threshold := (module_threshold (touch md s))(md \<mapsto> l)\<rparr>, Done)"
| "spec_log_op GetLevel s = (s, LevelIs (threshold s))"
| "spec_log_op (GetModuleLevel md) s = (touch md s, LevelIs (the (module_threshold (touch md s) md)))"
| "spec_log_op (ShouldLog l) s = (s, Answer (threshold s \<le> l))"
| "spec_log_op (ShouldLogModule md l) s =
     (touch md s, Answer (the (module_threshold (touch md s) md) \<le> l))"
| "spec_log_op (LogMsg l fmt) s =
     (if threshold s \<le> l then
        (case fmt of None \<Rightarrow> (s, Raised FormatError) | Some m \<Rightarrow> (s\<lparr>out := out s @ [(l, m)]\<rparr>, Done))
      else (s, Done))"
| "spec_log_op (LogModule md l fmt) s =
     (let s1 = touch md s in
      if the (module_threshold s1 md) \<le> l then
        (case fmt of
           None \<Rightarrow> (s1, Raised FormatError)
         | Some m \<Rightarrow> (s1\<lparr>module_out := (module_out s1)(md := module_out s1 md @ [(l, m)])\<rparr>, Done))
      else (s1, Done))"
| "spec_log_op Flush s = (s, Done)"

fun result_of :: "(log_error + unit) \<Rightarrow> log_result" where
  "result_of (Inl e) = Raised e"
| "result_of (Inr u) = Done"

fun result_with :: "('a \<Rightarrow> log_result) \<Rightarrow> log_error + 'a \<Rightarrow> log_result" where
  "result_with f (Inl e) = Raised e"
| "result_with f (Inr x) = f x"

fun run_log_op :: "log_env \<Rightarrow> log_op \<Rightarrow> log_registry \<Rightarrow> log_registry \<times> log_result" where
  "run_log_op env (Init opt) s = apsnd result_of (log_init env opt s)"
| "run_log_op env (SetLevel l) s = apsnd result_of (set_level env l s)"
| "run_log_op env (SetModuleLevel md l) s = apsnd result_of (set_module_level env md l s)"
| "run_log_op env GetLevel s = (s, LevelIs (get_level s))"
| "run_log_op env (GetModuleLevel md) s = apsnd (result_with LevelIs) (get_module_level env md s)"
| "run_log_op env (ShouldLog l) s = (s, Answer (should_log l s))"
| "run_log_op env (ShouldLogModule md l) s = apsnd (result_with Answer) (should_log_module env md l s)"
| "run_log_op env (LogMsg l fmt) s = apsnd result_of (log_at env l fmt s)"
| "run_log_op env (LogModule md l fmt) s = apsnd result_of (log_module_at env md l fmt s)"
| "run_log_op env Flush s = (log_flush s, Done)"

fun run_ops :: "('o \<Rightarrow> 's \<Rightarrow> 's \<times> 'r) \<Rightarrow> 'o list \<Rightarrow> 's \<Rightarrow> 's \<times> 'r list" where
  "run_ops f [] s = (s, [])"
| "run_ops f (x # xs) s = (case f x s of (s1, r) \<Rightarrow> (case run_ops f xs s1 of (s2, rs) \<Rightarrow> (s2, r # rs)))"

text \<open>The calls the theorems are about: enumerators only, and options whose file can be opened.\<close>

definition usable :: "log_env \<Rightarrow> log_options \<Rightarrow> bool" where
  "usable env opt \<longleftrightarrow> level opt \<le> Off \<and> create_sinks env opt \<noteq> None"

fun valid_op :: "log_env \<Rightarrow> log_op \<Rightarrow> bool" where
  "valid_op env (Init opt) = usable env opt"
| "valid_op env (SetLevel l) = (l \<le> Off)"
| "valid_op env (SetModuleLevel md l) = (l \<le> Off)"
| "valid_op env (ShouldLogModule md l) = (l \<le> Off)"
| "valid_op env (LogMsg l fmt) = (l \<le> Off)"
| "valid_op env (LogModule md l fmt) = (l \<le> Off)"
| "valid_op env op = True"

section \<open>Refinement\<close>

definition prints :: "level \<Rightarrow> (level \<times> string) list \<Rightarrow> logger \<Rightarrow> bool" where
  "prints l ms lg \<longleftrightarrow>
     l \<le> Off \<and> lg_level lg = uint l \<and> (\<forall>s \<in> set (sinks lg). written s = map (apfst uint) ms)"

definition default_ok :: "log_spec \<Rightarrow> log_registry \<Rightarrow> bool" where
  "default_ok p s \<longleftrightarrow>
     (case default_logger s of
        None \<Rightarrow> out p = []
      | Some r \<Rightarrow> \<exists>lg. loggers s r = Some lg \<and> prints (threshold p) (out p) lg)"

definition module_ok :: "log_spec \<Rightarrow> log_registry \<Rightarrow> string \<Rightarrow> bool" where
  "module_ok p s md \<longleftrightarrow>
     (case modules s md of
        None \<Rightarrow> module_threshold p md = None \<and> module_out p md = []
      | Some r \<Rightarrow> \<exists>lg l. loggers s r = Some lg \<and> module_threshold p md = Some l \<and> prints l (module_out p md) lg)"

definition refs_ok :: "log_registry \<Rightarrow> bool" where
  "refs_ok s \<longleftrightarrow>
     (\<forall>r \<ge> fresh s. loggers s r = None) \<and>
     (\<forall>md r. modules s md = Some r \<longrightarrow> default_logger s \<noteq> Some r) \<and>
     (\<forall>md md' r. modules s md = Some r \<and> modules s md' = Some r \<longrightarrow> md = md')"

definition log_refines :: "log_env \<Rightarrow> log_spec \<Rightarrow> log_registry \<Rightarrow> bool" where
  "log_refines env p s \<longleftrightarrow>
     usable env (options s) \<and> level (options s) = threshold p \<and> default_level s = uint (threshold p) \<and>
     (default_cache s = None \<or> default_cache s = default_logger s) \<and>
     default_ok p s \<and> (\<forall>md. module_ok p s md) \<and> refs_ok s"

lemma ok_other [simp]:
  "module_ok (p\<lparr>threshold := l\<rparr>) s = module_ok p s"
  "module_ok (p\<lparr>out := ms\<rparr>) s = module_ok p s"
  "module_ok p (s\<lparr>options := opt\<rparr>) = module_ok p s"
  "module_ok p (s\<lparr>default_level := k\<rparr>) = module_ok p s"
  "module_ok p (s\<lparr>default_cache := c\<rparr>) = module_ok p s"
  "refs_ok (s\<lparr>options := opt\<rparr>) = refs_ok s"
  "refs_ok (s\<lparr>default_level := k\<rparr>) = refs_ok s"
  "refs_ok (s\<lparr>default_cache := c\<rparr>) = refs_ok s"
  "default_ok p (s\<lparr>options := opt\<rparr>) = default_ok p s"
  "default_ok p (s\<lparr>default_level := k\<rparr>) = default_ok p s"
  "default_ok p (s\<lparr>default_cache := c\<rparr>) = default_ok p s"
  by (auto simp: fun_eq_iff module_ok_def refs_ok_def default_ok_def split: option.split)

lemma to_spdlog_level_uint: "l \<le> Off \<Longrightarrow> to_spdlog_level l = uint l"
proof -
  assume "l \<le> Off"
  then have "unat l \<in> {0..6}" by (simp add: word_le_nat_alt)
  then have "l \<in> of_nat ` {0..6}" by (intro image_eqI[of _ _ "unat l"]) simp_all
  moreover have "{0..6::nat} = {0, 1, 2, 3, 4, 5, 6}" by auto
  ultimately show ?thesis by (auto simp: to_spdlog_level_def)
qed

lemma create_sinks_other [simp]:
  "create_sinks env (opt\<lparr>logger_name := n\<rparr>) = create_sinks env opt"
  "create_sinks env (opt\<lparr>level := l\<rparr>) = create_sinks env opt"
  by (simp_all add: create_sinks_def)

lemma usable_new: "usable env default_options"
  by (simp add: usable_def default_options_def create_sinks_def Let_def)

lemma log_refines_new: "log_refines env spec_log_new log_new"
  using usable_new
  by (simp add: log_refines_def log_new_def spec_log_new_def default_ok_def module_ok_def refs_ok_def default_options_def)

lemma create_sinks_new: "create_sinks env opt = Some ss \<Longrightarrow> s \<in> set ss \<Longrightarrow> written s = []"
  by (auto simp: create_sinks_def Let_def new_sink_def rotating_file_sink_def split: if_splits)

lemma make_logger_usable:
  assumes "usable env opt"
  shows "\<exists>lg. make_logger env n (opt\<lparr>logger_name := m\<rparr>) = Some lg \<and> prints (level opt) [] lg"
    and "\<exists>lg. make_logger env n opt = Some lg \<and> prints (level opt) [] lg"
proof -
  obtain ss where ss: "create_sinks env opt = Some ss" "level opt \<le> Off" using assms by (auto simp: usable_def)
  show "\<exists>lg. make_logger env n (opt\<lparr>logger_name := m\<rparr>) = Some lg \<and> prints (level opt) [] lg"
      "\<exists>lg. make_logger env n opt = Some lg \<and> prints (level opt) [] lg"
    using ss create_sinks_new[OF ss(1)]
    by (auto simp: make_logger_def Let_def prints_def logger_new_def to_spdlog_level_uint)
qed

lemma log_refinesI:
  assumes "usable env (options s)" "level (options s) = threshold p" "default_level s = uint (threshold p)"
    "default_cache s = None \<or> default_cache s = default_logger s"
    "default_ok p s" "\<And>md. module_ok p s md" "refs_ok s"
  shows "log_refines env p s"
  using assms by (simp add: log_refines_def)

lemma log_refinesD:
  assumes "log_refines env p s"
  shows "usable env (options s)" "level (options s) = threshold p" "default_level s = uint (threshold p)"
    "default_cache s = None \<or> default_cache s = default_logger s"
    "default_ok p s" "module_ok p s md" "refs_ok s" "threshold p \<le> Off"
  using assms by (auto simp: log_refines_def usable_def)

text \<open>A registered logger is never at a fresh place.\<close>

lemma registered_old:
  assumes "log_refines env p s"
  shows "default_logger s = Some r \<Longrightarrow> r < fresh s" "modules s md = Some r \<Longrightarrow> r < fresh s"
proof -
  note d = log_refinesD[OF assms]
  have "loggers s r \<noteq> None \<Longrightarrow> r < fresh s" for r
    using d(7) by (meson leI refs_ok_def)
  then show "default_logger s = Some r \<Longrightarrow> r < fresh s" "modules s md = Some r \<Longrightarrow> r < fresh s"
    using d(5) d(6)[of md] by (auto simp: default_ok_def module_ok_def)
qed

lemma on_default:
  assumes ref: "log_refines env p s" and r: "default_logger s = Some r"
    and f: "\<And>lg. prints (threshold p) (out p) lg \<Longrightarrow> prints (threshold p) ms (f lg)"
  shows "log_refines env (p\<lparr>out := ms\<rparr>) (on_logger f r s)"
proof (rule log_refinesI)
  note d = log_refinesD[OF ref]
  show "default_ok (p\<lparr>out := ms\<rparr>) (on_logger f r s)"
    using d(5) r f by (auto simp: default_ok_def on_logger_def)
  show "module_ok (p\<lparr>out := ms\<rparr>) (on_logger f r s) md" for md
    using d(6)[of md] d(7) r by (auto simp: module_ok_def on_logger_def refs_ok_def split: option.split)
  show "refs_ok (on_logger f r s)" using d(7) by (auto simp: refs_ok_def on_logger_def)
qed (use log_refinesD[OF ref] in \<open>simp_all add: on_logger_def\<close>)

lemma on_module:
  assumes ref: "log_refines env p s" and r: "modules s md = Some r"
    and f: "\<And>lg l. module_threshold p md = Some l \<Longrightarrow> prints l (module_out p md) lg \<Longrightarrow> prints l' ms (f lg)"
  shows "log_refines env (p\<lparr>module_threshold := (module_threshold p)(md \<mapsto> l'), module_out := (module_out p)(md := ms)\<rparr>)
    (on_logger f r s)"
proof (rule log_refinesI)
  note d = log_refinesD[OF ref]
  let ?p = "p\<lparr>module_threshold := (module_threshold p)(md \<mapsto> l'), module_out := (module_out p)(md := ms)\<rparr>"
  show "default_ok ?p (on_logger f r s)"
    using d(5,7) r by (auto simp: default_ok_def on_logger_def refs_ok_def split: option.split)
  show "module_ok ?p (on_logger f r s) md'" for md'
  proof (cases "md' = md")
    case True
    then show ?thesis using d(6)[of md] r f by (auto simp: module_ok_def on_logger_def)
  next
    case False
    then have "modules s md' \<noteq> Some r" using d(7) r by (auto simp: refs_ok_def)
    then show ?thesis using d(6)[of md'] False by (auto simp: module_ok_def on_logger_def split: option.split)
  qed
  show "refs_ok (on_logger f r s)" using d(7) by (auto simp: refs_ok_def on_logger_def)
qed (use log_refinesD[OF ref] in \<open>simp_all add: on_logger_def\<close>)

lemma ensure_default_refines:
  assumes ref: "log_refines env p s"
  shows "\<exists>s1 r. ensure_default env s = (s1, Inr r) \<and> log_refines env p s1 \<and> default_logger s1 = Some r"
proof (cases "default_logger s")
  case (Some r)
  then show ?thesis using ref by (simp add: ensure_default_def)
next
  case None
  note d = log_refinesD[OF ref] and old = registered_old[OF ref]
  obtain lg where lg: "make_logger env (logger_name (options s)) (options s) = Some lg" "prints (threshold p) [] lg"
    using make_logger_usable(2)[OF d(1), of "logger_name (options s)"] d(2) by auto
  let ?s = "s\<lparr>loggers := (loggers s)(fresh s \<mapsto> lg), fresh := fresh s + 1, default_logger := Some (fresh s)\<rparr>"
  have "log_refines env p ?s"
  proof (rule log_refinesI)
    show "default_ok p ?s" using d(5) None lg(2) by (simp add: default_ok_def)
    show "module_ok p ?s md" for md
      using d(6)[of md] old(2)[of md] by (auto simp: module_ok_def split: option.split)
    show "refs_ok ?s" using d(7) old(2) by (auto simp: refs_ok_def)
  qed (use d None in simp_all)
  then show ?thesis using None lg(1) by (simp add: ensure_default_def new_logger_def)
qed

lemma ensure_module_refines:
  assumes ref: "log_refines env p s"
  shows "\<exists>s1 r. ensure_module env md s = (s1, Inr r) \<and> log_refines env (touch md p) s1 \<and> modules s1 md = Some r"
proof (cases "modules s md")
  case (Some r)
  then obtain l where "module_threshold p md = Some l"
    using log_refinesD(6)[OF ref, of md] by (auto simp: module_ok_def)
  then show ?thesis using ref Some by (simp add: ensure_module_def touch_def)
next
  case None
  note d = log_refinesD[OF ref] and old = registered_old[OF ref]
  have new: "module_threshold p md = None" "module_out p md = []"
    using d(6)[of md] None by (simp_all add: module_ok_def)
  obtain lg where lg: "make_logger env md ((options s)\<lparr>logger_name := md\<rparr>) = Some lg" "prints (threshold p) [] lg"
    using make_logger_usable(1)[OF d(1), of md md] d(2) by auto
  let ?s = "s\<lparr>loggers := (loggers s)(fresh s \<mapsto> lg), fresh := fresh s + 1, modules := (modules s)(md \<mapsto> fresh s)\<rparr>"
  have "log_refines env (touch md p) ?s"
  proof (rule log_refinesI)
    show "default_ok (touch md p) ?s"
      using d(5) old(1) new by (auto simp: default_ok_def touch_def split: option.split)
    show "module_ok (touch md p) ?s md'" for md'
      using d(6)[of md'] old(2)[of md'] new lg(2) by (auto simp: module_ok_def touch_def split: option.split)
    show "refs_ok ?s" using d(7) old by (fastforce simp: refs_ok_def)
  qed (use d new in \<open>simp_all add: touch_def\<close>)
  then show ?thesis using None lg(1) by (simp add: ensure_module_def new_logger_def)
qed

lemma init_refines:
  assumes ref: "log_refines env p s" and us: "usable env opt"
  shows "\<exists>s1. log_init env opt s = (s1, Inr ()) \<and> log_refines env (p\<lparr>threshold := level opt, out := []\<rparr>) s1"
proof -
  note d = log_refinesD[OF ref] and old = registered_old[OF ref]
  obtain lg where lg: "make_logger env (logger_name opt) opt = Some lg" "prints (level opt) [] lg"
    using make_logger_usable(2)[OF us] by blast
  let ?s = "s\<lparr>options := opt, loggers := (loggers s)(fresh s \<mapsto> lg), fresh := fresh s + 1,
    default_logger := Some (fresh s), default_level := uint (level opt), default_cache := Some (fresh s)\<rparr>"
  let ?p = "p\<lparr>threshold := level opt, out := []\<rparr>"
  have "log_refines env ?p ?s"
  proof (rule log_refinesI)
    show "default_ok ?p ?s" using lg(2) by (simp add: default_ok_def)
    show "module_ok ?p ?s md" for md
      using d(6)[of md] old(2)[of md] by (auto simp: module_ok_def split: option.split)
    show "refs_ok ?s" using d(7) old(2) by (auto simp: refs_ok_def)
  qed (use us in simp_all)
  then show ?thesis using lg(1) by (simp add: log_init_def new_logger_def)
qed

lemma prints_level: "prints l ms lg \<Longrightarrow> l' \<le> Off \<Longrightarrow> prints l' ms (lg\<lparr>lg_level := to_spdlog_level l'\<rparr>)"
  by (simp add: prints_def to_spdlog_level_uint)

lemma set_level_refines:
  assumes ref: "log_refines env p s" and l: "l \<le> Off"
  shows "\<exists>s1. set_level env l s = (s1, Inr ()) \<and> log_refines env (p\<lparr>threshold := l\<rparr>) s1"
proof -
  note d = log_refinesD[OF ref]
  let ?s0 = "s\<lparr>options := (options s)\<lparr>level := l\<rparr>, default_level := uint l\<rparr>"
  have us: "usable env ((options s)\<lparr>level := l\<rparr>)" using d(1) l by (simp add: usable_def)
  show ?thesis
  proof (cases "default_logger s")
    case None
    have "log_refines env (p\<lparr>threshold := l\<rparr>) ?s0"
    proof (rule log_refinesI)
      show "default_ok (p\<lparr>threshold := l\<rparr>) ?s0" using d(5) None by (simp add: default_ok_def)
    qed (use d us None in simp_all)
    then obtain s1 r where s1: "ensure_default env ?s0 = (s1, Inr r)" "log_refines env (p\<lparr>threshold := l\<rparr>) s1"
        "default_logger s1 = Some r"
      using ensure_default_refines by blast
    have "log_refines env (p\<lparr>threshold := l, out := out p\<rparr>) (on_logger (\<lambda>lg. lg\<lparr>lg_level := to_spdlog_level l\<rparr>) r s1)"
      using on_default[OF s1(2,3), of "out p"] prints_level l by simp
    then show ?thesis using s1(1) by (simp add: set_level_def Let_def)
  next
    case (Some r)
    let ?s = "on_logger (\<lambda>lg. lg\<lparr>lg_level := to_spdlog_level l\<rparr>) r ?s0"
    have "log_refines env (p\<lparr>threshold := l\<rparr>) ?s"
    proof (rule log_refinesI)
      show "default_ok (p\<lparr>threshold := l\<rparr>) ?s"
        using d(5) Some prints_level l by (auto simp: default_ok_def on_logger_def)
      show "module_ok (p\<lparr>threshold := l\<rparr>) ?s md" for md
        using d(6)[of md] d(7) Some by (auto simp: module_ok_def on_logger_def refs_ok_def split: option.split)
      show "refs_ok ?s" using d(7) by (auto simp: refs_ok_def on_logger_def)
    qed (use d us in \<open>simp_all add: on_logger_def\<close>)
    then show ?thesis using Some by (simp add: set_level_def ensure_default_def Let_def)
  qed
qed

lemma touched: "module_threshold (touch md p) md \<noteq> None"
  by (simp add: touch_def split: option.split)

lemma set_module_level_refines:
  assumes ref: "log_refines env p s" and l: "l \<le> Off"
  shows "\<exists>s1. set_module_level env md l s = (s1, Inr ()) \<and> log_refines env
    ((touch md p)\<lparr>module_threshold := (module_threshold (touch md p))(md \<mapsto> l)\<rparr>) s1"
proof -
  obtain s1 r where s1: "ensure_module env md s = (s1, Inr r)" "log_refines env (touch md p) s1" "modules s1 md = Some r"
    using ensure_module_refines[OF ref] by blast
  let ?p = "touch md p"
  have "log_refines env (?p\<lparr>module_threshold := (module_threshold ?p)(md \<mapsto> l),
      module_out := (module_out ?p)(md := module_out ?p md)\<rparr>) (on_logger (\<lambda>lg. lg\<lparr>lg_level := to_spdlog_level l\<rparr>) r s1)"
    by (rule on_module[OF s1(2,3)]) (use prints_level l in blast)
  then show ?thesis using s1(1) by (simp add: set_module_level_def)
qed

text \<open>The filters.\<close>

lemma should_log_refines: "log_refines env p s \<Longrightarrow> should_log l s \<longleftrightarrow> threshold p \<le> l"
  using log_refinesD(3)[of env p s] by (simp add: should_log_def word_le_def)

lemma module_filter:
  assumes "log_refines env p s" "modules s md = Some r" "l \<le> Off"
  shows "\<exists>lg l'. loggers s r = Some lg \<and> module_threshold p md = Some l' \<and> prints l' (module_out p md) lg \<and>
    (logger_should_log lg (to_spdlog_level l) \<longleftrightarrow> l' \<le> l) \<and> word_of_int (lg_level lg) = l'"
  using log_refinesD(6)[OF assms(1), of md] assms(2,3)
  by (auto simp: module_ok_def logger_should_log_def prints_def to_spdlog_level_uint word_le_def)

text \<open>What a logger that lets the message pass writes.\<close>

lemma prints_log:
  assumes "prints l' ms lg" "l' \<le> l" "l \<le> Off"
  shows "prints l' (ms @ [(l, msg)]) (logger_log (to_spdlog_level l) msg lg)"
  using assms by (auto simp: prints_def logger_log_def logger_should_log_def sink_it_def logger_flush_def Let_def
      to_spdlog_level_uint word_le_def)

lemma log_at_refines:
  assumes ref: "log_refines env p s" and l: "l \<le> Off"
  shows "\<exists>s1 r. log_at env l fmt s = (s1, r) \<and> log_refines env (fst (spec_log_op (LogMsg l fmt) p)) s1 \<and>
    result_of r = snd (spec_log_op (LogMsg l fmt) p)"
proof (cases "threshold p \<le> l")
  case False
  then show ?thesis using ref should_log_refines[OF ref, of l] by (simp add: log_at_def)
next
  case pass: True
  show ?thesis
  proof (cases fmt)
    case None
    then show ?thesis using ref pass should_log_refines[OF ref, of l] by (simp add: log_at_def)
  next
    case (Some msg)
    let ?f = "logger_log (to_spdlog_level l) msg"
    have writes: "log_refines env (p\<lparr>out := out p @ [(l, msg)]\<rparr>) (on_logger ?f r s1)"
      if "log_refines env p s1" "default_logger s1 = Some r" for s1 r
      using that pass l by (intro on_default) (auto intro: prints_log)
    have "\<exists>s1. detail_log env l msg s = (s1, Inr ()) \<and> log_refines env (p\<lparr>out := out p @ [(l, msg)]\<rparr>) s1"
    proof (cases "default_cache s")
      case (Some r)
      then have "default_logger s = Some r" using log_refinesD(4)[OF ref] by simp
      then show ?thesis using writes[OF ref] Some by (simp add: detail_log_def)
    next
      case None
      obtain s1 r where s1: "ensure_default env s = (s1, Inr r)" "log_refines env p s1" "default_logger s1 = Some r"
        using ensure_default_refines[OF ref] by blast
      have "log_refines env p (s1\<lparr>default_cache := Some r\<rparr>)"
        using log_refinesD[OF s1(2)] s1(3) by (intro log_refinesI) simp_all
      then show ?thesis using writes s1 None by (simp add: detail_log_def)
    qed
    then show ?thesis using Some pass should_log_refines[OF ref, of l] by (auto simp: log_at_def)
  qed
qed

lemma log_module_at_refines:
  assumes ref: "log_refines env p s" and l: "l \<le> Off"
  shows "\<exists>s1 r. log_module_at env md l fmt s = (s1, r) \<and> log_refines env (fst (spec_log_op (LogModule md l fmt) p)) s1 \<and>
    result_of r = snd (spec_log_op (LogModule md l fmt) p)"
proof -
  let ?p = "touch md p"
  obtain s1 r where s1: "ensure_module env md s = (s1, Inr r)" "log_refines env ?p s1" "modules s1 md = Some r"
    using ensure_module_refines[OF ref] by blast
  obtain lg l' where lg: "loggers s1 r = Some lg" "module_threshold ?p md = Some l'"
      "logger_should_log lg (to_spdlog_level l) \<longleftrightarrow> l' \<le> l"
    using module_filter[OF s1(2,3) l] by blast
  have filt: "should_log_module env md l s = (s1, Inr (l' \<le> l))"
    using s1(1) lg by (simp add: should_log_module_def)
  have "log_refines env (?p\<lparr>module_threshold := (module_threshold ?p)(md \<mapsto> l'),
      module_out := (module_out ?p)(md := module_out ?p md @ [(l, msg)])\<rparr>) (on_logger (logger_log (to_spdlog_level l) msg) r s1)"
    if "l' \<le> l" for msg
    by (rule on_module[OF s1(2,3)]) (use lg(2) that l in \<open>auto intro: prints_log\<close>)
  moreover have "(module_threshold ?p)(md \<mapsto> l') = module_threshold ?p" using lg(2) by (simp add: fun_upd_idem)
  moreover have "ensure_module env md s1 = (s1, Inr r)" using s1(3) by (simp add: ensure_module_def)
  ultimately show ?thesis
    using filt lg(2) s1(2) by (cases fmt) (simp_all add: log_module_at_def detail_log_module_def Let_def)
qed

lemma prints_flush: "prints l ms lg \<Longrightarrow> prints l ms (logger_flush lg)"
  by (simp add: prints_def logger_flush_def)

lemma on_flush: "log_refines env p s \<Longrightarrow> default_logger s = Some r \<Longrightarrow> log_refines env p (on_logger logger_flush r s)"
  using on_default[of env p s r "out p" logger_flush] prints_flush by simp

lemma flush_refines:
  assumes ref: "log_refines env p s"
  shows "log_refines env p (log_flush s)"
proof -
  define s1 where "s1 = (case default_logger s of Some r \<Rightarrow> on_logger logger_flush r s | None \<Rightarrow> s)"
  have ref1: "log_refines env p s1" using ref on_flush by (auto simp: s1_def split: option.split)
  note d = log_refinesD[OF ref1]
  have "log_refines env p (s1\<lparr>loggers := (\<lambda>r. if r \<in> ran (modules s1) then map_option logger_flush (loggers s1 r) else loggers s1 r)\<rparr>)"
    (is "log_refines env p ?s")
  proof (rule log_refinesI)
    show "default_ok p ?s"
      using d(5) prints_flush by (auto simp: default_ok_def split: option.splits)
    show "module_ok p ?s md" for md
      using d(6)[of md] prints_flush by (auto simp: module_ok_def ran_def split: option.splits)
    show "refs_ok ?s" using d(7) by (auto simp: refs_ok_def)
  qed (use d in simp_all)
  then show ?thesis unfolding log_flush_def Let_def s1_def .
qed

lemma run_log_op_refines:
  assumes ref: "log_refines env p s" and v: "valid_op env x"
  shows "log_refines env (fst (spec_log_op x p)) (fst (run_log_op env x s)) \<and> snd (run_log_op env x s) = snd (spec_log_op x p)"
proof (cases x)
  case (Init opt)
  then show ?thesis using init_refines[OF ref, of opt] v by auto
next
  case (SetLevel l)
  then show ?thesis using set_level_refines[OF ref, of l] v by auto
next
  case (SetModuleLevel md l)
  then show ?thesis using set_module_level_refines[OF ref, of l md] v by auto
next
  case GetLevel
  then show ?thesis using ref log_refinesD(3)[OF ref] by (simp add: get_level_def)
next
  case (ShouldLog l)
  then show ?thesis using ref should_log_refines[OF ref] by simp
next
  case (GetModuleLevel md)
  obtain s1 r where s1: "ensure_module env md s = (s1, Inr r)" "log_refines env (touch md p) s1" "modules s1 md = Some r"
    using ensure_module_refines[OF ref] by blast
  then show ?thesis using module_filter[OF s1(2,3), of 0] GetModuleLevel by (auto simp: get_module_level_def)
next
  case (ShouldLogModule md l)
  obtain s1 r where s1: "ensure_module env md s = (s1, Inr r)" "log_refines env (touch md p) s1" "modules s1 md = Some r"
    using ensure_module_refines[OF ref] by blast
  then show ?thesis using module_filter[OF s1(2,3), of l] ShouldLogModule v by (auto simp: should_log_module_def)
next
  case (LogMsg l fmt)
  have "l \<le> Off" using v LogMsg by simp
  from log_at_refines[OF ref this, of fmt] obtain s1 r where "log_at env l fmt s = (s1, r)"
      "log_refines env (fst (spec_log_op x p)) s1" "result_of r = snd (spec_log_op x p)"
    unfolding LogMsg by blast
  then show ?thesis using LogMsg by simp
next
  case (LogModule md l fmt)
  have "l \<le> Off" using v LogModule by simp
  from log_module_at_refines[OF ref this, of md fmt] obtain s1 r where "log_module_at env md l fmt s = (s1, r)"
      "log_refines env (fst (spec_log_op x p)) s1" "result_of r = snd (spec_log_op x p)"
    unfolding LogModule by blast
  then show ?thesis using LogModule by simp
next
  case Flush
  then show ?thesis using flush_refines[OF ref] by simp
qed

lemma run_ops_refines:
  "log_refines env p s \<Longrightarrow> list_all (valid_op env) xs \<Longrightarrow>
   log_refines env (fst (run_ops spec_log_op xs p)) (fst (run_ops (run_log_op env) xs s)) \<and>
   snd (run_ops (run_log_op env) xs s) = snd (run_ops spec_log_op xs p)"
proof (induction xs arbitrary: p s)
  case (Cons x xs)
  have v: "valid_op env x" "list_all (valid_op env) xs" using Cons.prems(2) by simp_all
  from run_log_op_refines[OF Cons.prems(1) v(1)] show ?case
    using Cons.IH[OF _ v(2), of "fst (spec_log_op x p)" "fst (run_log_op env x s)"] by (auto simp: split_beta)
qed simp

section \<open>The properties\<close>

lemma runs_refine:
  assumes "list_all (valid_op env) xs"
    and "run_ops (run_log_op env) xs log_new = (s, rs)" and "run_ops spec_log_op xs spec_log_new = (p, rs')"
  shows "log_refines env p s" "rs = rs'"
  using run_ops_refines[OF log_refines_new assms(1)] assms(2,3) by auto

text \<open>C15: for any sequence of calls of the public interface (levels that are enumerators, options
  whose log file can be opened), every call returns what the abstract log says; the default logger's
  sinks hold exactly the messages logged since the last \<open>init\<close> at or above the threshold in force at
  the time, in order, each once; every module's sinks hold exactly that module's messages, filtered
  by its own threshold, whatever happens to the default logger or to other modules.\<close>

theorem logging_refines_spec:
  assumes "list_all (valid_op env) xs"
    and "run_ops (run_log_op env) xs log_new = (s, rs)" and "run_ops spec_log_op xs spec_log_new = (p, rs')"
  shows "rs = rs' \<and> get_level s = threshold p \<and>
    (\<forall>r. default_logger s = Some r \<longrightarrow>
       (\<exists>lg. loggers s r = Some lg \<and> (\<forall>k \<in> set (sinks lg). written k = map (apfst uint) (out p)))) \<and>
    (\<forall>md r. modules s md = Some r \<longrightarrow>
       (\<exists>lg. loggers s r = Some lg \<and> (\<forall>k \<in> set (sinks lg). written k = map (apfst uint) (module_out p md))))"
proof -
  note ref = runs_refine[OF assms]
  note d = log_refinesD[OF ref(1)]
  have "get_level s = threshold p" using d(3) by (simp add: get_level_def)
  moreover have "\<exists>lg. loggers s r = Some lg \<and> (\<forall>k \<in> set (sinks lg). written k = map (apfst uint) (out p))"
    if "default_logger s = Some r" for r
    using d(5) that by (auto simp: default_ok_def prints_def)
  moreover have "\<exists>lg. loggers s r = Some lg \<and> (\<forall>k \<in> set (sinks lg). written k = map (apfst uint) (module_out p md))"
    if "modules s md = Some r" for md r
    using d(6)[of md] that by (auto simp: module_ok_def prints_def)
  ultimately show ?thesis using ref(2) by blast
qed

definition log_script :: "log_op list" where
  "log_script =
     [LogMsg Debug (Some ''a''), LogMsg Warn (Some ''b''), SetLevel Error, LogMsg Warn None,
      LogModule ''m'' Warn (Some ''c''), SetModuleLevel ''m'' Trace, LogModule ''m'' Debug (Some ''d''),
      GetModuleLevel ''m'', LogMsg Critical (Some ''e'')]"

definition small_env :: log_env where
  "small_env = \<lparr>ndebug = True, can_open = (\<lambda>_. False)\<rparr>"

theorem logging_refines_spec_witness:
  "\<exists>s. run_ops (run_log_op small_env) log_script log_new =
      (s, [Done, Done, Done, Done, Done, Done, Done, LevelIs Trace, Done]) \<and>
    (\<exists>r lg. default_logger s = Some r \<and> loggers s r = Some lg \<and>
       (\<forall>k \<in> set (sinks lg). written k = [(3, ''b''), (5, ''e'')])) \<and>
    (\<exists>r lg. modules s ''m'' = Some r \<and> loggers s r = Some lg \<and> (\<forall>k \<in> set (sinks lg). written k = [(1, ''d'')]))"
proof -
  obtain s rs where s: "run_ops (run_log_op small_env) log_script log_new = (s, rs)" by force
  let ?p = "\<lparr>threshold = Error, module_threshold = [''m'' \<mapsto> Trace], out = [(Warn, ''b''), (Critical, ''e'')],
    module_out = (\<lambda>_. [])(''m'' := [(Debug, ''d'')])\<rparr>"
  have p: "run_ops spec_log_op log_script spec_log_new =
      (?p, [Done, Done, Done, Done, Done, Done, Done, LevelIs Trace, Done])"
    by (simp add: log_script_def spec_log_new_def touch_def word_le_nat_alt)
  have v: "list_all (valid_op small_env) log_script" by (simp add: log_script_def)
  have ref: "log_refines small_env ?p s" by (rule runs_refine(1)[OF v s p])
  have "default_logger s \<noteq> None" using log_refinesD(5)[OF ref] by (auto simp: default_ok_def split: option.splits)
  moreover have "modules s ''m'' \<noteq> None"
    using log_refinesD(6)[OF ref, of "''m''"] by (auto simp: module_ok_def split: option.splits)
  ultimately show ?thesis
    using logging_refines_spec[OF v s p] s by fastforce
qed

text \<open>The cached threshold is always that of the default logger itself: \<open>should_log\<close>, one atomic
  load, gives the answer of the logger that will get the message, and the cached logger, once there,
  is the registered one.\<close>

lemma cached_filter_exact:
  assumes "list_all (valid_op env) xs" and "run_ops (run_log_op env) xs log_new = (s, rs)"
    and "default_logger s = Some r" and "l \<le> Off"
  shows "\<exists>lg. loggers s r = Some lg \<and> (should_log l s \<longleftrightarrow> logger_should_log lg (to_spdlog_level l)) \<and>
    (default_cache s = None \<or> default_cache s = Some r)"
proof -
  obtain p rs' where p: "run_ops spec_log_op xs spec_log_new = (p, rs')" by force
  note d = log_refinesD[OF runs_refine(1)[OF assms(1,2) p]]
  obtain lg where "loggers s r = Some lg" "prints (threshold p) (out p) lg"
    using d(5) assms(3) by (auto simp: default_ok_def)
  then show ?thesis
    using d(3,4) assms(3,4) by (auto simp: prints_def should_log_def logger_should_log_def to_spdlog_level_uint)
qed

theorem cached_filter_exact_witness:
  "\<exists>s r lg. run_ops (run_log_op small_env) [SetLevel Error] log_new = (s, [Done]) \<and> loggers s r = Some lg \<and>
     should_log Warn s = logger_should_log lg (to_spdlog_level Warn)"
proof -
  obtain s rs where s: "run_ops (run_log_op small_env) [SetLevel Error] log_new = (s, rs)" by force
  have v: "list_all (valid_op small_env) [SetLevel Error]" by simp
  have p: "run_ops spec_log_op [SetLevel Error] spec_log_new = (spec_log_new\<lparr>threshold := Error\<rparr>, [Done])" by simp
  have r: "rs = [Done]" using runs_refine(2)[OF v s p] .
  have "snd (set_level small_env Error log_new) = Inr () \<Longrightarrow> default_logger (fst (set_level small_env Error log_new)) \<noteq> None"
    by (auto simp: set_level_def ensure_default_def on_logger_def new_logger_def Let_def split: prod.splits option.splits)
  moreover have "snd (set_level small_env Error log_new) = Inr ()"
    using set_level_refines[OF log_refines_new, of Error small_env] by auto
  ultimately obtain q where q: "default_logger s = Some q" using s by (auto simp: split_beta)
  show ?thesis using cached_filter_exact[OF v s q, of Warn] s r by auto
qed

text \<open>The error path of \<open>init\<close>: making the sinks throws exactly when a log file is asked for with
  a zero size, more than 200000 files, or a path that cannot be opened; then the default logger, its
  threshold, the cache and the modules are as before, but the stored options are already the new ones,
  so every module first named afterwards throws too.\<close>

theorem init_failure:
  "(create_sinks env opt = None \<longleftrightarrow>
      file_path opt \<noteq> [] \<and> (max_file_size opt = 0 \<or> max_files opt > 200000 \<or> \<not> can_open env (file_path opt))) \<and>
   log_init env opt s =
     (if create_sinks env opt = None then (s\<lparr>options := opt\<rparr>, Inl SpdlogEx)
      else (fst (log_init env opt s), Inr ())) \<and>
   (\<forall>md. ensure_module env md (s\<lparr>options := opt\<rparr>) =
     (case modules s md of
        None \<Rightarrow> if create_sinks env opt = None then (s\<lparr>options := opt\<rparr>, Inl SpdlogEx)
                else (fst (ensure_module env md (s\<lparr>options := opt\<rparr>)), Inr (fresh s))
      | Some r \<Rightarrow> (s\<lparr>options := opt\<rparr>, Inr r)))"
proof (intro conjI allI)
  show "create_sinks env opt = None \<longleftrightarrow>
      file_path opt \<noteq> [] \<and> (max_file_size opt = 0 \<or> max_files opt > 200000 \<or> \<not> can_open env (file_path opt))"
    by (simp add: create_sinks_def rotating_file_sink_def)
  show "log_init env opt s = (if create_sinks env opt = None then (s\<lparr>options := opt\<rparr>, Inl SpdlogEx)
      else (fst (log_init env opt s), Inr ()))"
    by (auto simp: log_init_def make_logger_def new_logger_def Let_def)
  show "ensure_module env md (s\<lparr>options := opt\<rparr>) =
     (case modules s md of
        None \<Rightarrow> if create_sinks env opt = None then (s\<lparr>options := opt\<rparr>, Inl SpdlogEx)
                else (fst (ensure_module env md (s\<lparr>options := opt\<rparr>)), Inr (fresh s))
      | Some r \<Rightarrow> (s\<lparr>options := opt\<rparr>, Inr r))" for md
    by (auto simp: ensure_module_def make_logger_def new_logger_def Let_def split: option.split)
qed

theorem init_failure_witness:
  "log_init small_env (default_options\<lparr>file_path := ''a.log''\<rparr>) log_new =
     (log_new\<lparr>options := default_options\<lparr>file_path := ''a.log''\<rparr>\<rparr>, Inl SpdlogEx)"
  using init_failure[of small_env "default_options\<lparr>file_path := ''a.log''\<rparr>" log_new]
  by (simp add: small_env_def)

text \<open>After \<open>flush\<close> nothing is pending in any sink of the default logger or of a module, and a
  message that passes the filter at or above the flush level is flushed at once, with everything
  before it.\<close>

theorem flush_leaves_nothing:
  "(\<forall>r lg k. (default_logger s = Some r \<or> r \<in> ran (modules s)) \<and> loggers (log_flush s) r = Some lg \<and>
      k \<in> set (sinks lg) \<longrightarrow> pending k = 0) \<and>
   (\<forall>lg l msg k. logger_should_log lg l \<and> should_flush lg l \<and> k \<in> set (sinks (logger_log l msg lg)) \<longrightarrow> pending k = 0)"
proof (intro conjI allI impI; elim conjE)
  fix r lg k
  assume "default_logger s = Some r \<or> r \<in> ran (modules s)" "loggers (log_flush s) r = Some lg" "k \<in> set (sinks lg)"
  then show "pending k = 0"
    by (auto simp: log_flush_def on_logger_def logger_flush_def Let_def split: option.splits if_splits)
next
  fix lg l msg k
  assume "logger_should_log lg l" "should_flush lg l" "k \<in> set (sinks (logger_log l msg lg))"
  then show "pending k = 0"
    by (auto simp: logger_log_def sink_it_def logger_flush_def should_flush_def Let_def)
qed

theorem flush_leaves_nothing_witness:
  "pending (sinks (logger_log 4 ''x'' \<lparr>lname = ''n'', sinks = [new_sink ConsoleSink], lg_level = 2, lg_flush_level = 3\<rparr>) ! 0) = 0"
  using flush_leaves_nothing[of log_new]
  by (simp add: logger_should_log_def should_flush_def logger_log_def sink_it_def logger_flush_def new_sink_def)

text \<open>The statements of one place run one after the other, until the first that does not throw.\<close>

fun until_done :: "'s statement list \<Rightarrow> 's \<Rightarrow> 's \<times> bool \<times> (log_error + unit) list" where
  "until_done [] s = (s, False, [])"
| "until_done (f # fs) s =
     (case f s of
        (s1, Inl e) \<Rightarrow> (case until_done fs s1 of (s2, b, rs) \<Rightarrow> (s2, b, Inl e # rs))
      | (s1, Inr u) \<Rightarrow> (s1, True, replicate (Suc (length fs)) (Inr ())))"

lemma once_done: "site \<in> once \<Longrightarrow> run_ops (LOG_ONCE site) fs (once, s) = ((once, s), replicate (length fs) (Inr ()))"
  by (induction fs) (simp_all add: LOG_ONCE_def)

text \<open>A \<open>..._ONCE\<close> macro takes effect at most once in the life of the program: whatever is executed
  at its place, in any number of executions with any arguments, the effect is that of the statements
  up to the first that does not throw, and all later executions do nothing; other places are not
  affected.\<close>

theorem log_once_exact:
  assumes "site \<notin> once"
  shows "run_ops (LOG_ONCE site) fs (once, s) =
    (case until_done fs s of (s1, b, rs) \<Rightarrow> ((if b then insert site once else once, s1), rs))"
  using assms
proof (induction fs arbitrary: s)
  case (Cons f fs)
  show ?case
  proof (cases "f s")
    case (Pair s1 r)
    show ?thesis
    proof (cases r)
      case (Inl e)
      then show ?thesis
        using Cons Pair by (simp add: LOG_ONCE_def split: prod.split)
    next
      case (Inr u)
      then have "LOG_ONCE site f (once, s) = ((insert site once, s1), Inr ())"
        using Pair Cons.prems by (simp add: LOG_ONCE_def)
      then show ?thesis using Pair Inr by (simp add: once_done)
    qed
  qed
qed simp

theorem log_once_exact_witness:
  "fst (fst (run_ops (LOG_ONCE 7) [\<lambda>s. (s, Inl FormatError), \<lambda>s. (s + 1, Inr ()), \<lambda>s. (s + 1, Inr ())] ({}, 0 :: nat))) = {7} \<and>
   snd (fst (run_ops (LOG_ONCE 7) [\<lambda>s. (s, Inl FormatError), \<lambda>s. (s + 1, Inr ()), \<lambda>s. (s + 1, Inr ())] ({}, 0 :: nat))) = 1"
  using log_once_exact[of 7 "{}" "[\<lambda>s. (s, Inl FormatError), \<lambda>s. (s + 1, Inr ()), \<lambda>s. (s + 1, Inr ())]" "0 :: nat"]
  by simp

text \<open>A message at \<open>Off\<close> passes every threshold, \<open>Off\<close> included.\<close>

lemma off_always_logged: "default_level s \<le> 6 \<Longrightarrow> should_log Off s"
  by (simp add: should_log_def)

end
