(* ===== verification/Snapshot_Cell.thy ===== *)
theory Snapshot_Cell
  imports Prelude
begin

text \<open>
  The copy-on-write protocol that \<open>wildcard_trie.h\<close>, \<open>topic_slot.h\<close> and the slot map of \<open>message_bus.h\<close>
  share, with any number of threads: the shared object is an immutable snapshot behind one atomic
  pointer. A reader loads the pointer once and works on what it got. A writer may first look into a
  snapshot without the lock (\<open>fast\<close>); then it takes the write mutex, loads, makes a changed copy and
  publishes it, or finds that nothing is to be changed. What a writer computes is the parameter \<open>upd\<close>, a
  function from the call and the loaded snapshot to the new snapshot, if any, and the answer.
\<close>

section \<open>The protocol\<close>

text \<open>Where a thread is, with the call it makes and the snapshot it holds.\<close>

datatype ('s, 'o, 'r) access =
    Quiet
  | Fast 'o
  | Waiting 'o
  | Holding 'o
  | Copied 'o 's
  | Leaving 'r
  | Reading 's

text \<open>Beside the pointer and the mutex: the calls in the order they took effect, with their answers, and
  the snapshots readers loaded, each with the number of calls that had taken effect.\<close>

record ('s, 'o, 'r) snap_cell =
  current :: 's
  lock_owner :: "nat option"
  doing :: "nat \<Rightarrow> ('s, 'o, 'r) access"
  commits :: "('o \<times> 'r) list"
  reads :: "(nat \<times> 's) list"

definition cell_new :: "'s \<Rightarrow> ('s, 'o, 'r) snap_cell" where
  "cell_new s = \<lparr>current = s, lock_owner = None, doing = (\<lambda>_. Quiet), commits = [], reads = []\<rparr>"

definition load_snapshot :: "('s, 'o, 'r) snap_cell \<Rightarrow> 's" where
  "load_snapshot c = current c"

definition publish_snapshot :: "'s \<Rightarrow> ('s, 'o, 'r) snap_cell \<Rightarrow> ('s, 'o, 'r) snap_cell" where
  "publish_snapshot s c = c\<lparr>current := s\<rparr>"

definition goto :: "nat \<Rightarrow> ('s, 'o, 'r) access \<Rightarrow> ('s, 'o, 'r) snap_cell \<Rightarrow> ('s, 'o, 'r) snap_cell" where
  "goto t a c = c\<lparr>doing := (doing c)(t := a)\<rparr>"

definition commit :: "'o \<Rightarrow> 'r \<Rightarrow> ('s, 'o, 'r) snap_cell \<Rightarrow> ('s, 'o, 'r) snap_cell" where
  "commit op r c = c\<lparr>commits := commits c @ [(op, r)]\<rparr>"

inductive cell_step ::
  "('o \<Rightarrow> 's \<Rightarrow> 'r option) \<Rightarrow> ('o \<Rightarrow> 's \<Rightarrow> 's option \<times> 'r) \<Rightarrow> nat \<Rightarrow> ('s, 'o, 'r) snap_cell \<Rightarrow> ('s, 'o, 'r) snap_cell \<Rightarrow> bool"
  for fast upd where
  call: "doing c t = Quiet \<Longrightarrow> cell_step fast upd t c (goto t (Fast op) c)"
| hit: "doing c t = Fast op \<Longrightarrow> fast op (load_snapshot c) = Some r \<Longrightarrow>
    cell_step fast upd t c (goto t Quiet (commit op r c))"
| miss: "doing c t = Fast op \<Longrightarrow> fast op (load_snapshot c) = None \<Longrightarrow> cell_step fast upd t c (goto t (Waiting op) c)"
| lock: "doing c t = Waiting op \<Longrightarrow> lock_owner c = None \<Longrightarrow>
    cell_step fast upd t c (goto t (Holding op) (c\<lparr>lock_owner := Some t\<rparr>))"
| copy: "doing c t = Holding op \<Longrightarrow> cell_step fast upd t c (goto t (Copied op (load_snapshot c)) c)"
| publish: "doing c t = Copied op s \<Longrightarrow> upd op s = (Some s', r) \<Longrightarrow>
    cell_step fast upd t c (goto t (Leaving r) (commit op r (publish_snapshot s' c)))"
| keep: "doing c t = Copied op s \<Longrightarrow> upd op s = (None, r) \<Longrightarrow>
    cell_step fast upd t c (goto t (Leaving r) (commit op r c))"
| unlock: "doing c t = Leaving r \<Longrightarrow> cell_step fast upd t c (goto t Quiet (c\<lparr>lock_owner := None\<rparr>))"
| read: "doing c t = Quiet \<Longrightarrow>
    cell_step fast upd t c (goto t (Reading (load_snapshot c)) (c\<lparr>reads := (length (commits c), load_snapshot c) # reads c\<rparr>))"
| read_end: "doing c t = Reading s \<Longrightarrow> cell_step fast upd t c (goto t Quiet c)"

inductive_cases cell_stepE: "cell_step fast upd t c c'"

inductive cell_reach ::
  "('o \<Rightarrow> 's \<Rightarrow> 'r option) \<Rightarrow> ('o \<Rightarrow> 's \<Rightarrow> 's option \<times> 'r) \<Rightarrow> 's \<Rightarrow> ('s, 'o, 'r) snap_cell \<Rightarrow> bool"
  for fast upd s0 where
  init: "cell_reach fast upd s0 (cell_new s0)"
| step: "cell_reach fast upd s0 c \<Longrightarrow> cell_step fast upd t c c' \<Longrightarrow> cell_reach fast upd s0 c'"

text \<open>The same as a function of the scheduler's choices, to compute examples.\<close>

datatype 'o move = Call 'o | Read | Go

fun advance ::
  "('o \<Rightarrow> 's \<Rightarrow> 'r option) \<Rightarrow> ('o \<Rightarrow> 's \<Rightarrow> 's option \<times> 'r) \<Rightarrow> nat \<times> 'o move \<Rightarrow> ('s, 'o, 'r) snap_cell \<Rightarrow> ('s, 'o, 'r) snap_cell" where
  "advance fast upd (t, Call op) c = (case doing c t of Quiet \<Rightarrow> goto t (Fast op) c | _ \<Rightarrow> c)"
| "advance fast upd (t, Read) c =
     (case doing c t of
        Quiet \<Rightarrow> goto t (Reading (load_snapshot c)) (c\<lparr>reads := (length (commits c), load_snapshot c) # reads c\<rparr>)
      | _ \<Rightarrow> c)"
| "advance fast upd (t, Go) c =
     (case doing c t of
        Quiet \<Rightarrow> c
      | Fast op \<Rightarrow>
          (case fast op (load_snapshot c) of Some r \<Rightarrow> goto t Quiet (commit op r c) | None \<Rightarrow> goto t (Waiting op) c)
      | Waiting op \<Rightarrow> if lock_owner c = None then goto t (Holding op) (c\<lparr>lock_owner := Some t\<rparr>) else c
      | Holding op \<Rightarrow> goto t (Copied op (load_snapshot c)) c
      | Copied op s \<Rightarrow>
          (case upd op s of
             (Some s', r) \<Rightarrow> goto t (Leaving r) (commit op r (publish_snapshot s' c))
           | (None, r) \<Rightarrow> goto t (Leaving r) (commit op r c))
      | Leaving r \<Rightarrow> goto t Quiet (c\<lparr>lock_owner := None\<rparr>)
      | Reading s \<Rightarrow> goto t Quiet c)"

lemma advance_reach: "cell_reach fast upd s0 c \<Longrightarrow> cell_reach fast upd s0 (advance fast upd m c)"
  by (cases "(fast, upd, m, c)" rule: advance.cases)
    (auto split: access.split option.split prod.split intro: cell_reach.step cell_step.intros)

lemma run_reach: "cell_reach fast upd s0 (fold (advance fast upd) ms (cell_new s0))"
proof -
  have "cell_reach fast upd s0 c \<Longrightarrow> cell_reach fast upd s0 (fold (advance fast upd) ms c)" for c
    by (induction ms arbitrary: c) (auto intro: advance_reach)
  then show ?thesis using cell_reach.init by metis
qed

lemmas cell_defs = goto_def commit_def load_snapshot_def publish_snapshot_def

section \<open>One call at a time\<close>

definition seq_op :: "('o \<Rightarrow> 's \<Rightarrow> 'r option) \<Rightarrow> ('o \<Rightarrow> 's \<Rightarrow> 's option \<times> 'r) \<Rightarrow> 'o \<Rightarrow> 's \<Rightarrow> 's \<times> 'r" where
  "seq_op fast upd op s =
     (case fast op s of
        Some r \<Rightarrow> (s, r)
      | None \<Rightarrow> (case upd op s of (Some s', r) \<Rightarrow> (s', r) | (None, r) \<Rightarrow> (s, r)))"

primrec replay :: "('o \<Rightarrow> 's \<Rightarrow> 's \<times> 'r) \<Rightarrow> 's \<Rightarrow> 'o list \<Rightarrow> 's \<times> 'r list" where
  "replay q s [] = (s, [])"
| "replay q s (op # ops) = (case q op s of (s', r) \<Rightarrow> case replay q s' ops of (s'', rs) \<Rightarrow> (s'', r # rs))"

lemma replay_append:
  "replay q s (xs @ ys) = (case replay q s xs of (s', rs) \<Rightarrow> case replay q s' ys of (s'', rs') \<Rightarrow> (s'', rs @ rs'))"
  by (induction xs arbitrary: s) (auto split: prod.split)

lemma replay_snoc:
  "replay q s (ops @ [op]) = (case replay q s ops of (s', rs) \<Rightarrow> case q op s' of (s'', r) \<Rightarrow> (s'', rs @ [r]))"
  by (simp add: replay_append split: prod.split)

section \<open>The invariant\<close>

fun in_section :: "('s, 'o, 'r) access \<Rightarrow> bool" where
  "in_section (Holding _) = True"
| "in_section (Copied _ _) = True"
| "in_section (Leaving _) = True"
| "in_section _ = False"

definition section_ok :: "('s, 'o, 'r) snap_cell \<Rightarrow> bool" where
  "section_ok c \<longleftrightarrow>
     (\<forall>t. in_section (doing c t) \<longleftrightarrow> lock_owner c = Some t) \<and>
     (\<forall>t op s. doing c t = Copied op s \<longrightarrow> s = current c) \<and>
     (\<forall>t s. doing c t = Reading s \<longrightarrow> s \<in> snd ` set (reads c))"

definition in_order :: "('o \<Rightarrow> 's \<Rightarrow> 's \<times> 'r) \<Rightarrow> 's \<Rightarrow> ('s, 'o, 'r) snap_cell \<Rightarrow> bool" where
  "in_order q s0 c \<longleftrightarrow>
     replay q s0 (map fst (commits c)) = (current c, map snd (commits c)) \<and>
     (\<forall>(k, s)\<in>set (reads c). k \<le> length (commits c) \<and> s = fst (replay q s0 (take k (map fst (commits c)))))"

lemma in_order_goto [simp]: "in_order q s0 (goto t a c) = in_order q s0 c"
  by (simp add: in_order_def goto_def)

lemma in_order_lock [simp]: "in_order q s0 (c\<lparr>lock_owner := l\<rparr>) = in_order q s0 c"
  by (simp add: in_order_def)

lemma in_order_read: "in_order q s0 c \<Longrightarrow> in_order q s0 (c\<lparr>reads := (length (commits c), current c) # reads c\<rparr>)"
  by (auto simp: in_order_def)

lemma in_order_commit:
  assumes "in_order q s0 c" "q op (current c) = (s', r)"
  shows "in_order q s0 (commit op r (publish_snapshot s' c))"
  using assms by (fastforce simp: in_order_def cell_defs replay_snoc)

text \<open>A thread that goes on inside or outside of the section, enters it or leaves it.\<close>

lemma section_ok_goto:
  assumes "section_ok c" "in_section a \<longleftrightarrow> in_section (doing c t)" "\<And>op s. a = Copied op s \<Longrightarrow> s = current c"
    "\<And>s. a = Reading s \<Longrightarrow> s \<in> snd ` set (reads c)"
  shows "section_ok (goto t a c)"
  using assms by (auto simp: section_ok_def goto_def)

lemma section_ok_commit: "section_ok c \<Longrightarrow> section_ok (commit op r c)"
  by (simp add: section_ok_def commit_def)

lemma doing_commit [simp]: "doing (commit op r c) = doing c" "current (commit op r c) = current c"
  by (simp_all add: commit_def)

lemma commit_publish: "commit op r (publish_snapshot s c) = publish_snapshot s (commit op r c)"
  by (cases c) (simp add: cell_defs)

lemma section_ok_publish:
  assumes "section_ok c" "lock_owner c = Some t"
  shows "section_ok (goto t (Leaving r) (publish_snapshot s c))"
proof -
  have "doing c u \<noteq> Copied op s'" if "u \<noteq> t" for u op s'
    using that assms by (metis in_section.simps(2) option.inject section_ok_def)
  then show ?thesis using assms by (auto simp: section_ok_def cell_defs)
qed

lemma section_ok_owner: "section_ok c \<Longrightarrow> in_section (doing c t) \<Longrightarrow> lock_owner c = Some t"
  by (simp add: section_ok_def)

section \<open>The contract\<close>

text \<open>The contract of an update: where the look without the lock has an answer, the update gives the same
  answer and changes nothing.\<close>

locale snapshot_cell =
  fixes fast :: "'o \<Rightarrow> 's \<Rightarrow> 'r option"
    and upd :: "'o \<Rightarrow> 's \<Rightarrow> 's option \<times> 'r"
  assumes recheck: "fast op s = Some r \<Longrightarrow> upd op s = (None, r)"
begin

lemma seq_op_fast: "fast op s = Some r \<Longrightarrow> seq_op fast upd op s = (s, r)"
  by (simp add: seq_op_def)

lemma seq_op_upd: "upd op s = (o', r) \<Longrightarrow> seq_op fast upd op s = (case o' of Some s' \<Rightarrow> s' | None \<Rightarrow> s, r)"
  using recheck[of op s] by (auto simp: seq_op_def split: option.split)

lemma cell_step_in_order:
  assumes "cell_step fast upd t c c'" "in_order (seq_op fast upd) s0 c" "section_ok c"
  shows "in_order (seq_op fast upd) s0 c'"
  using assms(1)
proof cases
  case (hit op r)
  then show ?thesis
    using in_order_commit[OF assms(2) seq_op_fast[of op "current c" r]] by (simp add: load_snapshot_def publish_snapshot_def)
next
  case (publish op s s' r)
  then have "s = current c" using assms(3) by (auto simp: section_ok_def)
  then show ?thesis using publish in_order_commit[OF assms(2) seq_op_upd[of op "current c"]] by simp
next
  case (keep op s r)
  then have "s = current c" using assms(3) by (auto simp: section_ok_def)
  then show ?thesis
    using keep in_order_commit[OF assms(2) seq_op_upd[of op "current c"]] by (simp add: publish_snapshot_def)
qed (use assms(2) in \<open>simp_all add: load_snapshot_def in_order_read\<close>)

lemma cell_step_section:
  assumes "cell_step fast upd t c c'" "section_ok c"
  shows "section_ok c'"
  using assms(1)
proof cases
  case (publish op s s' r)
  then have "lock_owner (commit op r c) = Some t"
    using section_ok_owner[OF assms(2), of t] by (simp add: commit_def)
  from section_ok_publish[OF section_ok_commit[OF assms(2)] this, of r s'] show ?thesis
    using publish by (simp add: commit_publish)
next
  case (lock op)
  then have "doing c u \<noteq> a" if "in_section a" for u a using that assms(2) by (auto simp: section_ok_def)
  then show ?thesis using lock assms(2) by (auto simp: section_ok_def goto_def)
next
  case (unlock r)
  then have "lock_owner c = Some t" using section_ok_owner[OF assms(2)] by simp
  then show ?thesis using unlock assms(2) by (auto simp: section_ok_def goto_def)
next
  case read
  have "section_ok (c\<lparr>reads := (length (commits c), current c) # reads c\<rparr>)" using assms(2) by (auto simp: section_ok_def)
  then show ?thesis using read by (auto simp: load_snapshot_def intro!: section_ok_goto)
qed (use assms(2) in \<open>auto simp: load_snapshot_def intro!: section_ok_goto section_ok_commit\<close>)

lemma cell_reach_inv: "cell_reach fast upd s0 c \<Longrightarrow> in_order (seq_op fast upd) s0 c \<and> section_ok c"
proof (induction rule: cell_reach.induct)
  case init
  show ?case by (simp add: in_order_def section_ok_def cell_new_def)
next
  case (step c t c')
  then show ?case using cell_step_in_order cell_step_section by blast
qed

lemma linearizable:
  assumes "cell_reach fast upd s0 c"
  shows "replay (seq_op fast upd) s0 (map fst (commits c)) = (current c, map snd (commits c))"
    "(k, s) \<in> set (reads c) \<Longrightarrow> k \<le> length (commits c) \<and> s = fst (replay (seq_op fast upd) s0 (take k (map fst (commits c))))"
  using cell_reach_inv[OF assms] by (auto simp: in_order_def)

text \<open>The thread in the critical section leaves it in at most three steps of its own.\<close>

lemma owner_leaves:
  assumes "cell_reach fast upd s0 c" "lock_owner c = Some t"
  shows "\<exists>c'. (cell_step fast upd t)\<^sup>*\<^sup>* c c' \<and> lock_owner c' = None"
proof -
  have one: "\<exists>c'. (cell_step fast upd t)\<^sup>*\<^sup>* c c' \<and> lock_owner c' = None" if "doing c t = Leaving r" for c r
    using cell_step.unlock[OF that, of fast upd] by (intro exI conjI r_into_rtranclp) (auto simp: cell_defs)
  have two: "\<exists>c'. (cell_step fast upd t)\<^sup>*\<^sup>* c c' \<and> lock_owner c' = None" if d: "doing c t = Copied op s" for c op s
  proof -
    obtain o' r where u: "upd op s = (o', r)" by fastforce
    have "\<exists>c1. cell_step fast upd t c c1 \<and> doing c1 t = Leaving r"
    proof (cases o')
      case None
      then show ?thesis using cell_step.keep[of c t op s upd r fast] d u by (intro exI conjI) (auto simp: goto_def)
    next
      case (Some s')
      then show ?thesis using cell_step.publish[of c t op s upd s' r fast] d u by (intro exI conjI) (auto simp: goto_def)
    qed
    then show ?thesis using one by (meson converse_rtranclp_into_rtranclp)
  qed
  have three: "\<exists>c'. (cell_step fast upd t)\<^sup>*\<^sup>* c c' \<and> lock_owner c' = None" if d: "doing c t = Holding op" for c op
  proof -
    have "doing (goto t (Copied op (load_snapshot c)) c) t = Copied op (load_snapshot c)" by (simp add: goto_def)
    then show ?thesis using two cell_step.copy[OF d, of fast upd] by (meson converse_rtranclp_into_rtranclp)
  qed
  have "in_section (doing c t)" using cell_reach_inv[OF assms(1)] assms(2) by (simp add: section_ok_def)
  then show ?thesis using one two three by (cases "doing c t") auto
qed

end

end
