(* ===== verification/Snapshot_Users.thy ===== *)
theory Snapshot_Users
  imports Snapshot_Cell Bus_Subscribe
begin

text \<open>
  The three users of the copy-on-write protocol, under any interleaving of any number of threads: the
  wildcard trie, the subscriber list of a slot, and the slot map of the bus with its double-checked
  creation of slots. Each update is that of the sequential model; the protocol's contract holds for each.
\<close>

section \<open>The wildcard trie\<close>

datatype trie_op = Insert string entry | Remove sub_id

text \<open>A removal also tells the entry's slot to drop the subscriber, which changes another object.\<close>

definition trie_upd :: "trie_op \<Rightarrow> snapshot \<Rightarrow> snapshot option \<times> bool" where
  "trie_upd op snap =
     (case op of
        Insert pattern e \<Rightarrow> (Some (trie_insert snap pattern e), True)
      | Remove i \<Rightarrow> (case trie_remove snap Map.empty i of (snap', _, found) \<Rightarrow> (if found then Some snap' else None, found)))"

text \<open>Neither the trie nor the answer of a removal depends on the slots.\<close>

lemma erase_entry_store: "map_option fst (erase_entry es i st) = map_option fst (erase_entry es i st')"
  by (induction es) (auto split: option.splits)

lemma removeFrom_store:
  "fst (removeFrom n i st) = fst (removeFrom n i st') \<and> snd (snd (removeFrom n i st)) = snd (snd (removeFrom n i st'))"
  "fst (remove_children ch i st) = fst (remove_children ch i st') \<and>
   snd (snd (remove_children ch i st)) = snd (snd (remove_children ch i st'))"
proof (induction n i st and ch i st arbitrary: st' and st' rule: removeFrom_remove_children.induct)
  case (1 ch es i st)
  show ?case
  proof (cases "erase_entry es i st")
    case None
    then have "erase_entry es i st' = None" using erase_entry_store[of es i st st'] by simp
    moreover note "1.IH"[OF None, of st']
    ultimately show ?thesis
      using None by (cases "remove_children ch i st"; cases "remove_children ch i st'") auto
  next
    case (Some p)
    then obtain s2 where "erase_entry es i st' = Some (fst p, s2)"
      using erase_entry_store[of es i st st'] by (cases "erase_entry es i st'") auto
    then show ?thesis using Some by (cases p) simp
  qed
next
  case (3 k c ch i st)
  obtain c1 s1 b1 where r: "removeFrom c i st = (c1, s1, b1)" by (metis prod_cases3)
  obtain c1' s1' b1' where r'': "removeFrom c i st' = (c1', s1', b1')" by (metis prod_cases3)
  then have r': "removeFrom c i st' = (c1, s1', b1)" using "3.IH"(1)[of st'] r by simp
  show ?case using r r' "3.IH"(2)[OF r[symmetric] refl, of s1']
    by (cases b1; cases "remove_children ch i s1"; cases "remove_children ch i s1'") auto
qed simp

lemma trie_upd_Remove:
  "case trie_remove snap st i of (snap', st', found) \<Rightarrow> trie_upd (Remove i) snap = (if found then Some snap' else None, found)"
  using removeFrom_store(1)[of "root snap" i st Map.empty]
  by (auto simp: trie_upd_def trie_remove_def split: prod.splits)

interpretation trie_cell: snapshot_cell "\<lambda>_ _. None" trie_upd
  by unfold_locales simp

text \<open>The entries after some calls, without the trie.\<close>

fun live_entry :: "trie_op \<Rightarrow> (string list \<times> entry) multiset \<Rightarrow> (string list \<times> entry) multiset" where
  "live_entry (Insert pattern e) M = add_mset (splitLevels pattern, e) M"
| "live_entry (Remove i) M = filter_mset (\<lambda>p. pid p \<noteq> i) M"

fun inserted :: "trie_op list \<Rightarrow> sub_id list" where
  "inserted [] = []"
| "inserted (Insert _ e # ops) = entry.sub_id e # inserted ops"
| "inserted (Remove _ # ops) = inserted ops"

lemma inserted_append [simp]: "inserted (xs @ ys) = inserted xs @ inserted ys"
  by (induction xs rule: inserted.induct) auto

lemma distinct_inserted_take: "distinct (inserted ops) \<Longrightarrow> distinct (inserted (take k ops))"
  by (metis append_take_drop_id distinct_append inserted_append)

lemma replay_trie:
  assumes "replay (seq_op (\<lambda>_ _. None) trie_upd) trie_new ops = (snap, rs)" "distinct (inserted ops)"
  shows "trie_ok snap \<and> trie_paths snap = fold live_entry ops {#} \<and> size (trie_paths snap) \<le> length ops \<and>
      (\<forall>p\<in>#trie_paths snap. pid p \<in> set (inserted ops)) \<and>
      (\<forall>j. count (image_mset pid (trie_paths snap)) j \<le> 1)"
  using assms
proof (induction ops arbitrary: snap rs rule: rev_induct)
  case Nil
  then show ?case by (simp add: trie_new_ok)
next
  case (snoc op ops s1 rs1)
  obtain snap rs where r: "replay (seq_op (\<lambda>_ _. None) trie_upd) trie_new ops = (snap, rs)" by fastforce
  have s1: "seq_op (\<lambda>_ _. None) trie_upd op snap = (s1, last rs1)"
    using snoc.prems(1) r by (auto simp: replay_snoc split: prod.splits)
  have IH: "trie_ok snap" "trie_paths snap = fold live_entry ops {#}" "size (trie_paths snap) \<le> length ops"
    "\<forall>p\<in>#trie_paths snap. pid p \<in> set (inserted ops)" "\<forall>j. count (image_mset pid (trie_paths snap)) j \<le> 1"
    using snoc.IH[OF r] snoc.prems(2) unfolding inserted_append distinct_append
    by blast+
  show ?case
  proof (cases op)
    case (Insert pattern e)
    have "entry.sub_id e \<notin> set (inserted ops)" using snoc.prems Insert by simp
    then have "count (image_mset pid (trie_paths snap)) (entry.sub_id e) = 0"
      using IH(4) by (auto simp: count_eq_zero_iff)
    moreover have "pid (splitLevels pattern, e) = entry.sub_id e" by (simp add: pid_def)
    ultimately show ?thesis
      using IH Insert s1 by (auto simp: seq_op_def trie_upd_def trie_insert_def insert_levels_ok insert_levels_paths)
  next
    case (Remove i)
    obtain snap' st' found where rm: "trie_remove snap Map.empty i = (snap', st', found)" by (metis prod_cases3)
    have p: "trie_ok snap'" "trie_paths snap' = filter_mset (\<lambda>p. pid p \<noteq> i) (trie_paths snap)" "\<not> found \<longrightarrow> snap' = snap"
      using trie_remove_result[OF IH(1,5), where st = Map.empty and i = i] rm by auto
    have "image_mset pid (trie_paths snap') \<subseteq># image_mset pid (trie_paths snap)"
      unfolding p(2) by (intro image_mset_subseteq_mono) simp
    then have "count (image_mset pid (trie_paths snap')) j \<le> 1" for j
      using IH(5) by (meson mset_subset_eq_count order_trans)
    moreover have "size (trie_paths snap') \<le> length ops" using IH(3) unfolding p(2) by (meson order_trans size_filter_mset_lesseq)
    moreover have "\<forall>p\<in>#trie_paths snap'. pid p \<in> set (inserted ops)" using IH(4) unfolding p(2) by auto
    moreover have "s1 = snap'" using s1 Remove rm p(3) by (auto simp: seq_op_def trie_upd_def split: if_splits)
    moreover have "trie_paths snap' = fold live_entry (ops @ [op]) {#}" using p(2) IH(2) Remove by simp
    ultimately show ?thesis using p(1) Remove by simp
  qed
qed

section \<open>The subscriber list of a slot\<close>

datatype list_op = Add handler_ref sub_id | Drop sub_id

definition list_upd :: "list_op \<Rightarrow> topic_slot \<Rightarrow> topic_slot option \<times> bool" where
  "list_upd op s =
     (case op of
        Add h i \<Rightarrow> (Some (fst (addSubscriber s h i)), True)
      | Drop i \<Rightarrow> (case removeSubscriber s i of (s', found) \<Rightarrow> (if found then Some s' else None, found)))"

interpretation list_cell: snapshot_cell "\<lambda>_ _. None" list_upd
  by unfold_locales simp

fun live_subscriber :: "list_op \<Rightarrow> subscriber list \<Rightarrow> subscriber list" where
  "live_subscriber (Add h i) l = l @ [\<lparr>subscriber.sub_id = i, handler = h\<rparr>]"
| "live_subscriber (Drop i) l = filter (\<lambda>x. subscriber.sub_id x \<noteq> i) l"

lemma seq_op_list:
  assumes "seq_op (\<lambda>_ _. None) list_upd op s = (s', r)"
  shows "msg_type s' = msg_type s" "subscribers s' = live_subscriber op (subscribers s)"
proof -
  have "filter (\<lambda>x. subscriber.sub_id x \<noteq> i) l = l" if "\<not> (\<exists>x\<in>set l. subscriber.sub_id x = i)" for i l
    using that by (auto simp: filter_id_conv)
  then show "msg_type s' = msg_type s" "subscribers s' = live_subscriber op (subscribers s)"
    using assms by (auto simp: seq_op_def list_upd_def addSubscriber_def removeSubscriber_eq split: list_op.splits if_splits)
qed

lemma replay_list:
  "replay (seq_op (\<lambda>_ _. None) list_upd) s ops = (s', rs) \<Longrightarrow>
     msg_type s' = msg_type s \<and> subscribers s' = fold live_subscriber ops (subscribers s)"
proof (induction ops arbitrary: s rs)
  case (Cons op ops)
  then obtain s1 r rs' where "seq_op (\<lambda>_ _. None) list_upd op s = (s1, r)" "replay (seq_op (\<lambda>_ _. None) list_upd) s1 ops = (s', rs')"
    by (auto split: prod.splits)
  then show ?case using Cons.IH seq_op_list by fastforce
qed simp

section \<open>The slot map\<close>

text \<open>A slot is its address and the type it was made with. A call brings the type, the topic and the
  address its slot gets if it makes one.\<close>

type_synonym slot_map = "topic_id \<rightharpoonup> slot_ref \<times> type_info"

record slot_call =
  call_type :: type_info
  call_topic :: topic_id
  call_ref :: slot_ref

definition check_entry :: "(topic_id \<Rightarrow> string) \<Rightarrow> slot_call \<Rightarrow> slot_ref \<times> type_info \<Rightarrow> bus_error + slot_ref" where
  "check_entry names x sp = (if snd sp \<noteq> call_type x then Inl (TypeMismatch (names (call_topic x))) else Inr (fst sp))"

definition slots_fast :: "(topic_id \<Rightarrow> string) \<Rightarrow> slot_call \<Rightarrow> slot_map \<Rightarrow> (bus_error + slot_ref) option" where
  "slots_fast names x m = (case m (call_topic x) of Some sp \<Rightarrow> Some (check_entry names x sp) | None \<Rightarrow> None)"

definition slots_upd :: "(topic_id \<Rightarrow> string) \<Rightarrow> slot_call \<Rightarrow> slot_map \<Rightarrow> slot_map option \<times> (bus_error + slot_ref)" where
  "slots_upd names x m =
     (case m (call_topic x) of
        Some sp \<Rightarrow> (None, check_entry names x sp)
      | None \<Rightarrow> (Some (m(call_topic x \<mapsto> (call_ref x, call_type x))), Inr (call_ref x)))"

interpretation slots_cell: snapshot_cell "slots_fast names" "slots_upd names" for names
  by unfold_locales (auto simp: slots_fast_def slots_upd_def split: option.splits)

text \<open>One call at a time, this is \<open>getOrCreateSlot\<close> of the bus.\<close>

definition typed_slots :: "'d bus \<Rightarrow> slot_map" where
  "typed_slots b i = (case slots b i of Some r \<Rightarrow> map_option (\<lambda>s. (r, msg_type s)) (store b r) | None \<Rightarrow> None)"

lemma seq_op_getOrCreateSlot:
  assumes "\<forall>i r. slots b i = Some r \<longrightarrow> store b r \<noteq> None \<and> r \<noteq> next_slot b"
  shows "seq_op (slots_fast (to_string (registry b))) (slots_upd (to_string (registry b)))
      \<lparr>call_type = ty, call_topic = i, call_ref = next_slot b\<rparr> (typed_slots b) =
    (case getOrCreateSlot ty i b of (b', res) \<Rightarrow> (typed_slots b', res))"
proof (cases "slots b i")
  case None
  then have "typed_slots (fst (create_slot ty i b)) = (typed_slots b)(i \<mapsto> (next_slot b, ty))"
    using assms by (auto simp: fun_eq_iff typed_slots_def create_slot_def new_slot_def slot_new_def split: option.split)
  then show ?thesis
    using None by (auto simp: seq_op_def slots_fast_def slots_upd_def getOrCreateSlot_def create_slot_def new_slot_def typed_slots_def[of b])
next
  case (Some r)
  then obtain s where "store b r = Some s" using assms by blast
  then show ?thesis
    using Some by (auto simp: seq_op_def slots_fast_def getOrCreateSlot_def checkedSlot_def check_entry_def typed_slots_def)
qed

definition answer_ok :: "(topic_id \<Rightarrow> string) \<Rightarrow> slot_map \<Rightarrow> slot_call \<Rightarrow> bus_error + slot_ref \<Rightarrow> bool" where
  "answer_ok names m x a \<longleftrightarrow>
     (case a of
        Inr r \<Rightarrow> m (call_topic x) = Some (r, call_type x)
      | Inl e \<Rightarrow> e = TypeMismatch (names (call_topic x)) \<and> (\<exists>r ty. m (call_topic x) = Some (r, ty) \<and> ty \<noteq> call_type x))"

lemma answer_ok_mono: "answer_ok names m x a \<Longrightarrow> m \<subseteq>\<^sub>m m' \<Longrightarrow> answer_ok names m' x a"
  by (auto simp: answer_ok_def map_le_def dom_def split: sum.splits)

lemma seq_op_slots:
  assumes "seq_op (slots_fast names) (slots_upd names) x m = (m', a)"
  shows "m \<subseteq>\<^sub>m m'" "answer_ok names m' x a"
  using assms
  by (auto simp: seq_op_def slots_fast_def slots_upd_def check_entry_def answer_ok_def map_le_def split: option.splits if_splits)

lemma replay_slots:
  "case replay (seq_op (slots_fast names) (slots_upd names)) m ops of (m', rs) \<Rightarrow>
     m \<subseteq>\<^sub>m m' \<and> (\<forall>(x, a)\<in>set (zip ops rs). answer_ok names m' x a)"
proof (induction ops arbitrary: m)
  case (Cons x ops)
  obtain m1 a where 1: "seq_op (slots_fast names) (slots_upd names) x m = (m1, a)" by fastforce
  obtain m2 rs where 2: "replay (seq_op (slots_fast names) (slots_upd names)) m1 ops = (m2, rs)" by fastforce
  have "m1 \<subseteq>\<^sub>m m2" "\<forall>(x, a)\<in>set (zip ops rs). answer_ok names m2 x a" using Cons[of m1] 2 by auto
  then show ?case using 1 2 seq_op_slots[OF 1] answer_ok_mono[of names m1 x a m2] by (auto intro: map_le_trans)
qed simp

section \<open>What concurrent use promises\<close>

text \<open>C12: while any number of threads subscribe and unsubscribe wildcard patterns under distinct identifiers,
  a \<open>match\<close> that runs meanwhile gives exactly the slots of the entries that were live at the moment it
  loaded the snapshot, of its type and with a matching pattern, whatever is inserted or removed before it
  ends. Every call takes effect at one moment between its start and its end, and its answer is that of the
  calls executed one after the other in this order; so no insertion is lost and no entry comes back.\<close>

theorem match_during_updates:
  assumes "cell_reach (\<lambda>_ _. None) trie_upd trie_new c" "distinct (inserted (map fst (commits c)))"
    "length (commits c) < 2 ^ 64" "(k, snap) \<in> set (reads c)" "concrete (splitLevels topic)"
  shows "mset (trie_match snap topic ty []) =
      image_mset (\<lambda>p. slot (snd p))
        {#p \<in># fold live_entry (take k (map fst (commits c))) {#}. etype (snd p) = ty \<and> level_match (fst p) (splitLevels topic)#} \<and>
    replay (seq_op (\<lambda>_ _. None) trie_upd) trie_new (map fst (commits c)) = (current c, map snd (commits c)) \<and>
    trie_paths (current c) = fold live_entry (map fst (commits c)) {#}"
proof -
  note lin = trie_cell.linearizable[OF assms(1)]
  let ?ops = "take k (map fst (commits c))"
  obtain rs where r: "replay (seq_op (\<lambda>_ _. None) trie_upd) trie_new ?ops = (snap, rs)"
    using lin(2)[OF assms(4)] by (metis prod.collapse)
  note p = replay_trie[OF r distinct_inserted_take[OF assms(2)]]
  then have "size (trie_paths snap) < 2 ^ 64" using assms(3) by (auto intro: order.strict_trans1)
  then have "mset (trie_match snap topic ty []) = matching ty (splitLevels topic) (trie_paths snap)"
    using trie_match_deliveries p deliveries_matching[OF assms(5)] by simp
  then show ?thesis using p lin(1) replay_trie[OF lin(1) assms(2)] by (simp add: matching_def)
qed

text \<open>Thread 0 inserts and removes two patterns; thread 1 has loaded the snapshot in between.\<close>

definition trie_run :: "(snapshot, trie_op, bool) snap_cell" where
  "trie_run = fold (advance (\<lambda>_ _. None) trie_upd)
     ([(0, Call (Insert ''s/*/t'' (example_entry 1)))] @ replicate 5 (0, Go) @ [(1, Read), (0, Call (Remove 1))] @
      replicate 5 (0, Go)) (cell_new trie_new)"

lemma trie_run_reach: "cell_reach (\<lambda>_ _. None) trie_upd trie_new trie_run"
  unfolding trie_run_def by (rule run_reach)

lemma trie_run_eq:
  "commits trie_run = [(Insert ''s/*/t'' (example_entry 1), True), (Remove 1, True)]"
  "reads trie_run = [(1, trie_insert trie_new ''s/*/t'' (example_entry 1))]"
  by code_simp+

lemma match_during_updates_witness:
  "mset (trie_match (trie_insert trie_new ''s/*/t'' (example_entry 1)) ''s/x/t'' 1 []) = {#1#} \<and>
   trie_paths (current trie_run) = {#}"
proof -
  have l: "splitLevels ''s/*/t'' = [''s'', ''*'', ''t'']" "splitLevels ''s/x/t'' = [''s'', ''x'', ''t'']"
    by (simp_all add: splitLevels_levels code_levels_def)
  show ?thesis
    using match_during_updates[OF trie_run_reach, of 1 _ "''s/x/t''" 1]
    by (simp add: trie_run_eq l concrete_def example_entry_def pid_def)
qed

text \<open>C13: however many threads ask for the slots of topics at the same time, a topic gets one slot: all
  calls that answer with a slot of a topic answer with the same one, of the type they asked for and
  registered in the map; a call fails only if the topic's slot has another type, and then with the
  mismatch error. A map that a dispatch has loaded never differs from the current one but in topics
  it does not have.\<close>

theorem one_slot_per_topic:
  assumes "cell_reach (slots_fast names) (slots_upd names) Map.empty c"
  shows "(\<forall>(x, a)\<in>set (commits c). answer_ok names (current c) x a) \<and>
    (\<forall>x y r r'. (x, Inr r) \<in> set (commits c) \<longrightarrow> (y, Inr r') \<in> set (commits c) \<longrightarrow> call_topic x = call_topic y \<longrightarrow>
      r = r' \<and> call_type x = call_type y) \<and>
    (\<forall>(k, m)\<in>set (reads c). m \<subseteq>\<^sub>m current c)"
proof -
  note lin = slots_cell.linearizable[OF assms]
  let ?q = "seq_op (slots_fast names) (slots_upd names)"
  have all: "answer_ok names (current c) x a" if "(x, a) \<in> set (commits c)" for x a
    using that replay_slots[where m = Map.empty and names = names and ops = "map fst (commits c)"] lin(1)
    by (auto simp: zip_map_fst_snd)
  have mono: "m \<subseteq>\<^sub>m current c" if h: "(k, m) \<in> set (reads c)" for k m
  proof -
    let ?xs = "map fst (commits c)"
    have split: "replay ?q Map.empty ?xs = (case replay ?q Map.empty (take k ?xs) of (s, rs) \<Rightarrow>
        case replay ?q s (drop k ?xs) of (s', rs') \<Rightarrow> (s', rs @ rs'))"
      using replay_append[of ?q Map.empty "take k ?xs" "drop k ?xs"] by simp
    obtain rs where "replay ?q Map.empty (take k ?xs) = (m, rs)" using lin(2)[OF h] by (metis prod.collapse)
    then show ?thesis using split lin(1) replay_slots[where m = m and names = names and ops = "drop k ?xs"] by (auto split: prod.splits)
  qed
  have "r = r' \<and> call_type x = call_type y"
    if "(x, Inr r) \<in> set (commits c)" "(y, Inr r') \<in> set (commits c)" "call_topic x = call_topic y" for x y r r'
    using all[OF that(1)] all[OF that(2)] that(3) by (simp add: answer_ok_def)
  then show ?thesis using all mono by blast
qed

text \<open>Two threads miss the topic at the same time; each has an address ready for the slot.\<close>

definition slots_run :: "(slot_map, slot_call, bus_error + slot_ref) snap_cell" where
  "slots_run = fold (advance (slots_fast (\<lambda>_. [])) (slots_upd (\<lambda>_. [])))
     ([(0, Call \<lparr>call_type = 1, call_topic = 7, call_ref = 10\<rparr>), (1, Call \<lparr>call_type = 1, call_topic = 7, call_ref = 11\<rparr>),
       (0, Go), (1, Go)] @ replicate 4 (0, Go) @ replicate 4 (1, Go)) (cell_new Map.empty)"

lemma slots_run_commits:
  "commits slots_run =
     [(\<lparr>call_type = 1, call_topic = 7, call_ref = 10\<rparr>, Inr 10), (\<lparr>call_type = 1, call_topic = 7, call_ref = 11\<rparr>, Inr 10)]"
  by code_simp

lemma one_slot_per_topic_witness: "current slots_run 7 = Some (10, 1)"
proof -
  have "cell_reach (slots_fast (\<lambda>_. [])) (slots_upd (\<lambda>_. [])) Map.empty slots_run"
    unfolding slots_run_def by (rule run_reach)
  from one_slot_per_topic[OF this] show ?thesis by (simp add: slots_run_commits answer_ok_def)
qed

text \<open>A dispatch that runs while subscribers of its slot come and go calls those that were subscribed when it
  loaded the list, in their order.\<close>

lemma dispatch_during_updates:
  assumes "cell_reach (\<lambda>_ _. None) list_upd (slot_new ty) c" "(k, s) \<in> set (reads c)"
  shows "slot_dispatch (recorded call) s d (w, log) =
    (slot_dispatch call s d w,
     log @ map (\<lambda>x. (handler x, d)) (fold live_subscriber (take k (map fst (commits c))) []))"
proof -
  obtain rs where "replay (seq_op (\<lambda>_ _. None) list_upd) (slot_new ty) (take k (map fst (commits c))) = (s, rs)"
    using list_cell.linearizable(2)[OF assms] by (metis prod.collapse)
  then have "subscribers s = fold live_subscriber (take k (map fst (commits c))) []"
    using replay_list by (fastforce simp: slot_new_def)
  then show ?thesis by (simp add: slot_dispatch_def dispatch_loop_recorded Let_def)
qed

end
