(* ===== verification/Enum_Reflection.thy ===== *)
theory Enum_Reflection
  imports Prelude "HOL-Library.Signed_Division" "HOL-Library.Char_ord"
begin

text \<open>
  \<open>magic_enum.hpp\<close>: the table of an enumeration's values and names, built at compile time from what
  the compiler prints for each candidate value, and the conversions between values, indices and
  names. An enumeration value is its underlying integer. Parameters of an enumeration are the limits
  of its underlying type, the range to search, whether it is an enumeration of flags, the user's
  customisation, and \<open>signature v\<close>, the text of \<open>__PRETTY_FUNCTION__\<close> in \<open>n<v>()\<close> (GCC).
\<close>

section \<open>Names\<close>

datatype customize_t = Default_tag | Invalid_tag | Custom_tag string

record enum_type =
  u_min :: int
  u_max :: int
  u_digits :: nat
  range_min :: int
  range_max :: int
  is_flags :: bool
  castable :: "int \<Rightarrow> bool"
  custom_name :: "int \<Rightarrow> customize_t"
  signature :: "int \<Rightarrow> string"

text \<open>The position behind the last stop character (a colon) at index 1 or more, 0 if there is none. The
  loop starts at the character behind the name.\<close>

fun colon_scan :: "char set \<Rightarrow> string \<Rightarrow> nat \<Rightarrow> nat" where
  "colon_scan stops txt 0 = 0"
| "colon_scan stops txt (Suc i) = (if txt ! Suc i \<in> stops then Suc i + 1 else colon_scan stops txt i)"

definition strip_qualifiers :: "char set \<Rightarrow> nat \<Rightarrow> string \<Rightarrow> string" where
  "strip_qualifiers stops n txt = (let p = colon_scan stops txt n in take (n - p) (drop p txt))"

text \<open>The name in a signature: the text between the fixed parts, nothing if it is a cast, without the
  qualifiers.\<close>

definition n_value :: "string \<Rightarrow> string" where
  "n_value sig =
     (let (size, txt) = (if sig ! (length sig - 1) = CHR '']'' then (length sig - 55, drop 54 sig) else (length sig - 40, drop 37 sig)) in
      if txt ! 0 = CHR ''('' then [] else strip_qualifiers {CHR '':''} size txt)"

definition printed :: "enum_type \<Rightarrow> int \<Rightarrow> string" where
  "printed E v =
     (case custom_name E v of
        Custom_tag name \<Rightarrow> name
      | Invalid_tag \<Rightarrow> []
      | Default_tag \<Rightarrow> n_value (signature E v))"

definition is_valid :: "enum_type \<Rightarrow> int \<Rightarrow> bool" where
  "is_valid E v =
     (if castable E v then
        (case custom_name E v of
           Custom_tag name \<Rightarrow> length name \<noteq> 0
         | Default_tag \<Rightarrow> length (n_value (signature E v)) \<noteq> 0
         | Invalid_tag \<Rightarrow> False)
      else False)"

lemma is_valid_printed: "is_valid E v \<Longrightarrow> printed E v \<noteq> []"
  by (auto simp: is_valid_def printed_def split: if_splits customize_t.splits)

lemma colon_scan_eq:
  "i \<le> j \<Longrightarrow> (\<And>k. i < k \<Longrightarrow> k \<le> j \<Longrightarrow> txt ! k \<notin> stops) \<Longrightarrow> colon_scan stops txt j = colon_scan stops txt i"
  by (induction j) (auto simp: le_Suc_eq)

text \<open>Qualifiers are empty or end with a stop character that is not the first character.\<close>

definition qualifiers :: "char set \<Rightarrow> string \<Rightarrow> bool" where
  "qualifiers stops qual \<longleftrightarrow> qual = [] \<or> length qual > 1 \<and> last qual \<in> stops"

lemma colon_scan_exact:
  assumes "qualifiers stops qual" "set name \<inter> stops = {}" "c \<notin> stops"
  shows "colon_scan stops (qual @ name @ c # rest) (length qual + length name) = length qual"
proof -
  let ?txt = "qual @ name @ c # rest" let ?size = "length qual + length name"
  have clear: "?txt ! k \<notin> stops" if "length qual \<le> k" "k \<le> ?size" for k
  proof (cases "k < ?size")
    case True
    then have "name ! (k - length qual) \<in> set name" using that by simp
    then have "name ! (k - length qual) \<notin> stops" using assms(2) by blast
    then show ?thesis using that True assms(3) by (simp add: nth_append)
  next
    case False
    then show ?thesis using that assms(3) by (simp add: nth_append)
  qed
  show ?thesis
  proof (cases "qual = []")
    case True
    then show ?thesis using colon_scan_eq[of 0 ?size ?txt stops] clear by simp
  next
    case False
    then obtain q m where q: "length qual = Suc (Suc m)" "last qual \<in> stops"
      using assms(1) by (auto simp: qualifiers_def) (metis Suc_less_eq2 less_imp_Suc_add add_0)
    have "colon_scan stops ?txt ?size = colon_scan stops ?txt (Suc m)"
      by (rule colon_scan_eq) (use clear q in auto)
    moreover have "?txt ! Suc m \<in> stops" using q False by (simp add: nth_append last_conv_nth)
    ultimately show ?thesis using q(1) by simp
  qed
qed

lemma strip_qualifiers_exact:
  assumes "qualifiers stops qual" "set name \<inter> stops = {}" "c \<notin> stops"
  shows "strip_qualifiers stops (length qual + length name) (qual @ name @ c # rest) = name"
  using colon_scan_exact[OF assms] by (simp add: strip_qualifiers_def)

lemma n_value_exact:
  assumes "length pre = 54" "qualifiers {CHR '':''} qual" "CHR '':'' \<notin> set name"
    "(qual @ name) \<noteq> []" "hd (qual @ name) \<noteq> CHR ''(''"
  shows "n_value (pre @ qual @ name @ '']'') = name"
proof -
  let ?txt = "qual @ name @ '']''"
  have sig: "(pre @ ?txt) ! (length (pre @ ?txt) - 1) = CHR '']''" "length (pre @ ?txt) - 55 = length qual + length name"
    "drop 54 (pre @ ?txt) = ?txt"
    using assms(1) by (simp_all add: nth_append)
  have first: "?txt ! 0 \<noteq> CHR ''(''" using assms(4,5) by (cases qual; cases name) auto
  show ?thesis
    using first strip_qualifiers_exact[OF assms(2), of name "CHR '']''" "[]"] assms(3)
    unfolding n_value_def Let_def sig by simp
qed

lemma n_value_cast: "length pre = 54 \<Longrightarrow> n_value (pre @ ''('' @ rest @ '']'') = []"
  by (simp add: n_value_def nth_append Let_def)

section \<open>The table of values\<close>

definition ualue :: "enum_type \<Rightarrow> int \<Rightarrow> nat \<Rightarrow> int" where
  "ualue E off i = (if is_flags E then push_bit (nat (int i + off)) 1 else int i + off)"

definition reflected_min :: "enum_type \<Rightarrow> int" where
  "reflected_min E =
     (if is_flags E then 0
      else if u_min E < range_min E then range_min E else u_min E)"

definition reflected_max :: "enum_type \<Rightarrow> int" where
  "reflected_max E =
     (if is_flags E then int (u_digits E) - 1
      else if range_max E < u_max E then range_max E else u_max E)"

definition range_size :: "enum_type \<Rightarrow> nat" where
  "range_size E = nat (reflected_max E - reflected_min E + 1)"

definition valid_count :: "enum_type \<Rightarrow> bool list \<times> nat" where
  "valid_count E =
     fold (\<lambda>i (valid, n). if is_valid E (ualue E (reflected_min E) i) then (valid[i := True], n + 1) else (valid, n))
       [0..<range_size E] (replicate (range_size E) False, 0)"

text \<open>The loop that stops when all \<open>count\<close> values have been copied.\<close>

fun values_loop :: "enum_type \<Rightarrow> bool list \<Rightarrow> nat \<Rightarrow> nat \<Rightarrow> int list" where
  "values_loop E [] i k = []"
| "values_loop E (b # valid) i k =
     (if k = 0 then []
      else if b then ualue E (reflected_min E) i # values_loop E valid (i + 1) (k - 1)
      else values_loop E valid (i + 1) k)"

definition enum_values :: "enum_type \<Rightarrow> int list" where
  "enum_values E = (case valid_count E of (valid, n) \<Rightarrow> if n > 0 then values_loop E valid 0 n else [])"

definition enum_count :: "enum_type \<Rightarrow> nat" where
  "enum_count E = length (enum_values E)"

definition min_v :: "enum_type \<Rightarrow> int" where
  "min_v E = (if enum_count E > 0 then hd (enum_values E) else 0)"

definition max_v :: "enum_type \<Rightarrow> int" where
  "max_v E = (if enum_count E > 0 then last (enum_values E) else 0)"

definition enum_names :: "enum_type \<Rightarrow> string list" where
  "enum_names E = map (printed E) (enum_values E)"

definition enum_entries :: "enum_type \<Rightarrow> (int \<times> string) list" where
  "enum_entries E = map (\<lambda>v. (v, printed E v)) (enum_values E)"

function log2_loop :: "int \<Rightarrow> int \<Rightarrow> int" where
  "log2_loop v r = (if v > 1 then log2_loop (drop_bit 1 v) (r + 1) else r)"
  by auto
termination
  by (relation "measure (\<lambda>(v, r). nat v)") (auto simp: drop_bit_eq_div)

declare log2_loop.simps [simp del]

definition log2 :: "int \<Rightarrow> int" where
  "log2 v = log2_loop v 0"

definition is_sparse :: "enum_type \<Rightarrow> bool" where
  "is_sparse E =
     (if enum_count E = 0 then False
      else (let mx = if is_flags E then log2 (max_v E) else max_v E;
                mn = if is_flags E then log2 (min_v E) else min_v E
            in mx - mn + 1 \<noteq> int (enum_count E)))"

section \<open>Values, indices and names\<close>

definition enum_value :: "enum_type \<Rightarrow> nat \<Rightarrow> int" where
  "enum_value E i =
     (if is_sparse E then enum_values E ! i
      else (let mn = if is_flags E then log2 (min_v E) else min_v E in ualue E mn i))"

text \<open>The searching loops: the first index below \<open>n\<close> with the property.\<close>

fun first_index :: "(nat \<Rightarrow> bool) \<Rightarrow> nat list \<Rightarrow> nat option" where
  "first_index P [] = None"
| "first_index P (i # is) = (if P i then Some i else first_index P is)"

definition enum_index :: "enum_type \<Rightarrow> int \<Rightarrow> nat option" where
  "enum_index E v =
     (if is_sparse E \<or> is_flags E then first_index (\<lambda>i. enum_value E i = v) [0..<enum_count E]
      else if min_v E \<le> v \<and> v \<le> max_v E then Some (nat (v - min_v E)) else None)"

definition enum_name :: "enum_type \<Rightarrow> int \<Rightarrow> string" where
  "enum_name E v = (case enum_index E v of Some i \<Rightarrow> enum_names E ! i | None \<Rightarrow> [])"

definition enum_cast :: "enum_type \<Rightarrow> int \<Rightarrow> int option" where
  "enum_cast E v =
     (if is_sparse E \<or> is_flags E then
        (case first_index (\<lambda>i. v = enum_value E i) [0..<enum_count E] of Some i \<Rightarrow> Some v | None \<Rightarrow> None)
      else if min_v E \<le> v \<and> v \<le> max_v E then Some v else None)"

fun cmp_loop :: "(char \<Rightarrow> char \<Rightarrow> bool) \<Rightarrow> string \<Rightarrow> string \<Rightarrow> bool" where
  "cmp_loop p (a # as) (b # bs) = (if \<not> p a b then False else cmp_loop p as bs)"
| "cmp_loop p _ _ = True"

text \<open>The predicate is \<open>None\<close> for the default \<open>std::equal_to\<close>.\<close>

definition cmp_equal :: "(char \<Rightarrow> char \<Rightarrow> bool) option \<Rightarrow> string \<Rightarrow> string \<Rightarrow> bool" where
  "cmp_equal pred lhs rhs =
     (case pred of
        Some p \<Rightarrow> if length lhs \<noteq> length rhs then False else cmp_loop p lhs rhs
      | None \<Rightarrow> lhs = rhs)"

definition enum_cast_name :: "enum_type \<Rightarrow> (char \<Rightarrow> char \<Rightarrow> bool) option \<Rightarrow> string \<Rightarrow> int option" where
  "enum_cast_name E pred s =
     (case first_index (\<lambda>i. cmp_equal pred s (enum_names E ! i)) [0..<enum_count E] of
        Some i \<Rightarrow> Some (enum_value E i)
      | None \<Rightarrow> None)"

definition enum_contains :: "enum_type \<Rightarrow> int \<Rightarrow> bool" where
  "enum_contains E v \<longleftrightarrow> enum_cast E v \<noteq> None"

definition enum_contains_name :: "enum_type \<Rightarrow> (char \<Rightarrow> char \<Rightarrow> bool) option \<Rightarrow> string \<Rightarrow> bool" where
  "enum_contains_name E pred s \<longleftrightarrow> enum_cast_name E pred s \<noteq> None"

definition enum_reflected :: "enum_type \<Rightarrow> int \<Rightarrow> bool" where
  "enum_reflected E v = (if enum_count E \<noteq> 0 then reflected_min E \<le> v \<and> v \<le> reflected_max E else False)"

section \<open>The table is the sorted list of the enumerators in range\<close>

text \<open>The indices of the valid values.\<close>

definition valid_idx :: "enum_type \<Rightarrow> nat list" where
  "valid_idx E = filter (\<lambda>i. is_valid E (ualue E (reflected_min E) i)) [0..<range_size E]"

lemma valid_count_eq:
  "valid_count E = (map (\<lambda>i. is_valid E (ualue E (reflected_min E) i)) [0..<range_size E], length (valid_idx E))"
proof -
  let ?P = "\<lambda>i. is_valid E (ualue E (reflected_min E) i)"
  let ?f = "\<lambda>i (valid, n). if ?P i then (valid[i := True], n + 1) else (valid, n)"
  have "fold ?f [0..<m] (replicate k False, 0) =
      (map ?P [0..<m] @ replicate (k - m) False, length (filter ?P [0..<m]))" if "m \<le> k" for m k
    using that
  proof (induction m)
    case (Suc m)
    then have "replicate (k - m) False = False # replicate (k - Suc m) False"
      by (metis Suc_diff_Suc Suc_le_lessD replicate_Suc)
    then show ?case using Suc by (simp add: list_update_append)
  qed simp
  from this[of "range_size E" "range_size E"] show ?thesis
    by (simp add: valid_count_def valid_idx_def)
qed

lemma values_loop_eq:
  "k = length (filter id valid) \<Longrightarrow>
   values_loop E valid i k = map (\<lambda>j. ualue E (reflected_min E) (i + j)) (filter (\<lambda>j. valid ! j) [0..<length valid])"
proof (induction valid arbitrary: i k)
  case (Cons b valid)
  have up: "[0..<length (b # valid)] = 0 # map Suc [0..<length valid]"
    by (simp add: map_Suc_upt upt_conv_Cons del: upt_Suc)
  show ?case
  proof (cases "k = 0")
    case True
    then have "filter id (b # valid) = []" using Cons.prems by (simp only: length_0_conv[symmetric])
    then have none: "\<forall>j < length (b # valid). \<not> (b # valid) ! j"
      by (metis filter_empty_conv id_apply nth_mem)
    then have "filter (\<lambda>j. (b # valid) ! j) [0..<length (b # valid)] = []"
      by (simp add: filter_empty_conv del: upt_Suc)
    then show ?thesis using True by (simp del: upt_Suc)
  next
    case False
    then show ?thesis
      using Cons.prems Cons.IH[of "k - (if b then 1 else 0)" "i + 1"] unfolding up
      by (auto simp: filter_map comp_def simp del: upt_Suc)
  qed
qed simp

lemma enum_values_eq: "enum_values E = map (ualue E (reflected_min E)) (valid_idx E)"
proof -
  let ?P = "\<lambda>i. is_valid E (ualue E (reflected_min E) i)"
  let ?valid = "map ?P [0..<range_size E]"
  have "filter id ?valid = map ?P (filter ?P [0..<range_size E])" by (simp add: filter_map comp_def)
  then have len: "length (valid_idx E) = length (filter id ?valid)" by (simp add: valid_idx_def)
  have "filter (\<lambda>j. ?valid ! j) [0..<range_size E] = valid_idx E"
    unfolding valid_idx_def by (rule filter_cong) auto
  then have "values_loop E ?valid 0 (length (valid_idx E)) = map (ualue E (reflected_min E)) (valid_idx E)"
    using values_loop_eq[OF len, of E 0] by simp
  then show ?thesis by (auto simp: enum_values_def valid_count_eq)
qed

text \<open>The indices increase, and so do the values.\<close>

lemma sorted_valid_idx: "sorted_wrt (<) (valid_idx E)"
  by (simp add: valid_idx_def sorted_wrt_filter)

lemma ualue_mono: "i < j \<Longrightarrow> 0 \<le> off \<or> \<not> is_flags E \<Longrightarrow> ualue E off i < ualue E off j"
  by (auto simp: ualue_def push_bit_eq_mult nat_add_distrib)

lemma reflected_min_flags [simp]: "is_flags E \<Longrightarrow> reflected_min E = 0"
  by (simp add: reflected_min_def)

lemma sorted_enum_values: "sorted_wrt (<) (enum_values E)"
  unfolding enum_values_eq sorted_wrt_map
  by (rule sorted_wrt_mono_rel[OF _ sorted_valid_idx]) (auto intro!: ualue_mono)

lemma distinct_enum_values [simp]: "distinct (enum_values E)"
  using sorted_enum_values strict_sorted_iff by blast

lemma enum_count_eq: "enum_count E = length (valid_idx E)"
  by (simp add: enum_count_def enum_values_eq)

text \<open>The integers an enumerator can be found at.\<close>

definition reflectable :: "enum_type \<Rightarrow> int set" where
  "reflectable E = (if is_flags E then (\<lambda>k. 2 ^ k) ` {..<u_digits E} else {reflected_min E..reflected_max E})"

lemma ualue_range: "ualue E (reflected_min E) ` {..<range_size E} = reflectable E"
proof (cases "is_flags E")
  case True
  then have "range_size E = u_digits E" by (simp add: range_size_def reflected_max_def)
  then show ?thesis using True by (auto simp: reflectable_def ualue_def push_bit_eq_mult)
next
  case False
  have "(\<lambda>i. int i + a) ` {..<nat (b - a + 1)} = {a..b}" for a b :: int
  proof (intro equalityI subsetI)
    fix x assume "x \<in> {a..b}"
    then show "x \<in> (\<lambda>i. int i + a) ` {..<nat (b - a + 1)}"
      by (intro image_eqI[of _ _ "nat (x - a)"]) auto
  qed auto
  then show ?thesis using False by (simp add: reflectable_def range_size_def ualue_def)
qed

lemma set_enum_values: "set (enum_values E) = {v \<in> reflectable E. is_valid E v}"
  unfolding enum_values_eq ualue_range[symmetric] by (auto simp: valid_idx_def)

lemma finite_reflectable [simp]: "finite (reflectable E)"
  unfolding ualue_range[symmetric] by simp

lemma enum_values_sorted_list: "enum_values E = sorted_list_of_set {v \<in> reflectable E. is_valid E v}"
  using sorted_enum_values
  by (metis set_enum_values distinct_enum_values sorted_list_of_set.idem_if_sorted_distinct strict_sorted_imp_sorted)

section \<open>A dense table is computed, a sparse one is searched\<close>

lemma sorted_nth_ge:
  fixes xs :: "nat list"
  assumes "sorted_wrt (<) xs" "i + k < length xs"
  shows "xs ! i + k \<le> xs ! (i + k)"
  using assms(2)
proof (induction k)
  case (Suc k)
  moreover have "xs ! (i + k) < xs ! (i + Suc k)" using assms(1) Suc.prems by (simp add: sorted_wrt_nth_less)
  ultimately show ?case by simp
qed simp

lemma dense_nth:
  fixes xs :: "nat list"
  assumes "sorted_wrt (<) xs" "i < length xs" "last xs + 1 = hd xs + length xs"
  shows "xs ! i = hd xs + i"
proof -
  have ne: "xs \<noteq> []" using assms(2) by auto
  have "hd xs + i \<le> xs ! i" using sorted_nth_ge[of xs 0 i] assms ne by (simp add: hd_conv_nth)
  moreover have "xs ! i + (length xs - 1 - i) \<le> last xs"
    using sorted_nth_ge[of xs i "length xs - 1 - i"] assms ne by (simp add: last_conv_nth)
  ultimately show ?thesis using assms by linarith
qed

lemma log2_loop_power: "log2_loop (2 ^ k) r = r + int k"
proof (induction k arbitrary: r)
  case (Suc k)
  have "(1 :: int) < 2 ^ Suc k" by (rule one_less_power) auto
  then show ?case using Suc by (subst log2_loop.simps) (simp add: drop_bit_eq_div)
qed (simp add: log2_loop.simps)

lemma log2_power [simp]: "log2 (2 ^ k) = int k"
  by (simp add: log2_def log2_loop_power)

text \<open>The position of the first and of the last enumerator, as the code computes it.\<close>

definition pos_of :: "enum_type \<Rightarrow> int \<Rightarrow> int" where
  "pos_of E v = (if is_flags E then log2 v else v)"

lemma pos_of_ualue: "pos_of E (ualue E (reflected_min E) i) = int i + reflected_min E"
  by (auto simp: pos_of_def ualue_def push_bit_eq_mult)

lemma ualue_shift: "ualue E (int h + reflected_min E) i = ualue E (reflected_min E) (h + i)"
  by (auto simp: ualue_def nat_add_distrib algebra_simps)

lemma min_v_eq: "enum_count E > 0 \<Longrightarrow> min_v E = ualue E (reflected_min E) (hd (valid_idx E))"
  by (auto simp: min_v_def enum_count_def enum_values_eq hd_map)

lemma max_v_eq: "enum_count E > 0 \<Longrightarrow> max_v E = ualue E (reflected_min E) (last (valid_idx E))"
  by (auto simp: max_v_def enum_count_def enum_values_eq last_map)

lemma is_sparse_eq:
  assumes "enum_count E > 0"
  shows "is_sparse E \<longleftrightarrow> last (valid_idx E) + 1 \<noteq> hd (valid_idx E) + length (valid_idx E)"
proof -
  have "is_sparse E \<longleftrightarrow> pos_of E (max_v E) - pos_of E (min_v E) + 1 \<noteq> int (enum_count E)"
    using assms by (simp add: is_sparse_def pos_of_def Let_def)
  then show ?thesis
    using assms by (auto simp: min_v_eq max_v_eq pos_of_ualue enum_count_eq)
qed

lemma dense_idx: "enum_count E > 0 \<Longrightarrow> \<not> is_sparse E \<Longrightarrow> i < enum_count E \<Longrightarrow> valid_idx E ! i = hd (valid_idx E) + i"
  using dense_nth[OF sorted_valid_idx] by (simp add: is_sparse_eq enum_count_eq)

lemma enum_value_nth:
  assumes "i < enum_count E"
  shows "enum_value E i = enum_values E ! i"
proof (cases "is_sparse E")
  case False
  have pos: "enum_count E > 0" using assms by simp
  have "pos_of E (min_v E) = int (hd (valid_idx E)) + reflected_min E"
    using pos by (simp add: min_v_eq pos_of_ualue)
  then have "enum_value E i = ualue E (int (hd (valid_idx E)) + reflected_min E) i"
    using False by (simp add: enum_value_def pos_of_def Let_def)
  also have "\<dots> = ualue E (reflected_min E) (valid_idx E ! i)"
    using dense_idx[OF pos False assms] by (simp add: ualue_shift)
  also have "\<dots> = enum_values E ! i" using assms by (simp add: enum_values_eq enum_count_eq)
  finally show ?thesis .
qed (simp add: enum_value_def)

lemma enum_values_nth: "i < enum_count E \<Longrightarrow> enum_values E ! i \<in> set (enum_values E)"
  by (simp add: enum_count_def)

text \<open>A dense table without flags is an interval.\<close>

lemma dense_interval:
  assumes "enum_count E > 0" "\<not> is_sparse E" "\<not> is_flags E"
  shows "\<And>i. i < enum_count E \<Longrightarrow> enum_values E ! i = min_v E + int i"
    and "max_v E = min_v E + int (enum_count E) - 1"
proof -
  have v: "enum_value E i = min_v E + int i" for i
    using assms by (simp add: enum_value_def ualue_def)
  show nth: "enum_values E ! i = min_v E + int i" if "i < enum_count E" for i
    using enum_value_nth[OF that] v by simp
  have "max_v E = enum_values E ! (enum_count E - 1)"
    using assms(1) by (auto simp: max_v_def enum_count_def last_conv_nth)
  then show "max_v E = min_v E + int (enum_count E) - 1" using nth[of "enum_count E - 1"] assms(1) by simp
qed

lemma first_index_Some: "first_index P xs = Some i \<Longrightarrow> i \<in> set xs \<and> P i"
  by (induction xs) (auto split: if_splits)

lemma first_index_None: "first_index P xs = None \<longleftrightarrow> (\<forall>i\<in>set xs. \<not> P i)"
  by (induction xs) auto

lemma first_index_nth:
  assumes "distinct ys" "i < length ys" "\<And>j. j < length ys \<Longrightarrow> P j = (ys ! j = ys ! i)"
  shows "first_index P [0..<length ys] = Some i"
proof (cases "first_index P [0..<length ys]")
  case None
  then show ?thesis using assms by (auto simp: first_index_None)
next
  case (Some j)
  then show ?thesis using first_index_Some[OF Some] assms by (auto simp: nth_eq_iff_index_eq)
qed

lemma enum_index_nth:
  assumes "i < enum_count E"
  shows "enum_index E (enum_values E ! i) = Some i"
proof (cases "is_sparse E \<or> is_flags E")
  case True
  have "first_index (\<lambda>j. enum_value E j = enum_values E ! i) [0..<enum_count E] = Some i"
    using assms unfolding enum_count_def
    by (intro first_index_nth) (auto simp: enum_value_nth enum_count_def)
  then show ?thesis using True by (simp add: enum_index_def)
next
  case False
  then show ?thesis using assms dense_interval[of E] by (simp add: enum_index_def)
qed

lemma enum_index_Some:
  assumes "enum_count E > 0"
  shows "enum_index E v = Some i \<longleftrightarrow> i < enum_count E \<and> enum_values E ! i = v"
proof
  assume h: "enum_index E v = Some i"
  show "i < enum_count E \<and> enum_values E ! i = v"
  proof (cases "is_sparse E \<or> is_flags E")
    case True
    then have "first_index (\<lambda>j. enum_value E j = v) [0..<enum_count E] = Some i" using h by (simp add: enum_index_def)
    from first_index_Some[OF this] show ?thesis by (auto simp: enum_value_nth)
  next
    case False
    then have "min_v E \<le> v" "v \<le> max_v E" "i = nat (v - min_v E)"
      using h by (auto simp: enum_index_def split: if_splits)
    then show ?thesis using assms False dense_interval[of E] by (auto simp: nat_less_iff)
  qed
qed (use enum_index_nth in auto)

lemma enum_index_None: "enum_count E > 0 \<Longrightarrow> enum_index E v = None \<longleftrightarrow> v \<notin> set (enum_values E)"
  using enum_index_Some[of E v] by (cases "enum_index E v") (auto simp: in_set_conv_nth enum_count_def)

section \<open>Casts and names\<close>

lemma enum_cast_Some:
  assumes "enum_count E > 0"
  shows "enum_cast E v = Some w \<longleftrightarrow> w = v \<and> v \<in> set (enum_values E)"
proof (cases "is_sparse E \<or> is_flags E")
  case True
  have "first_index (\<lambda>i. v = enum_value E i) [0..<enum_count E] = None \<longleftrightarrow> v \<notin> set (enum_values E)"
    by (auto simp: first_index_None enum_value_nth in_set_conv_nth enum_count_def)
  then show ?thesis using True by (auto simp: enum_cast_def split: option.splits)
next
  case False
  have "v \<in> set (enum_values E) \<longleftrightarrow> enum_index E v \<noteq> None" by (simp add: enum_index_None[OF assms])
  then show ?thesis using False by (auto simp: enum_cast_def enum_index_def)
qed

lemma enum_contains_iff: "enum_count E > 0 \<Longrightarrow> enum_contains E v \<longleftrightarrow> v \<in> set (enum_values E)"
  using enum_cast_Some[of E v v] by (auto simp: enum_contains_def enum_cast_Some)

lemma enum_names_nth: "i < enum_count E \<Longrightarrow> enum_names E ! i = printed E (enum_values E ! i)"
  by (simp add: enum_names_def enum_count_def)

lemma length_enum_names [simp]: "length (enum_names E) = enum_count E"
  by (simp add: enum_names_def enum_count_def)

lemma enum_name_printed:
  assumes "enum_count E > 0"
  shows "enum_name E v = (if v \<in> set (enum_values E) then printed E v else [])"
proof (cases "enum_index E v")
  case None
  then have "v \<notin> set (enum_values E)" by (simp add: enum_index_None[OF assms])
  then show ?thesis using None by (simp add: enum_name_def)
next
  case (Some i)
  then have "i < enum_count E" "enum_values E ! i = v" using enum_index_Some[OF assms] by auto
  then show ?thesis using Some enum_values_nth[of i E] by (auto simp: enum_name_def enum_names_nth)
qed

lemma cmp_loop_all2: "length s = length t \<Longrightarrow> cmp_loop p s t = list_all2 p s t"
  by (induction s t rule: list_induct2) auto

lemma cmp_equal_iff:
  "cmp_equal pred s t \<longleftrightarrow> (case pred of None \<Rightarrow> s = t | Some p \<Rightarrow> list_all2 p s t)"
  by (auto simp: cmp_equal_def cmp_loop_all2 list_all2_lengthD split: option.splits)

lemma cmp_equal_default [simp]: "cmp_equal None s t \<longleftrightarrow> s = t"
  by (simp add: cmp_equal_def)

lemma enum_cast_name_default:
  assumes "i < enum_count E" "distinct (enum_names E)"
  shows "enum_cast_name E None (enum_names E ! i) = Some (enum_values E ! i)"
proof -
  have "first_index (\<lambda>j. enum_names E ! i = enum_names E ! j) [0..<enum_count E] = Some i"
    using assms by (subst length_enum_names[symmetric], intro first_index_nth) auto
  then show ?thesis using assms by (simp add: enum_cast_name_def enum_value_nth)
qed

text \<open>A cast from a name gives the first enumerator whose name the predicate accepts.\<close>

lemma enum_cast_name_Some:
  assumes "enum_cast_name E pred s = Some v"
  shows "v \<in> set (enum_values E) \<and> cmp_equal pred s (printed E v)"
  using assms
  by (auto simp: enum_cast_name_def enum_value_nth enum_names_nth enum_values_nth
      dest!: first_index_Some split: option.splits)

lemma enum_cast_name_None:
  "enum_cast_name E pred s = None \<longleftrightarrow> (\<forall>v\<in>set (enum_values E). \<not> cmp_equal pred s (printed E v))"
proof -
  have "enum_cast_name E pred s = None \<longleftrightarrow> (\<forall>i<enum_count E. \<not> cmp_equal pred s (enum_names E ! i))"
    by (auto simp: enum_cast_name_def first_index_None dest!: first_index_Some split: option.splits)
  then show ?thesis by (simp add: enum_names_nth enum_count_def all_set_conv_all_nth)
qed

lemma enum_cast_name_round_trip:
  assumes "distinct (enum_names E)" "v \<in> set (enum_values E)"
  shows "enum_cast_name E None (enum_name E v) = Some v"
proof -
  obtain i where i: "i < enum_count E" "enum_values E ! i = v" using assms(2) by (auto simp: in_set_conv_nth enum_count_def)
  then have "enum_name E v = enum_names E ! i" using assms(2) by (subst enum_name_printed) (auto simp: enum_names_nth)
  then show ?thesis using enum_cast_name_default[OF i(1) assms(1)] i(2) by simp
qed

section \<open>Stepping through the enumerators\<close>

text \<open>\<open>magic_enum_utility.hpp\<close>. The remainder of C++ has the sign of the dividend.\<close>

definition enum_next_value :: "enum_type \<Rightarrow> int \<Rightarrow> int \<Rightarrow> int option" where
  "enum_next_value E v n =
     (case enum_index E v of
        Some i \<Rightarrow> (let index = int i + n in
          if index \<ge> 0 \<and> index < int (enum_count E) then Some (enum_value E (nat index)) else None)
      | None \<Rightarrow> None)"

definition enum_next_value_circular :: "enum_type \<Rightarrow> int \<Rightarrow> int \<Rightarrow> int" where
  "enum_next_value_circular E v n =
     (case enum_index E v of
        Some i \<Rightarrow> (let count = int (enum_count E); index = (((int i + n) smod count) + count) smod count in
          if index \<ge> 0 \<and> index < count then enum_value E (nat index) else v)
      | None \<Rightarrow> v)"

definition enum_prev_value :: "enum_type \<Rightarrow> int \<Rightarrow> int \<Rightarrow> int option" where
  "enum_prev_value E v n =
     (case enum_index E v of
        Some i \<Rightarrow> (let index = int i - n in
          if index \<ge> 0 \<and> index < int (enum_count E) then Some (enum_value E (nat index)) else None)
      | None \<Rightarrow> None)"

definition enum_prev_value_circular :: "enum_type \<Rightarrow> int \<Rightarrow> int \<Rightarrow> int" where
  "enum_prev_value_circular E v n =
     (case enum_index E v of
        Some i \<Rightarrow> (let count = int (enum_count E); index = (((int i - n) smod count) + count) smod count in
          if index \<ge> 0 \<and> index < count then enum_value E (nat index) else v)
      | None \<Rightarrow> v)"

lemma smod_twice:
  assumes "0 < (c :: int)"
  shows "((a smod c) + c) smod c = a mod c"
proof -
  let ?x = "a smod c"
  have "?x + c = a + c * (1 - a sdiv c)" by (simp add: minus_mult_sdiv_eq_smod[symmetric] algebra_simps)
  then have "(?x + c) mod c = a mod c" by simp
  moreover have "\<bar>a\<bar> mod c < c" "0 \<le> \<bar>a\<bar> mod c" using assms by simp_all
  then have "0 < ?x + c" using assms by (auto simp: signed_modulo_int_def sgn_if intro: add_nonneg_pos)
  ultimately show ?thesis using assms by (simp add: signed_modulo_int_def[of "?x + c"])
qed

lemma enum_next_value_circular_nth:
  assumes "i < enum_count E"
  shows "enum_next_value_circular E (enum_values E ! i) n = enum_values E ! nat ((int i + n) mod int (enum_count E))"
proof -
  let ?c = "int (enum_count E)" have c: "0 < ?c" using assms by simp
  then have "0 \<le> (int i + n) mod ?c" "(int i + n) mod ?c < ?c" by simp_all
  then show ?thesis
    using smod_twice[OF c] enum_index_nth[OF assms] assms
    by (simp add: enum_next_value_circular_def enum_value_nth nat_less_iff)
qed

lemma enum_prev_is_next: "enum_prev_value E v n = enum_next_value E v (- n)"
  by (simp add: enum_prev_value_def enum_next_value_def split: option.split)

lemma enum_prev_is_next_circular: "enum_prev_value_circular E v n = enum_next_value_circular E v (- n)"
  by (simp add: enum_prev_value_circular_def enum_next_value_circular_def split: option.split)

lemma circular_round_trip:
  assumes "v \<in> set (enum_values E)"
  shows "enum_prev_value_circular E (enum_next_value_circular E v n) n = v"
proof -
  obtain i where i: "i < enum_count E" "enum_values E ! i = v" using assms by (auto simp: in_set_conv_nth enum_count_def)
  let ?c = "int (enum_count E)" let ?j = "nat ((int i + n) mod ?c)"
  have c: "0 < ?c" using i by simp
  then have j: "?j < enum_count E" by (simp add: nat_less_iff)
  have "(int ?j + - n) mod ?c = (int i + n - n) mod ?c" using c by (simp add: mod_diff_left_eq)
  also have "\<dots> = int i" using i(1) by simp
  finally show ?thesis
    using enum_next_value_circular_nth[OF i(1), of n] enum_next_value_circular_nth[OF j, of "- n"] i
    by (simp add: enum_prev_is_next_circular)
qed

lemma enum_next_value_nth:
  assumes "i < enum_count E"
  shows "enum_next_value E (enum_values E ! i) n =
    (if 0 \<le> int i + n \<and> int i + n < int (enum_count E) then Some (enum_values E ! nat (int i + n)) else None)"
  using enum_index_nth[OF assms] by (auto simp: enum_next_value_def enum_value_nth nat_less_iff Let_def)

section \<open>Comparison without regard to case\<close>

definition to_lower :: "char \<Rightarrow> char" where
  "to_lower c = (if CHR ''A'' \<le> c \<and> c \<le> CHR ''Z'' then char_of ((of_char c :: nat) + (of_char CHR ''a'' - of_char CHR ''A'')) else c)"

definition case_insensitive :: "(char \<Rightarrow> char \<Rightarrow> bool) \<Rightarrow> char \<Rightarrow> char \<Rightarrow> bool" where
  "case_insensitive f l r = f (to_lower l) (to_lower r)"

lemma cmp_equal_case_insensitive:
  "cmp_equal (Some (case_insensitive (=))) s t \<longleftrightarrow> map to_lower s = map to_lower t"
proof -
  have "list_all2 (case_insensitive (=)) s t \<longleftrightarrow> list_all2 (=) (map to_lower s) (map to_lower t)"
    by (simp add: list_all2_map1 list_all2_map2 case_insensitive_def[abs_def])
  then show ?thesis by (simp add: cmp_equal_iff list.rel_eq)
qed

section \<open>The reflection of an enumeration\<close>

text \<open>A small enumeration for the witnesses: the enumerators 1, 2 and 5.\<close>

definition gcc_signature :: "string \<Rightarrow> string" where
  "gcc_signature v = ''constexpr auto magic_enum::detail::n() [with auto V = '' @ v @ '']''"

definition colours :: enum_type where
  "colours = \<lparr>u_min = - 128, u_max = 127, u_digits = 7, range_min = 0, range_max = 7, is_flags = False,
     castable = (\<lambda>_. True), custom_name = (\<lambda>_. Default_tag),
     signature = (\<lambda>v. gcc_signature (if v = 1 then ''Colour::Red'' else if v = 2 then ''Colour::Green''
       else if v = 5 then ''Colour::Blue'' else ''(Colour)0''))\<rparr>"

lemma colours_table:
  "enum_count colours = 3" "enum_values colours = [1, 2, 5]" "enum_names colours = [''Red'', ''Green'', ''Blue'']"
  by code_simp+

lemma colours_index:
  "enum_index colours = (\<lambda>v. if v = 1 then Some 0 else if v = 2 then Some 1 else if v = 5 then Some 2 else None)"
proof (rule ext)
  fix v
  have pos: "enum_count colours > 0" by (simp add: colours_table)
  have "enum_index colours v = Some 0 \<longleftrightarrow> v = 1" "enum_index colours v = Some 1 \<longleftrightarrow> v = 2" "enum_index colours v = Some 2 \<longleftrightarrow> v = 5"
    by (auto simp: enum_index_Some[OF pos] colours_table)
  moreover have "enum_index colours v = None \<longleftrightarrow> v \<notin> {1, 2, 5}"
    by (simp add: enum_index_None[OF pos] colours_table)
  ultimately show "enum_index colours v = (if v = 1 then Some 0 else if v = 2 then Some 1 else if v = 5 then Some 2 else None)"
    by auto
qed

text \<open>From the compiler's text for an enumerator, a fixed part of 54 characters, the qualified name
  and a bracket, \<open>n\<close> reads the name without its qualifiers; from the text for a value that is no
  enumerator, which the compiler writes as a cast, it reads the empty string. So exactly the
  enumerators are valid.\<close>

lemma signature_names:
  assumes "length pre = 54" "qualifiers {CHR '':''} qual" "CHR '':'' \<notin> set name"
    "name \<noteq> []" "hd (qual @ name) \<noteq> CHR ''(''" "castable E v" "custom_name E v = Default_tag"
  shows "(signature E v = pre @ qual @ name @ '']'' \<longrightarrow> printed E v = name \<and> is_valid E v) \<and>
    (signature E v = pre @ ''('' @ rest @ '']'' \<longrightarrow> printed E v = [] \<and> \<not> is_valid E v)"
  using n_value_exact[OF assms(1-3) _ assms(5)] n_value_cast[OF assms(1), of rest] assms(4,6,7)
  by (simp add: printed_def is_valid_def)

lemma signature_names_witness:
  "printed colours 2 = ''Green'' \<and> is_valid colours 2 \<and> printed colours 0 = [] \<and> \<not> is_valid colours 0"
proof -
  let ?pre = "''constexpr auto magic_enum::detail::n() [with auto V = ''"
  have q: "qualifiers {CHR '':''} ''Colour::''" by (simp add: qualifiers_def)
  have l: "length ?pre = 54" by simp
  have c: "castable colours v" "custom_name colours v = Default_tag" for v by (simp_all add: colours_def)
  have g: "signature colours 2 = ?pre @ ''Colour::'' @ ''Green'' @ '']''"
    and z: "signature colours 0 = ?pre @ ''('' @ ''Colour)0'' @ '']''"
    by (simp_all add: colours_def gcc_signature_def)
  have "hd (''Colour::'' @ ''Green'') \<noteq> CHR ''(''" "CHR '':'' \<notin> set ''Green''" "''Green'' \<noteq> []" by simp_all
  note inst = signature_names[OF l q this(2,3,1) c]
  show ?thesis using inst(1)[of _ "''Colour)0''"] g z by blast
qed

text \<open>The table built at compile time is the sorted list of exactly those integers of the
  reflected range (the range set for the enumeration cut to the underlying type, or the single
  bits of a flags enumeration) for which the compiler prints an enumerator; each enumerator stands
  there once, and the names stand at the same positions.\<close>

theorem table_exact:
  "enum_values E = sorted_list_of_set {v \<in> reflectable E. is_valid E v} \<and>
   enum_names E = map (printed E) (sorted_list_of_set {v \<in> reflectable E. is_valid E v}) \<and>
   enum_entries E = zip (enum_values E) (enum_names E)"
  by (simp add: enum_names_def enum_values_sorted_list[symmetric] enum_entries_def zip_map2 zip_same_conv_map)

text \<open>For a reflected enumeration, the index of a value and the value at an index are inverse to
  each other and both agree with the table, whichever of the two routes the code takes: by searching
  in a sparse or flags enumeration, by arithmetic from the smallest enumerator in a dense one.\<close>

theorem index_value_inverse:
  assumes "enum_count E > 0"
  shows "enum_index E v = Some i \<longleftrightarrow> i < enum_count E \<and> enum_value E i = v \<and> enum_values E ! i = v"
  using assms by (auto simp: enum_index_Some enum_value_nth)

lemma index_value_inverse_witness:
  "enum_index colours 5 = Some 2 \<longleftrightarrow> (2 :: nat) < enum_count colours \<and> enum_value colours 2 = 5 \<and> enum_values colours ! 2 = 5"
  by (rule index_value_inverse) (simp add: colours_table)



text \<open>Stepping. From an enumerator, \<open>enum_next_value\<close> gives the one \<open>n\<close> places on, or nothing when
  that leaves the table; the circular form goes round the table in either direction for steps of any
  size and sign, and stepping back by \<open>n\<close> undoes it.\<close>

theorem stepping:
  assumes "i < enum_count E"
  shows "enum_next_value E (enum_values E ! i) n =
      (if 0 \<le> int i + n \<and> int i + n < int (enum_count E) then Some (enum_values E ! nat (int i + n)) else None) \<and>
    enum_prev_value E (enum_values E ! i) n = enum_next_value E (enum_values E ! i) (- n) \<and>
    enum_next_value_circular E (enum_values E ! i) n = enum_values E ! nat ((int i + n) mod int (enum_count E)) \<and>
    enum_prev_value_circular E (enum_next_value_circular E (enum_values E ! i) n) n = enum_values E ! i"
  using assms enum_next_value_nth enum_prev_is_next enum_next_value_circular_nth circular_round_trip[OF enum_values_nth]
  by blast

lemma stepping_witness:
  "enum_next_value colours (enum_values colours ! 2) (- 7) =
      (if 0 \<le> int 2 + - 7 \<and> int 2 + - 7 < int (enum_count colours) then Some (enum_values colours ! nat (int 2 + - 7)) else None) \<and>
    enum_prev_value colours (enum_values colours ! 2) (- 7) = enum_next_value colours (enum_values colours ! 2) (- (- 7)) \<and>
    enum_next_value_circular colours (enum_values colours ! 2) (- 7) = enum_values colours ! nat ((int 2 + - 7) mod int (enum_count colours)) \<and>
    enum_prev_value_circular colours (enum_next_value_circular colours (enum_values colours ! 2) (- 7)) (- 7) = enum_values colours ! 2"
  by (rule stepping) (simp add: colours_table)

end
