(* ===== verification/Enum_Indexing.thy ===== *)
theory Enum_Indexing
  imports Enum_Reflection "HOL-Library.Multiset"
begin

text \<open>
  The helpers of \<open>magic_enum_containers.hpp\<close>: comparing sequences, and the index types that give each
  enumerator its position. \<open>detail::indexing\<close> with a comparator sorts the enumerators once, by
  exchanging, and inverts the permutation; with \<open>std::less\<close> it is the enumeration's own table. The
  containers know either only through the contract \<open>index_type\<close> below.
\<close>

section \<open>Comparing sequences\<close>

fun seq_equal :: "('a \<Rightarrow> 'b \<Rightarrow> bool) \<Rightarrow> 'a list \<Rightarrow> 'b list \<Rightarrow> bool" where
  "seq_equal eq [] t2 = (t2 = [])"
| "seq_equal eq (x # t1) t2 = (case t2 of [] \<Rightarrow> False | y # t2' \<Rightarrow> if \<not> eq x y then False else seq_equal eq t1 t2')"

fun lexicographical_compare :: "('a \<Rightarrow> 'a \<Rightarrow> bool) \<Rightarrow> 'a list \<Rightarrow> 'a list \<Rightarrow> bool" where
  "lexicographical_compare cmp (x # t1) (y # t2) =
     (if cmp x y then True else if cmp y x then False else lexicographical_compare cmp t1 t2)"
| "lexicographical_compare cmp t1 t2 = (t1 = [] \<and> t2 \<noteq> [])"

text \<open>The order of \<open>name_less\<close>, \<open>name_greater\<close> and their forms that ignore case.\<close>

definition name_sort :: "enum_type \<Rightarrow> (char \<Rightarrow> char \<Rightarrow> bool) \<Rightarrow> int \<Rightarrow> int \<Rightarrow> bool" where
  "name_sort E cmp e1 e2 = lexicographical_compare cmp (enum_name E e1) (enum_name E e2)"

lemma seq_equal_iff: "seq_equal eq xs ys \<longleftrightarrow> list_all2 eq xs ys"
  by (induction eq xs ys rule: seq_equal.induct) (auto split: list.split)

lemma seq_equal_eq [simp]: "seq_equal (=) xs ys \<longleftrightarrow> xs = ys"
  by (simp add: seq_equal_iff list.rel_eq)

text \<open>For a strict linear order the comparison is the lexicographic order, and one of two different
  sequences comes first.\<close>

lemma lexicographical_compare_iff:
  "lexicographical_compare (<) xs ys \<longleftrightarrow> ord_class.lexordp xs (ys :: 'a :: linorder list)"
  by (induction "(<) :: 'a \<Rightarrow> 'a \<Rightarrow> bool" xs ys rule: lexicographical_compare.induct) (auto simp: neq_Nil_conv)

section \<open>Searching a sorted range\<close>

text \<open>\<open>detail::lower_bound\<close>. \<open>None\<close> when an iterator past the end would be read. The count gets smaller
  in every round.\<close>

function lower_bound_loop :: "('a \<Rightarrow> 'e \<Rightarrow> bool) \<Rightarrow> 'a list \<Rightarrow> 'e \<Rightarrow> nat \<Rightarrow> nat \<Rightarrow> nat \<Rightarrow> nat option" where
  "lower_bound_loop lt xs e first it len =
     (if len > 0 then
        (let step = len div 2; it = it + step in
         if it \<ge> length xs then None
         else if lt (xs ! it) e then lower_bound_loop lt xs e (it + 1) (it + 1) (len - (step + 1))
         else lower_bound_loop lt xs e first it step)
      else Some first)"
  by auto
termination
  by (relation "measure (\<lambda>(lt, xs, e, first, it, len). len)") auto

declare lower_bound_loop.simps [simp del]

definition lower_bound :: "('a \<Rightarrow> 'e \<Rightarrow> bool) \<Rightarrow> 'a list \<Rightarrow> 'e \<Rightarrow> nat option" where
  "lower_bound lt xs e = lower_bound_loop lt xs e 0 0 (length xs)"

text \<open>The iterator is not taken back to the start of the remaining range, so the search misses: the
  first element of 1..7 that is not below 3 is at position 2.\<close>

lemma lower_bound_misses: "lower_bound (<) [1, 2, 3, 4, 5, 6, 7 :: int] 3 = Some 0"
  by code_simp

section \<open>Sorting by exchange\<close>

definition exchange_inner :: "('a \<Rightarrow> 'a \<Rightarrow> bool) \<Rightarrow> 'a list \<Rightarrow> nat \<Rightarrow> nat \<Rightarrow> nat list \<Rightarrow> nat list" where
  "exchange_inner cmp orig_values i j rev_res =
     (if cmp (orig_values ! (rev_res ! j)) (orig_values ! (rev_res ! i)) then
        (let tmp = rev_res ! i; rev_res = rev_res[i := rev_res ! j] in rev_res[j := tmp])
      else rev_res)"

definition exchange_outer :: "('a \<Rightarrow> 'a \<Rightarrow> bool) \<Rightarrow> 'a list \<Rightarrow> nat \<Rightarrow> nat list \<Rightarrow> nat list" where
  "exchange_outer cmp orig_values i rev_res =
     fold (exchange_inner cmp orig_values i) [i + 1..<length orig_values] rev_res"

definition exchange_sort :: "('a \<Rightarrow> 'a \<Rightarrow> bool) \<Rightarrow> 'a list \<Rightarrow> nat list" where
  "exchange_sort cmp orig_values = fold (exchange_outer cmp orig_values) [0..<length orig_values] [0..<length orig_values]"

definition get_indices :: "('a \<Rightarrow> 'a \<Rightarrow> bool) \<Rightarrow> 'a list \<Rightarrow> 'a list \<times> nat list" where
  "get_indices cmp orig_values =
     (let n = length orig_values; rev_res = exchange_sort cmp orig_values in
      (map (\<lambda>i. orig_values ! (rev_res ! i)) [0..<n],
       fold (\<lambda>i res. res[rev_res ! i := i]) [0..<n] (replicate n 0)))"

text \<open>Exchanging permutes.\<close>

lemma exchange_inner_swap:
  "i < length r \<Longrightarrow> j < length r \<Longrightarrow> mset (exchange_inner cmp xs i j r) = mset r"
  by (auto simp: exchange_inner_def Let_def intro: mset_swap)

lemma length_exchange_inner [simp]: "length (exchange_inner cmp xs i j r) = length r"
  by (simp add: exchange_inner_def Let_def)

text \<open>One pass of the inner loop up to \<open>j\<close>: everything behind \<open>i\<close> seen so far does not come before
  it, and the elements from \<open>i\<close> on are the same.\<close>

definition pass_inv :: "('a \<Rightarrow> 'a \<Rightarrow> bool) \<Rightarrow> 'a list \<Rightarrow> nat list \<Rightarrow> nat \<Rightarrow> nat \<Rightarrow> nat list \<Rightarrow> bool" where
  "pass_inv cmp xs r0 i j r \<longleftrightarrow> length r = length r0 \<and> take i r = take i r0 \<and> mset (drop i r) = mset (drop i r0) \<and>
     (\<forall>m. i < m \<and> m < j \<longrightarrow> \<not> cmp (xs ! (r ! m)) (xs ! (r ! i)))"

lemma mset_drop_swap:
  assumes "i \<le> j" "j < length r"
  shows "mset (drop i (r[i := r ! j, j := r ! i])) = mset (drop i r)"
proof -
  have "drop i (r[i := r ! j, j := r ! i]) = (drop i r)[0 := drop i r ! (j - i), j - i := drop i r ! 0]"
    using assms by (simp add: drop_update_swap)
  also have "mset \<dots> = mset (drop i r)" using assms by (intro mset_swap) auto
  finally show ?thesis .
qed

lemma pass_inv_step:
  assumes tr: "\<And>x y z. cmp x y \<Longrightarrow> cmp y z \<Longrightarrow> cmp x z" and as: "\<And>x y. cmp x y \<Longrightarrow> \<not> cmp y x"
    and inv: "pass_inv cmp xs r0 i j r" and j: "i < j" "j < length r"
  shows "pass_inv cmp xs r0 i (Suc j) (exchange_inner cmp xs i j r)"
proof (cases "cmp (xs ! (r ! j)) (xs ! (r ! i))")
  case True
  let ?r = "r[i := r ! j, j := r ! i]"
  have e: "exchange_inner cmp xs i j r = ?r" using True by (simp add: exchange_inner_def Let_def)
  have "\<not> cmp (xs ! (?r ! m)) (xs ! (?r ! i))" if "i < m" "m < Suc j" for m
  proof (cases "m = j")
    case True': True
    then show ?thesis using True as j by simp
  next
    case False
    then have "\<not> cmp (xs ! (r ! m)) (xs ! (r ! i))" using inv that by (auto simp: pass_inv_def)
    then show ?thesis using False that j tr[OF _ True] by auto
  qed
  then show ?thesis
    unfolding e using inv j mset_drop_swap[of i j r] by (auto simp: pass_inv_def)
next
  case False
  then show ?thesis
    using inv by (auto simp: pass_inv_def exchange_inner_def less_Suc_eq)
qed

lemma exchange_outer_inv:
  assumes tr: "\<And>x y z. cmp x y \<Longrightarrow> cmp y z \<Longrightarrow> cmp x z" and as: "\<And>x y. cmp x y \<Longrightarrow> \<not> cmp y x"
    and "i < length xs" "length r = length xs"
  shows "pass_inv cmp xs r i (length xs) (exchange_outer cmp xs i r)"
proof -
  have "i + 1 + d \<le> length xs \<Longrightarrow> pass_inv cmp xs r i (i + 1 + d) (fold (exchange_inner cmp xs i) [i + 1..<i + 1 + d] r)" for d
  proof (induction d)
    case (Suc d)
    let ?r = "fold (exchange_inner cmp xs i) [i + 1..<i + 1 + d] r"
    have inv: "pass_inv cmp xs r i (i + 1 + d) ?r" using Suc by simp
    then have "length ?r = length r" by (simp add: pass_inv_def)
    then show ?case using pass_inv_step[OF tr as inv] Suc.prems assms(4) by simp
  qed (auto simp: pass_inv_def)
  from this[of "length xs - (i + 1)"] show ?thesis
    using assms(3) unfolding exchange_outer_def by (metis Suc_eq_plus1 Suc_leI le_add_diff_inverse order_refl)
qed

definition sort_inv :: "('a \<Rightarrow> 'a \<Rightarrow> bool) \<Rightarrow> 'a list \<Rightarrow> nat \<Rightarrow> nat list \<Rightarrow> bool" where
  "sort_inv cmp xs i r \<longleftrightarrow> mset r = mset [0..<length xs] \<and>
     (\<forall>k m. k < i \<and> k < m \<and> m < length xs \<longrightarrow> \<not> cmp (xs ! (r ! m)) (xs ! (r ! k)))"

lemma sort_inv_step:
  assumes pass: "pass_inv cmp xs r i (length xs) r'" and inv: "sort_inv cmp xs i r" and i: "i < length xs"
  shows "sort_inv cmp xs (Suc i) r'"
proof -
  have len: "length r = length xs" using inv by (metis sort_inv_def length_upt minus_nat.diff_0 size_mset)
  have len': "length r' = length xs" using pass len by (simp add: pass_inv_def)
  have front: "r' ! k = r ! k" if "k < i" for k
    using pass that by (metis pass_inv_def nth_take)
  have behind: "\<exists>m'. i \<le> m' \<and> m' < length xs \<and> r' ! m = r ! m'" if "i \<le> m" "m < length xs" for m
  proof -
    have "r' ! m \<in> set (drop i r')" using that len' by (auto simp: in_set_conv_nth intro!: exI[of _ "m - i"])
    then have "r' ! m \<in> set (drop i r)" using pass by (metis pass_inv_def mset_eq_setD)
    then obtain q where "q < length (drop i r)" "drop i r ! q = r' ! m" by (auto simp: in_set_conv_nth)
    then show ?thesis using len by (intro exI[of _ "i + q"]) auto
  qed
  have "mset r' = mset r"
    using pass by (metis pass_inv_def append_take_drop_id mset_append)
  then have ms: "mset r' = mset [0..<length xs]" using inv by (simp add: sort_inv_def)
  have "\<not> cmp (xs ! (r' ! m)) (xs ! (r' ! k))" if h: "k < Suc i" "k < m" "m < length xs" for k m
  proof (cases "k = i")
    case True
    then show ?thesis using pass h by (simp add: pass_inv_def)
  next
    case False
    then have k: "k < i" using h by simp
    show ?thesis
    proof (cases "m < i")
      case True
      then show ?thesis using inv k h front by (simp add: sort_inv_def)
    next
      case False
      then obtain m' where "i \<le> m'" "m' < length xs" "r' ! m = r ! m'" using behind[of m] h by auto
      then show ?thesis using inv k front by (simp add: sort_inv_def)
    qed
  qed
  then show ?thesis using ms by (simp add: sort_inv_def)
qed

lemma exchange_sort_inv:
  assumes tr: "\<And>x y z. cmp x y \<Longrightarrow> cmp y z \<Longrightarrow> cmp x z" and as: "\<And>x y. cmp x y \<Longrightarrow> \<not> cmp y x"
  shows "sort_inv cmp xs (length xs) (exchange_sort cmp xs)"
proof -
  have "i \<le> length xs \<Longrightarrow> sort_inv cmp xs i (fold (exchange_outer cmp xs) [0..<i] [0..<length xs])" for i
  proof (induction i)
    case (Suc i)
    let ?r = "fold (exchange_outer cmp xs) [0..<i] [0..<length xs]"
    have inv: "sort_inv cmp xs i ?r" using Suc by simp
    then have "length ?r = length xs" by (metis sort_inv_def length_upt minus_nat.diff_0 size_mset)
    then show ?case using sort_inv_step[OF exchange_outer_inv[OF tr as] inv] Suc.prems by simp
  qed (simp add: sort_inv_def)
  then show ?thesis by (simp add: exchange_sort_def)
qed

text \<open>Whatever the comparator, the exchanges permute the positions.\<close>

lemma exchange_outer_mset:
  assumes "length r = length xs" "i < length xs"
  shows "mset (exchange_outer cmp xs i r) = mset r"
proof -
  have "set js \<subseteq> {..<length xs} \<Longrightarrow> length r = length xs \<Longrightarrow> mset (fold (exchange_inner cmp xs i) js r) = mset r" for js r
    using assms(2) by (induction js arbitrary: r) (auto simp: exchange_inner_swap)
  from this[of "[i + 1..<length xs]" r] show ?thesis using assms(1) by (auto simp: exchange_outer_def subset_eq)
qed

lemma exchange_sort_perm: "mset (exchange_sort cmp xs) = mset [0..<length xs]"
proof -
  have "set is \<subseteq> {..<length xs} \<Longrightarrow> length r = length xs \<Longrightarrow> mset (fold (exchange_outer cmp xs) is r) = mset r" for "is" r
    by (induction "is" arbitrary: r) (auto simp: exchange_outer_mset mset_eq_length[OF exchange_outer_mset])
  from this[of "[0..<length xs]" "[0..<length xs]"] show ?thesis
    by (simp add: exchange_sort_def atLeast0LessThan del: mset_upt)
qed

lemma length_exchange_sort [simp]: "length (exchange_sort cmp xs) = length xs"
  using mset_eq_length[OF exchange_sort_perm[of cmp xs]] by simp

lemma distinct_exchange_sort: "distinct (exchange_sort cmp xs)"
  using mset_eq_imp_distinct_iff[OF exchange_sort_perm[of cmp xs]] by simp

lemma set_exchange_sort: "set (exchange_sort cmp xs) = {..<length xs}"
  using mset_eq_setD[OF exchange_sort_perm[of cmp xs]] by (auto simp: atLeast0LessThan)

text \<open>The second table inverts the permutation.\<close>

lemma inverse_table:
  assumes "distinct r" "set r \<subseteq> {..<n}" "k < length r"
  shows "fold (\<lambda>i res. res[r ! i := i]) [0..<length r] (replicate n 0) ! (r ! k) = k"
proof -
  have lt: "r ! i < n" if "i < length r" for i using assms(2) that nth_mem by fastforce
  have len: "length (fold (\<lambda>i res. res[r ! i := i]) is q) = length q" for "is" and q :: "nat list"
    by (induction "is" arbitrary: q) auto
  have "m \<le> length r \<Longrightarrow> k < m \<Longrightarrow> fold (\<lambda>i res. res[r ! i := i]) [0..<m] (replicate n 0) ! (r ! k) = k" for m
  proof (induction m)
    case (Suc m)
    show ?case
    proof (cases "k = m")
      case True
      then show ?thesis using Suc.prems lt[of m] by (simp add: len)
    next
      case False
      then have "r ! k \<noteq> r ! m" using Suc.prems assms(1) by (simp add: nth_eq_iff_index_eq)
      then show ?thesis using Suc False by simp
    qed
  qed simp
  then show ?thesis using assms(3) by simp
qed

lemma get_indices_values:
  "length (fst (get_indices cmp xs)) = length xs"
  "i < length xs \<Longrightarrow> fst (get_indices cmp xs) ! i = xs ! (exchange_sort cmp xs ! i)"
  by (simp_all add: get_indices_def Let_def)

lemma get_indices_inverse:
  "i < length xs \<Longrightarrow> snd (get_indices cmp xs) ! (exchange_sort cmp xs ! i) = i"
  using inverse_table[OF distinct_exchange_sort, of cmp xs "length xs" i]
  by (simp add: get_indices_def Let_def set_exchange_sort)

section \<open>The index types\<close>

text \<open>What the containers rely on: the position of a value and the value at a position are inverse.
  An index type is only used with an enumeration that has enumerators.\<close>

locale index_type =
  fixes pos :: "int \<Rightarrow> nat option" and elems :: "int list"
  assumes pos_Some: "elems \<noteq> [] \<Longrightarrow> pos v = Some i \<longleftrightarrow> i < length elems \<and> elems ! i = v"
    and elems_distinct: "distinct elems"
begin

lemma pos_None: "elems \<noteq> [] \<Longrightarrow> pos v = None \<longleftrightarrow> v \<notin> set elems"
  using pos_Some[of v] by (cases "pos v") (auto simp: in_set_conv_nth)

lemma pos_nth: "i < length elems \<Longrightarrow> pos (elems ! i) = Some i"
  by (subst pos_Some) auto

lemma pos_elem:
  assumes "v \<in> set elems"
  obtains i where "pos v = Some i" "i < length elems" "elems ! i = v"
  using assms pos_nth by (auto simp: in_set_conv_nth)

lemma pos_inj: "pos v = Some i \<Longrightarrow> pos w = Some i \<Longrightarrow> elems \<noteq> [] \<Longrightarrow> v = w"
  by (auto simp: pos_Some)

end

text \<open>The positions follow the comparator, if that is a strict order.\<close>

locale sorted_index = index_type +
  fixes cmp :: "int \<Rightarrow> int \<Rightarrow> bool"
  assumes ordered: "transp cmp \<Longrightarrow> asymp cmp \<Longrightarrow> i < j \<Longrightarrow> j < length elems \<Longrightarrow> \<not> cmp (elems ! j) (elems ! i)"
begin

lemma elems_sorted: "transp cmp \<Longrightarrow> asymp cmp \<Longrightarrow> sorted_wrt (\<lambda>x y. \<not> cmp y x) elems"
  by (auto simp: sorted_wrt_iff_nth_less ordered)

lemma pos_ordered:
  "transp cmp \<Longrightarrow> asymp cmp \<Longrightarrow> elems \<noteq> [] \<Longrightarrow> pos v = Some i \<Longrightarrow> pos w = Some j \<Longrightarrow> cmp v w \<Longrightarrow> i < j"
  using ordered[of j i] by (metis asympD linorder_neqE_nat pos_Some)

end

text \<open>\<open>detail::indexing\<close> with a comparator.\<close>

definition indexing_elems :: "enum_type \<Rightarrow> (int \<Rightarrow> int \<Rightarrow> bool) \<Rightarrow> int list" where
  "indexing_elems E cmp = fst (get_indices cmp (enum_values E))"

definition indexing_at :: "enum_type \<Rightarrow> (int \<Rightarrow> int \<Rightarrow> bool) \<Rightarrow> int \<Rightarrow> nat option" where
  "indexing_at E cmp v =
     (case enum_index E v of Some i \<Rightarrow> Some (snd (get_indices cmp (enum_values E)) ! i) | None \<Rightarrow> None)"

lemma indexing_elems_nth:
  "i < enum_count E \<Longrightarrow> indexing_elems E cmp ! i = enum_values E ! (exchange_sort cmp (enum_values E) ! i)"
  by (simp add: indexing_elems_def get_indices_values enum_count_def)

lemma length_indexing_elems [simp]: "length (indexing_elems E cmp) = enum_count E"
  by (simp add: indexing_elems_def get_indices_values enum_count_def)

lemma indexing_at_Some:
  assumes "enum_count E > 0"
  shows "indexing_at E cmp v = Some i \<longleftrightarrow> i < enum_count E \<and> indexing_elems E cmp ! i = v"
proof
  let ?r = "exchange_sort cmp (enum_values E)"
  have inv: "snd (get_indices cmp (enum_values E)) ! (?r ! k) = k" if "k < enum_count E" for k
    using that by (intro get_indices_inverse) (simp add: enum_count_def)
  {
    assume "indexing_at E cmp v = Some i"
    then obtain j where j: "enum_index E v = Some j" "i = snd (get_indices cmp (enum_values E)) ! j"
      by (auto simp: indexing_at_def split: option.splits)
    then have v: "j < enum_count E" "enum_values E ! j = v" using enum_index_Some[OF assms] by auto
    then have "j \<in> set ?r" by (simp add: set_exchange_sort enum_count_def)
    then obtain k where "k < enum_count E" "?r ! k = j" by (auto simp: in_set_conv_nth enum_count_def)
    then show "i < enum_count E \<and> indexing_elems E cmp ! i = v"
      using inv j(2) v(2) by (auto simp: indexing_elems_nth)
  }
  assume h: "i < enum_count E \<and> indexing_elems E cmp ! i = v"
  then have "?r ! i \<in> set ?r" by (simp add: enum_count_def)
  then have "?r ! i < enum_count E" by (simp only: set_exchange_sort) (simp add: enum_count_def)
  then have "enum_index E v = Some (?r ! i)" using h by (auto simp: indexing_elems_nth enum_index_nth)
  then show "indexing_at E cmp v = Some i" using inv h by (simp add: indexing_at_def)
qed

lemma distinct_indexing_elems: "distinct (indexing_elems E cmp)"
proof -
  let ?r = "exchange_sort cmp (enum_values E)"
  have "indexing_elems E cmp = map ((!) (enum_values E)) ?r"
    by (rule nth_equalityI) (simp_all add: indexing_elems_nth enum_count_def)
  moreover have "inj_on ((!) (enum_values E)) (set ?r)"
    by (auto simp: set_exchange_sort inj_on_def nth_eq_iff_index_eq)
  ultimately show ?thesis by (simp add: distinct_map distinct_exchange_sort)
qed

lemma mset_indexing_elems: "mset (indexing_elems E cmp) = mset (enum_values E)"
proof -
  have "mset (map ((!) (enum_values E)) (exchange_sort cmp (enum_values E))) = mset (map ((!) (enum_values E)) [0..<enum_count E])"
    unfolding mset_map exchange_sort_perm enum_count_def ..
  moreover have "indexing_elems E cmp = map ((!) (enum_values E)) (exchange_sort cmp (enum_values E))"
    by (rule nth_equalityI) (simp_all add: indexing_elems_nth enum_count_def)
  ultimately show ?thesis by (simp add: enum_count_def map_nth)
qed

lemma indexing_ordered:
  assumes "transp cmp" "asymp cmp" "i < j" "j < enum_count E"
  shows "\<not> cmp (indexing_elems E cmp ! j) (indexing_elems E cmp ! i)"
proof -
  have "sort_inv cmp (enum_values E) (length (enum_values E)) (exchange_sort cmp (enum_values E))"
    by (rule exchange_sort_inv) (use assms(1,2) in \<open>auto dest: transpD asympD\<close>)
  then show ?thesis using assms(3,4) by (simp add: sort_inv_def indexing_elems_nth enum_count_def)
qed

lemma default_sorted_index: "sorted_index (enum_index E) (enum_values E) (<)"
proof
  show "enum_values E \<noteq> [] \<Longrightarrow> enum_index E v = Some i \<longleftrightarrow> i < length (enum_values E) \<and> enum_values E ! i = v" for v i
    using enum_index_Some[of E v i] by (simp add: enum_count_def)
  show "i < j \<Longrightarrow> j < length (enum_values E) \<Longrightarrow> \<not> enum_values E ! j < enum_values E ! i" for i j
    using sorted_wrt_nth_less[OF sorted_enum_values[of E], of i j] by simp
qed simp

lemma comparator_sorted_index: "sorted_index (indexing_at E cmp) (indexing_elems E cmp) cmp"
proof
  show "indexing_elems E cmp \<noteq> [] \<Longrightarrow>
      indexing_at E cmp v = Some i \<longleftrightarrow> i < length (indexing_elems E cmp) \<and> indexing_elems E cmp ! i = v" for v i
    using indexing_at_Some[of E cmp v i] by (metis length_indexing_elems length_greater_0_conv)
qed (simp_all add: distinct_indexing_elems indexing_ordered)

interpretation default_index: sorted_index "enum_index E" "enum_values E" "(<)" for E
  by (rule default_sorted_index)

interpretation comparator_index: sorted_index "indexing_at E cmp" "indexing_elems E cmp" cmp for E cmp
  by (rule comparator_sorted_index)

text \<open>C28: an index type built from a comparator puts the enumerators in an order the comparator does
  not contradict, for every strict order; each enumerator has exactly the position it stands at,
  nothing else has one, and what the comparator puts first has the smaller position.\<close>

theorem indexing_correct:
  assumes "enum_count E > 0" "transp cmp" "asymp cmp"
  shows "mset (indexing_elems E cmp) = mset (enum_values E) \<and>
    sorted_wrt (\<lambda>x y. \<not> cmp y x) (indexing_elems E cmp) \<and>
    (indexing_at E cmp v = Some i \<longleftrightarrow> i < enum_count E \<and> indexing_elems E cmp ! i = v) \<and>
    (indexing_at E cmp v = Some i \<longrightarrow> indexing_at E cmp w = Some j \<longrightarrow> cmp v w \<longrightarrow> i < j)"
proof (intro conjI)
  have ne: "indexing_elems E cmp \<noteq> []" using assms(1) by (metis length_indexing_elems length_greater_0_conv)
  show "mset (indexing_elems E cmp) = mset (enum_values E)" by (rule mset_indexing_elems)
  show "sorted_wrt (\<lambda>x y. \<not> cmp y x) (indexing_elems E cmp)" using assms(2,3) by (rule comparator_index.elems_sorted)
  show "indexing_at E cmp v = Some i \<longleftrightarrow> i < enum_count E \<and> indexing_elems E cmp ! i = v"
    using comparator_index.pos_Some[OF ne] by simp
  show "indexing_at E cmp v = Some i \<longrightarrow> indexing_at E cmp w = Some j \<longrightarrow> cmp v w \<longrightarrow> i < j"
    using comparator_index.pos_ordered[OF assms(2,3) ne] by blast
qed

lemma indexing_correct_witness:
  "mset (indexing_elems colours (>)) = mset (enum_values colours) \<and>
    sorted_wrt (\<lambda>x y. \<not> y > x) (indexing_elems colours (>)) \<and>
    indexing_at colours (>) 5 = Some 0 \<and> indexing_at colours (>) 1 = Some 2"
  using indexing_correct[of colours "(>)" 5 0 1 2]
  by (simp add: colours_table transp_def asympI) code_simp

end
