(* ===== verification/Enum_Array.thy ===== *)
theory Enum_Array
  imports Enum_Indexing
begin

text \<open>
  \<open>containers::array\<close> of \<open>magic_enum_containers.hpp\<close>: a \<open>std::array\<close> with one element per enumerator,
  addressed through an index type. The index type is an argument of the operations, as it is a
  template argument in the code. The element access is by reference; an assignment through the
  reference is an operation of its own here.
\<close>

section \<open>Operations\<close>

text \<open>What \<open>MAGIC_ENUM_THROW\<close> throws.\<close>

datatype container_error = Out_of_range | Overflow_error | Invalid_argument

definition array_at :: "(int \<Rightarrow> nat option) \<Rightarrow> 'v list \<Rightarrow> int \<Rightarrow> container_error + 'v" where
  "array_at pos a e = (case pos e of Some index \<Rightarrow> Inr (a ! index) | None \<Rightarrow> Inl Out_of_range)"

definition array_at_assign :: "(int \<Rightarrow> nat option) \<Rightarrow> 'v list \<Rightarrow> int \<Rightarrow> 'v \<Rightarrow> container_error + 'v list" where
  "array_at_assign pos a e v = (case pos e of Some index \<Rightarrow> Inr (a[index := v]) | None \<Rightarrow> Inl Out_of_range)"

text \<open>The subscript does not throw: without a position its assertion fails, here \<open>None\<close>.\<close>

definition array_subscript :: "(int \<Rightarrow> nat option) \<Rightarrow> 'v list \<Rightarrow> int \<Rightarrow> 'v option" where
  "array_subscript pos a e = (case pos e of Some i \<Rightarrow> Some (a ! i) | None \<Rightarrow> None)"

definition array_fill :: "'v list \<Rightarrow> 'v \<Rightarrow> 'v list" where
  "array_fill a v = map (\<lambda>_. v) a"

definition array_swap :: "'v list \<Rightarrow> 'v list \<Rightarrow> 'v list \<times> 'v list" where
  "array_swap a other =
     fold (\<lambda>i (a, other). let v = other ! i; other = other[i := a ! i] in (a[i := v], other)) [0..<length a] (a, other)"

definition array_eq :: "'v list \<Rightarrow> 'v list \<Rightarrow> bool" where
  "array_eq a1 a2 = seq_equal (=) a1 a2"

definition array_less :: "'v :: linorder list \<Rightarrow> 'v list \<Rightarrow> bool" where
  "array_less a1 a2 = lexicographical_compare (<) a1 a2"

definition array_less_eq :: "'v :: linorder list \<Rightarrow> 'v list \<Rightarrow> bool" where
  "array_less_eq a1 a2 = (\<not> lexicographical_compare (<) a2 a1)"

section \<open>An array is a map from the enumerators\<close>

lemma swap_step:
  assumes "k < length a" "length b = length a"
  shows "(take k b @ drop k a)[k := b ! k] = take (Suc k) b @ drop (Suc k) a"
proof (rule nth_equalityI)
  fix i assume i: "i < length ((take k b @ drop k a)[k := b ! k])"
  show "(take k b @ drop k a)[k := b ! k] ! i = (take (Suc k) b @ drop (Suc k) a) ! i"
  proof (cases "i = k")
    case False
    then show ?thesis using i assms by (simp add: nth_append)
  qed (use assms in \<open>simp add: nth_append\<close>)
qed (use assms in simp)

lemma swap_step_nth: "k < length a \<Longrightarrow> length b = length a \<Longrightarrow> (take k b @ drop k a) ! k = a ! k"
  by (simp add: nth_append)

lemma array_swap_eq:
  assumes "length a = length b"
  shows "array_swap a b = (b, a)"
proof -
  let ?f = "\<lambda>i (a, other). let v = other ! i; other = other[i := a ! i] in (a[i := v], other)"
  have "k \<le> length a \<Longrightarrow> fold ?f [0..<k] (a, b) =
      (take k b @ drop k a, take k a @ drop k b)" for k
  proof (induction k)
    case (Suc k)
    then have "k < length a" "k < length b" using assms by auto
    moreover have "fold ?f [0..<Suc k] (a, b) = ?f k (fold ?f [0..<k] (a, b))"
      by (simp only: upt_Suc le0 if_True fold_append fold_simps comp_def)
    moreover have "fold ?f [0..<k] (a, b) = (take k b @ drop k a, take k a @ drop k b)" using Suc by simp
    moreover have "?f k (take k b @ drop k a, take k a @ drop k b) =
        ((take k b @ drop k a)[k := b ! k], (take k a @ drop k b)[k := a ! k])"
      unfolding Let_def case_prod_conv swap_step_nth[OF \<open>k < length a\<close> assms[symmetric]] swap_step_nth[OF \<open>k < length b\<close> assms] ..
    ultimately show ?case
      by (simp only: swap_step[OF \<open>k < length a\<close> assms[symmetric]] swap_step[OF \<open>k < length b\<close> assms])
  qed simp
  from this[of "length a"] show ?thesis using assms by (simp add: array_swap_def)
qed

text \<open>What an index type gives its array: reading after writing, for every enumerator.\<close>

context index_type
begin

lemma array_get_put:
  assumes "length a = length elems" "e \<in> set elems"
  shows "\<exists>a'. array_at_assign pos a e v = Inr a' \<and> length a' = length elems \<and>
    (\<forall>e'\<in>set elems. array_at pos a' e' = (if e' = e then Inr v else array_at pos a e'))"
proof -
  obtain i where i: "pos e = Some i" "i < length elems" "elems ! i = e" using pos_elem[OF assms(2)] by blast
  have "array_at pos (a[i := v]) e' = (if e' = e then Inr v else array_at pos a e')" if h: "e' \<in> set elems" for e'
  proof -
    obtain j where j: "pos e' = Some j" "j < length elems" "elems ! j = e'" using pos_elem[OF h] by blast
    show ?thesis
    proof (cases "e' = e")
      case True
      then show ?thesis using i assms(1) by (simp add: array_at_def)
    next
      case False
      then have "j \<noteq> i" using i(3) j(3) by auto
      then show ?thesis using False j(1) by (simp add: array_at_def)
    qed
  qed
  then show ?thesis using i assms(1) by (intro exI[of _ "a[i := v]"]) (simp add: array_at_assign_def)
qed

lemma array_no_position:
  "elems \<noteq> [] \<Longrightarrow> e \<notin> set elems \<Longrightarrow> array_at pos a e = Inl Out_of_range \<and> array_at_assign pos a e v = Inl Out_of_range"
  using pos_None[of e] by (simp add: array_at_def array_at_assign_def)

lemma array_ext:
  assumes "length a = length elems" "length b = length elems" "elems \<noteq> []"
  shows "(\<forall>e\<in>set elems. array_at pos a e = array_at pos b e) \<longleftrightarrow> a = b"
proof
  assume h: "\<forall>e\<in>set elems. array_at pos a e = array_at pos b e"
  have "a ! i = b ! i" if "i < length elems" for i
    using h that pos_nth[OF that] by (auto simp: array_at_def dest!: bspec[of _ _ "elems ! i"])
  then show "a = b" using assms by (intro nth_equalityI) auto
qed simp

end

interpretation default_index: sorted_index "enum_index E" "enum_values E" "(<)" for E
  by (rule default_sorted_index)

text \<open>An array of an enumeration is a map from its enumerators: what is assigned to an enumerator
  is read there and nowhere else, an integer that is no enumerator throws on reading and on writing,
  two arrays are equal exactly when they agree at every enumerator, exactly one of less, equal and
  greater holds, filling sets all elements and swapping exchanges two arrays.\<close>

theorem array_is_map:
  fixes a b :: "'v :: linorder list"
  assumes "enum_count E > 0" "length a = enum_count E" "length b = enum_count E"
  shows "(if e \<in> set (enum_values E)
      then \<exists>a'. array_at_assign (enum_index E) a e v = Inr a' \<and> length a' = enum_count E \<and>
        (\<forall>e'\<in>set (enum_values E). array_at (enum_index E) a' e' = (if e' = e then Inr v else array_at (enum_index E) a e'))
      else array_at_assign (enum_index E) a e v = Inl Out_of_range \<and> array_at (enum_index E) a e = Inl Out_of_range) \<and>
    (array_eq a b \<longleftrightarrow> (\<forall>e\<in>set (enum_values E). array_at (enum_index E) a e = array_at (enum_index E) b e)) \<and>
    (array_less_eq a b \<longleftrightarrow> array_less a b \<or> array_eq a b) \<and> \<not> (array_less a b \<and> array_less b a) \<and>
    (e \<in> set (enum_values E) \<longrightarrow> array_at (enum_index E) (array_fill a v) e = Inr v) \<and>
    array_swap a b = (b, a)"
proof -
  have ne: "enum_values E \<noteq> []" and len: "length (enum_values E) = enum_count E" using assms(1) by (auto simp: enum_count_def)
  have fl: "array_at (enum_index E) (array_fill a v) e = Inr v" if h: "e \<in> set (enum_values E)"
  proof -
    obtain i where "enum_index E e = Some i" "i < enum_count E"
      using default_index.pos_elem[OF h] len by metis
    then show ?thesis using assms(2) by (simp add: array_at_def array_fill_def)
  qed
  have cmp: "array_less_eq a b \<longleftrightarrow> array_less a b \<or> array_eq a b" "\<not> (array_less a b \<and> array_less b a)"
    unfolding array_less_eq_def array_less_def array_eq_def lexicographical_compare_iff
    using lexordp_linear[of a b] lexordp_antisym[of a b] lexordp_irreflexive'[of b] by auto
  show ?thesis
    using default_index.array_get_put[of a E e v] default_index.array_no_position[OF ne, of e a v]
      default_index.array_ext[of a E b] array_swap_eq[of a b] assms(2,3) ne len fl cmp
    by (auto simp: array_eq_def)
qed

lemma array_is_map_witness:
  "(if 2 \<in> set (enum_values colours)
      then \<exists>a'. array_at_assign (enum_index colours) [10, 20, 30 :: int] 2 7 = Inr a' \<and> length a' = enum_count colours \<and>
        (\<forall>e'\<in>set (enum_values colours). array_at (enum_index colours) a' e' =
          (if e' = 2 then Inr 7 else array_at (enum_index colours) [10, 20, 30 :: int] e'))
      else array_at_assign (enum_index colours) [10, 20, 30 :: int] 2 7 = Inl Out_of_range \<and>
        array_at (enum_index colours) [10, 20, 30 :: int] 2 = Inl Out_of_range) \<and>
    (array_eq [10, 20, 30] [10, 20, 31 :: int] \<longleftrightarrow>
      (\<forall>e\<in>set (enum_values colours). array_at (enum_index colours) [10, 20, 30] e = array_at (enum_index colours) [10, 20, 31 :: int] e)) \<and>
    (array_less_eq [10, 20, 30] [10, 20, 31 :: int] \<longleftrightarrow> array_less [10, 20, 30] [10, 20, 31 :: int] \<or> array_eq [10, 20, 30] [10, 20, 31 :: int]) \<and>
    \<not> (array_less [10, 20, 30] [10, 20, 31 :: int] \<and> array_less [10, 20, 31] [10, 20, 30 :: int]) \<and>
    (2 \<in> set (enum_values colours) \<longrightarrow> array_at (enum_index colours) (array_fill [10, 20, 30 :: int] 7) 2 = Inr 7) \<and>
    array_swap [10, 20, 30] [10, 20, 31 :: int] = ([10, 20, 31], [10, 20, 30])"
  by (rule array_is_map) (simp_all add: colours_table)

end
