(* ===== verification/Enum_Flags.thy ===== *)
theory Enum_Flags
  imports Enum_Reflection
begin

unbundle bit_operations_syntax

text \<open>
  \<open>magic_enum_flags.hpp\<close>: enumerations whose enumerators are single bits. A set of flags is the
  bitwise or of its members; the casts accept exactly such integers, and the name of a set is its
  members' names, joined by the separator. Every function here reads the table as that of a flags
  enumeration (\<open>is_flags\<close>).
\<close>

section \<open>Operations\<close>

definition values_ors :: "enum_type \<Rightarrow> int" where
  "values_ors E = fold (\<lambda>i ors. ors OR enum_values E ! i) [0..<enum_count E] 0"

text \<open>The loop over the enumerators; \<open>None\<close> is the early return of the empty string.\<close>

fun flags_name_loop :: "enum_type \<Rightarrow> int \<Rightarrow> char \<Rightarrow> nat list \<Rightarrow> string \<Rightarrow> int \<Rightarrow> (string \<times> int) option" where
  "flags_name_loop E value sep [] name check_value = Some (name, check_value)"
| "flags_name_loop E value sep (i # is) name check_value =
     (let v = enum_value E i in
      if value AND v \<noteq> 0 then
        (let n = enum_names E ! i in
         if n \<noteq> [] then
           flags_name_loop E value sep is ((if name \<noteq> [] then name @ [sep] else name) @ n) (check_value OR v)
         else None)
      else flags_name_loop E value sep is name check_value)"

definition enum_flags_name :: "enum_type \<Rightarrow> int \<Rightarrow> char \<Rightarrow> string" where
  "enum_flags_name E value sep =
     (case flags_name_loop E value sep [0..<enum_count E] [] 0 of
        Some (name, check_value) \<Rightarrow> if check_value \<noteq> 0 \<and> check_value = value then name else []
      | None \<Rightarrow> [])"

definition enum_flags_cast :: "enum_type \<Rightarrow> int \<Rightarrow> int option" where
  "enum_flags_cast E value =
     (if enum_count E = 0 then None
      else if is_sparse E then
        (let check_value = fold (\<lambda>i c. let v = enum_value E i in if value AND v \<noteq> 0 then c OR v else c) [0..<enum_count E] 0 in
         if check_value \<noteq> 0 \<and> check_value = value then Some value else None)
      else (if value \<ge> min_v E \<and> value \<le> values_ors E then Some value else None))"

fun str_find :: "string \<Rightarrow> char \<Rightarrow> nat option" where
  "str_find [] c = None"
| "str_find (a # s) c = (if a = c then Some 0 else map_option Suc (str_find s c))"

lemma str_find_less: "str_find s c = Some d \<Longrightarrow> d < length s"
  by (induction s arbitrary: d) (auto split: if_splits)

function flags_cast_loop :: "enum_type \<Rightarrow> (char \<Rightarrow> char \<Rightarrow> bool) option \<Rightarrow> char \<Rightarrow> string \<Rightarrow> int \<Rightarrow> int option" where
  "flags_cast_loop E pred sep value result =
     (if value = [] then (if result \<noteq> 0 then Some result else None)
      else (let d = str_find value sep;
                s = (case d of None \<Rightarrow> value | Some k \<Rightarrow> take k value);
                f = (case first_index (\<lambda>i. cmp_equal pred s (enum_names E ! i)) [0..<enum_count E] of
                       Some i \<Rightarrow> enum_value E i | None \<Rightarrow> 0) in
            if f = 0 then None
            else flags_cast_loop E pred sep (drop (case d of None \<Rightarrow> length value | Some k \<Rightarrow> k + 1) value) (result OR f)))"
  by auto
termination
  by (relation "measure (\<lambda>(E, pred, sep, value, result). length value)")
     (auto split: option.splits dest: str_find_less)

declare flags_cast_loop.simps [simp del]

definition enum_flags_cast_name :: "enum_type \<Rightarrow> (char \<Rightarrow> char \<Rightarrow> bool) option \<Rightarrow> char \<Rightarrow> string \<Rightarrow> int option" where
  "enum_flags_cast_name E pred sep value = (if enum_count E = 0 then None else flags_cast_loop E pred sep value 0)"

definition enum_flags_contains :: "enum_type \<Rightarrow> int \<Rightarrow> bool" where
  "enum_flags_contains E value \<longleftrightarrow> enum_flags_cast E value \<noteq> None"

definition enum_flags_contains_name :: "enum_type \<Rightarrow> (char \<Rightarrow> char \<Rightarrow> bool) option \<Rightarrow> char \<Rightarrow> string \<Rightarrow> bool" where
  "enum_flags_contains_name E pred sep value \<longleftrightarrow> enum_flags_cast_name E pred sep value \<noteq> None"

definition enum_flags_test :: "int \<Rightarrow> int \<Rightarrow> bool" where
  "enum_flags_test flags flag \<longleftrightarrow> flag \<noteq> 0 \<and> flags AND flag = flag"

definition enum_flags_test_any :: "int \<Rightarrow> int \<Rightarrow> bool" where
  "enum_flags_test_any lhs rhs \<longleftrightarrow> lhs AND rhs \<noteq> 0"

section \<open>Flags as sets of bits\<close>

lemma flag_power:
  assumes "is_flags E" "f \<in> set (enum_values E)"
  obtains k where "f = 2 ^ k"
  using assms by (auto simp: set_enum_values reflectable_def)

lemma and_power_iff: "(v :: int) AND 2 ^ k \<noteq> 0 \<longleftrightarrow> bit v k"
  by (simp add: and_exp_eq_0_iff_not_bit)

lemma bit_power_iff: "bit (2 ^ k :: int) n \<longleftrightarrow> n = k"
  by (auto simp: bit_exp_iff)

lemma bit_fold_or: "bit (fold (\<lambda>f c. c OR f) fs (a :: int)) n \<longleftrightarrow> bit a n \<or> (\<exists>f\<in>set fs. bit f n)"
  by (induction fs arbitrary: a) (auto simp: bit_or_iff)

text \<open>The members of a set of flags, in the order of the table, and the bits that are flags.\<close>

definition members :: "enum_type \<Rightarrow> int \<Rightarrow> int list" where
  "members E v = filter (\<lambda>f. v AND f \<noteq> 0) (enum_values E)"

abbreviation ors :: "int list \<Rightarrow> int" where
  "ors fs \<equiv> fold (\<lambda>f c. c OR f) fs 0"

definition flag_bits :: "enum_type \<Rightarrow> nat set" where
  "flag_bits E = {k. 2 ^ k \<in> set (enum_values E)}"

lemma bit_ors_sub:
  assumes "is_flags E" "set fs \<subseteq> set (enum_values E)"
  shows "bit (ors fs) n \<longleftrightarrow> 2 ^ n \<in> set fs"
proof -
  have "bit f n \<longleftrightarrow> f = 2 ^ n" if fm: "f \<in> set fs" for f
  proof -
    obtain k where "f = 2 ^ k" using flag_power[OF assms(1)] assms(2) fm by blast
    then show ?thesis by (auto simp: bit_power_iff)
  qed
  then show ?thesis by (auto simp: bit_fold_or)
qed

lemma members_sub [simp]: "set (members E v) \<subseteq> set (enum_values E)"
  by (auto simp: members_def)

lemma bit_ors_members: "is_flags E \<Longrightarrow> bit (ors (members E v)) n \<longleftrightarrow> n \<in> flag_bits E \<and> bit v n"
  by (auto simp: bit_ors_sub) (auto simp: members_def flag_bits_def and_power_iff)

text \<open>An integer is the union of its members exactly when it has no bit that is not a flag.\<close>

lemma ors_members_iff:
  assumes "is_flags E"
  shows "ors (members E v) = v \<longleftrightarrow> (\<forall>n. bit v n \<longrightarrow> n \<in> flag_bits E)"
proof -
  have "ors (members E v) = v \<longleftrightarrow> (\<forall>n. bit (ors (members E v)) n = bit v n)" by (simp add: bit_eq_iff)
  then show ?thesis by (auto simp: bit_ors_members[OF assms])
qed

lemma union_of_flags_iff:
  assumes "is_flags E"
  shows "(\<exists>fs. fs \<noteq> [] \<and> set fs \<subseteq> set (enum_values E) \<and> v = ors fs) \<longleftrightarrow> v \<noteq> 0 \<and> ors (members E v) = v"
proof
  assume "\<exists>fs. fs \<noteq> [] \<and> set fs \<subseteq> set (enum_values E) \<and> v = ors fs"
  then obtain fs where fs: "fs \<noteq> []" "set fs \<subseteq> set (enum_values E)" "v = ors fs" by blast
  then have b: "bit v n \<longleftrightarrow> 2 ^ n \<in> set fs" for n using bit_ors_sub[OF assms] by simp
  obtain f where f: "f \<in> set fs" using fs(1) by (cases fs) auto
  then obtain k where "f = 2 ^ k" using flag_power[OF assms] fs(2) by blast
  then have "bit v k" using b f by simp
  then have "v \<noteq> 0" by auto
  then show "v \<noteq> 0 \<and> ors (members E v) = v"
    using b fs(2) unfolding ors_members_iff[OF assms] by (auto simp: flag_bits_def)
next
  assume h: "v \<noteq> 0 \<and> ors (members E v) = v"
  then have "members E v \<noteq> []" by (metis fold_simps(1))
  then show "\<exists>fs. fs \<noteq> [] \<and> set fs \<subseteq> set (enum_values E) \<and> v = ors fs" using h members_sub by metis
qed

section \<open>The name of a set of flags\<close>

fun join_sep :: "char \<Rightarrow> string list \<Rightarrow> string" where
  "join_sep sep [] = []"
| "join_sep sep [n] = n"
| "join_sep sep (n # m # ns) = n @ sep # join_sep sep (m # ns)"

lemma join_sep_Cons: "ns \<noteq> [] \<Longrightarrow> join_sep sep (n # ns) = n @ sep # join_sep sep ns"
  by (cases ns) auto

abbreviation add_name :: "char \<Rightarrow> string \<Rightarrow> string \<Rightarrow> string" where
  "add_name sep acc n \<equiv> (if acc \<noteq> [] then acc @ [sep] else acc) @ n"

lemma foldl_add_name:
  "acc \<noteq> [] \<Longrightarrow> foldl (add_name sep) acc ns = (if ns = [] then acc else acc @ sep # join_sep sep ns)"
  by (induction ns arbitrary: acc) (auto simp: join_sep_Cons)

lemma foldl_add_name_join: "[] \<notin> set ns \<Longrightarrow> foldl (add_name sep) [] ns = join_sep sep ns"
  by (cases ns) (auto simp: foldl_add_name join_sep_Cons)

lemma printed_nonempty: "f \<in> set (enum_values E) \<Longrightarrow> printed E f \<noteq> []"
  by (auto simp: set_enum_values is_valid_printed)

lemma flags_name_loop_eq:
  "set is \<subseteq> {..<enum_count E} \<Longrightarrow>
   flags_name_loop E v sep is name c =
     Some (foldl (add_name sep) name (map (printed E) (filter (\<lambda>f. v AND f \<noteq> 0) (map ((!) (enum_values E)) is))),
       fold (\<lambda>f c. c OR f) (filter (\<lambda>f. v AND f \<noteq> 0) (map ((!) (enum_values E)) is)) c)"
  by (induction "is" arbitrary: name c)
    (auto simp: enum_value_nth enum_names_nth Let_def printed_nonempty enum_values_nth)

lemma map_nth_values: "map ((!) (enum_values E)) [0..<enum_count E] = enum_values E"
  by (simp add: enum_count_def map_nth)

lemma enum_flags_name_eq:
  "enum_flags_name E v sep = (if v \<noteq> 0 \<and> ors (members E v) = v then join_sep sep (map (printed E) (members E v)) else [])"
proof -
  have "flags_name_loop E v sep [0..<enum_count E] [] 0 =
      Some (foldl (add_name sep) [] (map (printed E) (members E v)), ors (members E v))"
    unfolding members_def by (subst flags_name_loop_eq) (simp_all add: map_nth_values atLeast0LessThan)
  moreover have "[] \<notin> set (map (printed E) (members E v))"
    by (auto simp: members_def) (metis printed_nonempty)
  ultimately show ?thesis by (auto simp: enum_flags_name_def foldl_add_name_join simp del: fold.simps)
qed

section \<open>The cast from an integer\<close>

lemma values_ors_eq: "values_ors E = ors (enum_values E)"
proof -
  have "fold (\<lambda>i c. c OR enum_values E ! i) is c = fold (\<lambda>f c. c OR f) (map ((!) (enum_values E)) is) c" for "is" c
    by (induction "is" arbitrary: c) auto
  then show ?thesis by (simp add: values_ors_def map_nth_values)
qed

lemma cast_check_eq:
  "fold (\<lambda>i c. let f = enum_value E i in if v AND f \<noteq> 0 then c OR f else c) [0..<enum_count E] 0 = ors (members E v)"
proof -
  have "set is \<subseteq> {..<enum_count E} \<Longrightarrow>
      fold (\<lambda>i c. let f = enum_value E i in if v AND f \<noteq> 0 then c OR f else c) is c =
      fold (\<lambda>f c. c OR f) (filter (\<lambda>f. v AND f \<noteq> 0) (map ((!) (enum_values E)) is)) c" for "is" c
    by (induction "is" arbitrary: c) (auto simp: enum_value_nth Let_def)
  from this[of "[0..<enum_count E]"] show ?thesis
    by (simp add: members_def map_nth_values atLeast0LessThan)
qed

text \<open>In a dense enumeration that has the lowest bit, the flags are all bits up to the highest.\<close>

lemma dense_flag_bits:
  assumes "is_flags E" "enum_count E > 0" "\<not> is_sparse E"
  obtains h where "flag_bits E = {h..<h + enum_count E}" "min_v E = 2 ^ h"
proof
  let ?h = "hd (valid_idx E)"
  have v: "enum_values E ! i = 2 ^ (?h + i)" if "i < enum_count E" for i
  proof -
    have "enum_values E ! i = ualue E 0 (valid_idx E ! i)"
      using that assms(1) by (simp add: enum_values_eq enum_count_eq)
    then show ?thesis using dense_idx[OF assms(2,3) that] assms(1) by (simp add: ualue_def push_bit_eq_mult)
  qed
  show "min_v E = 2 ^ ?h" using v[of 0] assms(2) by (simp add: min_v_def enum_count_def hd_conv_nth)
  have "k \<in> flag_bits E \<longleftrightarrow> (\<exists>i<enum_count E. k = ?h + i)" for k
    unfolding flag_bits_def by (auto simp: in_set_conv_nth enum_count_def[symmetric] v)
  then show "flag_bits E = {?h..<?h + enum_count E}"
    by (auto simp: set_eq_iff) (metis add_diff_inverse_nat less_diff_conv2 nat_add_left_cancel_less not_less)
qed

lemma bit_values_ors: "is_flags E \<Longrightarrow> bit (values_ors E) n \<longleftrightarrow> n \<in> flag_bits E"
  by (simp add: values_ors_eq bit_ors_sub flag_bits_def)

lemma bits_below_iff: "(\<forall>n. bit (v :: int) n \<longrightarrow> n < k) \<longleftrightarrow> 0 \<le> v \<and> v < 2 ^ k"
proof -
  have "(\<forall>n. bit v n \<longrightarrow> n < k) \<longleftrightarrow> take_bit k v = v"
    by (auto simp: bit_eq_iff bit_take_bit_iff)
  then show ?thesis by (simp add: take_bit_int_eq_self_iff)
qed

lemma flag_bits_zero: "0 \<in> flag_bits E \<longleftrightarrow> 1 \<in> set (enum_values E)"
  by (simp add: flag_bits_def)

lemma enum_flags_cast_iff:
  assumes "is_flags E" "enum_count E > 0" "is_sparse E \<or> 1 \<in> set (enum_values E)"
  shows "enum_flags_cast E v = Some w \<longleftrightarrow> w = v \<and> v \<noteq> 0 \<and> ors (members E v) = v"
proof (cases "is_sparse E")
  case True
  then show ?thesis using assms(2) by (auto simp: enum_flags_cast_def cast_check_eq Let_def[of "fold _ _ _"])
next
  case False
  obtain h where h: "flag_bits E = {h..<h + enum_count E}" "min_v E = 2 ^ h"
    using dense_flag_bits[OF assms(1,2) False] by blast
  have "0 \<in> flag_bits E" using assms(3) False by (simp add: flag_bits_zero)
  then have [simp]: "h = 0" using h(1) by simp
  have "bit (values_ors E) n = bit (mask (enum_count E) :: int) n" for n
    by (simp add: bit_values_ors[OF assms(1)] h(1) bit_mask_iff)
  then have "values_ors E = mask (enum_count E)" by (simp add: bit_eq_iff)
  then have "values_ors E = 2 ^ enum_count E - 1" by (simp add: mask_eq_exp_minus_1)
  moreover have "ors (members E v) = v \<longleftrightarrow> 0 \<le> v \<and> v < 2 ^ enum_count E"
    unfolding ors_members_iff[OF assms(1)] h(1) bits_below_iff[symmetric] by simp
  ultimately show ?thesis using False assms(2) h(2) by (auto simp: enum_flags_cast_def)
qed

text \<open>A dense flags enumeration without the lowest bit: its smallest enumerator plus one is accepted.\<close>

lemma foreign_bits_accepted:
  assumes "is_flags E" "enum_count E > 1" "\<not> is_sparse E" "1 \<notin> set (enum_values E)"
  shows "enum_flags_cast E (min_v E + 1) = Some (min_v E + 1) \<and> enum_flags_name E (min_v E + 1) sep = []"
proof -
  have pos: "enum_count E > 0" using assms(2) by simp
  obtain h where h: "flag_bits E = {h..<h + enum_count E}" "min_v E = 2 ^ h"
    using dense_flag_bits[OF assms(1) pos assms(3)] by blast
  have "0 \<notin> flag_bits E" using assms(4) by (simp add: flag_bits_zero)
  then have h0: "h > 0" using h(1) pos by auto
  have "bit (min_v E + 1) 0" using h0 h(2) by (simp add: bit_0)
  then have "ors (members E (min_v E + 1)) \<noteq> min_v E + 1"
    unfolding ors_members_iff[OF assms(1)] using \<open>0 \<notin> flag_bits E\<close> by blast
  moreover have "min_v E + 1 \<le> values_ors E"
  proof -
    have sub: "bit (2 ^ Suc h OR 2 ^ h :: int) n \<Longrightarrow> bit (values_ors E) n" for n
      using assms(2) by (auto simp: bit_or_iff bit_power_iff bit_values_ors[OF assms(1)] h(1) simp del: power_Suc)
    have nn: "0 \<le> values_ors E"
    proof -
      have "\<forall>n. bit (values_ors E) n \<longrightarrow> n < h + enum_count E" by (simp add: bit_values_ors[OF assms(1)] h(1))
      then show ?thesis unfolding bits_below_iff by simp
    qed
    have "2 ^ Suc h \<le> values_ors E"
    proof (rule ccontr)
      assume "\<not> 2 ^ Suc h \<le> values_ors E"
      then have "\<forall>n. bit (values_ors E) n \<longrightarrow> n < Suc h" using nn unfolding bits_below_iff by simp
      moreover have "bit (values_ors E) (Suc h)" by (rule sub) (simp add: bit_or_iff bit_power_iff del: power_Suc)
      ultimately show False by blast
    qed
    moreover have "(2 :: int) ^ h + 1 \<le> 2 ^ Suc h" by simp
    ultimately show ?thesis using h(2) by linarith
  qed
  ultimately show ?thesis using pos assms(3) by (simp add: enum_flags_cast_def enum_flags_name_eq)
qed

section \<open>The cast from a name\<close>

lemma str_find_append:
  "c \<notin> set s \<Longrightarrow> str_find (s @ c # t) c = Some (length s)"
  by (induction s) auto

lemma str_find_None: "c \<notin> set s \<Longrightarrow> str_find s c = None"
  by (induction s) auto

lemma first_index_names:
  assumes "distinct (enum_names E)" "f \<in> set (enum_values E)"
  shows "(case first_index (\<lambda>i. cmp_equal None (printed E f) (enum_names E ! i)) [0..<enum_count E] of
            Some i \<Rightarrow> enum_value E i | None \<Rightarrow> 0) = f"
proof -
  have pos: "enum_count E > 0" using assms(2) by (auto simp: enum_count_def)
  have "enum_cast_name E None (printed E f) = Some f"
    using enum_cast_name_round_trip[OF assms] assms(2) by (simp add: enum_name_printed[OF pos])
  then show ?thesis by (simp add: enum_cast_name_def split: option.splits)
qed

lemma flags_cast_loop_join:
  assumes d: "distinct (enum_names E)" and nz: "0 \<notin> set (enum_values E)"
    and sep: "\<forall>f\<in>set (enum_values E). sep \<notin> set (printed E f)"
  shows "set fs \<subseteq> set (enum_values E) \<Longrightarrow> fs \<noteq> [] \<Longrightarrow>
    flags_cast_loop E None sep (join_sep sep (map (printed E) fs)) r =
      (if fold (\<lambda>f c. c OR f) fs r \<noteq> 0 then Some (fold (\<lambda>f c. c OR f) fs r) else None)"
proof (induction fs arbitrary: r)
  case (Cons f fs)
  have f: "f \<in> set (enum_values E)" using Cons.prems by simp
  have nf: "sep \<notin> set (printed E f)" "f \<noteq> 0" "printed E f \<noteq> []"
    using sep nz f printed_nonempty by auto
  show ?case
  proof (cases "fs = []")
    case True
    have e: "flags_cast_loop E None sep [] x = (if x \<noteq> 0 then Some x else None)" for x
      by (simp add: flags_cast_loop.simps)
    show ?thesis
      using True nf first_index_names[OF d f]
      by (subst flags_cast_loop.simps) (simp add: str_find_None e Let_def)
  next
    case False
    have j: "join_sep sep (map (printed E) (f # fs)) = printed E f @ sep # join_sep sep (map (printed E) fs)"
      using False by (simp add: join_sep_Cons)
    have "flags_cast_loop E None sep (printed E f @ sep # join_sep sep (map (printed E) fs)) r =
        flags_cast_loop E None sep (join_sep sep (map (printed E) fs)) (r OR f)"
      using nf first_index_names[OF d f]
      by (subst flags_cast_loop.simps) (simp add: str_find_append Let_def)
    then show ?thesis using Cons.IH[OF _ False, of "r OR f"] Cons.prems unfolding j by simp
  qed
qed simp

lemma zero_not_flag: "is_flags E \<Longrightarrow> 0 \<notin> set (enum_values E)"
  by (auto simp: set_enum_values reflectable_def)

lemma enum_flags_name_round_trip:
  assumes "is_flags E" "distinct (enum_names E)" "\<forall>f\<in>set (enum_values E). sep \<notin> set (printed E f)"
    "v \<noteq> 0" "ors (members E v) = v"
  shows "enum_flags_cast_name E None sep (enum_flags_name E v sep) = Some v"
proof -
  have "members E v \<noteq> []" using assms(4,5) by (metis fold_simps(1))
  moreover from this have "enum_count E \<noteq> 0" by (auto simp: members_def enum_count_def)
  ultimately show ?thesis
    using flags_cast_loop_join[OF assms(2) zero_not_flag[OF assms(1)] assms(3), of "members E v" 0] assms(4,5)
    by (simp add: enum_flags_cast_name_def enum_flags_name_eq)
qed

lemma enum_flags_name_nonempty:
  assumes "v \<noteq> 0" "ors (members E v) = v"
  shows "enum_flags_name E v sep \<noteq> []"
proof -
  have ne: "members E v \<noteq> []" using assms by (metis fold_simps(1))
  then obtain f fs where fs: "members E v = f # fs" by (cases "members E v") auto
  then have "printed E f \<noteq> []" using members_sub[of E v] printed_nonempty by auto
  then show ?thesis using assms fs by (cases fs) (auto simp: enum_flags_name_eq simp del: fold_simps)
qed

section \<open>What the flag functions promise\<close>

text \<open>Flags for the witnesses: 1, 2 and 8.\<close>

definition access :: enum_type where
  "access = \<lparr>u_min = 0, u_max = 255, u_digits = 8, range_min = 0, range_max = 7, is_flags = True,
     castable = (\<lambda>_. True),
     custom_name = (\<lambda>v. if v = 1 then Custom_tag ''Read'' else if v = 2 then Custom_tag ''Write''
       else if v = 8 then Custom_tag ''Run'' else Invalid_tag),
     signature = (\<lambda>_. [])\<rparr>"

lemma access_table:
  "is_flags access" "enum_count access = 3" "enum_values access = [1, 2, 8]"
  "enum_names access = [''Read'', ''Write'', ''Run'']" "is_sparse access"
  by (simp add: access_def) code_simp+

text \<open>C31: the cast from an integer to a flags enumeration accepts exactly the unions of enumerators,
  and gives the integer back; the name of an integer is non-empty for just the same integers. The
  enumeration has gaps between its bits or has the lowest bit.\<close>

theorem flags_cast_exact:
  assumes "is_flags E" "enum_count E > 0" "is_sparse E \<or> 1 \<in> set (enum_values E)"
  shows "(enum_flags_cast E v = Some w \<longleftrightarrow> w = v \<and> (\<exists>fs. fs \<noteq> [] \<and> set fs \<subseteq> set (enum_values E) \<and> v = ors fs)) \<and>
    (enum_flags_contains E v \<longleftrightarrow> enum_flags_name E v sep \<noteq> [])"
proof -
  have "enum_flags_contains E v \<longleftrightarrow> v \<noteq> 0 \<and> ors (members E v) = v"
    using enum_flags_cast_iff[OF assms, of v] by (cases "enum_flags_cast E v") (auto simp: enum_flags_contains_def)
  moreover have "enum_flags_name E v sep \<noteq> [] \<longleftrightarrow> v \<noteq> 0 \<and> ors (members E v) = v"
    using enum_flags_name_nonempty by (auto simp: enum_flags_name_eq simp del: fold_simps)
  ultimately show ?thesis
    using union_of_flags_iff[OF assms(1)] enum_flags_cast_iff[OF assms] by blast
qed

lemma flags_cast_exact_witness:
  "(enum_flags_cast access 11 = Some 11 \<longleftrightarrow>
      (11 :: int) = 11 \<and> (\<exists>fs. fs \<noteq> [] \<and> set fs \<subseteq> set (enum_values access) \<and> 11 = ors fs)) \<and>
    (enum_flags_contains access 11 \<longleftrightarrow> enum_flags_name access 11 CHR ''|'' \<noteq> [])"
  by (rule flags_cast_exact) (simp_all add: access_table)

text \<open>C32: the name of a union of flags is its members' names, in the order of the table, with the
  separator between them, and the cast from that name gives the union back, where the names differ
  and none contains the separator; an integer that is not a union has the empty name.\<close>

theorem flags_name_round_trip:
  assumes "is_flags E" "distinct (enum_names E)" "\<forall>f\<in>set (enum_values E). sep \<notin> set (printed E f)"
  shows "if \<exists>fs. fs \<noteq> [] \<and> set fs \<subseteq> set (enum_values E) \<and> v = ors fs
    then enum_flags_name E v sep = join_sep sep (map (printed E) (members E v)) \<and>
      enum_flags_cast_name E None sep (enum_flags_name E v sep) = Some v
    else enum_flags_name E v sep = []"
  using enum_flags_name_round_trip[OF assms] unfolding union_of_flags_iff[OF assms(1)]
  by (auto simp: enum_flags_name_eq simp del: fold_simps)

lemma flags_name_round_trip_witness:
  "if \<exists>fs. fs \<noteq> [] \<and> set fs \<subseteq> set (enum_values access) \<and> 10 = ors fs
    then enum_flags_name access 10 CHR ''|'' = join_sep CHR ''|'' (map (printed access) (members access 10)) \<and>
      enum_flags_cast_name access None CHR ''|'' (enum_flags_name access 10 CHR ''|'') = Some 10
    else enum_flags_name access 10 CHR ''|'' = []"
  by (rule flags_name_round_trip) (simp_all add: access_table, simp_all add: access_def printed_def)

text \<open>On unions of enumerators, \<open>enum_flags_test\<close> with one enumerator is membership and
  \<open>enum_flags_test_any\<close> says whether the two sets meet.\<close>

theorem flags_tests:
  assumes "is_flags E" "set fs \<subseteq> set (enum_values E)" "set gs \<subseteq> set (enum_values E)" "f \<in> set (enum_values E)"
  shows "(enum_flags_test (ors fs) f \<longleftrightarrow> f \<in> set fs) \<and>
    (enum_flags_test_any (ors fs) (ors gs) \<longleftrightarrow> set fs \<inter> set gs \<noteq> {})"
proof -
  obtain k where k: "f = 2 ^ k" using flag_power[OF assms(1,4)] by blast
  have "ors fs AND f = f \<longleftrightarrow> bit (ors fs) k"
    unfolding k by (subst bit_eq_iff) (auto simp: bit_and_iff bit_power_iff)
  then have t: "enum_flags_test (ors fs) f \<longleftrightarrow> f \<in> set fs"
    using k by (simp add: enum_flags_test_def bit_ors_sub[OF assms(1,2)])
  have "ors fs AND ors gs \<noteq> 0 \<longleftrightarrow> (\<exists>n. 2 ^ n \<in> set fs \<and> 2 ^ n \<in> set gs)"
    by (auto simp: bit_eq_iff bit_and_iff bit_ors_sub[OF assms(1,2)] bit_ors_sub[OF assms(1,3)])
  also have "\<dots> \<longleftrightarrow> set fs \<inter> set gs \<noteq> {}"
  proof
    assume "set fs \<inter> set gs \<noteq> {}"
    then obtain x where x: "x \<in> set fs" "x \<in> set gs" by blast
    obtain n where "x = 2 ^ n" using flag_power[OF assms(1)] assms(2) x(1) by blast
    then show "\<exists>n. 2 ^ n \<in> set fs \<and> 2 ^ n \<in> set gs" using x by blast
  qed blast
  finally show ?thesis using t by (simp add: enum_flags_test_any_def)
qed

lemma flags_tests_witness:
  "(enum_flags_test (ors [1, 8]) 2 \<longleftrightarrow> (2 :: int) \<in> set [1, 8]) \<and>
    (enum_flags_test_any (ors [1, 8]) (ors [8, 2]) \<longleftrightarrow> set [1, 8 :: int] \<inter> set [8, 2] \<noteq> {})"
  by (rule flags_tests[of access]) (simp_all add: access_table)

end
