(* ===== verification/Enum_Bitset.thy ===== *)
theory Enum_Bitset
  imports Enum_Array Enum_Flags
begin

text \<open>
  \<open>containers::bitset\<close> of \<open>magic_enum_containers.hpp\<close>: one bit per enumerator, in words of 8, 16, 32
  or 64 bits by the number of enumerators. A word is its non-negative integer, a bitset the list of
  its words. \<open>n\<close> is the number of enumerators, \<open>pos\<close> the index type, \<open>E\<close> the enumeration. The relation
  \<open>rep\<close> reads a bitset as the set of positions whose bit is set; each operation has one lemma that
  says what it does to that set.
\<close>

section \<open>Layout\<close>

definition bits_per_base :: "nat \<Rightarrow> nat" where
  "bits_per_base n = (if n \<le> 8 then 8 else if n \<le> 16 then 16 else if n \<le> 32 then 32 else 64)"

definition base_type_count :: "nat \<Rightarrow> nat" where
  "base_type_count n = (if n > 0 then (n - 1) div bits_per_base n + 1 else 0)"

definition not_interested :: "nat \<Rightarrow> nat" where
  "not_interested n = base_type_count n * bits_per_base n - n"

definition last_value_max :: "nat \<Rightarrow> int" where
  "last_value_max n = push_bit (bits_per_base n - not_interested n) 1 - 1"

text \<open>The reference to one bit: word and mask.\<close>

definition num_index :: "nat \<Rightarrow> nat \<Rightarrow> nat" where
  "num_index n i = i div bits_per_base n"

definition bit_index :: "nat \<Rightarrow> nat \<Rightarrow> int" where
  "bit_index n i = push_bit (i mod bits_per_base n) 1"

definition ref_assign :: "nat \<Rightarrow> int list \<Rightarrow> nat \<Rightarrow> bool \<Rightarrow> int list" where
  "ref_assign n a i v =
     (if v then a[num_index n i := a ! num_index n i OR bit_index n i]
      else a[num_index n i := a ! num_index n i AND NOT (bit_index n i)])"

definition ref_bool :: "nat \<Rightarrow> int list \<Rightarrow> nat \<Rightarrow> bool" where
  "ref_bool n a i \<longleftrightarrow> a ! num_index n i AND bit_index n i > 0"

definition ref_flip :: "nat \<Rightarrow> int list \<Rightarrow> nat \<Rightarrow> int list" where
  "ref_flip n a i = ref_assign n a i (\<not> ref_bool n a i)"

section \<open>Operations on the words\<close>

definition bitset_new :: "nat \<Rightarrow> int list" where
  "bitset_new n = replicate (base_type_count n) 0"

definition bitset_eq :: "int list \<Rightarrow> int list \<Rightarrow> bool" where
  "bitset_eq lhs rhs = seq_equal (=) lhs rhs"

text \<open>\<open>all\<close>. The complement of a word of 8 or 16 bits is computed in \<open>int\<close> and not cut to the word.
  \<open>None\<close> is the end of the function without a return.\<close>

definition all_check :: "nat \<Rightarrow> int \<Rightarrow> int" where
  "all_check n x = (if bits_per_base n < 32 then NOT x else take_bit (bits_per_base n) (NOT x))"

definition bitset_all :: "nat \<Rightarrow> int list \<Rightarrow> bool option" where
  "bitset_all n a =
     (if base_type_count n = 0 then Some True
      else if \<exists>i\<in>set [0..<base_type_count n - of_bool (not_interested n > 0)]. all_check n (a ! i) \<noteq> 0 then Some False
      else if not_interested n > 0 then Some (a ! (base_type_count n - 1) = last_value_max n)
      else None)"

definition bitset_any :: "int list \<Rightarrow> bool" where
  "bitset_any a \<longleftrightarrow> (\<exists>v\<in>set a. v > 0)"

definition bitset_none :: "int list \<Rightarrow> bool" where
  "bitset_none a \<longleftrightarrow> \<not> bitset_any a"

function popcount_loop :: "int \<Rightarrow> nat \<Rightarrow> nat" where
  "popcount_loop x c = (if x > 0 then popcount_loop (drop_bit 1 x) (c + nat (x AND 1)) else c)"
  by auto
termination
  by (relation "measure (\<lambda>(x, c). nat x)") (auto simp: drop_bit_eq_div)

declare popcount_loop.simps [simp del]

definition popcount :: "int \<Rightarrow> nat" where
  "popcount x = popcount_loop x 0"

definition bitset_count :: "int list \<Rightarrow> nat" where
  "bitset_count a = fold (\<lambda>v c. c + popcount v) a 0"

definition bitset_and :: "nat \<Rightarrow> int list \<Rightarrow> int list \<Rightarrow> int list" where
  "bitset_and n a other = fold (\<lambda>i a. a[i := a ! i AND other ! i]) [0..<base_type_count n] a"

definition bitset_or :: "nat \<Rightarrow> int list \<Rightarrow> int list \<Rightarrow> int list" where
  "bitset_or n a other = fold (\<lambda>i a. a[i := a ! i OR other ! i]) [0..<base_type_count n] a"

definition bitset_xor :: "nat \<Rightarrow> int list \<Rightarrow> int list \<Rightarrow> int list" where
  "bitset_xor n a other = fold (\<lambda>i a. a[i := a ! i XOR other ! i]) [0..<base_type_count n] a"

definition bitset_not :: "nat \<Rightarrow> int list \<Rightarrow> int list" where
  "bitset_not n a =
     (let res = fold (\<lambda>i res. res[i := take_bit (bits_per_base n) (NOT (a ! i))])
                  [0..<base_type_count n - of_bool (not_interested n > 0)] (bitset_new n) in
      if not_interested n > 0
      then res[base_type_count n - 1 := NOT (a ! (base_type_count n - 1)) AND last_value_max n]
      else res)"

definition bitset_set_all :: "nat \<Rightarrow> int list \<Rightarrow> int list" where
  "bitset_set_all n a =
     (let a = fold (\<lambda>i a. a[i := take_bit (bits_per_base n) (NOT 0)])
                [0..<base_type_count n - of_bool (not_interested n > 0)] a in
      if not_interested n > 0 then a[base_type_count n - 1 := last_value_max n] else a)"

definition bitset_reset_all :: "nat \<Rightarrow> int list \<Rightarrow> int list" where
  "bitset_reset_all n a = bitset_new n"

definition bitset_flip :: "nat \<Rightarrow> int list \<Rightarrow> int list" where
  "bitset_flip n a = bitset_not n a"

section \<open>Operations on the enumerators\<close>

text \<open>The subscript asserts a position; \<open>None\<close> when there is none.\<close>

definition bitset_subscript :: "nat \<Rightarrow> (int \<Rightarrow> nat option) \<Rightarrow> int list \<Rightarrow> int \<Rightarrow> bool option" where
  "bitset_subscript n pos a e = (case pos e of Some i \<Rightarrow> Some (ref_bool n a i) | None \<Rightarrow> None)"

definition bitset_test :: "nat \<Rightarrow> (int \<Rightarrow> nat option) \<Rightarrow> int list \<Rightarrow> int \<Rightarrow> container_error + bool" where
  "bitset_test n pos a e = (case pos e of Some i \<Rightarrow> Inr (ref_bool n a i) | None \<Rightarrow> Inl Out_of_range)"

definition bitset_set :: "nat \<Rightarrow> (int \<Rightarrow> nat option) \<Rightarrow> int list \<Rightarrow> int \<Rightarrow> bool \<Rightarrow> container_error + int list" where
  "bitset_set n pos a e value = (case pos e of Some i \<Rightarrow> Inr (ref_assign n a i value) | None \<Rightarrow> Inl Out_of_range)"

definition bitset_reset :: "nat \<Rightarrow> (int \<Rightarrow> nat option) \<Rightarrow> int list \<Rightarrow> int \<Rightarrow> container_error + int list" where
  "bitset_reset n pos a e = (case pos e of Some i \<Rightarrow> Inr (ref_assign n a i False) | None \<Rightarrow> Inl Out_of_range)"

section \<open>A bitset as a set of positions\<close>

definition rep :: "nat \<Rightarrow> int list \<Rightarrow> nat set \<Rightarrow> bool" where
  "rep n a S \<longleftrightarrow> length a = base_type_count n \<and> S \<subseteq> {..<n} \<and>
     (\<forall>k<base_type_count n. \<forall>m. bit (a ! k) m \<longleftrightarrow> m < bits_per_base n \<and> k * bits_per_base n + m \<in> S)"

lemma repI:
  "length a = base_type_count n \<Longrightarrow> S \<subseteq> {..<n} \<Longrightarrow>
   (\<And>k m. k < base_type_count n \<Longrightarrow> bit (a ! k) m \<longleftrightarrow> m < bits_per_base n \<and> k * bits_per_base n + m \<in> S) \<Longrightarrow> rep n a S"
  by (simp add: rep_def)

lemma rep_length: "rep n a S \<Longrightarrow> length a = base_type_count n"
  by (simp add: rep_def)

lemma rep_sub: "rep n a S \<Longrightarrow> S \<subseteq> {..<n}"
  by (simp add: rep_def)

lemma rep_bit: "rep n a S \<Longrightarrow> k < base_type_count n \<Longrightarrow> bit (a ! k) m \<longleftrightarrow> m < bits_per_base n \<and> k * bits_per_base n + m \<in> S"
  by (simp add: rep_def)

lemma rep_finite: "rep n a S \<Longrightarrow> finite S"
  by (auto dest: rep_sub intro: finite_subset)

lemma bits_per_base_pos [simp]: "0 < bits_per_base n"
  by (simp add: bits_per_base_def)

lemma word_of_position:
  assumes "i < n"
  shows "i div bits_per_base n < base_type_count n"
proof -
  have "i div bits_per_base n \<le> (n - 1) div bits_per_base n" using assms by (intro div_le_mono) simp
  then show ?thesis using assms by (simp add: base_type_count_def)
qed

lemma position_of_word:
  "m < bits_per_base n \<Longrightarrow> k * bits_per_base n + m = i \<longleftrightarrow> k = i div bits_per_base n \<and> m = i mod bits_per_base n"
  by (auto simp: div_mult_mod_eq)

lemma rep_nonneg: "rep n a S \<Longrightarrow> k < base_type_count n \<Longrightarrow> 0 \<le> a ! k \<and> a ! k < 2 ^ bits_per_base n"
  using bits_below_iff[of "a ! k" "bits_per_base n"] by (simp add: rep_bit)

lemma ref_bool_iff:
  assumes "rep n a S" "i < n"
  shows "ref_bool n a i \<longleftrightarrow> i \<in> S"
proof -
  let ?w = "bits_per_base n"
  have k: "i div ?w < base_type_count n" using word_of_position[OF assms(2)] .
  have "0 \<le> a ! (i div ?w) AND 2 ^ (i mod ?w)" using rep_nonneg[OF assms(1) k] by simp
  then have "a ! (i div ?w) AND 2 ^ (i mod ?w) > 0 \<longleftrightarrow> a ! (i div ?w) AND 2 ^ (i mod ?w) \<noteq> 0" by linarith
  then have "ref_bool n a i \<longleftrightarrow> a ! (i div ?w) AND 2 ^ (i mod ?w) \<noteq> 0"
    by (simp only: ref_bool_def num_index_def bit_index_def push_bit_eq_mult mult_1)
  also have "\<dots> \<longleftrightarrow> i \<in> S" using rep_bit[OF assms(1) k] by (simp add: and_power_iff)
  finally show ?thesis .
qed

lemma rep_unique:
  assumes "rep n a S" "rep n b S"
  shows "a = b"
proof (rule nth_equalityI)
  show "length a = length b" using assms by (simp add: rep_length)
  fix k assume "k < length a"
  then have "k < base_type_count n" using assms(1) by (simp add: rep_length)
  then show "a ! k = b ! k" using assms by (subst bit_eq_iff) (simp add: rep_bit)
qed

lemma rep_same: "rep n a S \<Longrightarrow> rep n a T \<Longrightarrow> S = T"
  by (meson lessThan_iff ref_bool_iff rep_sub subsetD subset_antisym subsetI)

lemma bitset_eq_iff: "rep n a S \<Longrightarrow> rep n b T \<Longrightarrow> bitset_eq a b \<longleftrightarrow> S = T"
  using rep_unique[of n a S b] rep_same[of n a S T] by (auto simp: bitset_eq_def)

lemma rep_new: "rep n (bitset_new n) {}"
  by (auto simp: bitset_new_def intro!: repI)

lemma rep_assign:
  assumes "rep n a S" "i < n"
  shows "rep n (ref_assign n a i v) (if v then insert i S else S - {i})"
proof (rule repI)
  let ?w = "bits_per_base n" let ?k = "i div ?w"
  show "length (ref_assign n a i v) = base_type_count n" using assms(1) by (simp add: ref_assign_def rep_length)
  show "(if v then insert i S else S - {i}) \<subseteq> {..<n}" using rep_sub[OF assms(1)] assms(2) by auto
  fix k m assume k: "k < base_type_count n"
  have len: "k < length a" using k assms(1) by (simp add: rep_length)
  have e: "bit (ref_assign n a i v ! k) m \<longleftrightarrow>
      (if k = ?k \<and> m = i mod ?w then v else bit (a ! k) m)"
  proof (cases "k = ?k")
    case True
    then have "ref_assign n a i v ! k = (if v then a ! k OR 2 ^ (i mod ?w) else a ! k AND NOT (2 ^ (i mod ?w)))"
      using len by (simp add: ref_assign_def num_index_def bit_index_def push_bit_eq_mult)
    then show ?thesis using True by (auto simp: bit_or_iff bit_and_iff bit_not_iff bit_power_iff)
  qed (simp add: ref_assign_def num_index_def)
  have m: "m = i mod ?w \<Longrightarrow> m < ?w" by simp
  show "bit (ref_assign n a i v ! k) m \<longleftrightarrow> m < ?w \<and> k * ?w + m \<in> (if v then insert i S else S - {i})"
    unfolding e rep_bit[OF assms(1) k] using position_of_word[of m n k i] m by auto
qed

text \<open>Word by word.\<close>

lemma fold_update:
  "k \<le> length a \<Longrightarrow>
   length (fold (\<lambda>i a. a[i := f i (a ! i)]) [0..<k] a) = length a \<and>
   (\<forall>j. fold (\<lambda>i a. a[i := f i (a ! i)]) [0..<k] a ! j = (if j < k then f j (a ! j) else a ! j))"
proof (induction k)
  case (Suc k)
  then show ?case by (auto simp: nth_list_update less_Suc_eq)
qed simp

lemma rep_bitwise:
  assumes "rep n a S" "rep n b T"
  shows "rep n (bitset_and n a b) (S \<inter> T)" "rep n (bitset_or n a b) (S \<union> T)"
    "rep n (bitset_xor n a b) ((S - T) \<union> (T - S))"
proof -
  have len: "base_type_count n \<le> length a" using assms(1) by (simp add: rep_length)
  note u = fold_update[OF len]
  show "rep n (bitset_and n a b) (S \<inter> T)"
    unfolding bitset_and_def using u[of "\<lambda>i x. x AND b ! i"] rep_sub[OF assms(1)]
    by (intro repI) (auto simp: rep_length[OF assms(1)] bit_and_iff rep_bit[OF assms(1)] rep_bit[OF assms(2)])
  show "rep n (bitset_or n a b) (S \<union> T)"
    unfolding bitset_or_def using u[of "\<lambda>i x. x OR b ! i"] rep_sub[OF assms(1)] rep_sub[OF assms(2)]
    by (intro repI) (auto simp: rep_length[OF assms(1)] bit_or_iff rep_bit[OF assms(1)] rep_bit[OF assms(2)])
  show "rep n (bitset_xor n a b) ((S - T) \<union> (T - S))"
    unfolding bitset_xor_def using u[of "\<lambda>i x. x XOR b ! i"] rep_sub[OF assms(1)] rep_sub[OF assms(2)]
    by (intro repI) (auto simp: rep_length[OF assms(1)] bit_xor_iff rep_bit[OF assms(1)] rep_bit[OF assms(2)])
qed

text \<open>The words before the last are full of positions; the last has the rest.\<close>

abbreviation full_words :: "nat \<Rightarrow> nat" where
  "full_words n \<equiv> base_type_count n - of_bool (not_interested n > 0)"

lemma full_word:
  assumes "k < full_words n" "m < bits_per_base n"
  shows "k * bits_per_base n + m < n"
proof -
  let ?w = "bits_per_base n"
  have n: "n > 0" using assms(1) by (cases n) (auto simp: base_type_count_def)
  have le: "Suc k * ?w \<le> n"
  proof (cases "not_interested n > 0")
    case True
    then have "Suc k \<le> (n - 1) div ?w" using assms(1) n by (simp add: base_type_count_def)
    then have "Suc k * ?w \<le> (n - 1) div ?w * ?w" by (rule mult_le_mono1)
    also have "\<dots> \<le> n - 1" by simp
    finally show ?thesis by simp
  next
    case False
    then have "base_type_count n * ?w \<le> n" by (simp add: not_interested_def)
    moreover have "Suc k * ?w \<le> base_type_count n * ?w" using assms(1) False by (intro mult_le_mono1) simp
    ultimately show ?thesis by simp
  qed
  then show ?thesis using assms(2) by simp
qed

lemma words_cover: "n \<le> base_type_count n * bits_per_base n"
proof (cases n)
  case (Suc q)
  have "q = q div bits_per_base n * bits_per_base n + q mod bits_per_base n" "q mod bits_per_base n < bits_per_base n"
    by simp_all
  then have "Suc q \<le> Suc (q div bits_per_base n) * bits_per_base n" unfolding mult_Suc by linarith
  then show ?thesis using Suc by (simp add: base_type_count_def)
qed (simp add: base_type_count_def)

lemma last_word:
  assumes "not_interested n > 0" "n > 0"
  shows "(base_type_count n - 1) * bits_per_base n + m < n \<longleftrightarrow> m < bits_per_base n - not_interested n"
    and "not_interested n < bits_per_base n"
proof -
  let ?w = "bits_per_base n" let ?q = "(n - 1) div ?w"
  have c: "base_type_count n = Suc ?q" using assms(2) by (simp add: base_type_count_def)
  define p where "p = ?q * ?w"
  have lt: "p \<le> n - 1" by (simp add: p_def)
  have up: "n \<le> ?w + p" using words_cover[of n] by (simp add: c p_def)
  have ni: "not_interested n = ?w + p - n" by (simp add: not_interested_def c p_def)
  show "not_interested n < ?w" using lt up ni assms(2) by linarith
  have "p + m < n \<longleftrightarrow> m < ?w - not_interested n" using lt up ni assms(2) by linarith
  then show "(base_type_count n - 1) * ?w + m < n \<longleftrightarrow> m < ?w - not_interested n" by (simp add: c p_def)
qed

lemma bit_last_value_max:
  "bit (last_value_max n) m \<longleftrightarrow> m < bits_per_base n - not_interested n"
proof -
  have "last_value_max n = mask (bits_per_base n - not_interested n)"
    by (simp add: last_value_max_def mask_eq_exp_minus_1 push_bit_eq_mult)
  then show ?thesis by (simp add: bit_mask_iff)
qed

lemma full_words_le: "full_words n \<le> base_type_count n"
  by simp

text \<open>The words that \<open>~\<close> and \<open>set()\<close> build: a full word by its bits, the last one masked.\<close>

lemma rep_full_and_last:
  assumes len: "length a = base_type_count n" and S: "S \<subseteq> {..<n}"
    and full: "\<And>k m. k < full_words n \<Longrightarrow> bit (a ! k) m \<longleftrightarrow> m < bits_per_base n \<and> k * bits_per_base n + m \<in> S"
    and last: "\<And>m. not_interested n > 0 \<Longrightarrow> n > 0 \<Longrightarrow>
      bit (a ! (base_type_count n - 1)) m \<longleftrightarrow>
        m < bits_per_base n - not_interested n \<and> (base_type_count n - 1) * bits_per_base n + m \<in> S"
  shows "rep n a S"
proof (rule repI[OF len S])
  fix k m assume k: "k < base_type_count n"
  then have n: "n > 0" by (cases n) (auto simp: base_type_count_def)
  show "bit (a ! k) m \<longleftrightarrow> m < bits_per_base n \<and> k * bits_per_base n + m \<in> S"
  proof (cases "k < full_words n")
    case True
    then show ?thesis by (rule full)
  next
    case False
    then have ni: "not_interested n > 0" and ke: "k = base_type_count n - 1"
      using k by (cases "not_interested n > 0"; simp)+
    then show ?thesis using last[OF ni n, of m] last_word(1)[OF ni n, of m] S last_word(2)[OF ni n] by auto
  qed
qed

lemma rep_not:
  assumes "rep n a S"
  shows "rep n (bitset_not n a) ({..<n} - S)"
proof -
  define res where "res = fold (\<lambda>i res. res[i := take_bit (bits_per_base n) (NOT (a ! i))]) [0..<full_words n] (bitset_new n)"
  have u: "length res = base_type_count n"
    "\<And>j. res ! j = (if j < full_words n then take_bit (bits_per_base n) (NOT (a ! j)) else bitset_new n ! j)"
    using fold_update[of "full_words n" "bitset_new n" "\<lambda>i x. take_bit (bits_per_base n) (NOT (a ! i))"]
    by (simp_all add: bitset_new_def res_def)
  have e: "bitset_not n a = (if not_interested n > 0
      then res[base_type_count n - 1 := NOT (a ! (base_type_count n - 1)) AND last_value_max n] else res)"
    by (simp only: bitset_not_def Let_def res_def)
  have b: "bit (NOT (a ! k)) m \<longleftrightarrow> \<not> (m < bits_per_base n \<and> k * bits_per_base n + m \<in> S)" if "k < base_type_count n" for k m
    using rep_bit[OF assms that] by (simp add: bit_not_iff)
  show ?thesis
  proof (rule rep_full_and_last)
    show "length (bitset_not n a) = base_type_count n" using u(1) by (simp add: e)
    show "{..<n} - S \<subseteq> {..<n}" by blast
    fix k m assume k: "k < full_words n"
    then have "bitset_not n a ! k = take_bit (bits_per_base n) (NOT (a ! k))" using u by (auto simp: e nth_list_update)
    then show "bit (bitset_not n a ! k) m \<longleftrightarrow> m < bits_per_base n \<and> k * bits_per_base n + m \<in> {..<n} - S"
      using b[of k m] k full_word[OF k, of m] by (auto simp: bit_take_bit_iff)
  next
    fix m assume ni: "not_interested n > 0" "n > 0"
    then have c: "base_type_count n - 1 < base_type_count n" by (simp add: base_type_count_def)
    then have "bitset_not n a ! (base_type_count n - 1) = NOT (a ! (base_type_count n - 1)) AND last_value_max n"
      using ni u(1) by (simp add: e)
    then show "bit (bitset_not n a ! (base_type_count n - 1)) m \<longleftrightarrow>
        m < bits_per_base n - not_interested n \<and> (base_type_count n - 1) * bits_per_base n + m \<in> {..<n} - S"
      using b[OF c, of m] last_word(1)[OF ni, of m] by (auto simp: bit_and_iff bit_last_value_max)
  qed
qed

lemma rep_set_all:
  assumes "rep n a S"
  shows "rep n (bitset_set_all n a) {..<n}"
proof -
  define res where "res = fold (\<lambda>i a. a[i := take_bit (bits_per_base n) (NOT 0 :: int)]) [0..<full_words n] a"
  have len: "length a = base_type_count n" using assms by (rule rep_length)
  have u: "length res = base_type_count n"
    "\<And>j. res ! j = (if j < full_words n then take_bit (bits_per_base n) (NOT 0) else a ! j)"
    using fold_update[of "full_words n" a "\<lambda>i x. take_bit (bits_per_base n) (NOT 0)"] len by (simp_all add: res_def)
  have e: "bitset_set_all n a = (if not_interested n > 0 then res[base_type_count n - 1 := last_value_max n] else res)"
    by (simp only: bitset_set_all_def Let_def res_def)
  show ?thesis
  proof (rule rep_full_and_last)
    show "length (bitset_set_all n a) = base_type_count n" using u(1) by (simp add: e)
    fix k m assume k: "k < full_words n"
    then have "bitset_set_all n a ! k = take_bit (bits_per_base n) (NOT 0)"
      using u by (auto simp: e nth_list_update)
    then show "bit (bitset_set_all n a ! k) m \<longleftrightarrow> m < bits_per_base n \<and> k * bits_per_base n + m \<in> {..<n}"
      using full_word[OF k, of m] by (auto simp: bit_take_bit_iff bit_not_iff bit_mask_iff)
  next
    fix m assume ni: "not_interested n > 0" "n > 0"
    then have "base_type_count n - 1 < base_type_count n" by (simp add: base_type_count_def)
    then have "bitset_set_all n a ! (base_type_count n - 1) = last_value_max n" using ni u(1) by (simp add: e)
    then show "bit (bitset_set_all n a ! (base_type_count n - 1)) m \<longleftrightarrow>
        m < bits_per_base n - not_interested n \<and> (base_type_count n - 1) * bits_per_base n + m \<in> {..<n}"
      using last_word(1)[OF ni, of m] by (auto simp: bit_last_value_max)
  qed simp
qed

lemma int_eq_0_iff_bits: "(x :: int) = 0 \<longleftrightarrow> (\<forall>m. \<not> bit x m)"
  by (simp add: bit_eq_iff)

lemma rep_any:
  assumes "rep n a S"
  shows "bitset_any a \<longleftrightarrow> S \<noteq> {}"
proof -
  have "x > 0 \<longleftrightarrow> (\<exists>m. bit x m)" if "x \<in> set a" for x
  proof -
    have "0 \<le> x" using that rep_nonneg[OF assms] rep_length[OF assms] by (auto simp: in_set_conv_nth)
    then show ?thesis using int_eq_0_iff_bits[of x] by auto
  qed
  then have "bitset_any a \<longleftrightarrow> (\<exists>k<base_type_count n. \<exists>m. bit (a ! k) m)"
    unfolding bitset_any_def by (metis in_set_conv_nth rep_length[OF assms])
  also have "\<dots> \<longleftrightarrow> S \<noteq> {}"
  proof
    assume "S \<noteq> {}"
    then obtain i where i: "i \<in> S" by blast
    then have "i < n" using rep_sub[OF assms] by auto
    then have k: "i div bits_per_base n < base_type_count n" by (rule word_of_position)
    have "bit (a ! (i div bits_per_base n)) (i mod bits_per_base n)" using rep_bit[OF assms k] i by simp
    then show "\<exists>k<base_type_count n. \<exists>m. bit (a ! k) m" using k by blast
  qed (auto simp: rep_bit[OF assms])
  finally show ?thesis .
qed

text \<open>Counting bits.\<close>

lemma popcount_loop_eq: "0 \<le> x \<Longrightarrow> popcount_loop x c = c + card {m. bit x m}"
proof (induction x c rule: popcount_loop.induct)
  case (1 x c)
  show ?case
  proof (cases "x > 0")
    case True
    have fin: "finite {m. bit (drop_bit 1 x) m}"
    proof -
      have "0 \<le> drop_bit 1 x" using 1(2) by simp
      then have "drop_bit 1 x < 2 ^ nat (drop_bit 1 x)" 
        using of_nat_less_iff[of "nat (drop_bit 1 x)" "2 ^ nat (drop_bit 1 x)", where 'a = int] less_exp by simp
      then have "{m. bit (drop_bit 1 x) m} \<subseteq> {..<nat (drop_bit 1 x)}"
        using bits_below_iff[of "drop_bit 1 x" "nat (drop_bit 1 x)"] 1(2) by auto
      then show ?thesis by (rule finite_subset) simp
    qed
    have b: "bit x m \<longleftrightarrow> (case m of 0 \<Rightarrow> odd x | Suc k \<Rightarrow> bit (drop_bit 1 x) k)" for m
      by (cases m) (simp_all add: bit_0 bit_Suc drop_bit_Suc)
    have s: "{m. bit x m} = (if odd x then {0} else {}) \<union> Suc ` {m. bit (drop_bit 1 x) m}"
    proof (rule set_eqI)
      fix m show "m \<in> {m. bit x m} \<longleftrightarrow> m \<in> (if odd x then {0} else {}) \<union> Suc ` {m. bit (drop_bit 1 x) m}"
        by (cases m) (auto simp: b)
    qed
    have "card {m. bit x m} = nat (x AND 1) + card {m. bit (drop_bit 1 x) m}"
      unfolding s using fin by (subst card_Un_disjoint) (auto simp: card_image and_one_eq odd_iff_mod_2_eq_one)
    then show ?thesis using 1(1)[OF True] True 1(2) by (subst popcount_loop.simps) simp
  next
    case False
    then have "x = 0" using 1(2) by simp
    then show ?thesis by (simp add: popcount_loop.simps)
  qed
qed

lemma popcount_eq: "0 \<le> x \<Longrightarrow> popcount x = card {m. bit x m}"
  by (simp add: popcount_def popcount_loop_eq)

lemma rep_count:
  assumes "rep n a S"
  shows "bitset_count a = card S"
proof -
  let ?w = "bits_per_base n" let ?c = "base_type_count n"
  let ?A = "\<lambda>k. {i \<in> S. i div ?w = k}"
  have fold: "fold (\<lambda>v c. c + popcount v) xs c = c + sum_list (map popcount xs)" for xs :: "int list" and c
    by (induction xs arbitrary: c) auto
  have "popcount (a ! k) = card (?A k)" if k: "k < ?c" for k
  proof -
    have "?A k = (\<lambda>m. k * ?w + m) ` {m. bit (a ! k) m}"
    proof (intro equalityI subsetI)
      fix i assume "i \<in> ?A k"
      then have "i \<in> S" "i = k * ?w + i mod ?w" using div_mult_mod_eq[of i ?w] by auto
      then show "i \<in> (\<lambda>m. k * ?w + m) ` {m. bit (a ! k) m}"
        by (intro image_eqI[of _ _ "i mod ?w"]) (auto simp: rep_bit[OF assms k])
    qed (auto simp: rep_bit[OF assms k])
    then have "card (?A k) = card {m. bit (a ! k) m}" by (simp add: card_image)
    then show ?thesis using popcount_eq rep_nonneg[OF assms k] by simp
  qed
  then have "bitset_count a = (\<Sum>k<?c. card (?A k))"
    by (simp add: bitset_count_def fold sum_list_sum_nth rep_length[OF assms] atLeast0LessThan)
  also have "\<dots> = card (\<Union>k<?c. ?A k)"
    by (subst card_UN_disjoint) (auto simp: rep_finite[OF assms])
  also have "(\<Union>k<?c. ?A k) = S"
  proof (intro equalityI subsetI)
    fix i assume i: "i \<in> S"
    then have "i < n" using rep_sub[OF assms] by auto
    then show "i \<in> (\<Union>k<?c. ?A k)" using i word_of_position[of i n] by blast
  qed auto
  finally show ?thesis .
qed

text \<open>What \<open>all()\<close> does, for every number of enumerators.\<close>

lemma all_check_zero:
  assumes "rep n a S" "k < full_words n" "bits_per_base n \<ge> 32"
  shows "all_check n (a ! k) = 0 \<longleftrightarrow> (\<forall>m<bits_per_base n. k * bits_per_base n + m \<in> S)"
proof -
  have k: "k < base_type_count n" using assms(2) by simp
  have "all_check n (a ! k) = 0 \<longleftrightarrow> (\<forall>m. \<not> (m < bits_per_base n \<and> \<not> bit (a ! k) m))"
    using assms(3) by (simp add: all_check_def int_eq_0_iff_bits bit_take_bit_iff bit_not_iff)
  then show ?thesis using rep_bit[OF assms(1) k] by auto
qed

lemma all_check_short:
  assumes "rep n a S" "k < base_type_count n" "bits_per_base n < 32"
  shows "all_check n (a ! k) \<noteq> 0"
proof -
  have "0 \<le> a ! k" using rep_nonneg[OF assms(1,2)] by simp
  then have "NOT (a ! k) < 0" by simp
  then have "NOT (a ! k) \<noteq> 0" by linarith
  then show ?thesis using assms(3) by (simp add: all_check_def)
qed

lemma short_single_word: "0 < n \<Longrightarrow> bits_per_base n < 32 \<Longrightarrow> base_type_count n = 1"
  by (auto simp: base_type_count_def bits_per_base_def split: if_splits)

lemma rep_last_word:
  assumes "rep n a S" "not_interested n > 0" "n > 0"
  shows "a ! (base_type_count n - 1) = last_value_max n \<longleftrightarrow>
    (\<forall>m<bits_per_base n - not_interested n. (base_type_count n - 1) * bits_per_base n + m \<in> S)"
proof -
  have k: "base_type_count n - 1 < base_type_count n" using assms(3) by (simp add: base_type_count_def)
  have "a ! (base_type_count n - 1) = last_value_max n \<longleftrightarrow>
      (\<forall>m. (m < bits_per_base n \<and> (base_type_count n - 1) * bits_per_base n + m \<in> S) = (m < bits_per_base n - not_interested n))"
    by (simp only: bit_eq_iff rep_bit[OF assms(1) k] bit_last_value_max possible_bit_int simp_thms)
  also have "\<dots> \<longleftrightarrow> (\<forall>m<bits_per_base n - not_interested n. (base_type_count n - 1) * bits_per_base n + m \<in> S)"
    using rep_sub[OF assms(1)] last_word(1)[OF assms(2,3)] by auto
  finally show ?thesis .
qed

lemma rep_full_iff:
  assumes "rep n a S" "n > 0"
  shows "S = {..<n} \<longleftrightarrow> (\<forall>k<full_words n. \<forall>m<bits_per_base n. k * bits_per_base n + m \<in> S) \<and>
    (not_interested n > 0 \<longrightarrow>
      (\<forall>m<bits_per_base n - not_interested n. (base_type_count n - 1) * bits_per_base n + m \<in> S))"
    (is "_ \<longleftrightarrow> ?full \<and> ?last")
proof
  assume "S = {..<n}"
  then show "?full \<and> ?last" using full_word[of _ n] last_word(1)[OF _ assms(2)] by auto
next
  assume h: "?full \<and> ?last"
  have "i \<in> S" if i: "i < n" for i
  proof -
    let ?w = "bits_per_base n" let ?k = "i div ?w" let ?m = "i mod ?w"
    have m: "?m < ?w" and e: "?k * ?w + ?m = i" by (simp_all add: div_mult_mod_eq)
    show ?thesis
    proof (cases "?k < full_words n")
      case True
      then show ?thesis using h m e by metis
    next
      case False
      then have ni: "not_interested n > 0" and k: "?k = base_type_count n - 1"
        using word_of_position[OF i] by (cases "not_interested n > 0"; simp)+
      then have "?m < ?w - not_interested n" using i e last_word(1)[OF ni assms(2), of ?m] by simp
      then show ?thesis using h ni k e by metis
    qed
  qed
  then show "S = {..<n}" using rep_sub[OF assms(1)] by auto
qed

lemma rep_all:
  assumes "rep n a S" "n > 0"
  shows "bitset_all n a =
    (if not_interested n > 0 then Some (S = {..<n})
     else if bits_per_base n < 32 then Some False
     else if S = {..<n} then None else Some False)"
proof -
  have c: "base_type_count n \<noteq> 0" using assms(2) by (simp add: base_type_count_def)
  show ?thesis
  proof (cases "bits_per_base n < 32")
    case True
    then have one: "base_type_count n = 1" using short_single_word[OF assms(2)] by simp
    show ?thesis
    proof (cases "not_interested n > 0")
      case ni: True
      then show ?thesis
        using one rep_full_iff[OF assms] rep_last_word[OF assms(1) ni assms(2)] by (simp add: bitset_all_def)
    next
      case False
      then show ?thesis using one True all_check_short[OF assms(1), of 0] by (simp add: bitset_all_def)
    qed
  next
    case False
    then have ck: "(\<exists>i\<in>set [0..<full_words n]. all_check n (a ! i) \<noteq> 0) \<longleftrightarrow>
        \<not> (\<forall>k<full_words n. \<forall>m<bits_per_base n. k * bits_per_base n + m \<in> S)"
      using all_check_zero[OF assms(1)] by (auto simp: not_less)
    show ?thesis
      unfolding bitset_all_def ck using c False rep_full_iff[OF assms] rep_last_word[OF assms(1) _ assms(2)]
      by (cases "not_interested n > 0") simp_all
  qed
qed

section \<open>Conversions\<close>

text \<open>To an unsigned integer of \<open>t\<close> bits. The mask is shifted in that type, so it becomes 0 after the
  last bit.\<close>

fun to_loop :: "nat \<Rightarrow> nat \<Rightarrow> int list \<Rightarrow> nat list \<Rightarrow> int \<Rightarrow> int \<Rightarrow> container_error + int" where
  "to_loop n t a [] flag res = Inr res"
| "to_loop n t a (i # is) flag res =
     (if ref_bool n a i then
        (if i \<ge> t then Inl Overflow_error else to_loop n t a is (take_bit t (push_bit 1 flag)) (res OR flag))
      else to_loop n t a is (take_bit t (push_bit 1 flag)) res)"

definition bitset_to :: "nat \<Rightarrow> nat \<Rightarrow> int list \<Rightarrow> container_error + int" where
  "bitset_to n t a = to_loop n t a [0..<n] 1 0"

definition to_ullong :: "nat \<Rightarrow> int list \<Rightarrow> container_error + int" where
  "to_ullong n a = bitset_to n 64 a"

fun of_ullong_loop :: "nat \<Rightarrow> int \<Rightarrow> nat list \<Rightarrow> int \<Rightarrow> int list \<Rightarrow> container_error + int list" where
  "of_ullong_loop n val [] b a = Inr a"
| "of_ullong_loop n val (i # is) b a =
     (if val AND b > 0 then
        (if i \<ge> n then Inl Out_of_range else of_ullong_loop n val is (take_bit 64 (push_bit 1 b)) (ref_assign n a i True))
      else of_ullong_loop n val is (take_bit 64 (push_bit 1 b)) a)"

definition of_ullong :: "nat \<Rightarrow> int \<Rightarrow> container_error + int list" where
  "of_ullong n val = of_ullong_loop n val [0..<64] 1 (bitset_new n)"

text \<open>From and to a string of digits; \<open>substr\<close> throws when it starts behind the end.\<close>

fun of_digits_loop :: "nat \<Rightarrow> char \<Rightarrow> char \<Rightarrow> string \<Rightarrow> nat \<Rightarrow> int list \<Rightarrow> container_error + int list" where
  "of_digits_loop n zero one [] i a = Inr a"
| "of_digits_loop n zero one (c # cs) i a =
     (if c = one then
        (if i \<ge> n then Inl Out_of_range else of_digits_loop n zero one cs (i + 1) (ref_assign n a i True))
      else if c \<noteq> zero then Inl Invalid_argument
      else of_digits_loop n zero one cs (i + 1) a)"

definition of_digits :: "nat \<Rightarrow> string \<Rightarrow> nat \<Rightarrow> nat \<Rightarrow> char \<Rightarrow> char \<Rightarrow> container_error + int list" where
  "of_digits n sv p m zero one =
     (if p > length sv then Inl Out_of_range
      else of_digits_loop n zero one (take m (drop p sv)) 0 (bitset_new n))"

definition to_digits :: "nat \<Rightarrow> int list \<Rightarrow> char \<Rightarrow> char \<Rightarrow> string" where
  "to_digits n a zero one = map (\<lambda>i. if ref_bool n a i then one else zero) [0..<n]"

text \<open>From one value of a flags enumeration. An enumerator always has a position, so the branch
  without one is not reached.\<close>

fun of_flag_loop :: "nat \<Rightarrow> (int \<Rightarrow> nat option) \<Rightarrow> int list \<Rightarrow> int \<Rightarrow> int list \<Rightarrow> int \<times> int list" where
  "of_flag_loop n pos [] u a = (u, a)"
| "of_flag_loop n pos (v # vs) u a =
     (if v AND u \<noteq> 0
      then of_flag_loop n pos vs (u AND NOT v) (case pos v of Some i \<Rightarrow> ref_assign n a i True | None \<Rightarrow> a)
      else of_flag_loop n pos vs u a)"

definition bitset_of_flag :: "enum_type \<Rightarrow> (int \<Rightarrow> nat option) \<Rightarrow> int \<Rightarrow> container_error + int list" where
  "bitset_of_flag E pos starter =
     (case of_flag_loop (enum_count E) pos (enum_values E) starter (bitset_new (enum_count E)) of
        (u, a) \<Rightarrow> if u \<noteq> 0 then Inl Invalid_argument else Inr a)"

fun of_list_loop :: "enum_type \<Rightarrow> (int \<Rightarrow> nat option) \<Rightarrow> int list \<Rightarrow> int list \<Rightarrow> container_error + int list" where
  "of_list_loop E pos [] a = Inr a"
| "of_list_loop E pos (f # fs) a =
     (case (if is_flags E then map_sum id (bitset_or (enum_count E) a) (bitset_of_flag E pos f)
            else bitset_set (enum_count E) pos a f True) of
        Inl e \<Rightarrow> Inl e | Inr a \<Rightarrow> of_list_loop E pos fs a)"

definition bitset_of_list :: "enum_type \<Rightarrow> (int \<Rightarrow> nat option) \<Rightarrow> int list \<Rightarrow> container_error + int list" where
  "bitset_of_list E pos starters = of_list_loop E pos starters (bitset_new (enum_count E))"

text \<open>From a string of names. This constructor does not initialise the words: \<open>a\<close> is what was in the
  memory.\<close>

definition set_name :: "enum_type \<Rightarrow> (int \<Rightarrow> nat option) \<Rightarrow> (char \<Rightarrow> char \<Rightarrow> bool) option \<Rightarrow> string \<Rightarrow> int list \<Rightarrow> container_error + int list" where
  "set_name E pos cmp s a =
     (case enum_cast_name E cmp s of
        Some v \<Rightarrow> bitset_set (enum_count E) pos a v True
      | None \<Rightarrow> Inl Invalid_argument)"

function of_names :: "enum_type \<Rightarrow> (int \<Rightarrow> nat option) \<Rightarrow> (char \<Rightarrow> char \<Rightarrow> bool) option \<Rightarrow> char \<Rightarrow> string \<Rightarrow> int list \<Rightarrow> container_error + int list" where
  "of_names E pos cmp sep sv a =
     (case str_find sv sep of
        Some k \<Rightarrow> (case set_name E pos cmp (take k sv) a of
                     Inl e \<Rightarrow> Inl e
                   | Inr a \<Rightarrow> of_names E pos cmp sep (drop (k + 1) sv) a)
      | None \<Rightarrow> if sv \<noteq> [] then set_name E pos cmp sv a else Inr a)"
  by auto
termination
  by (relation "measure (\<lambda>(E, pos, cmp, sep, sv, a). length sv)") (auto dest: str_find_less)

declare of_names.simps [simp del]

fun to_flags_loop :: "nat \<Rightarrow> (int \<Rightarrow> nat option) \<Rightarrow> int list \<Rightarrow> int list \<Rightarrow> int \<Rightarrow> container_error + int" where
  "to_flags_loop n pos a [] res = Inr res"
| "to_flags_loop n pos a (e # es) res =
     (case bitset_test n pos a e of Inl err \<Rightarrow> Inl err | Inr b \<Rightarrow> to_flags_loop n pos a es (if b then res OR e else res))"

definition bitset_to_flags :: "enum_type \<Rightarrow> (int \<Rightarrow> nat option) \<Rightarrow> int list \<Rightarrow> container_error + int" where
  "bitset_to_flags E pos a = to_flags_loop (enum_count E) pos a (enum_values E) 0"

fun to_string_loop :: "enum_type \<Rightarrow> (int \<Rightarrow> nat option) \<Rightarrow> char \<Rightarrow> int list \<Rightarrow> int list \<Rightarrow> string \<Rightarrow> container_error + string" where
  "to_string_loop E pos sep a [] name = Inr name"
| "to_string_loop E pos sep a (e # es) name =
     (case bitset_test (enum_count E) pos a e of
        Inl err \<Rightarrow> Inl err
      | Inr b \<Rightarrow> to_string_loop E pos sep a es
          (if b then (if name \<noteq> [] then name @ [sep] else name) @ enum_name E e else name))"

definition bitset_to_string :: "enum_type \<Rightarrow> (int \<Rightarrow> nat option) \<Rightarrow> char \<Rightarrow> int list \<Rightarrow> container_error + string" where
  "bitset_to_string E pos sep a = to_string_loop E pos sep a (enum_values E) []"

section \<open>Numbers and digit strings\<close>

lemma upt_step: "k < n \<Longrightarrow> [k..<n] = k # [Suc k..<n]"
  by (simp add: upt_conv_Cons)

definition flag_at :: "nat \<Rightarrow> nat \<Rightarrow> int" where
  "flag_at t k = take_bit t (2 ^ k)"

lemma shift_flag: "take_bit t (push_bit 1 (flag_at t k)) = flag_at t (Suc k)"
proof -
  have "flag_at t k = (if k < t then 2 ^ k else 0)" for k by (simp add: flag_at_def)
  moreover have "take_bit t (2 ^ Suc k :: int) = (if Suc k < t then 2 ^ Suc k else 0)" by (simp del: power_Suc)
  ultimately show ?thesis by (auto simp: push_bit_eq_mult mult.commute)
qed

lemma bit_flag: "bit (flag_at t k) m \<longleftrightarrow> m < t \<and> m = k"
  by (auto simp: flag_at_def bit_take_bit_iff bit_power_iff)

lemma flag_at_0 [simp]: "0 < t \<Longrightarrow> flag_at t 0 = 1"
  by (cases t) (simp_all add: flag_at_def)

lemma from_Suc: "S \<inter> {k..} = (if k \<in> S then insert k (S \<inter> {Suc k..}) else S \<inter> {Suc k..})"
  by (auto simp: Suc_le_eq order_le_less)

lemma to_loop_spec:
  assumes "rep n a S"
  shows "k \<le> n \<Longrightarrow>
    (case to_loop n t a [k..<n] (flag_at t k) res of
       Inl e \<Rightarrow> e = Overflow_error \<and> \<not> S \<inter> {k..} \<subseteq> {..<t}
     | Inr r \<Rightarrow> S \<inter> {k..} \<subseteq> {..<t} \<and> (\<forall>m. bit r m \<longleftrightarrow> bit res m \<or> m \<in> S \<inter> {k..}))"
proof (induction "n - k" arbitrary: k res)
  case 0
  then show ?case using rep_sub[OF assms] by auto
next
  case (Suc d)
  then have k: "k < n" by simp
  have IH: "case to_loop n t a [Suc k..<n] (flag_at t (Suc k)) res' of
       Inl e \<Rightarrow> e = Overflow_error \<and> \<not> S \<inter> {Suc k..} \<subseteq> {..<t}
     | Inr r \<Rightarrow> S \<inter> {Suc k..} \<subseteq> {..<t} \<and> (\<forall>m. bit r m \<longleftrightarrow> bit res' m \<or> m \<in> S \<inter> {Suc k..})" for res'
    using Suc.hyps(1)[of "Suc k" res'] Suc.hyps(2) k by simp
  show ?case
  proof (cases "k \<in> S")
    case False
    then have "to_loop n t a [k..<n] (flag_at t k) res = to_loop n t a [Suc k..<n] (flag_at t (Suc k)) res"
      unfolding upt_step[OF k] to_loop.simps shift_flag using ref_bool_iff[OF assms k] by simp
    then show ?thesis using IH[of res] False unfolding from_Suc[of S k] by simp
  next
    case True
    show ?thesis
    proof (cases "t \<le> k")
      case t: True
      then show ?thesis using True ref_bool_iff[OF assms k] by (auto simp: upt_step[OF k])
    next
      case False
      then have "to_loop n t a [k..<n] (flag_at t k) res =
          to_loop n t a [Suc k..<n] (flag_at t (Suc k)) (res OR flag_at t k)"
        unfolding upt_step[OF k] to_loop.simps shift_flag using True ref_bool_iff[OF assms k] by simp
      then show ?thesis using IH[of "res OR flag_at t k"] False True unfolding from_Suc[of S k]
        by (auto split: sum.splits simp: bit_or_iff bit_flag)
    qed
  qed
qed

text \<open>The integer whose bits are the positions, or an overflow error when one does not fit.\<close>

lemma bitset_to_spec:
  assumes "rep n a S" "0 < t"
  shows "bitset_to n t a = Inr r \<longleftrightarrow> S \<subseteq> {..<t} \<and> (\<forall>m. bit r m \<longleftrightarrow> m \<in> S)"
    and "bitset_to n t a = Inl e \<longleftrightarrow> e = Overflow_error \<and> \<not> S \<subseteq> {..<t}"
proof -
  have S: "S \<inter> {0..} = S" by auto
  have spec: "case bitset_to n t a of Inl e \<Rightarrow> e = Overflow_error \<and> \<not> S \<subseteq> {..<t}
     | Inr r \<Rightarrow> S \<subseteq> {..<t} \<and> (\<forall>m. bit r m \<longleftrightarrow> m \<in> S)"
    using to_loop_spec[OF assms(1), of 0 t 0] assms(2) unfolding S by (auto simp: bitset_to_def split: sum.splits)
  show "bitset_to n t a = Inr r \<longleftrightarrow> S \<subseteq> {..<t} \<and> (\<forall>m. bit r m \<longleftrightarrow> m \<in> S)"
    using spec by (auto split: sum.splits simp: bit_eq_iff)
  show "bitset_to n t a = Inl e \<longleftrightarrow> e = Overflow_error \<and> \<not> S \<subseteq> {..<t}"
    using spec by (auto split: sum.splits)
qed

lemma of_ullong_loop_spec:
  assumes "0 \<le> val"
  shows "k \<le> 64 \<Longrightarrow> rep n a {m. m < k \<and> bit val m} \<Longrightarrow>
    (case of_ullong_loop n val [k..<64] (flag_at 64 k) a of
       Inl e \<Rightarrow> e = Out_of_range \<and> (\<exists>m. n \<le> m \<and> m < 64 \<and> bit val m)
     | Inr a' \<Rightarrow> rep n a' {m. m < 64 \<and> bit val m})"
proof (induction "64 - k" arbitrary: k a)
  case (Suc d)
  then have k: "k < 64" by simp
  have "val AND flag_at 64 k = val AND 2 ^ k"
    using k by (intro bit_eqI) (auto simp: bit_and_iff bit_flag bit_power_iff)
  moreover have "0 \<le> val AND 2 ^ k" using assms by simp
  then have "val AND 2 ^ k > 0 \<longleftrightarrow> val AND 2 ^ k \<noteq> 0" by linarith
  ultimately have b: "val AND flag_at 64 k > 0 \<longleftrightarrow> bit val k" by (simp add: and_power_iff)
  show ?case
  proof (cases "bit val k")
    case False
    then have "{m. m < Suc k \<and> bit val m} = {m. m < k \<and> bit val m}" by (auto simp: less_Suc_eq)
    then show ?thesis
      using Suc.hyps(1)[of "Suc k" a] Suc.hyps(2) Suc.prems False b k shift_flag[of 64 k] by (simp add: upt_step)
  next
    case True
    show ?thesis
    proof (cases "n \<le> k")
      case n: True
      then show ?thesis using True b k by (auto simp: upt_step)
    next
      case False
      then have "rep n (ref_assign n a k True) (insert k {m. m < k \<and> bit val m})"
        using rep_assign[OF Suc.prems(2), of k True] by simp
      also have "insert k {m. m < k \<and> bit val m} = {m. m < Suc k \<and> bit val m}" using True by (auto simp: less_Suc_eq)
      finally show ?thesis
        using Suc.hyps(1)[of "Suc k" "ref_assign n a k True"] Suc.hyps(2) True False b k shift_flag[of 64 k]
        by (simp add: upt_step)
    qed
  qed
qed simp

lemma of_ullong_spec:
  assumes "0 \<le> val" "val < 2 ^ 64"
  shows "of_ullong n val = Inr a \<longleftrightarrow> rep n a {m. bit val m}"
    and "of_ullong n val = Inl e \<longleftrightarrow> e = Out_of_range \<and> \<not> {m. bit val m} \<subseteq> {..<n}"
proof -
  have b: "bit val m \<Longrightarrow> m < 64" for m using bits_below_iff[of val 64] assms by auto
  then have S: "{m. m < 64 \<and> bit val m} = {m. bit val m}" by auto
  have spec: "case of_ullong n val of Inl e \<Rightarrow> e = Out_of_range \<and> \<not> {m. bit val m} \<subseteq> {..<n}
     | Inr a' \<Rightarrow> rep n a' {m. bit val m}"
    using of_ullong_loop_spec[OF assms(1), of 0 n "bitset_new n"] rep_new[of n] b
    unfolding S of_ullong_def by (auto split: sum.splits simp: not_less[symmetric])
  show "of_ullong n val = Inr a \<longleftrightarrow> rep n a {m. bit val m}"
    using spec by (auto split: sum.splits dest: rep_unique rep_sub)
  show "of_ullong n val = Inl e \<longleftrightarrow> e = Out_of_range \<and> \<not> {m. bit val m} \<subseteq> {..<n}"
    using spec by (auto split: sum.splits dest: rep_sub)
qed

lemma of_digits_loop_spec:
  assumes "zero \<noteq> one"
  shows "k \<le> n \<Longrightarrow> rep n a (T \<inter> {..<k}) \<Longrightarrow>
    \<exists>a'. of_digits_loop n zero one (map (\<lambda>i. if i \<in> T then one else zero) [k..<n]) k a = Inr a' \<and> rep n a' (T \<inter> {..<n})"
proof (induction "n - k" arbitrary: k a)
  case (Suc d)
  then have k: "k < n" by simp
  have T: "T \<inter> {..<Suc k} = (if k \<in> T then insert k (T \<inter> {..<k}) else T \<inter> {..<k})" by (auto simp: less_Suc_eq)
  have r: "rep n (if k \<in> T then ref_assign n a k True else a) (T \<inter> {..<Suc k})"
    using rep_assign[OF Suc.prems(2) k, of True] Suc.prems(2) unfolding T by auto
  have "of_digits_loop n zero one (map (\<lambda>i. if i \<in> T then one else zero) [k..<n]) k a =
      of_digits_loop n zero one (map (\<lambda>i. if i \<in> T then one else zero) [Suc k..<n]) (Suc k) (if k \<in> T then ref_assign n a k True else a)"
    using assms k by (simp add: upt_step[OF k])
  then show ?case using Suc.hyps(1)[OF _ _ r] Suc.hyps(2) k by simp
qed simp

lemma digits_round_trip:
  assumes "rep n a S" "zero \<noteq> one" "n \<le> m"
  shows "of_digits n (to_digits n a zero one) 0 m zero one = Inr a"
proof -
  have e: "to_digits n a zero one = map (\<lambda>i. if i \<in> S then one else zero) [0..<n]"
    using ref_bool_iff[OF assms(1)] by (simp add: to_digits_def)
  have S: "S \<inter> {..<n} = S" using rep_sub[OF assms(1)] by auto
  obtain a' where "of_digits_loop n zero one (map (\<lambda>i. if i \<in> S then one else zero) [0..<n]) 0 (bitset_new n) = Inr a'" "rep n a' S"
    using of_digits_loop_spec[OF assms(2), of 0 n "bitset_new n" S] rep_new[of n] unfolding S by auto
  then have "of_digits n (map (\<lambda>i. if i \<in> S then one else zero) [0..<n]) 0 m zero one = Inr a'" and "a' = a"
    using rep_unique[OF assms(1)] assms(3) by (simp_all add: of_digits_def)
  then show ?thesis by (simp add: e)
qed

section \<open>A bitset as a set of enumerators\<close>

definition holds :: "int list \<Rightarrow> int list \<Rightarrow> int set \<Rightarrow> bool" where
  "holds elems a V \<longleftrightarrow> V \<subseteq> set elems \<and> rep (length elems) a {i. i < length elems \<and> elems ! i \<in> V}"

lemma holds_sub: "holds elems a V \<Longrightarrow> V \<subseteq> set elems"
  by (simp add: holds_def)

lemma holds_rep: "holds elems a V \<Longrightarrow> rep (length elems) a {i. i < length elems \<and> elems ! i \<in> V}"
  by (simp add: holds_def)

lemma holdsI: "V \<subseteq> set elems \<Longrightarrow> rep (length elems) a S \<Longrightarrow> S = {i. i < length elems \<and> elems ! i \<in> V} \<Longrightarrow> holds elems a V"
  by (simp add: holds_def)

lemma holds_new: "holds elems (bitset_new (length elems)) {}"
  by (simp add: holds_def rep_new)

lemma holds_inj: "holds elems a V \<Longrightarrow> holds elems b V \<Longrightarrow> a = b"
  by (auto simp: holds_def intro: rep_unique)

lemma holds_image: "holds elems a V \<Longrightarrow> V = (!) elems ` {i. i < length elems \<and> elems ! i \<in> V}"
  using holds_sub by (force simp: in_set_conv_nth image_iff)

lemma holds_same:
  assumes "holds elems a V" "holds elems a W"
  shows "V = W"
  using rep_same[OF holds_rep[OF assms(1)] holds_rep[OF assms(2)]] holds_image[OF assms(1)] holds_image[OF assms(2)]
  by simp

lemma holds_bitwise:
  assumes "holds elems a V" "holds elems b W"
  shows "holds elems (bitset_and (length elems) a b) (V \<inter> W)"
    "holds elems (bitset_or (length elems) a b) (V \<union> W)"
    "holds elems (bitset_xor (length elems) a b) ((V - W) \<union> (W - V))"
    "holds elems (bitset_not (length elems) a) (set elems - V)"
  using rep_bitwise[OF holds_rep[OF assms(1)] holds_rep[OF assms(2)]] rep_not[OF holds_rep[OF assms(1)]]
    holds_sub[OF assms(1)] holds_sub[OF assms(2)]
  by (auto elim!: holdsI[rotated])

context index_type
begin

lemma position_set:
  assumes "pos e = Some i" "elems \<noteq> []"
  shows "{j. j < length elems \<and> elems ! j \<in> insert e V} = insert i {j. j < length elems \<and> elems ! j \<in> V}"
    "{j. j < length elems \<and> elems ! j \<in> V - {e}} = {j. j < length elems \<and> elems ! j \<in> V} - {i}"
  using assms pos_Some[OF assms(2), of e i] elems_distinct by (auto simp: nth_eq_iff_index_eq)

lemma holds_assign:
  assumes "holds elems a V" "pos e = Some i" "elems \<noteq> []"
  shows "holds elems (ref_assign (length elems) a i v) (if v then insert e V else V - {e})"
proof -
  have i: "i < length elems" "elems ! i = e" using pos_Some[OF assms(3)] assms(2) by auto
  then have "e \<in> set elems" by auto
  then show ?thesis
    using rep_assign[OF holds_rep[OF assms(1)] i(1), of v] holds_sub[OF assms(1)] position_set[OF assms(2,3), of V]
    by (auto simp: holds_def)
qed

lemma holds_ref_bool:
  assumes "holds elems a V" "pos e = Some i" "elems \<noteq> []"
  shows "ref_bool (length elems) a i \<longleftrightarrow> e \<in> V"
  using ref_bool_iff[OF holds_rep[OF assms(1)], of i] pos_Some[OF assms(3)] assms(2) by auto

lemma holds_test:
  assumes "holds elems a V" "e \<in> set elems"
  shows "bitset_test (length elems) pos a e = Inr (e \<in> V)" "bitset_subscript (length elems) pos a e = Some (e \<in> V)"
proof -
  obtain i where i: "pos e = Some i" using pos_elem[OF assms(2)] by blast
  have "elems \<noteq> []" using assms(2) by auto
  from holds_ref_bool[OF assms(1) i this] i
  show "bitset_test (length elems) pos a e = Inr (e \<in> V)" "bitset_subscript (length elems) pos a e = Some (e \<in> V)"
    by (simp_all add: bitset_test_def bitset_subscript_def)
qed

lemma holds_set:
  assumes "holds elems a V" "e \<in> set elems"
  shows "\<exists>a'. bitset_set (length elems) pos a e v = Inr a' \<and> holds elems a' (if v then insert e V else V - {e})"
    "\<exists>a'. bitset_reset (length elems) pos a e = Inr a' \<and> holds elems a' (V - {e})"
proof -
  obtain i where i: "pos e = Some i" using pos_elem[OF assms(2)] by blast
  have "elems \<noteq> []" using assms(2) by auto
  note h = holds_assign[OF assms(1) i this]
  show "\<exists>a'. bitset_set (length elems) pos a e v = Inr a' \<and> holds elems a' (if v then insert e V else V - {e})"
    using h[of v] i by (simp add: bitset_set_def)
  show "\<exists>a'. bitset_reset (length elems) pos a e = Inr a' \<and> holds elems a' (V - {e})"
    using h[of False] i by (simp add: bitset_reset_def)
qed

lemma no_position:
  assumes "elems \<noteq> []" "e \<notin> set elems"
  shows "bitset_test (length elems) pos a e = Inl Out_of_range" "bitset_set (length elems) pos a e v = Inl Out_of_range"
    "bitset_reset (length elems) pos a e = Inl Out_of_range" "bitset_subscript (length elems) pos a e = None"
  using pos_None[OF assms(1), of e] assms(2)
  by (simp_all add: bitset_test_def bitset_set_def bitset_reset_def bitset_subscript_def)

lemma holds_count:
  assumes "holds elems a V"
  shows "bitset_count a = card V"
proof -
  have "V = (!) elems ` {i. i < length elems \<and> elems ! i \<in> V}" using holds_image[OF assms] .
  moreover have "inj_on ((!) elems) {i. i < length elems \<and> elems ! i \<in> V}"
    using elems_distinct by (auto simp: inj_on_def nth_eq_iff_index_eq)
  ultimately have "card V = card {i. i < length elems \<and> elems ! i \<in> V}" by (metis card_image)
  then show ?thesis using rep_count[OF holds_rep[OF assms]] by simp
qed

end

section \<open>Names and flags\<close>

text \<open>An index type of one enumeration: it has a position for each enumerator.\<close>

locale enum_index_type = index_type +
  fixes E :: enum_type
  assumes elems_values: "set elems = set (enum_values E)"
begin

lemma length_elems: "length elems = enum_count E"
  using elems_distinct elems_values by (metis distinct_card distinct_enum_values enum_count_def)

lemma to_string_loop_eq:
  assumes "holds elems a V"
  shows "set es \<subseteq> set elems \<Longrightarrow>
    to_string_loop E pos sep a es name = Inr (foldl (add_name sep) name (map (printed E) (filter (\<lambda>e. e \<in> V) es)))"
proof (induction es arbitrary: name)
  case (Cons e es)
  then have e: "e \<in> set (enum_values E)" "e \<in> set elems" using elems_values by auto
  then have "enum_count E > 0" by (auto simp: enum_count_def)
  then have "enum_name E e = printed E e" using e(1) by (simp add: enum_name_printed)
  then show ?case using Cons holds_test(1)[OF assms e(2)] by (simp add: length_elems)
qed simp

lemma to_string_eq:
  assumes "holds elems a V"
  shows "bitset_to_string E pos sep a = Inr (join_sep sep (map (printed E) (filter (\<lambda>e. e \<in> V) (enum_values E))))"
proof -
  have "[] \<notin> set (map (printed E) (filter (\<lambda>e. e \<in> V) (enum_values E)))"
    using printed_nonempty by fastforce
  then show ?thesis
    using to_string_loop_eq[OF assms, of "enum_values E" sep "[]"] elems_values
    by (simp add: bitset_to_string_def foldl_add_name_join del: foldl_Cons)
qed

lemma set_name_eq:
  assumes "holds elems a V" "distinct (enum_names E)" "v \<in> set (enum_values E)"
  shows "\<exists>a'. set_name E pos None (printed E v) a = Inr a' \<and> holds elems a' (insert v V)"
proof -
  have "enum_count E > 0" using assms(3) by (auto simp: enum_count_def)
  then have "enum_cast_name E None (printed E v) = Some v"
    using enum_cast_name_round_trip[OF assms(2,3)] assms(3) by (simp add: enum_name_printed)
  then show ?thesis
    using holds_set(1)[OF assms(1), of v True] assms(3) elems_values by (simp add: set_name_def length_elems)
qed

lemma of_names_join:
  assumes d: "distinct (enum_names E)" and sep: "\<forall>f\<in>set (enum_values E). sep \<notin> set (printed E f)"
  shows "set vs \<subseteq> set (enum_values E) \<Longrightarrow> holds elems a V \<Longrightarrow>
    \<exists>a'. of_names E pos None sep (join_sep sep (map (printed E) vs)) a = Inr a' \<and> holds elems a' (V \<union> set vs)"
proof (induction vs arbitrary: a V)
  case Nil
  then show ?case by (subst of_names.simps) simp
next
  case (Cons v vs)
  then have v: "v \<in> set (enum_values E)" by simp
  obtain a1 where a1: "set_name E pos None (printed E v) a = Inr a1" "holds elems a1 (insert v V)"
    using set_name_eq[OF Cons.prems(2) d v] by blast
  have nf: "sep \<notin> set (printed E v)" "printed E v \<noteq> []" using sep v printed_nonempty by auto
  show ?case
  proof (cases "vs = []")
    case True
    then show ?thesis using a1 nf by (subst of_names.simps) (simp add: str_find_None)
  next
    case False
    have "of_names E pos None sep (join_sep sep (map (printed E) (v # vs))) a =
        of_names E pos None sep (join_sep sep (map (printed E) vs)) a1"
      using False a1(1) nf by (subst of_names.simps) (simp add: join_sep_Cons str_find_append)
    then show ?thesis using Cons.IH[OF _ a1(2)] Cons.prems(1) by simp
  qed
qed

lemma to_flags_eq:
  assumes "holds elems a V"
  shows "bitset_to_flags E pos a = Inr (ors (filter (\<lambda>e. e \<in> V) (enum_values E)))"
proof -
  have "set es \<subseteq> set elems \<Longrightarrow>
      to_flags_loop (length elems) pos a es r = Inr (fold (\<lambda>f c. c OR f) (filter (\<lambda>e. e \<in> V) es) r)" for es r
    by (induction es arbitrary: r) (simp_all add: holds_test[OF assms])
  from this[of "enum_values E" 0] show ?thesis
    using elems_values by (simp add: bitset_to_flags_def length_elems)
qed

lemma of_flag_loop_eq:
  assumes "is_flags E"
  shows "set vs \<subseteq> set (enum_values E) \<Longrightarrow> distinct vs \<Longrightarrow> holds elems a V \<Longrightarrow>
    \<exists>a' u'. of_flag_loop (length elems) pos vs u a = (u', a') \<and>
      holds elems a' (V \<union> {v \<in> set vs. v AND u \<noteq> 0}) \<and>
      (\<forall>n. bit u' n \<longleftrightarrow> bit u n \<and> 2 ^ n \<notin> set vs)"
proof (induction vs arbitrary: u a V)
  case (Cons v vs)
  then have v: "v \<in> set (enum_values E)" "v \<notin> set vs" by auto
  obtain k where k: "v = 2 ^ k" using flag_power[OF assms v(1)] by blast
  have pw: "2 ^ n = v \<longleftrightarrow> n = k" for n using k by simp
  obtain i where i: "pos v = Some i" using pos_elem[of v] v(1) elems_values by blast
  have ne: "elems \<noteq> []" using v(1) elems_values by auto
  show ?case
  proof (cases "v AND u \<noteq> 0")
    case False
    then have "\<not> bit u k" using k and_power_iff[of u k] by (simp add: and.commute)
    moreover have "{w \<in> set (v # vs). w AND u \<noteq> 0} = {w \<in> set vs. w AND u \<noteq> 0}" using False by auto
    ultimately show ?thesis using Cons.IH[of a V u] Cons.prems False pw by auto
  next
    case True
    let ?u = "u AND NOT v"
    have b: "bit ?u n \<longleftrightarrow> bit u n \<and> n \<noteq> k" for n by (auto simp: k bit_and_iff bit_not_iff bit_power_iff)
    have same: "w AND ?u \<noteq> 0 \<longleftrightarrow> w AND u \<noteq> 0" if w: "w \<in> set vs" for w
    proof -
      obtain j where j: "w = 2 ^ j" using flag_power[OF assms] Cons.prems(1) w by auto
      then have "j \<noteq> k" using w v(2) k by auto
      then show ?thesis using and_power_iff[of u j] and_power_iff[of ?u j] b j by (simp add: and.commute)
    qed
    obtain a' u' where r: "of_flag_loop (length elems) pos vs ?u (ref_assign (length elems) a i True) = (u', a')"
      "holds elems a' (insert v V \<union> {w \<in> set vs. w AND ?u \<noteq> 0})" "\<forall>n. bit u' n \<longleftrightarrow> bit ?u n \<and> 2 ^ n \<notin> set vs"
      using Cons.IH[of "ref_assign (length elems) a i True" "insert v V" ?u] Cons.prems
        holds_assign[OF Cons.prems(3) i ne, of True] by auto
    have "insert v V \<union> {w \<in> set vs. w AND ?u \<noteq> 0} = V \<union> {w \<in> set (v # vs). w AND u \<noteq> 0}"
      using same True by auto
    then show ?thesis using r True i b pw by auto
  qed
qed simp

lemma of_flag_eq:
  assumes "is_flags E"
  shows "if ors (members E u) = u then \<exists>a. bitset_of_flag E pos u = Inr a \<and> holds elems a (set (members E u))
    else bitset_of_flag E pos u = Inl Invalid_argument"
proof -
  obtain a u' where r: "of_flag_loop (length elems) pos (enum_values E) u (bitset_new (length elems)) = (u', a)"
    "holds elems a ({} \<union> {v \<in> set (enum_values E). v AND u \<noteq> 0})"
    "\<forall>n. bit u' n \<longleftrightarrow> bit u n \<and> 2 ^ n \<notin> set (enum_values E)"
    using of_flag_loop_eq[OF assms order_refl distinct_enum_values holds_new, of u] by blast
  have "u' = 0 \<longleftrightarrow> (\<forall>n. bit u n \<longrightarrow> n \<in> flag_bits E)" using r(3) by (simp add: int_eq_0_iff_bits flag_bits_def)
  then have z: "u' = 0 \<longleftrightarrow> ors (members E u) = u" by (simp add: ors_members_iff[OF assms])
  have "{} \<union> {v \<in> set (enum_values E). v AND u \<noteq> 0} = set (members E u)" by (auto simp: members_def and.commute)
  then show ?thesis using r(1,2) z by (simp add: bitset_of_flag_def length_elems[symmetric])
qed

lemma flag_round_trip:
  assumes "is_flags E" "bitset_of_flag E pos u = Inr a"
  shows "bitset_to_flags E pos a = Inr u"
proof -
  have u: "ors (members E u) = u" "holds elems a (set (members E u))"
    using of_flag_eq[OF assms(1), of u] assms(2) by (auto split: if_splits)
  have "filter (\<lambda>e. e \<in> set (members E u)) (enum_values E) = members E u" by (auto simp: members_def intro: filter_cong)
  then show ?thesis using to_flags_eq[OF u(2)] u(1) by simp
qed

lemma of_list_eq:
  assumes "\<not> is_flags E" "elems \<noteq> []"
  shows "if set fs \<subseteq> set (enum_values E)
    then \<exists>a. bitset_of_list E pos fs = Inr a \<and> holds elems a (set fs)
    else bitset_of_list E pos fs = Inl Out_of_range"
proof -
  have "if set fs \<subseteq> set elems then \<exists>a'. of_list_loop E pos fs a = Inr a' \<and> holds elems a' (V \<union> set fs)
      else of_list_loop E pos fs a = Inl Out_of_range" if "holds elems a V" for a V
    using that
  proof (induction fs arbitrary: a V)
    case (Cons f fs)
    show ?case
    proof (cases "f \<in> set elems")
      case True
      obtain a1 where "bitset_set (enum_count E) pos a f True = Inr a1" "holds elems a1 (insert f V)"
        using holds_set(1)[OF Cons.prems True, of True] by (auto simp: length_elems)
      then show ?thesis using Cons.IH[of a1 "insert f V"] True assms(1) by auto
    next
      case False
      then show ?thesis using no_position(2)[OF assms(2) False] assms(1) by (simp add: length_elems)
    qed
  qed simp
  from this[OF holds_new] show ?thesis unfolding bitset_of_list_def length_elems elems_values Un_empty_left .
qed

lemma of_list_flags_eq:
  assumes "is_flags E"
  shows "if \<forall>f\<in>set fs. ors (members E f) = f
    then \<exists>a. bitset_of_list E pos fs = Inr a \<and> holds elems a (\<Union>f\<in>set fs. set (members E f))
    else bitset_of_list E pos fs = Inl Invalid_argument"
proof -
  have "if \<forall>f\<in>set fs. ors (members E f) = f
      then \<exists>a'. of_list_loop E pos fs a = Inr a' \<and> holds elems a' (V \<union> (\<Union>f\<in>set fs. set (members E f)))
      else of_list_loop E pos fs a = Inl Invalid_argument" if "holds elems a V" for a V
    using that
  proof (induction fs arbitrary: a V)
    case (Cons f fs)
    show ?case
    proof (cases "ors (members E f) = f")
      case True
      then obtain b where b: "bitset_of_flag E pos f = Inr b" "holds elems b (set (members E f))"
        using of_flag_eq[OF assms, of f] by auto
      have "holds elems (bitset_or (enum_count E) a b) (V \<union> set (members E f))"
        using holds_bitwise(2)[OF Cons.prems b(2)] by (simp add: length_elems)
      from Cons.IH[OF this] show ?thesis using b(1) assms True by (auto simp: Un_assoc)
    next
      case False
      then show ?thesis using of_flag_eq[OF assms, of f] assms by simp
    qed
  qed simp
  from this[OF holds_new] show ?thesis unfolding bitset_of_list_def length_elems Un_empty_left .
qed

end

lemma default_enum_index: "enum_index_type (enum_index E) (enum_values E) E"
  using default_sorted_index[of E] by (auto simp: sorted_index_def enum_index_type_def enum_index_type_axioms_def)

lemma comparator_enum_index: "enum_index_type (indexing_at E cmp) (indexing_elems E cmp) E"
  using comparator_sorted_index[of E cmp] mset_eq_setD[OF mset_indexing_elems[of E cmp]]
  by (auto simp: sorted_index_def enum_index_type_def enum_index_type_axioms_def)

interpretation default_bits: enum_index_type "enum_index E" "enum_values E" E for E
  by (rule default_enum_index)

interpretation comparator_bits: enum_index_type "indexing_at E cmp" "indexing_elems E cmp" E for E cmp
  by (rule comparator_enum_index)

section \<open>What a bitset promises\<close>

text \<open>C24: read as sets of positions, the word-wise operators are intersection, union, symmetric
  difference and complement, \<open>set()\<close> and \<open>reset()\<close> give all positions and none, comparison is equality
  of the sets, \<open>any\<close> non-emptiness and \<open>count\<close> the number of members, for every number of enumerators
  and every word size. \<open>all()\<close> is right when the last word has unused bits; when it has none, it
  always answers no in words of 8 and 16 bits, and for a full bitset of longer words it ends without
  returning a value.\<close>

theorem bitset_algebra:
  assumes "n > 0" "rep n a S" "rep n b T"
  shows "rep n (bitset_and n a b) (S \<inter> T) \<and> rep n (bitset_or n a b) (S \<union> T) \<and>
    rep n (bitset_xor n a b) ((S - T) \<union> (T - S)) \<and> rep n (bitset_flip n a) ({..<n} - S) \<and>
    rep n (bitset_set_all n a) {..<n} \<and> rep n (bitset_reset_all n a) {} \<and>
    (bitset_eq a b \<longleftrightarrow> S = T) \<and> (bitset_any a \<longleftrightarrow> S \<noteq> {}) \<and> (bitset_none a \<longleftrightarrow> S = {}) \<and> bitset_count a = card S \<and>
    bitset_all n a =
      (if not_interested n > 0 then Some (S = {..<n})
       else if bits_per_base n < 32 then Some False
       else if S = {..<n} then None else Some False)"
  using rep_bitwise[OF assms(2,3)] rep_not[OF assms(2)] rep_set_all[OF assms(2)] rep_new[of n]
    bitset_eq_iff[OF assms(2,3)] rep_any[OF assms(2)] rep_count[OF assms(2)] rep_all[OF assms(2,1)]
  by (simp add: bitset_flip_def bitset_reset_all_def bitset_none_def)

lemma rep_five: "rep 5 [22] {1, 2, 4}"
proof -
  have "rep 5 (ref_assign 5 (ref_assign 5 (ref_assign 5 (bitset_new 5) 1 True) 2 True) 4 True) {1, 2, 4}"
    using rep_assign[OF rep_assign[OF rep_assign[OF rep_new[of 5], of 1 True], of 2 True], of 4 True]
    by (simp add: insert_commute)
  moreover have "ref_assign 5 (ref_assign 5 (ref_assign 5 (bitset_new 5) 1 True) 2 True) 4 True = [22]" by code_simp
  ultimately show ?thesis by simp
qed

lemma bitset_algebra_witness:
  "rep 5 (bitset_and 5 [22] [22]) ({1, 2, 4} \<inter> {1, 2, 4}) \<and> rep 5 (bitset_or 5 [22] [22]) ({1, 2, 4} \<union> {1, 2, 4}) \<and>
    rep 5 (bitset_xor 5 [22] [22]) (({1, 2, 4} - {1, 2, 4}) \<union> ({1, 2, 4} - {1, 2, 4})) \<and>
    rep 5 (bitset_flip 5 [22]) ({..<5} - {1, 2, 4}) \<and>
    rep 5 (bitset_set_all 5 [22]) {..<5} \<and> rep 5 (bitset_reset_all 5 [22]) {} \<and>
    (bitset_eq [22] [22] \<longleftrightarrow> {1, 2, 4 :: nat} = {1, 2, 4}) \<and> (bitset_any [22] \<longleftrightarrow> {1, 2, 4 :: nat} \<noteq> {}) \<and>
    (bitset_none [22] \<longleftrightarrow> {1, 2, 4 :: nat} = {}) \<and> bitset_count [22] = card {1, 2, 4 :: nat} \<and>
    bitset_all 5 [22] =
      (if not_interested 5 > 0 then Some ({1, 2, 4} = {..<5 :: nat})
       else if bits_per_base 5 < 32 then Some False
       else if {1, 2, 4} = {..<5 :: nat} then None else Some False)"
  by (rule bitset_algebra[OF _ rep_five rep_five]) simp

text \<open>A full bitset of eight enumerators is reported as not full.\<close>

lemma all_wrong_for_eight: "bitset_all 8 (bitset_set_all 8 (bitset_new 8)) = Some False"
  by code_simp

text \<open>With an index type made from any comparator, a bitset is a set of enumerators: testing,
  setting and resetting one enumerator read and change exactly its membership, an integer that is no
  enumerator throws \<open>out_of_range\<close> in all three, and \<open>count\<close> is the number of enumerators in it.\<close>

lemma bitset_enumerators:
  assumes "enum_count E > 0" "holds (indexing_elems E cmp) a V"
  shows "(if e \<in> set (enum_values E)
      then bitset_test (enum_count E) (indexing_at E cmp) a e = Inr (e \<in> V) \<and>
        (\<exists>a'. bitset_set (enum_count E) (indexing_at E cmp) a e v = Inr a' \<and>
          holds (indexing_elems E cmp) a' (if v then insert e V else V - {e})) \<and>
        (\<exists>a'. bitset_reset (enum_count E) (indexing_at E cmp) a e = Inr a' \<and> holds (indexing_elems E cmp) a' (V - {e}))
      else bitset_test (enum_count E) (indexing_at E cmp) a e = Inl Out_of_range \<and>
        bitset_set (enum_count E) (indexing_at E cmp) a e v = Inl Out_of_range \<and>
        bitset_reset (enum_count E) (indexing_at E cmp) a e = Inl Out_of_range) \<and>
    bitset_count a = card V"
proof -
  have ne: "indexing_elems E cmp \<noteq> []" using assms(1) by (metis length_indexing_elems length_greater_0_conv)
  show ?thesis
    using comparator_index.holds_test(1)[OF assms(2), of e] comparator_index.holds_set[OF assms(2), of e]
      comparator_index.no_position[OF ne, of e] comparator_index.holds_count[OF assms(2)] comparator_bits.elems_values[of E cmp]
    by simp
qed

lemma bitset_enumerators_witness:
  "(if 5 \<in> set (enum_values colours)
      then bitset_test (enum_count colours) (indexing_at colours (>)) (bitset_new 3) 5 = Inr (5 \<in> ({} :: int set)) \<and>
        (\<exists>a'. bitset_set (enum_count colours) (indexing_at colours (>)) (bitset_new 3) 5 True = Inr a' \<and>
          holds (indexing_elems colours (>)) a' (if True then insert 5 {} else {} - {5})) \<and>
        (\<exists>a'. bitset_reset (enum_count colours) (indexing_at colours (>)) (bitset_new 3) 5 = Inr a' \<and>
          holds (indexing_elems colours (>)) a' ({} - {5}))
      else bitset_test (enum_count colours) (indexing_at colours (>)) (bitset_new 3) 5 = Inl Out_of_range \<and>
        bitset_set (enum_count colours) (indexing_at colours (>)) (bitset_new 3) 5 True = Inl Out_of_range \<and>
        bitset_reset (enum_count colours) (indexing_at colours (>)) (bitset_new 3) 5 = Inl Out_of_range) \<and>
    bitset_count (bitset_new 3) = card ({} :: int set)"
  by (rule bitset_enumerators) (use holds_new[of "indexing_elems colours (>)"] in \<open>simp_all add: colours_table\<close>)

lemma ullong_round_trip:
  assumes "rep n a S"
  shows "if S \<subseteq> {..<64} then \<exists>r. to_ullong n a = Inr r \<and> (0 \<le> r \<and> r < 2 ^ 64) \<and> of_ullong n r = Inr a
    else to_ullong n a = Inl Overflow_error"
proof (cases "S \<subseteq> {..<64}")
  case True
  then obtain r where r: "to_ullong n a = Inr r" "\<forall>m. bit r m \<longleftrightarrow> m \<in> S"
    using bitset_to_spec[OF assms, of 64] by (cases "to_ullong n a") (auto simp: to_ullong_def)
  have b: "0 \<le> r \<and> r < 2 ^ 64" unfolding bits_below_iff[symmetric] using r(2) True by auto
  have "{m. bit r m} = S" using r(2) by auto
  then have "of_ullong n r = Inr a" using of_ullong_spec(1)[of r n a] b assms by simp
  then show ?thesis using True r(1) b by auto
next
  case False
  then show ?thesis using bitset_to_spec(2)[OF assms, of 64 Overflow_error] by (simp add: to_ullong_def)
qed

context enum_index_type
begin

lemma names_round_trip:
  assumes "holds elems a V" "distinct (enum_names E)" "\<forall>f\<in>set (enum_values E). sep \<notin> set (printed E f)" "holds elems b W"
  shows "\<exists>s a'. bitset_to_string E pos sep a = Inr s \<and> of_names E pos None sep s b = Inr a' \<and> holds elems a' (W \<union> V)"
proof -
  let ?vs = "filter (\<lambda>e. e \<in> V) (enum_values E)"
  have "set ?vs = V" using holds_sub[OF assms(1)] elems_values by auto
  then show ?thesis
    using of_names_join[OF assms(2,3), of ?vs b W] assms(4) to_string_eq[OF assms(1), of sep] by auto
qed

lemma flags_round_trip:
  assumes "is_flags E" "holds elems a V"
  shows "\<exists>u. bitset_to_flags E pos a = Inr u \<and> bitset_of_flag E pos u = Inr a"
proof -
  let ?vs = "filter (\<lambda>e. e \<in> V) (enum_values E)"
  have vs: "set ?vs \<subseteq> set (enum_values E)" and V: "set ?vs = V" using holds_sub[OF assms(2)] elems_values by auto
  have b: "bit (ors ?vs) n \<longleftrightarrow> 2 ^ n \<in> V" for n using bit_ors_sub[OF assms(1) vs] unfolding V .
  have un: "ors (members E (ors ?vs)) = ors ?vs"
    unfolding ors_members_iff[OF assms(1)] b using vs V by (auto simp: flag_bits_def)
  have "set (members E (ors ?vs)) = V"
  proof -
    have "ors ?vs AND v \<noteq> 0 \<longleftrightarrow> v \<in> V" if v: "v \<in> set (enum_values E)" for v
    proof -
      obtain k where "v = 2 ^ k" using flag_power[OF assms(1) v] by blast
      then show ?thesis using b by (simp add: and_power_iff)
    qed
    then show ?thesis using vs V by (auto simp: members_def)
  qed
  then obtain a' where "bitset_of_flag E pos (ors ?vs) = Inr a'" "holds elems a' V"
    using of_flag_eq[OF assms(1), of "ors ?vs"] un by auto
  then show ?thesis using to_flags_eq[OF assms(2)] holds_inj[OF assms(2)] by auto
qed

end

text \<open>C33: every written form of a bitset gives the bitset back. As an integer, when no enumerator has
  position 64 or more, and an overflow error otherwise; as a string of two digits; as the names joined
  by a separator no name contains, if the memory the constructor starts from is zero; and as a value
  of a flags enumeration.\<close>

theorem bitset_round_trips:
  assumes "holds (enum_values E) a V" "zero \<noteq> one" "distinct (enum_names E)"
    "\<forall>f\<in>set (enum_values E). sep \<notin> set (printed E f)"
  shows "(if \<exists>i. 64 \<le> i \<and> i < enum_count E \<and> enum_values E ! i \<in> V then to_ullong (enum_count E) a = Inl Overflow_error
      else \<exists>r. to_ullong (enum_count E) a = Inr r \<and> of_ullong (enum_count E) r = Inr a) \<and>
    of_digits (enum_count E) (to_digits (enum_count E) a zero one) 0 (enum_count E) zero one = Inr a \<and>
    (\<exists>s. bitset_to_string E (enum_index E) sep a = Inr s \<and>
      of_names E (enum_index E) None sep s (bitset_new (enum_count E)) = Inr a) \<and>
    (is_flags E \<longrightarrow> (\<exists>u. bitset_to_flags E (enum_index E) a = Inr u \<and> bitset_of_flag E (enum_index E) u = Inr a))"
proof -
  have len: "length (enum_values E) = enum_count E" by (simp add: enum_count_def)
  note r = holds_rep[OF assms(1), unfolded len]
  have nm: "\<exists>s. bitset_to_string E (enum_index E) sep a = Inr s \<and>
      of_names E (enum_index E) None sep s (bitset_new (enum_count E)) = Inr a"
    using default_bits.names_round_trip[OF assms(1,3,4) holds_new] holds_inj[OF assms(1)] by (auto simp: len)
  have u: "if \<exists>i. 64 \<le> i \<and> i < enum_count E \<and> enum_values E ! i \<in> V then to_ullong (enum_count E) a = Inl Overflow_error
      else \<exists>r. to_ullong (enum_count E) a = Inr r \<and> of_ullong (enum_count E) r = Inr a"
  proof -
    have "(\<exists>i. 64 \<le> i \<and> i < enum_count E \<and> enum_values E ! i \<in> V) \<longleftrightarrow>
        \<not> {i. i < enum_count E \<and> enum_values E ! i \<in> V} \<subseteq> {..<64}"
      by (auto simp: not_less)
    then show ?thesis using ullong_round_trip[OF r] by (auto split: if_splits)
  qed
  show ?thesis
    using u nm digits_round_trip[OF r assms(2) order_refl] default_bits.flags_round_trip[OF _ assms(1)] by blast
qed

lemma holds_access: "holds (enum_values access) [5] {1, 8}"
proof -
  have "rep 3 (ref_assign 3 (ref_assign 3 (bitset_new 3) 0 True) 2 True) {0, 2}"
    using rep_assign[OF rep_assign[OF rep_new[of 3], of 0 True], of 2 True] by (simp add: insert_commute)
  moreover have "ref_assign 3 (ref_assign 3 (bitset_new 3) 0 True) 2 True = [5]" by code_simp
  moreover have "{0, 2} = {i. i < 3 \<and> [1, 2, 8 :: int] ! i \<in> {1, 8}}" by (auto simp: less_Suc_eq numeral_3_eq_3)
  moreover have "length (enum_values access) = 3" by (simp add: access_table)
  ultimately show ?thesis by (simp add: holds_def access_table(3) del: list.size)
qed

lemma bitset_round_trips_witness:
  "(if \<exists>i. 64 \<le> i \<and> i < enum_count access \<and> enum_values access ! i \<in> {1, 8} then to_ullong (enum_count access) [5] = Inl Overflow_error
      else \<exists>r. to_ullong (enum_count access) [5] = Inr r \<and> of_ullong (enum_count access) r = Inr [5]) \<and>
    of_digits (enum_count access) (to_digits (enum_count access) [5] CHR ''0'' CHR ''1'') 0 (enum_count access) CHR ''0'' CHR ''1'' = Inr [5] \<and>
    (\<exists>s. bitset_to_string access (enum_index access) CHR ''|'' [5] = Inr s \<and>
      of_names access (enum_index access) None CHR ''|'' s (bitset_new (enum_count access)) = Inr [5]) \<and>
    is_flags access \<and> (\<exists>u. bitset_to_flags access (enum_index access) [5] = Inr u \<and> bitset_of_flag access (enum_index access) u = Inr [5])"
proof -
  have "\<forall>f\<in>set (enum_values access). CHR ''|'' \<notin> set (printed access f)"
    by (simp add: access_table) (simp add: access_def printed_def)
  from bitset_round_trips[OF holds_access _ _ this, of "CHR ''0''" "CHR ''1''"]
  show ?thesis using access_table(1,4) by simp
qed

text \<open>What the constructor from a string finds in memory stays in the bitset: here all of it.\<close>

lemma string_constructor_keeps_memory:
  "of_names access (enum_index access) None CHR ''|'' ''Write'' [5] = Inr [7]"
  by code_simp

end
