(* ===== verification/Enum_Set.thy ===== *)
theory Enum_Set
  imports Enum_Bitset
begin

text \<open>
  \<open>containers::set\<close> of \<open>magic_enum_containers.hpp\<close>: a bitset over the enumerators with a member count,
  and the iterator that walks the sorted enumerators and skips those not in the set. \<open>pos\<close> and \<open>elems\<close>
  are the index type and its enumerators in order; an iterator is the index it stands at, \<open>length elems\<close>
  at the end. A result \<open>None\<close> means that the code dereferences or moves an iterator beyond the ends, or
  dereferences an empty optional.
\<close>

section \<open>The filtered iterator\<close>

function it_next :: "(nat \<Rightarrow> bool) \<Rightarrow> nat \<Rightarrow> nat \<Rightarrow> nat option" where
  "it_next P fin current =
     (if current \<ge> fin then None
      else if current + 1 \<noteq> fin \<and> \<not> P (current + 1) then it_next P fin (current + 1)
      else Some (current + 1))"
  by auto
termination
  by (relation "measure (\<lambda>(P, fin, current). fin - current)") auto

declare it_next.simps [simp del]

fun it_prev :: "(nat \<Rightarrow> bool) \<Rightarrow> nat \<Rightarrow> nat option" where
  "it_prev P 0 = None"
| "it_prev P (Suc current) = (if current \<noteq> 0 \<and> \<not> P current then it_prev P current else Some current)"

text \<open>The constructor moves on from the first position when that is not in the set.\<close>

definition it_make :: "(nat \<Rightarrow> bool) \<Rightarrow> nat \<Rightarrow> nat \<Rightarrow> nat option" where
  "it_make P fin c = (if c = 0 \<and> \<not> P c then it_next P fin c else Some c)"

section \<open>Operations\<close>

record enum_set =
  words :: "int list"
  members_count :: nat

definition set_new :: "nat \<Rightarrow> enum_set" where
  "set_new n = \<lparr>words = bitset_new n, members_count = 0\<rparr>"

text \<open>Whether the enumerator at a position is in the set: the iterator's predicate.\<close>

definition in_set :: "(int \<Rightarrow> nat option) \<Rightarrow> int list \<Rightarrow> enum_set \<Rightarrow> nat \<Rightarrow> bool" where
  "in_set pos elems s p = (bitset_subscript (length elems) pos (words s) (elems ! p) = Some True)"

definition set_begin :: "(int \<Rightarrow> nat option) \<Rightarrow> int list \<Rightarrow> enum_set \<Rightarrow> nat option" where
  "set_begin pos elems s = it_make (in_set pos elems s) (length elems) 0"

definition set_end :: "(int \<Rightarrow> nat option) \<Rightarrow> int list \<Rightarrow> enum_set \<Rightarrow> nat option" where
  "set_end pos elems s = it_make (in_set pos elems s) (length elems) (length elems)"

definition set_empty :: "enum_set \<Rightarrow> bool" where
  "set_empty s \<longleftrightarrow> members_count s = 0"

definition set_clear :: "nat \<Rightarrow> enum_set \<Rightarrow> enum_set" where
  "set_clear n s = \<lparr>words = bitset_reset_all n (words s), members_count = 0\<rparr>"

definition set_insert :: "(int \<Rightarrow> nat option) \<Rightarrow> int list \<Rightarrow> int \<Rightarrow> enum_set \<Rightarrow> enum_set \<times> nat option \<times> bool" where
  "set_insert pos elems v s =
     (case pos v of
        Some i \<Rightarrow>
          (let r = (\<not> ref_bool (length elems) (words s) i);
               s = (if r then \<lparr>words = ref_assign (length elems) (words s) i True, members_count = members_count s + 1\<rparr> else s) in
           (s, it_make (in_set pos elems s) (length elems) i, r))
      | None \<Rightarrow> (s, set_end pos elems s, False))"

definition set_insert_list :: "(int \<Rightarrow> nat option) \<Rightarrow> int list \<Rightarrow> int list \<Rightarrow> enum_set \<Rightarrow> enum_set" where
  "set_insert_list pos elems vs s = fold (\<lambda>v s. fst (set_insert pos elems v s)) vs s"

definition set_of_list :: "(int \<Rightarrow> nat option) \<Rightarrow> int list \<Rightarrow> int list \<Rightarrow> enum_set" where
  "set_of_list pos elems vs = fold (\<lambda>v s. fst (set_insert pos elems v s)) vs (set_new (length elems))"

definition set_of_flag :: "enum_type \<Rightarrow> (int \<Rightarrow> nat option) \<Rightarrow> int list \<Rightarrow> int \<Rightarrow> enum_set" where
  "set_of_flag E pos elems u =
     fold (\<lambda>v s. if v AND u \<noteq> 0 then fst (set_insert pos elems v s) else s) (enum_values E) (set_new (length elems))"

definition set_erase_key :: "(int \<Rightarrow> nat option) \<Rightarrow> int list \<Rightarrow> int \<Rightarrow> enum_set \<Rightarrow> (enum_set \<times> bool) option" where
  "set_erase_key pos elems key s =
     (case pos key of
        Some i \<Rightarrow>
          (let res = ref_bool (length elems) (words s) i in
           Some (\<lparr>words = ref_assign (length elems) (words s) i False,
                  members_count = (if res then members_count s - 1 else members_count s)\<rparr>, res))
      | None \<Rightarrow> None)"

definition set_erase_at :: "(int \<Rightarrow> nat option) \<Rightarrow> int list \<Rightarrow> nat \<Rightarrow> enum_set \<Rightarrow> (enum_set \<times> nat) option" where
  "set_erase_at pos elems p s =
     (case it_next (in_set pos elems s) (length elems) p of
        Some p' \<Rightarrow> (case set_erase_key pos elems (elems ! p) s of Some (s, _) \<Rightarrow> Some (s, p') | None \<Rightarrow> None)
      | None \<Rightarrow> None)"

definition set_count :: "(int \<Rightarrow> nat option) \<Rightarrow> int list \<Rightarrow> int \<Rightarrow> enum_set \<Rightarrow> bool" where
  "set_count pos elems key s \<longleftrightarrow> pos key \<noteq> None \<and> bitset_subscript (length elems) pos (words s) key = Some True"

definition set_find :: "(int \<Rightarrow> nat option) \<Rightarrow> int list \<Rightarrow> int \<Rightarrow> enum_set \<Rightarrow> nat option" where
  "set_find pos elems key s =
     (case pos key of
        Some i \<Rightarrow> if bitset_test (length elems) pos (words s) key = Inr True
                  then it_make (in_set pos elems s) (length elems) i else set_end pos elems s
      | None \<Rightarrow> set_end pos elems s)"

definition set_lower_bound :: "(int \<Rightarrow> nat option) \<Rightarrow> int list \<Rightarrow> int \<Rightarrow> enum_set \<Rightarrow> nat option" where
  "set_lower_bound pos elems key s =
     (case pos key of
        Some i \<Rightarrow>
          (case it_make (in_set pos elems s) (length elems) i of
             Some it \<Rightarrow> if bitset_test (length elems) pos (words s) key = Inr True then Some it
                        else it_next (in_set pos elems s) (length elems) it
           | None \<Rightarrow> None)
      | None \<Rightarrow> set_end pos elems s)"

definition set_upper_bound :: "(int \<Rightarrow> nat option) \<Rightarrow> int list \<Rightarrow> int \<Rightarrow> enum_set \<Rightarrow> nat option" where
  "set_upper_bound pos elems key s =
     (case pos key of
        Some i \<Rightarrow>
          (case it_make (in_set pos elems s) (length elems) i of
             Some it \<Rightarrow> it_next (in_set pos elems s) (length elems) it
           | None \<Rightarrow> None)
      | None \<Rightarrow> set_end pos elems s)"

definition set_eq :: "enum_set \<Rightarrow> enum_set \<Rightarrow> bool" where
  "set_eq lhs rhs = bitset_eq (words lhs) (words rhs)"

fun set_less_loop :: "(int \<Rightarrow> nat option) \<Rightarrow> int list \<Rightarrow> int list \<Rightarrow> enum_set \<Rightarrow> enum_set \<Rightarrow> bool" where
  "set_less_loop pos elems [] lhs rhs = False"
| "set_less_loop pos elems (e # es) lhs rhs =
     (let c = set_count pos elems e rhs in
      if c \<noteq> set_count pos elems e lhs then c else set_less_loop pos elems es lhs rhs)"

definition set_less :: "(int \<Rightarrow> nat option) \<Rightarrow> int list \<Rightarrow> enum_set \<Rightarrow> enum_set \<Rightarrow> bool" where
  "set_less pos elems lhs rhs =
     (if members_count lhs < members_count rhs then True
      else if members_count rhs < members_count lhs then False
      else set_less_loop pos elems elems lhs rhs)"

lemma it_next_bounds: "it_next P fin c = Some c' \<Longrightarrow> c < c' \<and> c' \<le> fin"
  by (induction P fin c rule: it_next.induct) (subst (asm) (2) it_next.simps, auto split: if_splits)

text \<open>\<open>erase(first, last)\<close> erases before it compares.\<close>

function set_erase_range :: "(int \<Rightarrow> nat option) \<Rightarrow> int list \<Rightarrow> nat \<Rightarrow> nat \<Rightarrow> enum_set \<Rightarrow> (enum_set \<times> nat) option" where
  "set_erase_range pos elems p fin s =
     (case set_erase_at pos elems p s of
        Some (s, p') \<Rightarrow> if p' \<noteq> fin then set_erase_range pos elems p' fin s else Some (s, p')
      | None \<Rightarrow> None)"
  by auto
termination
  by (relation "measure (\<lambda>(pos, elems, p, fin, s). length elems - p)")
     (auto simp: set_erase_at_def dest!: it_next_bounds split: option.splits)

declare set_erase_range.simps [simp del]

function set_erase_if_loop :: "(int \<Rightarrow> nat option) \<Rightarrow> int list \<Rightarrow> (int \<Rightarrow> bool) \<Rightarrow> nat \<Rightarrow> enum_set \<Rightarrow> enum_set option" where
  "set_erase_if_loop pos elems pred i s =
     (if i = length elems then Some s
      else if i > length elems then None
      else if pred (elems ! i) then
        (case set_erase_at pos elems i s of Some (s, i') \<Rightarrow> set_erase_if_loop pos elems pred i' s | None \<Rightarrow> None)
      else (case it_next (in_set pos elems s) (length elems) i of
              Some i' \<Rightarrow> set_erase_if_loop pos elems pred i' s | None \<Rightarrow> None))"
  by auto
termination
  by (relation "measure (\<lambda>(pos, elems, pred, i, s). length elems - i)")
     (auto simp: set_erase_at_def dest!: it_next_bounds split: option.splits)

declare set_erase_if_loop.simps [simp del]

definition set_erase_if :: "(int \<Rightarrow> nat option) \<Rightarrow> int list \<Rightarrow> (int \<Rightarrow> bool) \<Rightarrow> enum_set \<Rightarrow> (enum_set \<times> nat) option" where
  "set_erase_if pos elems pred s =
     (case set_begin pos elems s of
        Some i \<Rightarrow> (case set_erase_if_loop pos elems pred i s of
                     Some s' \<Rightarrow> Some (s', members_count s - members_count s') | None \<Rightarrow> None)
      | None \<Rightarrow> None)"

text \<open>Walking a set from a position to the end, as a range-based loop does.\<close>

function set_walk :: "(int \<Rightarrow> nat option) \<Rightarrow> int list \<Rightarrow> enum_set \<Rightarrow> nat \<Rightarrow> int list option" where
  "set_walk pos elems s i =
     (if i = length elems then Some []
      else (case it_next (in_set pos elems s) (length elems) i of
              Some i' \<Rightarrow> map_option (Cons (elems ! i)) (set_walk pos elems s i')
            | None \<Rightarrow> None))"
  by auto
termination
  by (relation "measure (\<lambda>(pos, elems, s, i). length elems - i)") (auto dest!: it_next_bounds)

declare set_walk.simps [simp del]

section \<open>Sequences of operations\<close>

datatype set_op = Insert int | Erase int | Clear

definition set_step :: "(int \<Rightarrow> nat option) \<Rightarrow> int list \<Rightarrow> set_op \<Rightarrow> enum_set \<Rightarrow> (enum_set \<times> bool) option" where
  "set_step pos elems op s =
     (case op of
        Insert e \<Rightarrow> (case set_insert pos elems e s of (s, _, r) \<Rightarrow> Some (s, r))
      | Erase e \<Rightarrow> set_erase_key pos elems e s
      | Clear \<Rightarrow> Some (set_clear (length elems) s, False))"

text \<open>The specification: a set of enumerators out of \<open>U\<close>.\<close>

definition abs_step :: "int set \<Rightarrow> set_op \<Rightarrow> int set \<Rightarrow> (int set \<times> bool) option" where
  "abs_step U op V =
     (case op of
        Insert e \<Rightarrow> Some (if e \<in> U then insert e V else V, e \<in> U \<and> e \<notin> V)
      | Erase e \<Rightarrow> if e \<in> U then Some (V - {e}, e \<in> V) else None
      | Clear \<Rightarrow> Some ({}, False))"

fun run_ops :: "(set_op \<Rightarrow> 's \<Rightarrow> ('s \<times> bool) option) \<Rightarrow> set_op list \<Rightarrow> 's \<Rightarrow> ('s \<times> bool list) option" where
  "run_ops step [] s = Some (s, [])"
| "run_ops step (x # ops) s =
     (case step x s of
        Some (s, r) \<Rightarrow> map_option (\<lambda>(s, rs). (s, r # rs)) (run_ops step ops s)
      | None \<Rightarrow> None)"

text \<open>What a set of enumerators promises to its users.\<close>

locale set_contract =
  fixes ins :: "int \<Rightarrow> 's \<Rightarrow> 's \<times> bool" and del :: "int \<Rightarrow> 's \<Rightarrow> ('s \<times> bool) option" and clr :: "'s \<Rightarrow> 's"
    and univ :: "int set" and rel :: "'s \<Rightarrow> int set \<Rightarrow> bool"
  assumes ins_in: "rel s V \<Longrightarrow> e \<in> univ \<Longrightarrow> \<exists>s'. ins e s = (s', e \<notin> V) \<and> rel s' (insert e V)"
    and ins_out: "rel s V \<Longrightarrow> e \<notin> univ \<Longrightarrow> ins e s = (s, False)"
    and del_in: "rel s V \<Longrightarrow> e \<in> univ \<Longrightarrow> \<exists>s'. del e s = Some (s', e \<in> V) \<and> rel s' (V - {e})"
    and del_out: "rel s V \<Longrightarrow> e \<notin> univ \<Longrightarrow> del e s = None"
    and clr_all: "rel s V \<Longrightarrow> rel (clr s) {}"
begin

text \<open>Every sequence of operations has the results of the specification, and undefined behaviour
  only where that has it.\<close>

lemma run_simulates:
  assumes "rel s V" "\<And>x s. step x s = (case x of Insert e \<Rightarrow> Some (ins e s) | Erase e \<Rightarrow> del e s | Clear \<Rightarrow> Some (clr s, False))"
  shows "case run_ops step ops s of
      None \<Rightarrow> run_ops (abs_step univ) ops V = None
    | Some (s', rs) \<Rightarrow> \<exists>V'. run_ops (abs_step univ) ops V = Some (V', rs) \<and> rel s' V'"
  using assms(1)
proof (induction ops arbitrary: s V)
  case (Cons x ops)
  have "case step x s of None \<Rightarrow> abs_step univ x V = None
      | Some (s1, r) \<Rightarrow> \<exists>V1. abs_step univ x V = Some (V1, r) \<and> rel s1 V1"
  proof (cases x)
    case (Insert e)
    then show ?thesis
      using ins_in[OF Cons.prems, of e] ins_out[OF Cons.prems, of e] Cons.prems
      by (cases "e \<in> univ") (auto simp: assms(2) abs_step_def)
  next
    case (Erase e)
    then show ?thesis
      using del_in[OF Cons.prems, of e] del_out[OF Cons.prems, of e]
      by (cases "e \<in> univ") (auto simp: assms(2) abs_step_def)
  next
    case Clear
    then show ?thesis using clr_all[OF Cons.prems] by (simp add: assms(2) abs_step_def)
  qed
  then show ?case
  proof (cases "step x s")
    case (Some sr)
    obtain s1 r where sr: "sr = (s1, r)" by (cases sr)
    then obtain V1 where V1: "abs_step univ x V = Some (V1, r)" "rel s1 V1"
      using \<open>case step x s of None \<Rightarrow> _ | Some _ \<Rightarrow> _\<close> Some by auto
    then show ?thesis using Cons.IH[OF V1(2)] Some sr by (cases "run_ops step ops s1") auto
  qed simp
qed simp

end

section \<open>The model keeps the contract\<close>

text \<open>A set holds \<open>V\<close> when its bitset does and its count is the number of members.\<close>

definition set_holds :: "int list \<Rightarrow> enum_set \<Rightarrow> int set \<Rightarrow> bool" where
  "set_holds elems s V \<longleftrightarrow> elems \<noteq> [] \<and> holds elems (words s) V \<and> members_count s = card V"

lemma set_holds_new: "elems \<noteq> [] \<Longrightarrow> set_holds elems (set_new (length elems)) {}"
  by (simp add: set_holds_def set_new_def holds_new)

lemma set_holds_finite: "set_holds elems s V \<Longrightarrow> finite V"
  unfolding set_holds_def by (meson List.finite_set finite_subset holds_sub)

context index_type
begin

lemma set_insert_in:
  assumes "set_holds elems s V" "e \<in> set elems"
  shows "\<exists>s' it. set_insert pos elems e s = (s', it, e \<notin> V) \<and> set_holds elems s' (insert e V)"
proof -
  obtain i where i: "pos e = Some i" using pos_elem[OF assms(2)] by blast
  have h: "elems \<noteq> []" "holds elems (words s) V" "members_count s = card V" using assms(1) by (auto simp: set_holds_def)
  have r: "ref_bool (length elems) (words s) i \<longleftrightarrow> e \<in> V" using holds_ref_bool[OF h(2) i h(1)] .
  show ?thesis
  proof (cases "e \<in> V")
    case True
    then show ?thesis using i r assms(1) by (simp add: set_insert_def insert_absorb)
  next
    case False
    then show ?thesis
      using i r h holds_assign[OF h(2) i h(1), of True] set_holds_finite[OF assms(1)]
      by (simp add: set_insert_def Let_def set_holds_def)
  qed
qed

lemma set_erase_in:
  assumes "set_holds elems s V" "e \<in> set elems"
  shows "\<exists>s'. set_erase_key pos elems e s = Some (s', e \<in> V) \<and> set_holds elems s' (V - {e})"
proof -
  obtain i where i: "pos e = Some i" using pos_elem[OF assms(2)] by blast
  have h: "elems \<noteq> []" "holds elems (words s) V" "members_count s = card V" using assms(1) by (auto simp: set_holds_def)
  have r: "ref_bool (length elems) (words s) i \<longleftrightarrow> e \<in> V" using holds_ref_bool[OF h(2) i h(1)] .
  then show ?thesis
    using i h holds_assign[OF h(2) i h(1), of False] set_holds_finite[OF assms(1)]
    by (simp add: set_erase_key_def Let_def set_holds_def card_Diff_singleton_if)
qed

lemma set_clear_holds: "set_holds elems s V \<Longrightarrow> set_holds elems (set_clear (length elems) s) {}"
  by (simp add: set_holds_def set_clear_def bitset_reset_all_def holds_new)

lemma set_outside:
  assumes "elems \<noteq> []" "e \<notin> set elems"
  shows "fst (set_insert pos elems e s) = s" "snd (snd (set_insert pos elems e s)) = False" "set_erase_key pos elems e s = None"
  using pos_None[OF assms(1), of e] assms(2) by (simp_all add: set_insert_def set_erase_key_def)

lemma set_count_holds:
  assumes "set_holds elems s V"
  shows "set_count pos elems e s \<longleftrightarrow> e \<in> V"
proof -
  have h: "elems \<noteq> []" "holds elems (words s) V" using assms by (auto simp: set_holds_def)
  show ?thesis
  proof (cases "e \<in> set elems")
    case True
    then show ?thesis using holds_test(2)[OF h(2) True] pos_None[OF h(1), of e] by (simp add: set_count_def)
  next
    case False
    then show ?thesis using no_position(4)[OF h(1) False] holds_sub[OF h(2)] by (auto simp: set_count_def)
  qed
qed

lemma set_model_contract:
  "set_contract (\<lambda>e s. let (s', _, r) = set_insert pos elems e s in (s', r)) (set_erase_key pos elems)
    (set_clear (length elems)) (set elems) (set_holds elems)"
proof
  fix s V e assume h: "set_holds elems s V"
  then have ne: "elems \<noteq> []" by (simp add: set_holds_def)
  show "\<exists>s'. (let (s', _, r) = set_insert pos elems e s in (s', r)) = (s', e \<notin> V) \<and> set_holds elems s' (insert e V)"
    if "e \<in> set elems"
    using set_insert_in[OF h that] by auto
  show "(let (s', _, r) = set_insert pos elems e s in (s', r)) = (s, False)" if "e \<notin> set elems"
    using set_outside(1,2)[OF ne that, of s] by (auto simp: split_def)
  show "\<exists>s'. set_erase_key pos elems e s = Some (s', e \<in> V) \<and> set_holds elems s' (V - {e})" if "e \<in> set elems"
    using set_erase_in[OF h that] .
  show "set_erase_key pos elems e s = None" if "e \<notin> set elems" using set_outside(3)[OF ne that] .
  show "set_holds elems (set_clear (length elems) s) {}" using set_clear_holds[OF h] .
qed

end

section \<open>Iterators\<close>

text \<open>The next position is the first one after the current that is in the set, or the end.\<close>

lemma it_next_first:
  "c < n \<Longrightarrow> \<exists>c'. it_next P n c = Some c' \<and> c < c' \<and> c' \<le> n \<and> (c' = n \<or> P c') \<and> (\<forall>j. c < j \<and> j < c' \<longrightarrow> \<not> P j)"
proof (induction P n c rule: it_next.induct)
  case (1 P n c)
  show ?case
  proof (cases "c + 1 \<noteq> n \<and> \<not> P (c + 1)")
    case True
    then have e: "it_next P n c = it_next P n (c + 1)" using 1(2) by (subst it_next.simps) simp
    have "c + 1 < n" using True 1(2) by simp
    then obtain c' where c': "it_next P n (c + 1) = Some c'" "c + 1 < c'" "c' \<le> n" "c' = n \<or> P c'"
      "\<forall>j. c + 1 < j \<and> j < c' \<longrightarrow> \<not> P j"
      using 1(1) True 1(2) by auto
    have "\<not> P j" if "c < j" "j < c'" for j using that True c'(5) by (cases "j = c + 1") auto
    then show ?thesis using e c' by auto
  next
    case False
    then have "it_next P n c = Some (c + 1)" using 1(2) by (subst it_next.simps) auto
    then show ?thesis using False 1(2) by auto
  qed
qed

lemma it_next_obtain:
  assumes "c < n"
  obtains c' where "it_next P n c = Some c'" "c < c'" "c' \<le> n" "c' = n \<or> P c'" "\<And>j. c < j \<Longrightarrow> j < c' \<Longrightarrow> \<not> P j"
  using it_next_first[OF assms, of P] by blast

lemma it_make_first:
  assumes "0 < n"
  shows "\<exists>c'. it_make P n 0 = Some c' \<and> c' \<le> n \<and> (c' = n \<or> P c') \<and> (\<forall>j<c'. \<not> P j)"
proof (cases "P 0")
  case True
  then show ?thesis by (simp add: it_make_def)
next
  case False
  obtain c' where c': "it_next P n 0 = Some c'" "0 < c'" "c' \<le> n" "c' = n \<or> P c'" "\<And>j. 0 < j \<Longrightarrow> j < c' \<Longrightarrow> \<not> P j"
    using it_next_obtain[OF assms, of P] by blast
  have "\<not> P j" if "j < c'" for j using that False c'(5) by (cases "j = 0") auto
  then show ?thesis using False c' by (simp add: it_make_def)
qed

lemma filter_drop_skip:
  "a \<le> b \<Longrightarrow> b \<le> length xs \<Longrightarrow> (\<And>j. a \<le> j \<Longrightarrow> j < b \<Longrightarrow> \<not> Q (xs ! j)) \<Longrightarrow> filter Q (drop a xs) = filter Q (drop b xs)"
proof (induction "b - a" arbitrary: a)
  case (Suc d)
  then have a: "a < length xs" "a < b" by auto
  then have "filter Q (drop a xs) = filter Q (drop (Suc a) xs)"
    using Suc.prems(3)[of a] by (simp add: drop_nth_Cons[OF a(1)] del: drop_Suc_Cons)
  then show ?case using Suc.hyps(1)[of "Suc a"] Suc.hyps(2) Suc.prems a by simp
qed simp

context index_type
begin

lemma in_set_iff:
  assumes "set_holds elems s V" "p < length elems"
  shows "in_set pos elems s p \<longleftrightarrow> elems ! p \<in> V"
  using holds_test(2)[of "words s" V "elems ! p"] assms by (simp add: set_holds_def in_set_def)

lemma at_member:
  assumes "set_holds elems s V" "p \<le> length elems" "p = length elems \<or> in_set pos elems s p"
  shows "p = length elems \<or> elems ! p \<in> V"
  using in_set_iff[OF assms(1), of p] assms(2,3) by (cases "p = length elems") auto

lemma set_end_eq: "elems \<noteq> [] \<Longrightarrow> set_end pos elems s = Some (length elems)"
  by (simp add: set_end_def it_make_def)

lemma set_walk_eq:
  assumes "set_holds elems s V"
  shows "i \<le> length elems \<Longrightarrow> i = length elems \<or> elems ! i \<in> V \<Longrightarrow>
    set_walk pos elems s i = Some (filter (\<lambda>e. e \<in> V) (drop i elems))"
proof (induction "length elems - i" arbitrary: i rule: less_induct)
  case less
  show ?case
  proof (cases "i = length elems")
    case True
    then show ?thesis by (simp add: set_walk.simps)
  next
    case False
    then have i: "i < length elems" "elems ! i \<in> V" using less.prems by auto
    obtain i' where i': "it_next (in_set pos elems s) (length elems) i = Some i'" "i < i'" "i' \<le> length elems"
      "i' = length elems \<or> in_set pos elems s i'" "\<And>j. i < j \<Longrightarrow> j < i' \<Longrightarrow> \<not> in_set pos elems s j"
      using it_next_obtain[OF i(1)] by blast
    have "i' = length elems \<or> elems ! i' \<in> V" using at_member[OF assms i'(3,4)] .
    then have "set_walk pos elems s i' = Some (filter (\<lambda>e. e \<in> V) (drop i' elems))"
      using less.hyps[of i'] i i'(2,3) by simp
    moreover have "filter (\<lambda>e. e \<in> V) (drop (Suc i) elems) = filter (\<lambda>e. e \<in> V) (drop i' elems)"
    proof (rule filter_drop_skip)
      fix j assume "Suc i \<le> j" "j < i'"
      then show "elems ! j \<notin> V" using i'(3) i'(5)[of j] in_set_iff[OF assms, of j] by auto
    qed (use i' in auto)
    ultimately show ?thesis
      using i i'(1) by (subst set_walk.simps) (simp add: drop_nth_Cons[OF i(1)])
  qed
qed

lemma set_begin_first:
  assumes "set_holds elems s V"
  shows "\<exists>i. set_begin pos elems s = Some i \<and> i \<le> length elems \<and> (i = length elems \<or> elems ! i \<in> V) \<and> (\<forall>j<i. elems ! j \<notin> V)"
proof -
  have "0 < length elems" using assms by (simp add: set_holds_def)
  from it_make_first[OF this, of "in_set pos elems s"]
  obtain i where i: "set_begin pos elems s = Some i" "i \<le> length elems" "i = length elems \<or> in_set pos elems s i"
    "\<forall>j<i. \<not> in_set pos elems s j"
    by (auto simp: set_begin_def)
  have "elems ! j \<notin> V" if "j < i" for j using that i(2,4) in_set_iff[OF assms, of j] by auto
  then show ?thesis using i at_member[OF assms i(2,3)] by auto
qed

text \<open>A loop over the set visits its members once, in the order of the index type.\<close>

lemma set_iteration_eq:
  assumes "set_holds elems s V"
  shows "\<exists>i. set_begin pos elems s = Some i \<and> set_walk pos elems s i = Some (filter (\<lambda>e. e \<in> V) elems)"
proof -
  obtain i where i: "set_begin pos elems s = Some i" "i \<le> length elems" "i = length elems \<or> elems ! i \<in> V" "\<forall>j<i. elems ! j \<notin> V"
    using set_begin_first[OF assms] by blast
  have "filter (\<lambda>e. e \<in> V) (drop 0 elems) = filter (\<lambda>e. e \<in> V) (drop i elems)"
    by (rule filter_drop_skip) (use i in auto)
  then show ?thesis using i set_walk_eq[OF assms i(2,3)] by auto
qed

lemma set_find_eq:
  assumes "set_holds elems s V"
  shows "set_find pos elems e s = Some (case pos e of Some i \<Rightarrow> if e \<in> V then i else length elems | None \<Rightarrow> length elems)"
proof (cases "pos e")
  case None
  then show ?thesis using assms set_end_eq by (simp add: set_find_def set_holds_def)
next
  case (Some i)
  have ne: "elems \<noteq> []" using assms by (simp add: set_holds_def)
  then have i: "i < length elems" "elems ! i = e" using pos_Some[of e i] Some by auto
  then have "e \<in> set elems" by auto
  then have t: "bitset_test (length elems) pos (words s) e = Inr (e \<in> V)"
    using holds_test(1) assms by (auto simp: set_holds_def)
  show ?thesis
    using Some i t set_end_eq[OF ne] in_set_iff[OF assms i(1)] by (auto simp: set_find_def it_make_def)
qed

text \<open>The bounds are right, except for the first enumerator when it is not in the set: then the
  iterator's constructor has already moved.\<close>

lemma set_bounds_eq:
  assumes "set_holds elems s V" "pos e = Some i" "i \<noteq> 0 \<or> e \<in> V"
  shows "\<exists>l u. set_lower_bound pos elems e s = Some l \<and> set_upper_bound pos elems e s = Some u \<and>
    i \<le> l \<and> l \<le> length elems \<and> (l = length elems \<or> elems ! l \<in> V) \<and> (\<forall>j. i \<le> j \<and> j < l \<longrightarrow> elems ! j \<notin> V) \<and>
    i < u \<and> u \<le> length elems \<and> (u = length elems \<or> elems ! u \<in> V) \<and> (\<forall>j. i < j \<and> j < u \<longrightarrow> elems ! j \<notin> V)"
proof -
  have ne: "elems \<noteq> []" using assms by (simp add: set_holds_def)
  then have i: "i < length elems" "elems ! i = e" using pos_Some[of e i] assms(2) by auto
  then have "e \<in> set elems" by auto
  then have t: "bitset_test (length elems) pos (words s) e = Inr (e \<in> V)"
    using holds_test(1) assms(1) by (auto simp: set_holds_def)
  have mk: "it_make (in_set pos elems s) (length elems) i = Some i"
    using assms(3) i in_set_iff[OF assms(1) i(1)] by (auto simp: it_make_def)
  obtain u where u: "it_next (in_set pos elems s) (length elems) i = Some u" "i < u" "u \<le> length elems"
    "u = length elems \<or> in_set pos elems s u" "\<And>j. i < j \<Longrightarrow> j < u \<Longrightarrow> \<not> in_set pos elems s j"
    using it_next_obtain[OF i(1)] by blast
  have uV: "u = length elems \<or> elems ! u \<in> V" using at_member[OF assms(1) u(3,4)] .
  have btw: "elems ! j \<notin> V" if "i < j" "j < u" for j using that u(3) u(5)[of j] in_set_iff[OF assms(1), of j] by auto
  have ub: "set_upper_bound pos elems e s = Some u" using assms(2) mk u(1) by (simp add: set_upper_bound_def)
  show ?thesis
  proof (cases "e \<in> V")
    case True
    then have "set_lower_bound pos elems e s = Some i" using assms(2) mk t by (simp add: set_lower_bound_def)
    then show ?thesis using True i u(2,3) uV btw ub by (intro exI[of _ i] exI[of _ u]) auto
  next
    case False
    then have lb: "set_lower_bound pos elems e s = Some u" using assms(2) mk t u(1) by (simp add: set_lower_bound_def)
    have "elems ! j \<notin> V" if "i \<le> j" "j < u" for j using that btw[of j] False i(2) by (cases "j = i") auto
    then show ?thesis using lb ub u(2,3) uV btw by (intro exI[of _ u]) auto
  qed
qed

end

section \<open>Erasing and comparing\<close>

context index_type
begin

lemma set_erase_at_eq:
  assumes "set_holds elems s V" "i < length elems"
  shows "\<exists>s' i'. set_erase_at pos elems i s = Some (s', i') \<and> set_holds elems s' (V - {elems ! i}) \<and>
    i < i' \<and> i' \<le> length elems \<and> (i' = length elems \<or> elems ! i' \<in> V) \<and> (\<forall>j. i < j \<and> j < i' \<longrightarrow> elems ! j \<notin> V)"
proof -
  obtain i' where i': "it_next (in_set pos elems s) (length elems) i = Some i'" "i < i'" "i' \<le> length elems"
    "i' = length elems \<or> in_set pos elems s i'" "\<And>j. i < j \<Longrightarrow> j < i' \<Longrightarrow> \<not> in_set pos elems s j"
    using it_next_obtain[OF assms(2)] by blast
  obtain s' where s': "set_erase_key pos elems (elems ! i) s = Some (s', elems ! i \<in> V)" "set_holds elems s' (V - {elems ! i})"
    using set_erase_in[OF assms(1), of "elems ! i"] assms(2) by auto
  have "elems ! j \<notin> V" if "i < j" "j < i'" for j using that i'(3) i'(5)[of j] in_set_iff[OF assms(1), of j] by auto
  then show ?thesis using i' s' at_member[OF assms(1) i'(3,4)] by (auto simp: set_erase_at_def)
qed

lemma drop_remove:
  assumes "i < length elems" "i < i'" "i' \<le> length elems" "\<And>j. i < j \<Longrightarrow> j < i' \<Longrightarrow> elems ! j \<notin> V"
  shows "V \<inter> set (drop i elems) = V \<inter> insert (elems ! i) (set (drop i' elems))"
proof -
  have "filter (\<lambda>e. e \<in> V) (drop (Suc i) elems) = filter (\<lambda>e. e \<in> V) (drop i' elems)"
    by (rule filter_drop_skip) (use assms in auto)
  then have "set (filter (\<lambda>e. e \<in> V) (drop (Suc i) elems)) = set (filter (\<lambda>e. e \<in> V) (drop i' elems))" by simp
  then have "V \<inter> set (drop (Suc i) elems) = V \<inter> set (drop i' elems)" by (auto simp: set_eq_iff)
  moreover have "set (drop i elems) = insert (elems ! i) (set (drop (Suc i) elems))"
    by (simp add: drop_nth_Cons[OF assms(1)])
  ultimately show ?thesis by blast
qed

lemma set_erase_if_loop_eq:
  "set_holds elems s V \<Longrightarrow> i \<le> length elems \<Longrightarrow> i = length elems \<or> elems ! i \<in> V \<Longrightarrow>
   \<exists>s'. set_erase_if_loop pos elems Q i s = Some s' \<and> set_holds elems s' (V - {e \<in> set (drop i elems). Q e})"
proof (induction "length elems - i" arbitrary: i s V rule: less_induct)
  case less
  show ?case
  proof (cases "i = length elems")
    case True
    then show ?thesis using less.prems(1) by (simp add: set_erase_if_loop.simps)
  next
    case False
    then have i: "i < length elems" "elems ! i \<in> V" using less.prems by auto
    show ?thesis
    proof (cases "Q (elems ! i)")
      case True
      obtain s1 i' where e: "set_erase_at pos elems i s = Some (s1, i')" "set_holds elems s1 (V - {elems ! i})"
        "i < i'" "i' \<le> length elems" "i' = length elems \<or> elems ! i' \<in> V" "\<And>j. i < j \<Longrightarrow> j < i' \<Longrightarrow> elems ! j \<notin> V"
        using set_erase_at_eq[OF less.prems(1) i(1)] by blast
      have "i' = length elems \<or> elems ! i' \<in> V - {elems ! i}"
        using e(3,4,5) i(1) elems_distinct by (auto simp: nth_eq_iff_index_eq)
      then obtain s' where s': "set_erase_if_loop pos elems Q i' s1 = Some s'"
        "set_holds elems s' (V - {elems ! i} - {e \<in> set (drop i' elems). Q e})"
        using less.hyps[OF diff_less_mono2[OF e(3) i(1)] e(2,4)] by blast
      have "V - {elems ! i} - {e \<in> set (drop i' elems). Q e} = V - {e \<in> set (drop i elems). Q e}"
        using drop_remove[OF i(1) e(3,4), of V] e(6) True by blast
      then show ?thesis using s' e(1) True i(1) by (subst set_erase_if_loop.simps) simp
    next
      case False
      obtain i' where i': "it_next (in_set pos elems s) (length elems) i = Some i'" "i < i'" "i' \<le> length elems"
        "i' = length elems \<or> in_set pos elems s i'" "\<And>j. i < j \<Longrightarrow> j < i' \<Longrightarrow> \<not> in_set pos elems s j"
        using it_next_obtain[OF i(1)] by blast
      have b: "elems ! j \<notin> V" if "i < j" "j < i'" for j
        using that i'(3) i'(5)[of j] in_set_iff[OF less.prems(1), of j] by auto
      obtain s' where s': "set_erase_if_loop pos elems Q i' s = Some s'" "set_holds elems s' (V - {e \<in> set (drop i' elems). Q e})"
        using less.hyps[OF diff_less_mono2[OF i'(2) i(1)] less.prems(1) i'(3) at_member[OF less.prems(1) i'(3,4)]] by blast
      have "V - {e \<in> set (drop i' elems). Q e} = V - {e \<in> set (drop i elems). Q e}"
      proof -
        have "V \<inter> set (drop i elems) = V \<inter> insert (elems ! i) (set (drop i' elems))"
          by (rule drop_remove[OF i(1) i'(2,3) b])
        then have "e \<in> set (drop i elems) \<longleftrightarrow> e = elems ! i \<or> e \<in> set (drop i' elems)" if "e \<in> V" for e
          using that by (metis IntD2 IntI insert_iff)
        then show ?thesis using False by auto
      qed
      then show ?thesis using s' i'(1) False i(1) by (subst set_erase_if_loop.simps) simp
    qed
  qed
qed

lemma set_erase_if_eq:
  assumes "set_holds elems s V"
  shows "\<exists>s'. set_erase_if pos elems Q s = Some (s', card {e \<in> V. Q e}) \<and> set_holds elems s' {e \<in> V. \<not> Q e}"
proof -
  obtain i where i: "set_begin pos elems s = Some i" "i \<le> length elems" "i = length elems \<or> elems ! i \<in> V" "\<forall>j<i. elems ! j \<notin> V"
    using set_begin_first[OF assms] by blast
  obtain s' where s': "set_erase_if_loop pos elems Q i s = Some s'" "set_holds elems s' (V - {e \<in> set (drop i elems). Q e})"
    using set_erase_if_loop_eq[OF assms i(2,3)] by blast
  have "filter (\<lambda>e. e \<in> V) (drop 0 elems) = filter (\<lambda>e. e \<in> V) (drop i elems)"
    by (rule filter_drop_skip) (use i in auto)
  then have "V \<inter> set elems = V \<inter> set (drop i elems)" by (metis drop_0 inter_set_filter inf_commute)
  moreover have sub: "V \<subseteq> set elems" using assms holds_sub by (auto simp: set_holds_def)
  ultimately have "V - {e \<in> set (drop i elems). Q e} = {e \<in> V. \<not> Q e}" by blast
  then have h: "set_holds elems s' {e \<in> V. \<not> Q e}" using s'(2) by simp
  have fin: "finite V" using set_holds_finite[OF assms] .
  have "{e \<in> V. \<not> Q e} = V - {e \<in> V. Q e}" by blast
  then have "card {e \<in> V. \<not> Q e} = card V - card {e \<in> V. Q e}" using fin by (simp add: card_Diff_subset)
  moreover have "card {e \<in> V. Q e} \<le> card V" using fin by (simp add: card_mono)
  ultimately have "members_count s - members_count s' = card {e \<in> V. Q e}"
    using assms h by (simp add: set_holds_def)
  then show ?thesis using i(1) s'(1) h by (simp add: set_erase_if_def)
qed

text \<open>The order of two sets: by size, and at equal size the one with the first enumerator they do not
  share is the greater.\<close>

lemma set_less_loop_eq:
  assumes "set_holds elems s V" "set_holds elems t W"
  shows "set_less_loop pos elems es s t \<longleftrightarrow>
    (\<exists>i<length es. es ! i \<in> W \<and> es ! i \<notin> V \<and> (\<forall>j<i. es ! j \<in> V \<longleftrightarrow> es ! j \<in> W))"
proof (induction es)
  case (Cons e es)
  have c: "set_count pos elems e s \<longleftrightarrow> e \<in> V" "set_count pos elems e t \<longleftrightarrow> e \<in> W"
    using set_count_holds assms by blast+
  show ?case
    using Cons by (simp add: c Let_def Ex_less_Suc2 All_less_Suc2)
qed simp

lemma set_less_trichotomy:
  assumes "set_holds elems s V" "set_holds elems t W"
  shows "V = W \<longleftrightarrow> \<not> set_less pos elems s t \<and> \<not> set_less pos elems t s"
    and "\<not> (set_less pos elems s t \<and> set_less pos elems t s)"
proof -
  let ?d = "\<lambda>i. (elems ! i \<in> V) \<noteq> (elems ! i \<in> W)"
  have n: "members_count s = card V" "members_count t = card W" using assms by (auto simp: set_holds_def)
  have sub: "V \<subseteq> set elems" "W \<subseteq> set elems" using assms holds_sub by (auto simp: set_holds_def)
  have one: "i = j" if "elems ! i \<in> W \<and> elems ! i \<notin> V \<and> (\<forall>k<i. \<not> ?d k)" "elems ! j \<in> V \<and> elems ! j \<notin> W \<and> (\<forall>k<j. \<not> ?d k)" for i j
    using that by (cases i j rule: linorder_cases) auto
  show "\<not> (set_less pos elems s t \<and> set_less pos elems t s)"
    using one by (auto simp: set_less_def n set_less_loop_eq[OF assms] set_less_loop_eq[OF assms(2,1)] split: if_splits)
  have ex: "\<exists>i<length elems. ?d i \<and> (\<forall>k<i. \<not> ?d k)" if ne: "V \<noteq> W"
  proof -
    obtain i where "i < length elems" "?d i" using ne sub by (metis in_set_conv_nth subsetD subset_antisym subsetI)
    then show ?thesis using exists_least_iff[of "\<lambda>i. i < length elems \<and> ?d i"] by (metis order_less_trans)
  qed
  show "V = W \<longleftrightarrow> \<not> set_less pos elems s t \<and> \<not> set_less pos elems t s"
  proof
    assume "\<not> set_less pos elems s t \<and> \<not> set_less pos elems t s"
    then have l: "\<not> set_less_loop pos elems elems s t" "\<not> set_less_loop pos elems elems t s"
      by (auto simp: set_less_def split: if_splits)
    show "V = W"
    proof (rule ccontr)
      assume "V \<noteq> W"
      then obtain i where "i < length elems" "?d i" "\<forall>k<i. \<not> ?d k" using ex by blast
      then show False using l unfolding set_less_loop_eq[OF assms] set_less_loop_eq[OF assms(2,1)] by blast
    qed
  qed (auto simp: set_less_def n set_less_loop_eq[OF assms] set_less_loop_eq[OF assms(2,1)])
qed

end

section \<open>What a set promises\<close>

interpretation set_model: set_contract "\<lambda>e s. let (s', _, r) = set_insert (indexing_at E cmp) (indexing_elems E cmp) e s in (s', r)"
  "set_erase_key (indexing_at E cmp) (indexing_elems E cmp)" "set_clear (length (indexing_elems E cmp))"
  "set (indexing_elems E cmp)" "set_holds (indexing_elems E cmp)" for E cmp
  by (rule comparator_index.set_model_contract)

lemma set_step_cases:
  "set_step pos elems x s = (case x of
      Insert e \<Rightarrow> Some (let (s', _, r) = set_insert pos elems e s in (s', r))
    | Erase e \<Rightarrow> set_erase_key pos elems e s
    | Clear \<Rightarrow> Some (set_clear (length elems) s, False))"
  by (auto simp: set_step_def split: set_op.split prod.split)

lemma set_empty_holds: "set_holds elems s V \<Longrightarrow> set_empty s \<longleftrightarrow> V = {}"
  using set_holds_finite by (auto simp: set_holds_def set_empty_def)

text \<open>C22: after any sequence of insert, erase and clear on a new set ordered by any comparator, the
  results of the calls are those of the abstract set of enumerators, \<open>count\<close>, \<open>empty\<close> and \<open>size\<close>
  answer as that set does, and a loop from begin to end visits exactly its members, each once, in the
  order of the comparator. Inserting an integer that is no enumerator does nothing; erasing one is
  undefined, and nothing else is.\<close>

theorem set_refines:
  assumes "enum_count E > 0"
  shows "case run_ops (set_step (indexing_at E cmp) (indexing_elems E cmp)) ops (set_new (enum_count E)) of
      None \<Rightarrow> run_ops (abs_step (set (enum_values E))) ops {} = None
    | Some (s, rs) \<Rightarrow> \<exists>V. run_ops (abs_step (set (enum_values E))) ops {} = Some (V, rs) \<and>
        (\<forall>e. set_count (indexing_at E cmp) (indexing_elems E cmp) e s \<longleftrightarrow> e \<in> V) \<and>
        (set_empty s \<longleftrightarrow> V = {}) \<and> members_count s = card V \<and>
        (\<exists>i. set_begin (indexing_at E cmp) (indexing_elems E cmp) s = Some i \<and>
          set_walk (indexing_at E cmp) (indexing_elems E cmp) s i = Some (filter (\<lambda>e. e \<in> V) (indexing_elems E cmp)))"
proof -
  have ne: "indexing_elems E cmp \<noteq> []" using assms by (metis length_indexing_elems length_greater_0_conv)
  have "set_holds (indexing_elems E cmp) (set_new (enum_count E)) {}"
    using set_holds_new[OF ne] by simp
  from set_model.run_simulates[OF this set_step_cases, of ops]
  show ?thesis
    using comparator_index.set_count_holds comparator_index.set_iteration_eq set_empty_holds comparator_bits.elems_values[of E cmp]
    by (fastforce simp: set_holds_def split: option.splits)
qed

lemma set_refines_witness:
  "case run_ops (set_step (indexing_at colours (>)) (indexing_elems colours (>))) [Insert 1, Insert 5, Erase 1] (set_new (enum_count colours)) of
      None \<Rightarrow> run_ops (abs_step (set (enum_values colours))) [Insert 1, Insert 5, Erase 1] {} = None
    | Some (s, rs) \<Rightarrow> \<exists>V. run_ops (abs_step (set (enum_values colours))) [Insert 1, Insert 5, Erase 1] {} = Some (V, rs) \<and>
        (\<forall>e. set_count (indexing_at colours (>)) (indexing_elems colours (>)) e s \<longleftrightarrow> e \<in> V) \<and>
        (set_empty s \<longleftrightarrow> V = {}) \<and> members_count s = card V \<and>
        (\<exists>i. set_begin (indexing_at colours (>)) (indexing_elems colours (>)) s = Some i \<and>
          set_walk (indexing_at colours (>)) (indexing_elems colours (>)) s i = Some (filter (\<lambda>e. e \<in> V) (indexing_elems colours (>))))"
  by (rule set_refines) (simp add: colours_table)

text \<open>In the default order a bound is the smallest member not before, or after, the enumerator.\<close>

lemma first_member:
  fixes xs :: "int list"
  assumes "sorted_wrt (<) xs" "V \<subseteq> set xs" "a \<le> l" "l \<le> length xs" "l = length xs \<or> xs ! l \<in> V"
    "\<And>j. a \<le> j \<Longrightarrow> j < l \<Longrightarrow> xs ! j \<notin> V" "\<And>k. k < length xs \<Longrightarrow> R (xs ! k) \<longleftrightarrow> a \<le> k"
  shows "if \<exists>x\<in>V. R x then l < length xs \<and> xs ! l = Min {x \<in> V. R x} else l = length xs"
proof -
  have at: "\<exists>k<length xs. xs ! k = x \<and> a \<le> k \<and> l \<le> k" if x: "x \<in> V" "R x" for x
  proof -
    obtain k where "k < length xs" "xs ! k = x" using assms(2) x(1) by (metis in_set_conv_nth subsetD)
    then show ?thesis using assms(6)[of k] assms(7)[of k] x by (metis not_less)
  qed
  have fin: "finite {x \<in> V. R x}" using assms(2) by (auto intro: finite_subset[of _ "set xs"])
  show ?thesis
  proof (cases "l = length xs")
    case True
    then have "\<not> (\<exists>x\<in>V. R x)" using at by (meson leD)
    then show ?thesis using True by simp
  next
    case False
    then have "l < length xs" "xs ! l \<in> V" using assms(4,5) by auto
    moreover from this have "R (xs ! l)" using assms(3) assms(7)[of l] by simp
    ultimately have l: "l < length xs" "xs ! l \<in> V" "R (xs ! l)" by blast+
    have "xs ! l \<le> x" if xm: "x \<in> {x \<in> V. R x}" for x
    proof -
      obtain k where "k < length xs" "xs ! k = x" "l \<le> k" using at[of x] xm by blast
      then show ?thesis using sorted_wrt_nth_less[OF assms(1), of l k] by (cases "l = k") auto
    qed
    then have "Min {x \<in> V. R x} = xs ! l" using fin l by (intro Min_eqI) auto
    then show ?thesis using l by auto
  qed
qed

text \<open>Finding and erasing. \<open>find\<close> gives the position of a member and the end for everything
  else; \<open>erase_if\<close> takes out exactly the members the predicate holds for and returns how many they
  were; the bounds of an enumerator are the first members not before and after it, unless it is the
  first enumerator and not a member; and of two sets exactly one of less, equal and greater holds.\<close>

theorem set_searches:
  assumes "set_holds (enum_values E) s V" "set_holds (enum_values E) t W"
  shows "set_find (enum_index E) (enum_values E) e s =
      Some (if e \<in> V then the (enum_index E e) else enum_count E) \<and>
    (\<exists>s'. set_erase_if (enum_index E) (enum_values E) Q s = Some (s', card {x \<in> V. Q x}) \<and>
      set_holds (enum_values E) s' {x \<in> V. \<not> Q x}) \<and>
    (enum_index E e = Some i \<longrightarrow> i \<noteq> 0 \<or> e \<in> V \<longrightarrow>
      (\<exists>l u. set_lower_bound (enum_index E) (enum_values E) e s = Some l \<and>
        set_upper_bound (enum_index E) (enum_values E) e s = Some u \<and>
        (if \<exists>x\<in>V. e \<le> x then l < enum_count E \<and> enum_values E ! l = Min {x \<in> V. e \<le> x} else l = enum_count E) \<and>
        (if \<exists>x\<in>V. e < x then u < enum_count E \<and> enum_values E ! u = Min {x \<in> V. e < x} else u = enum_count E))) \<and>
    (set_less (enum_index E) (enum_values E) s t \<or> V = W \<or> set_less (enum_index E) (enum_values E) t s) \<and>
    \<not> (set_less (enum_index E) (enum_values E) s t \<and> set_less (enum_index E) (enum_values E) t s)"
proof (intro conjI impI)
  let ?xs = "enum_values E"
  have ne: "?xs \<noteq> []" and len: "length ?xs = enum_count E" using assms(1) by (auto simp: set_holds_def enum_count_def)
  have sub: "V \<subseteq> set ?xs" using assms(1) holds_sub by (auto simp: set_holds_def)
  show "set_find (enum_index E) ?xs e s = Some (if e \<in> V then the (enum_index E e) else enum_count E)"
    using default_index.set_find_eq[OF assms(1), of e] default_index.pos_None[OF ne, of e] sub len
    by (cases "enum_index E e") auto
  show "\<exists>s'. set_erase_if (enum_index E) ?xs Q s = Some (s', card {x \<in> V. Q x}) \<and> set_holds ?xs s' {x \<in> V. \<not> Q x}"
    by (rule default_index.set_erase_if_eq[OF assms(1)])
  show "set_less (enum_index E) ?xs s t \<or> V = W \<or> set_less (enum_index E) ?xs t s"
    "\<not> (set_less (enum_index E) ?xs s t \<and> set_less (enum_index E) ?xs t s)"
    using default_index.set_less_trichotomy[OF assms] by blast+
  assume i: "enum_index E e = Some i" "i \<noteq> 0 \<or> e \<in> V"
  then have e: "i < length ?xs" "?xs ! i = e" using default_index.pos_Some[OF ne, of e i] by auto
  obtain l u where b: "set_lower_bound (enum_index E) ?xs e s = Some l" "set_upper_bound (enum_index E) ?xs e s = Some u"
    "i \<le> l" "l \<le> length ?xs" "l = length ?xs \<or> ?xs ! l \<in> V" "\<And>j. i \<le> j \<Longrightarrow> j < l \<Longrightarrow> ?xs ! j \<notin> V"
    "i < u" "u \<le> length ?xs" "u = length ?xs \<or> ?xs ! u \<in> V" "\<And>j. i < j \<Longrightarrow> j < u \<Longrightarrow> ?xs ! j \<notin> V"
    using default_index.set_bounds_eq[OF assms(1) i] by blast
  have mono: "?xs ! j < ?xs ! k" if "j < k" "k < length ?xs" for j k
    using sorted_wrt_nth_less[OF sorted_enum_values that] .
  have le: "e \<le> ?xs ! k \<longleftrightarrow> i \<le> k" "e < ?xs ! k \<longleftrightarrow> Suc i \<le> k" if "k < length ?xs" for k
    using mono[of i k] mono[of k i] that e by (cases i k rule: linorder_cases; auto)+
  have "if \<exists>x\<in>V. e \<le> x then l < length ?xs \<and> ?xs ! l = Min {x \<in> V. e \<le> x} else l = length ?xs"
    by (rule first_member[OF sorted_enum_values sub b(3,4,5,6)]) (use le(1) in auto)
  moreover have "if \<exists>x\<in>V. e < x then u < length ?xs \<and> ?xs ! u = Min {x \<in> V. e < x} else u = length ?xs"
    by (rule first_member[OF sorted_enum_values sub _ b(8,9), of "Suc i"]) (use le(2) b in auto)
  ultimately show "\<exists>l u. set_lower_bound (enum_index E) ?xs e s = Some l \<and> set_upper_bound (enum_index E) ?xs e s = Some u \<and>
      (if \<exists>x\<in>V. e \<le> x then l < enum_count E \<and> ?xs ! l = Min {x \<in> V. e \<le> x} else l = enum_count E) \<and>
      (if \<exists>x\<in>V. e < x then u < enum_count E \<and> ?xs ! u = Min {x \<in> V. e < x} else u = enum_count E)"
    using b(1,2) unfolding len by blast
qed

lemma holds_colours: "set_holds (enum_values colours) \<lparr>words = [6], members_count = 2\<rparr> {2, 5}"
proof -
  have "rep 3 (ref_assign 3 (ref_assign 3 (bitset_new 3) 1 True) 2 True) {1, 2}"
    using rep_assign[OF rep_assign[OF rep_new[of 3], of 1 True], of 2 True] by (simp add: insert_commute)
  moreover have "ref_assign 3 (ref_assign 3 (bitset_new 3) 1 True) 2 True = [6]" by code_simp
  moreover have "{1, 2} = {i. i < 3 \<and> [1, 2, 5 :: int] ! i \<in> {2, 5}}" by (auto simp: less_Suc_eq numeral_3_eq_3)
  moreover have "length (enum_values colours) = 3" by (simp add: colours_table)
  ultimately show ?thesis by (simp add: set_holds_def holds_def colours_table(2) del: list.size)
qed

lemma set_searches_witness:
  "set_find (enum_index colours) (enum_values colours) 2 \<lparr>words = [6], members_count = 2\<rparr> =
      Some (if 2 \<in> {2, 5 :: int} then the (enum_index colours 2) else enum_count colours) \<and>
    (\<exists>s'. set_erase_if (enum_index colours) (enum_values colours) even \<lparr>words = [6], members_count = 2\<rparr> =
        Some (s', card {x \<in> {2, 5 :: int}. even x}) \<and>
      set_holds (enum_values colours) s' {x \<in> {2, 5}. \<not> even x}) \<and>
    enum_index colours 2 = Some 1 \<and>
      (\<exists>l u. set_lower_bound (enum_index colours) (enum_values colours) 2 \<lparr>words = [6], members_count = 2\<rparr> = Some l \<and>
        set_upper_bound (enum_index colours) (enum_values colours) 2 \<lparr>words = [6], members_count = 2\<rparr> = Some u \<and>
        (if \<exists>x\<in>{2, 5 :: int}. 2 \<le> x then l < enum_count colours \<and> enum_values colours ! l = Min {x \<in> {2, 5}. 2 \<le> x}
         else l = enum_count colours) \<and>
        (if \<exists>x\<in>{2, 5 :: int}. 2 < x then u < enum_count colours \<and> enum_values colours ! u = Min {x \<in> {2, 5}. 2 < x}
         else u = enum_count colours)) \<and>
    (set_less (enum_index colours) (enum_values colours) \<lparr>words = [6], members_count = 2\<rparr> \<lparr>words = [6], members_count = 2\<rparr> \<or>
      {2, 5 :: int} = {2, 5} \<or>
      set_less (enum_index colours) (enum_values colours) \<lparr>words = [6], members_count = 2\<rparr> \<lparr>words = [6], members_count = 2\<rparr>) \<and>
    \<not> (set_less (enum_index colours) (enum_values colours) \<lparr>words = [6], members_count = 2\<rparr> \<lparr>words = [6], members_count = 2\<rparr> \<and>
      set_less (enum_index colours) (enum_values colours) \<lparr>words = [6], members_count = 2\<rparr> \<lparr>words = [6], members_count = 2\<rparr>)"
  using set_searches[OF holds_colours holds_colours, of 2 even 1] colours_index by auto

text \<open>With 2 and 5 in the set, the bounds of 1, the first enumerator, come out at 5 instead of 2.\<close>

lemma bounds_skip_a_member:
  "set_lower_bound (enum_index colours) (enum_values colours) 1 \<lparr>words = [6], members_count = 2\<rparr> = Some 2 \<and>
   set_upper_bound (enum_index colours) (enum_values colours) 1 \<lparr>words = [6], members_count = 2\<rparr> = Some 2"
  unfolding colours_table(2) colours_index by code_simp

text \<open>Erasing an empty range erases everything from there on and then moves past the end.\<close>

lemma erase_empty_range_undefined:
  "set_erase_range (enum_index colours) (enum_values colours) 1 1 \<lparr>words = [6], members_count = 2\<rparr> = None"
  unfolding colours_table(2) colours_index by code_simp

end
