(* ===== verification/Set_Lookup.thy ===== *)
theory Set_Lookup
  imports Enum_Set
begin

text \<open>
  \<open>magic_enum_containers.hpp\<close>: the members of \<open>set\<close> for a key of another type, such as a name, when the
  comparator is transparent. All of them search the index with \<open>detail::equal_range\<close>, two calls of
  \<open>detail::lower_bound\<close>. That function does not take its iterator back when it goes left, so the range
  it finds is only known to hold every enumerator equivalent to the key, and mostly holds others: the
  operations never miss an equivalent member, and act on members that are not equivalent. The
  comparator against the key is a pair of functions, \<open>lt e x\<close> for \<open>comp(e, x)\<close> and \<open>gt x e\<close> for \<open>comp(x, e)\<close>.
  Also the members that are made of others, and the comparisons as one linear order.
\<close>

section \<open>The code\<close>

text \<open>The second search runs over the reversed rest of the range with the comparator turned round; the
  base of a reverse iterator counts from the end.\<close>

definition equal_range :: "('a \<Rightarrow> 'k \<Rightarrow> bool) \<Rightarrow> ('k \<Rightarrow> 'a \<Rightarrow> bool) \<Rightarrow> 'a list \<Rightarrow> 'k \<Rightarrow> (nat \<times> nat) option" where
  "equal_range lt gt xs x =
     (case lower_bound lt xs x of
        None \<Rightarrow> None
      | Some fst_pos \<Rightarrow>
          (case lower_bound (\<lambda>e x. gt x e) (rev (drop fst_pos xs)) x of
             None \<Rightarrow> None
           | Some r \<Rightarrow> Some (fst_pos, length xs - r)))"

fun erase_positions :: "(int \<Rightarrow> nat option) \<Rightarrow> int list \<Rightarrow> nat list \<Rightarrow> nat \<Rightarrow> enum_set \<Rightarrow> (enum_set \<times> nat) option" where
  "erase_positions pos elems [] c s = Some (s, c)"
| "erase_positions pos elems (p # ps) c s =
     (case set_erase_key pos elems (elems ! p) s of
        None \<Rightarrow> None
      | Some (s', r) \<Rightarrow> erase_positions pos elems ps (c + of_bool r) s')"

definition set_erase_by ::
  "(int \<Rightarrow> 'k \<Rightarrow> bool) \<Rightarrow> ('k \<Rightarrow> int \<Rightarrow> bool) \<Rightarrow> (int \<Rightarrow> nat option) \<Rightarrow> int list \<Rightarrow> 'k \<Rightarrow> enum_set \<Rightarrow> (enum_set \<times> nat) option" where
  "set_erase_by lt gt pos elems x s =
     (case equal_range lt gt elems x of
        None \<Rightarrow> None
      | Some (f, l) \<Rightarrow> erase_positions pos elems [f..<l] 0 s)"

definition set_count_by ::
  "(int \<Rightarrow> 'k \<Rightarrow> bool) \<Rightarrow> ('k \<Rightarrow> int \<Rightarrow> bool) \<Rightarrow> (int \<Rightarrow> nat option) \<Rightarrow> int list \<Rightarrow> 'k \<Rightarrow> enum_set \<Rightarrow> nat option" where
  "set_count_by lt gt pos elems x s =
     (case equal_range lt gt elems x of
        None \<Rightarrow> None
      | Some (f, l) \<Rightarrow> Some (foldl (\<lambda>c p. c + of_bool (set_count pos elems (elems ! p) s)) 0 [f..<l]))"

fun find_positions :: "(int \<Rightarrow> nat option) \<Rightarrow> int list \<Rightarrow> nat list \<Rightarrow> enum_set \<Rightarrow> nat option" where
  "find_positions pos elems [] s = set_end pos elems s"
| "find_positions pos elems (p # ps) s =
     (case bitset_test (length elems) pos (words s) (elems ! p) of
        Inr b \<Rightarrow> if b then set_find pos elems (elems ! p) s else find_positions pos elems ps s
      | Inl _ \<Rightarrow> None)"

definition set_find_by ::
  "(int \<Rightarrow> 'k \<Rightarrow> bool) \<Rightarrow> ('k \<Rightarrow> int \<Rightarrow> bool) \<Rightarrow> (int \<Rightarrow> nat option) \<Rightarrow> int list \<Rightarrow> 'k \<Rightarrow> enum_set \<Rightarrow> nat option" where
  "set_find_by lt gt pos elems x s =
     (case equal_range lt gt elems x of None \<Rightarrow> None | Some (f, l) \<Rightarrow> find_positions pos elems [f..<l] s)"

definition set_contains_by ::
  "(int \<Rightarrow> 'k \<Rightarrow> bool) \<Rightarrow> ('k \<Rightarrow> int \<Rightarrow> bool) \<Rightarrow> (int \<Rightarrow> nat option) \<Rightarrow> int list \<Rightarrow> 'k \<Rightarrow> enum_set \<Rightarrow> bool option" where
  "set_contains_by lt gt pos elems x s = map_option (\<lambda>c. c > 0) (set_count_by lt gt pos elems x s)"

definition set_lower_bound_by ::
  "(int \<Rightarrow> 'k \<Rightarrow> bool) \<Rightarrow> ('k \<Rightarrow> int \<Rightarrow> bool) \<Rightarrow> (int \<Rightarrow> nat option) \<Rightarrow> int list \<Rightarrow> 'k \<Rightarrow> enum_set \<Rightarrow> nat option" where
  "set_lower_bound_by lt gt pos elems x s =
     (case equal_range lt gt elems x of
        None \<Rightarrow> None
      | Some (f, l) \<Rightarrow> if f \<noteq> l then set_lower_bound pos elems (elems ! f) s else set_end pos elems s)"

definition set_upper_bound_by ::
  "(int \<Rightarrow> 'k \<Rightarrow> bool) \<Rightarrow> ('k \<Rightarrow> int \<Rightarrow> bool) \<Rightarrow> (int \<Rightarrow> nat option) \<Rightarrow> int list \<Rightarrow> 'k \<Rightarrow> enum_set \<Rightarrow> nat option" where
  "set_upper_bound_by lt gt pos elems x s =
     (case equal_range lt gt elems x of
        None \<Rightarrow> None
      | Some (f, l) \<Rightarrow> if f \<noteq> l then set_upper_bound pos elems (elems ! (l - 1)) s else set_end pos elems s)"

text \<open>The members that are made of others.\<close>

definition set_swap :: "enum_set \<Rightarrow> enum_set \<Rightarrow> enum_set \<times> enum_set" where
  "set_swap this other = (let cp = this; this = other; other = cp in (this, other))"

definition set_contains :: "(int \<Rightarrow> nat option) \<Rightarrow> int list \<Rightarrow> int \<Rightarrow> enum_set \<Rightarrow> bool" where
  "set_contains pos elems key s = set_count pos elems key s"

definition set_equal_range :: "(int \<Rightarrow> nat option) \<Rightarrow> int list \<Rightarrow> int \<Rightarrow> enum_set \<Rightarrow> nat option \<times> nat option" where
  "set_equal_range pos elems key s = (set_lower_bound pos elems key s, set_upper_bound pos elems key s)"

definition set_equal_range_by ::
  "(int \<Rightarrow> 'k \<Rightarrow> bool) \<Rightarrow> ('k \<Rightarrow> int \<Rightarrow> bool) \<Rightarrow> (int \<Rightarrow> nat option) \<Rightarrow> int list \<Rightarrow> 'k \<Rightarrow> enum_set \<Rightarrow> nat option \<times> nat option" where
  "set_equal_range_by lt gt pos elems x s = (set_lower_bound_by lt gt pos elems x s, set_upper_bound_by lt gt pos elems x s)"

definition set_not_eq :: "enum_set \<Rightarrow> enum_set \<Rightarrow> bool" where
  "set_not_eq lhs rhs = (\<not> bitset_eq (words lhs) (words rhs))"

definition set_less_eq :: "(int \<Rightarrow> nat option) \<Rightarrow> int list \<Rightarrow> enum_set \<Rightarrow> enum_set \<Rightarrow> bool" where
  "set_less_eq pos elems lhs rhs = (\<not> set_less pos elems rhs lhs)"

definition set_greater :: "(int \<Rightarrow> nat option) \<Rightarrow> int list \<Rightarrow> enum_set \<Rightarrow> enum_set \<Rightarrow> bool" where
  "set_greater pos elems lhs rhs = set_less pos elems rhs lhs"

definition set_greater_eq :: "(int \<Rightarrow> nat option) \<Rightarrow> int list \<Rightarrow> enum_set \<Rightarrow> enum_set \<Rightarrow> bool" where
  "set_greater_eq pos elems lhs rhs = (\<not> set_less pos elems lhs rhs)"

section \<open>What the search finds\<close>

text \<open>The search stays in the range, and returns the position behind an element it saw to be less, or
  the start.\<close>

lemma lower_bound_loop_found:
  "first \<le> it \<Longrightarrow> it + len \<le> length xs \<Longrightarrow>
    \<exists>r. lower_bound_loop lt xs x first it len = Some r \<and> first \<le> r \<and> r \<le> length xs \<and>
      (r = first \<or> (0 < r \<and> lt (xs ! (r - 1)) x))"
proof (induction lt xs x first it len rule: lower_bound_loop.induct)
  case (1 lt xs x first it len)
  show ?case
  proof (cases "len > 0")
    case True
    define it' where "it' = it + len div 2"
    have b: "it' < length xs" "it' + (len div 2) \<le> length xs" "it' + 1 + (len - (len div 2 + 1)) \<le> length xs"
      using True "1.prems"(2) times_div_less_eq_dividend[of 2 len] div_less_dividend[of 2 len] unfolding it'_def by linarith+
    note unfold = lower_bound_loop.simps[of lt xs x first it len]
    show ?thesis
    proof (cases "lt (xs ! it') x")
      case less: True
      have "lower_bound_loop lt xs x first it len = lower_bound_loop lt xs x (it' + 1) (it' + 1) (len - (len div 2 + 1))"
        using True less b(1) by (subst unfold) (simp add: Let_def it'_def)
      moreover obtain r where "lower_bound_loop lt xs x (it' + 1) (it' + 1) (len - (len div 2 + 1)) = Some r" "it' + 1 \<le> r"
          "r \<le> length xs" "r = it' + 1 \<or> (0 < r \<and> lt (xs ! (r - 1)) x)"
        using "1.IH"(1)[OF True refl it'_def _ less] b by auto
      ultimately show ?thesis using less "1.prems"(1) by (intro exI[of _ r]) (auto simp: it'_def)
    next
      case False
      have "lower_bound_loop lt xs x first it len = lower_bound_loop lt xs x first it' (len div 2)"
        using True False b(1) by (subst unfold) (simp add: Let_def it'_def)
      then show ?thesis using "1.IH"(2)[OF True refl it'_def _ False] b "1.prems"(1) by (auto simp: it'_def)
    qed
  qed (use "1.prems" in \<open>simp add: lower_bound_loop.simps\<close>)
qed

lemma lower_bound_found:
  "\<exists>r. lower_bound lt xs x = Some r \<and> r \<le> length xs \<and> (r = 0 \<or> (0 < r \<and> lt (xs ! (r - 1)) x))"
  using lower_bound_loop_found[of 0 0 "length xs" xs lt x] by (auto simp: lower_bound_def)

lemma equal_range_found:
  "\<exists>f l. equal_range lt gt xs x = Some (f, l) \<and> f \<le> l \<and> l \<le> length xs \<and>
    (f = 0 \<or> lt (xs ! (f - 1)) x) \<and> (l = length xs \<or> gt x (xs ! l))"
proof -
  obtain f where f: "lower_bound lt xs x = Some f" "f \<le> length xs" "f = 0 \<or> (0 < f \<and> lt (xs ! (f - 1)) x)"
    using lower_bound_found[of lt xs x] by (elim exE conjE)
  let ?ys = "rev (drop f xs)"
  obtain r where r: "lower_bound (\<lambda>e x. gt x e) ?ys x = Some r" "r \<le> length ?ys" "r = 0 \<or> (0 < r \<and> gt x (?ys ! (r - 1)))"
    using lower_bound_found[of "\<lambda>e x. gt x e" ?ys x] by (elim exE conjE)
  have "gt x (xs ! (length xs - r))" if "0 < r"
  proof -
    have "?ys ! (r - 1) = xs ! (length xs - r)" using that r(2) f(2) by (simp add: rev_nth)
    then show ?thesis using r(3) that by auto
  qed
  then show ?thesis
    using f r by (intro exI[of _ f] exI[of _ "length xs - r"]) (auto simp: equal_range_def)
qed

text \<open>If the enumerators less than the key come first and those greater come last, everything equivalent
  to the key is in the range.\<close>

definition key_order :: "('a \<Rightarrow> 'k \<Rightarrow> bool) \<Rightarrow> ('k \<Rightarrow> 'a \<Rightarrow> bool) \<Rightarrow> 'a list \<Rightarrow> 'k \<Rightarrow> bool" where
  "key_order lt gt xs x \<longleftrightarrow>
     (\<forall>i j. i < j \<longrightarrow> j < length xs \<longrightarrow> (lt (xs ! j) x \<longrightarrow> lt (xs ! i) x) \<and> (gt x (xs ! i) \<longrightarrow> gt x (xs ! j)))"

lemma equal_range_covers:
  assumes "key_order lt gt xs x" "equal_range lt gt xs x = Some (f, l)" "i < length xs" "\<not> lt (xs ! i) x" "\<not> gt x (xs ! i)"
  shows "f \<le> i \<and> i < l"
proof -
  have r: "f = 0 \<or> lt (xs ! (f - 1)) x" "l = length xs \<or> gt x (xs ! l)" "f \<le> l" "l \<le> length xs"
    using equal_range_found[of lt gt xs x] assms(2) by auto
  have "f \<le> i"
  proof (rule ccontr)
    assume "\<not> f \<le> i"
    then have "i = f - 1 \<or> i < f - 1" "0 < f" by auto
    then show False using assms(1,4) r(1,3,4) by (auto simp: key_order_def)
  qed
  moreover have "i < l"
  proof (rule ccontr)
    assume "\<not> i < l"
    then have "i = l \<or> l < i" "l \<noteq> length xs" using assms(3) by auto
    then show False using assms(1,3,5) r(2) by (auto simp: key_order_def)
  qed
  ultimately show ?thesis by simp
qed

section \<open>The operations work on that range\<close>

context index_type
begin

lemma erase_positions_eq:
  "set_holds elems s V \<Longrightarrow> \<forall>p\<in>set ps. p < length elems \<Longrightarrow> distinct ps \<Longrightarrow>
    \<exists>s'. erase_positions pos elems ps c s = Some (s', c + card (V \<inter> (!) elems ` set ps)) \<and>
      set_holds elems s' (V - (!) elems ` set ps)"
proof (induction ps arbitrary: c s V)
  case (Cons p ps)
  let ?e = "elems ! p"
  obtain s' where s': "set_erase_key pos elems ?e s = Some (s', ?e \<in> V)" "set_holds elems s' (V - {?e})"
    using set_erase_in[OF Cons.prems(1), of ?e] Cons.prems(2) by auto
  obtain t where t: "erase_positions pos elems ps (c + of_bool (?e \<in> V)) s' =
      Some (t, c + of_bool (?e \<in> V) + card ((V - {?e}) \<inter> (!) elems ` set ps))"
    "set_holds elems t (V - {?e} - (!) elems ` set ps)"
    using Cons.IH[OF s'(2)] Cons.prems(2,3) by auto
  have new: "?e \<notin> (!) elems ` set ps"
    using Cons.prems(2,3) elems_distinct by (auto simp: nth_eq_iff_index_eq)
  have "card (V \<inter> insert y S) = of_bool (y \<in> V) + card ((V - {y}) \<inter> S)" if "y \<notin> S" "finite S" for y and S :: "int set"
  proof -
    have "(V - {y}) \<inter> S = V \<inter> S" using that by auto
    then show ?thesis using that by (auto simp: Int_insert_right card_insert_if)
  qed
  from this[OF new] have "card (V \<inter> insert ?e ((!) elems ` set ps)) = of_bool (?e \<in> V) + card ((V - {?e}) \<inter> (!) elems ` set ps)"
    by simp
  moreover have "V - insert ?e ((!) elems ` set ps) = V - {?e} - (!) elems ` set ps" by blast
  ultimately show ?case using s'(1) t by (intro exI[of _ t]) (simp only: erase_positions.simps option.case prod.case list.set image_insert add.assoc)
qed simp

lemma count_positions_eq:
  assumes "set_holds elems s V" "\<forall>p\<in>set ps. p < length elems" "distinct ps"
  shows "foldl (\<lambda>c p. c + of_bool (set_count pos elems (elems ! p) s)) (n :: nat) ps = n + card (V \<inter> (!) elems ` set ps)"
  using assms(2,3)
proof (induction ps arbitrary: n)
  case (Cons p ps)
  have "elems ! p \<notin> (!) elems ` set ps"
    using Cons.prems elems_distinct by (auto simp: nth_eq_iff_index_eq)
  then have "card (V \<inter> insert (elems ! p) ((!) elems ` set ps)) = of_bool (elems ! p \<in> V) + card (V \<inter> (!) elems ` set ps)"
    by auto
  then show ?case using Cons by (simp add: set_count_holds[OF assms(1)])
qed simp

lemma find_positions_eq:
  assumes "set_holds elems s V" "\<forall>p\<in>set ps. p < length elems" "sorted ps"
  shows "\<exists>i. find_positions pos elems ps s = Some i \<and>
    (if \<exists>p\<in>set ps. elems ! p \<in> V then i \<in> set ps \<and> elems ! i \<in> V \<and> (\<forall>p\<in>set ps. elems ! p \<in> V \<longrightarrow> i \<le> p) else i = length elems)"
  using assms(2,3)
proof (induction ps)
  case Nil
  then show ?case using set_end_eq assms(1) by (simp add: set_holds_def)
next
  case (Cons p ps)
  have "bitset_test (length elems) pos (words s) (elems ! p) = Inr (elems ! p \<in> V)"
    using holds_test(1) assms(1) Cons.prems(1) by (auto simp: set_holds_def)
  moreover have "set_find pos elems (elems ! p) s = Some (if elems ! p \<in> V then p else length elems)"
    using set_find_eq[OF assms(1), of "elems ! p"] pos_nth[of p] Cons.prems(1) by simp
  ultimately show ?case using Cons by (auto split: if_splits)
qed

lemma operations_by_key:
  assumes "set_holds elems s V"
  shows "\<exists>f l. equal_range lt gt elems x = Some (f, l) \<and> f \<le> l \<and> l \<le> length elems \<and>
    (let R = (!) elems ` {f..<l} in
      set_count_by lt gt pos elems x s = Some (card (V \<inter> R)) \<and>
      set_contains_by lt gt pos elems x s = Some (V \<inter> R \<noteq> {}) \<and>
      (\<exists>s'. set_erase_by lt gt pos elems x s = Some (s', card (V \<inter> R)) \<and> set_holds elems s' (V - R)) \<and>
      (\<exists>i. set_find_by lt gt pos elems x s = Some i \<and>
        (if V \<inter> R = {} then i = length elems else f \<le> i \<and> i < l \<and> elems ! i \<in> V)))"
proof -
  obtain f l where fl: "equal_range lt gt elems x = Some (f, l)" "f \<le> l" "l \<le> length elems"
    using equal_range_found[of lt gt elems x] by blast
  have ps: "\<forall>p\<in>set [f..<l]. p < length elems" "distinct [f..<l]" "sorted [f..<l]" using fl(3) by auto
  let ?R = "(!) elems ` {f..<l}"
  have fin: "finite (V \<inter> ?R)" by simp
  have cnt: "set_count_by lt gt pos elems x s = Some (card (V \<inter> ?R))"
    using count_positions_eq[OF assms ps(1,2), of 0] by (simp add: set_count_by_def fl(1))
  moreover have "set_contains_by lt gt pos elems x s = Some (V \<inter> ?R \<noteq> {})"
    using cnt fin by (simp add: set_contains_by_def card_gt_0_iff)
  moreover have "\<exists>s'. set_erase_by lt gt pos elems x s = Some (s', card (V \<inter> ?R)) \<and> set_holds elems s' (V - ?R)"
    using erase_positions_eq[OF assms ps(1,2), of 0] by (simp add: set_erase_by_def fl(1))
  moreover have "\<exists>i. set_find_by lt gt pos elems x s = Some i \<and>
      (if V \<inter> ?R = {} then i = length elems else f \<le> i \<and> i < l \<and> elems ! i \<in> V)"
    using find_positions_eq[OF assms ps(1,3)] by (auto simp: set_find_by_def fl(1) split: if_splits)
  ultimately show ?thesis using fl unfolding Let_def by blast
qed

end

section \<open>The comparisons\<close>

text \<open>The six comparisons are one linear order of the abstract sets.\<close>

context index_type
begin

lemma set_less_trans:
  assumes "set_holds elems s V" "set_holds elems t W" "set_holds elems u X"
    and "set_less pos elems s t" "set_less pos elems t u"
  shows "set_less pos elems s u"
proof (cases "members_count s = members_count t \<and> members_count t = members_count u")
  case True
  obtain i where i: "i < length elems" "elems ! i \<in> W" "elems ! i \<notin> V" "\<forall>k<i. elems ! k \<in> V \<longleftrightarrow> elems ! k \<in> W"
    using assms(4) True unfolding set_less_def set_less_loop_eq[OF assms(1,2)] by auto
  obtain j where j: "j < length elems" "elems ! j \<in> X" "elems ! j \<notin> W" "\<forall>k<j. elems ! k \<in> W \<longleftrightarrow> elems ! k \<in> X"
    using assms(5) True unfolding set_less_def set_less_loop_eq[OF assms(2,3)] by auto
  have "i \<noteq> j" using i(2) j(3) by blast
  have "min i j < length elems \<and> elems ! min i j \<in> X \<and> elems ! min i j \<notin> V \<and> (\<forall>k<min i j. elems ! k \<in> V \<longleftrightarrow> elems ! k \<in> X)"
    using i j \<open>i \<noteq> j\<close> by (cases "i < j") (auto simp: min_def)
  then show ?thesis using True unfolding set_less_def set_less_loop_eq[OF assms(1,3)] by auto
next
  case False
  then show ?thesis using assms(4,5) by (auto simp: set_less_def split: if_splits)
qed

lemma set_comparisons:
  assumes "set_holds elems s V" "set_holds elems t W"
  shows "set_less_eq pos elems s t \<longleftrightarrow> set_less pos elems s t \<or> V = W"
    and "set_greater pos elems s t \<longleftrightarrow> \<not> set_less_eq pos elems s t"
    and "set_greater_eq pos elems s t \<longleftrightarrow> set_less_eq pos elems t s"
    and "set_less_eq pos elems s t \<or> set_less_eq pos elems t s"
  using set_less_trichotomy[OF assms] by (auto simp: set_less_eq_def set_greater_def set_greater_eq_def)

end

section \<open>What a look-up by key promises, and what it does not\<close>

text \<open>C34: with any strict order that the key agrees with, \<open>count\<close>, \<open>contains\<close>, \<open>find\<close> and \<open>erase\<close> by key
  all work on one run of neighbouring enumerators, which has every enumerator equivalent to the key:
  an equivalent member is always counted, found and erased. The set stays well-formed, and what is
  erased is exactly the members in the run. Nothing is read outside the index.\<close>

theorem look_up_by_key:
  assumes "set_holds (indexing_elems E cmp) s V" "transp cmp" "asymp cmp"
    "\<forall>a b. \<not> cmp b a \<longrightarrow> (lt b x \<longrightarrow> lt a x) \<and> (gt x a \<longrightarrow> gt x b)"
  shows "\<exists>f l. f \<le> l \<and> l \<le> enum_count E \<and>
    (let R = (!) (indexing_elems E cmp) ` {f..<l} in
      {e \<in> set (enum_values E). \<not> lt e x \<and> \<not> gt x e} \<subseteq> R \<and>
      set_count_by lt gt (indexing_at E cmp) (indexing_elems E cmp) x s = Some (card (V \<inter> R)) \<and>
      set_contains_by lt gt (indexing_at E cmp) (indexing_elems E cmp) x s = Some (V \<inter> R \<noteq> {}) \<and>
      (\<exists>s'. set_erase_by lt gt (indexing_at E cmp) (indexing_elems E cmp) x s = Some (s', card (V \<inter> R)) \<and>
        set_holds (indexing_elems E cmp) s' (V - R)) \<and>
      (\<exists>i. set_find_by lt gt (indexing_at E cmp) (indexing_elems E cmp) x s = Some i \<and>
        (if V \<inter> R = {} then i = enum_count E else f \<le> i \<and> i < l \<and> indexing_elems E cmp ! i \<in> V)))"
proof -
  let ?xs = "indexing_elems E cmp"
  have "sorted_wrt (\<lambda>a b. \<not> cmp b a) ?xs" using assms(2,3) by (rule comparator_index.elems_sorted)
  then have order: "key_order lt gt ?xs x" using assms(4) by (simp add: key_order_def sorted_wrt_iff_nth_less) blast
  obtain f l where fl: "equal_range lt gt ?xs x = Some (f, l)" "f \<le> l" "l \<le> length ?xs"
    and ops: "let R = (!) ?xs ` {f..<l} in
      set_count_by lt gt (indexing_at E cmp) ?xs x s = Some (card (V \<inter> R)) \<and>
      set_contains_by lt gt (indexing_at E cmp) ?xs x s = Some (V \<inter> R \<noteq> {}) \<and>
      (\<exists>s'. set_erase_by lt gt (indexing_at E cmp) ?xs x s = Some (s', card (V \<inter> R)) \<and> set_holds ?xs s' (V - R)) \<and>
      (\<exists>i. set_find_by lt gt (indexing_at E cmp) ?xs x s = Some i \<and>
        (if V \<inter> R = {} then i = length ?xs else f \<le> i \<and> i < l \<and> ?xs ! i \<in> V))"
    using comparator_index.operations_by_key[OF assms(1), of lt gt x] by blast
  have "{e \<in> set (enum_values E). \<not> lt e x \<and> \<not> gt x e} \<subseteq> (!) ?xs ` {f..<l}"
  proof
    fix e assume e: "e \<in> {e \<in> set (enum_values E). \<not> lt e x \<and> \<not> gt x e}"
    then have "e \<in> set ?xs" using comparator_bits.elems_values[of E cmp] by simp
    then obtain i where "i < length ?xs" "?xs ! i = e" by (auto simp: in_set_conv_nth)
    then show "e \<in> (!) ?xs ` {f..<l}" using equal_range_covers[OF order fl(1)] e by (auto intro!: image_eqI[of _ _ i])
  qed
  then show ?thesis using fl(2,3) ops unfolding Let_def length_indexing_elems by blast
qed

text \<open>Seven enumerators, all in the set. The key 3 is equivalent to one of them; erasing by it erases three.\<close>

definition seven :: enum_type where
  "seven = \<lparr>u_min = - 128, u_max = 127, u_digits = 7, range_min = 1, range_max = 7, is_flags = False,
     castable = (\<lambda>_. True), custom_name = (\<lambda>v. Custom_tag ''Name''), signature = (\<lambda>_. [])\<rparr>"

lemma seven_elems: "indexing_elems seven (<) = [1, 2, 3, 4, 5, 6, 7]"
  by code_simp

lemma seven_holds: "set_holds (indexing_elems seven (<)) \<lparr>words = [127], members_count = 7\<rparr> {1, 2, 3, 4, 5, 6, 7}"
proof -
  have "rep 7 [127] {..<7}"
  proof -
    have "rep 7 (bitset_set_all 7 (bitset_new 7)) {..<7}" using rep_set_all[OF rep_new] by simp
    moreover have "bitset_set_all 7 (bitset_new 7) = [127]" by code_simp
    ultimately show ?thesis by simp
  qed
  moreover have "{..<7} = {i. i < 7 \<and> [1, 2, 3, 4, 5, 6, 7 :: int] ! i \<in> {1, 2, 3, 4, 5, 6, 7}}"
    by (auto simp: less_Suc_eq eval_nat_numeral)
  ultimately show ?thesis by (simp add: set_holds_def holds_def seven_elems eval_nat_numeral)
qed

lemma look_up_by_key_witness:
  "\<exists>f l s'. set_erase_by (<) (<) (indexing_at seven (<)) (indexing_elems seven (<)) 3 \<lparr>words = [127], members_count = 7\<rparr> =
      Some (s', card ({1, 2, 3, 4, 5, 6, 7} \<inter> (!) (indexing_elems seven (<)) ` {f..<l})) \<and>
    3 \<in> (!) (indexing_elems seven (<)) ` {f..<l}"
proof -
  have v: "3 \<in> set (enum_values seven)" by code_simp
  have o: "transp ((<) :: int \<Rightarrow> int \<Rightarrow> bool)" "asymp ((<) :: int \<Rightarrow> int \<Rightarrow> bool)"
    "\<forall>a b :: int. \<not> b < a \<longrightarrow> (b < 3 \<longrightarrow> a < 3) \<and> (3 < a \<longrightarrow> 3 < b)"
    by (auto simp: transp_def intro: asympI)
  show ?thesis using look_up_by_key[where lt = "(<)" and gt = "(<)", OF seven_holds o] v unfolding Let_def by fastforce
qed

lemma erase_by_key_erases_others:
  "\<exists>s'. set_erase_by (<) (<) (indexing_at seven (<)) (indexing_elems seven (<)) 3 \<lparr>words = [127], members_count = 7\<rparr> = Some (s', 3) \<and>
    set_holds (indexing_elems seven (<)) s' {4, 5, 6, 7}"
proof -
  have "equal_range (<) (<) (indexing_elems seven (<)) 3 = Some (0, 3)" unfolding seven_elems by code_simp
  moreover have "(!) [1, 2, 3, 4, 5, 6, 7 :: int] ` {0..<3} = {1, 2, 3}" by (auto simp: numeral_3_eq_3 atLeast0_lessThan_Suc)
  ultimately show ?thesis
    using comparator_index.operations_by_key[OF seven_holds, of "(<)" "(<)" 3]
    by (auto simp: seven_elems Let_def insert_commute)
qed

end
