(* ===== verification/Container_Rest.thy ===== *)
theory Container_Rest
  imports Set_Lookup
begin

text \<open>
  \<open>magic_enum_containers.hpp\<close>: the members of the containers that are made of others. The stream
  operators and binary operators of \<open>bitset\<close>, the assignment of a list to a \<open>set\<close> and the inserts with
  a hint, and \<open>to_array\<close>, \<open>make_array\<close> and \<open>get\<close> of \<open>array\<close>. What is written to a stream is not always
  what is read back, and a list is added to a set, not assigned.
\<close>

section \<open>The code\<close>

definition bitset_and_copy :: "nat \<Rightarrow> int list \<Rightarrow> int list \<Rightarrow> int list" where
  "bitset_and_copy n lhs rhs = (let cp = lhs in bitset_and n cp rhs)"

definition bitset_or_copy :: "nat \<Rightarrow> int list \<Rightarrow> int list \<Rightarrow> int list" where
  "bitset_or_copy n lhs rhs = (let cp = lhs in bitset_or n cp rhs)"

definition bitset_xor_copy :: "nat \<Rightarrow> int list \<Rightarrow> int list \<Rightarrow> int list" where
  "bitset_xor_copy n lhs rhs = (let cp = lhs in bitset_xor n cp rhs)"

text \<open>A stream is the characters to be read, or those written so far. Reading a string skips white
  space and takes the characters up to the next.\<close>

definition is_space :: "char \<Rightarrow> bool" where
  "is_space c \<longleftrightarrow> c \<in> {CHR '' '', CHR 0x09, CHR 0x0A, CHR 0x0B, CHR 0x0C, CHR 0x0D}"

definition read_word :: "string \<Rightarrow> string \<times> string" where
  "read_word i = (let t = dropWhile is_space i in (takeWhile (\<lambda>c. \<not> is_space c) t, dropWhile (\<lambda>c. \<not> is_space c) t))"

definition bitset_put :: "enum_type \<Rightarrow> (int \<Rightarrow> nat option) \<Rightarrow> int list \<Rightarrow> string \<Rightarrow> container_error + string" where
  "bitset_put E pos bs out = map_sum id (\<lambda>s. out @ s) (bitset_to_string E pos CHR ''|'' bs)"

text \<open>The constructor from a string starts from whatever the memory holds, \<open>mem\<close>.\<close>

definition bitset_get ::
  "enum_type \<Rightarrow> (int \<Rightarrow> nat option) \<Rightarrow> int list \<Rightarrow> string \<Rightarrow> int list \<Rightarrow> container_error + int list \<times> string" where
  "bitset_get E pos mem i bs =
     (case read_word i of (s, rest) \<Rightarrow>
        if s \<noteq> [] then map_sum id (\<lambda>a. (a, rest)) (of_names E pos None CHR ''|'' s mem) else Inr (bs, rest))"

text \<open>\<open>set\<close>: assignment of a list, which has no \<open>return\<close>; what it leaves in the set.\<close>

fun set_assign_list :: "(int \<Rightarrow> nat option) \<Rightarrow> int list \<Rightarrow> int list \<Rightarrow> enum_set \<Rightarrow> enum_set" where
  "set_assign_list pos elems [] s = s"
| "set_assign_list pos elems (e # ilist) s = set_assign_list pos elems ilist (fst (set_insert pos elems e s))"

definition set_insert_hint :: "(int \<Rightarrow> nat option) \<Rightarrow> int list \<Rightarrow> nat \<Rightarrow> int \<Rightarrow> enum_set \<Rightarrow> enum_set \<times> nat option" where
  "set_insert_hint pos elems hint v s = (case set_insert pos elems v s of (s', it, r) \<Rightarrow> (s', it))"

text \<open>\<open>array\<close>: \<open>get\<close> with a number below the size and with an enumerator; \<open>to_array\<close> and \<open>make_array\<close> take
  exactly as many elements as there are enumerators. \<open>None\<close> does not compile.\<close>

definition array_get :: "enum_type \<Rightarrow> nat \<Rightarrow> 'v list \<Rightarrow> 'v option" where
  "array_get E i a = (if i < enum_count E then Some (a ! i) else None)"

definition array_get_enum :: "enum_type \<Rightarrow> (int \<Rightarrow> nat option) \<Rightarrow> int \<Rightarrow> 'v list \<Rightarrow> 'v option" where
  "array_get_enum E pos e a = (if e \<in> set (enum_values E) then array_subscript pos a e else None)"

definition to_array :: "enum_type \<Rightarrow> 'v list \<Rightarrow> 'v list option" where
  "to_array E a = (if enum_count E = length a then Some (map (\<lambda>i. a ! i) [0..<length a]) else None)"

definition make_array :: "enum_type \<Rightarrow> 'v list \<Rightarrow> 'v list option" where
  "make_array E ts = (if enum_count E = length ts then Some ts else None)"

section \<open>Streams\<close>

lemma read_word_plain: "\<forall>c\<in>set s. \<not> is_space c \<Longrightarrow> rest = [] \<or> is_space (hd rest) \<Longrightarrow> read_word (s @ rest) =
    (if s = [] then read_word rest else (s, rest))"
  by (cases s; cases rest) (auto simp: read_word_def Let_def dropWhile_append takeWhile_append)

lemma join_sep_chars: "c \<in> set (join_sep sep ns) \<Longrightarrow> c = sep \<or> (\<exists>n\<in>set ns. c \<in> set n)"
  by (induction ns rule: join_sep.induct) auto

lemma join_sep_empty: "[] \<notin> set ns \<Longrightarrow> join_sep sep ns = [] \<longleftrightarrow> ns = []"
  by (induction ns rule: join_sep.induct) auto

text \<open>What is written is one word, which is empty only when the bitset is: reading it back gives the
  members, joined to whatever bits were in the memory, and an empty one leaves the bitset read into as it
  was.\<close>

lemma written_word:
  assumes "holds (enum_values E) a V" "\<forall>f\<in>set (enum_values E). \<forall>c\<in>set (printed E f). \<not> is_space c"
  shows "\<exists>s. bitset_to_string E (enum_index E) CHR ''|'' a = Inr s \<and> (s = [] \<longleftrightarrow> V = {}) \<and> (\<forall>c\<in>set s. \<not> is_space c)"
proof -
  let ?ns = "map (printed E) (filter (\<lambda>e. e \<in> V) (enum_values E))"
  have "[] \<notin> set ?ns" using printed_nonempty by fastforce
  moreover have "?ns = [] \<longleftrightarrow> V = {}" using holds_sub[OF assms(1)] by (auto simp: filter_empty_conv)
  moreover have "\<not> is_space c" if "c \<in> set (join_sep CHR ''|'' ?ns)" for c
    using join_sep_chars[OF that] assms(2) by (auto simp: is_space_def)
  ultimately show ?thesis using default_bits.to_string_eq[OF assms(1), of "CHR ''|''"] join_sep_empty[of ?ns] by blast
qed

theorem put_get:
  assumes "holds (enum_values E) a V" "holds (enum_values E) mem W" "distinct (enum_names E)"
    and plain: "\<forall>f\<in>set (enum_values E). CHR ''|'' \<notin> set (printed E f) \<and> (\<forall>c\<in>set (printed E f). \<not> is_space c)"
    and rest: "rest = [] \<or> is_space (hd rest)"
  shows "\<exists>s. bitset_put E (enum_index E) a out = Inr (out @ s) \<and>
    (if V = {} then s = [] \<and> bitset_get E (enum_index E) mem (s @ []) b = Inr (b, [])
     else \<exists>a'. bitset_get E (enum_index E) mem (s @ rest) b = Inr (a', rest) \<and> holds (enum_values E) a' (W \<union> V))"
proof -
  obtain s where s: "bitset_to_string E (enum_index E) CHR ''|'' a = Inr s" "s = [] \<longleftrightarrow> V = {}" "\<forall>c\<in>set s. \<not> is_space c"
    using written_word[OF assms(1)] plain by blast
  have put: "bitset_put E (enum_index E) a out = Inr (out @ s)" using s(1) by (simp add: bitset_put_def)
  have sep: "\<forall>f\<in>set (enum_values E). CHR ''|'' \<notin> set (printed E f)" using plain by blast
  show ?thesis
  proof (cases "V = {}")
    case True
    then show ?thesis using put s(2) by (auto simp: bitset_get_def read_word_def)
  next
    case False
    obtain a' where "of_names E (enum_index E) None CHR ''|'' s mem = Inr a'" "holds (enum_values E) a' (W \<union> V)"
      using default_bits.names_round_trip[OF assms(1,3) sep assms(2)] s(1) by auto
    then show ?thesis using put False s(2) read_word_plain[OF s(3) rest] by (auto simp: bitset_get_def)
  qed
qed

section \<open>Lists and sets\<close>

lemma set_assign_list_eq: "set_assign_list pos elems vs s = set_insert_list pos elems vs s"
  by (induction vs arbitrary: s) (simp_all add: set_insert_list_def)

text \<open>The assignment adds the members of the list to those the set had; the values outside the
  enumeration are skipped.\<close>

context index_type
begin

lemma set_insert_list_holds: "set_holds elems s V \<Longrightarrow> set_holds elems (set_insert_list pos elems vs s) (V \<union> (set vs \<inter> set elems))"
proof (induction vs arbitrary: s V)
  case (Cons v vs)
  have ne: "elems \<noteq> []" using Cons.prems by (simp add: set_holds_def)
  show ?case
  proof (cases "v \<in> set elems")
    case True
    from set_insert_in[OF Cons.prems True] have "set_holds elems (fst (set_insert pos elems v s)) (insert v V)" by auto
    from Cons.IH[OF this] True show ?thesis by (simp add: set_insert_list_def)
  next
    case False
    then show ?thesis using Cons.IH[OF Cons.prems] set_outside(1)[OF ne False] by (simp add: set_insert_list_def)
  qed
qed (simp add: set_insert_list_def)

lemma set_of_list_holds: "elems \<noteq> [] \<Longrightarrow> set_holds elems (set_of_list pos elems vs) (set vs \<inter> set elems)"
  using set_insert_list_holds[OF set_holds_new, of vs] by (simp add: set_of_list_def set_insert_list_def)

lemma insert_hint_ignored: "fst (set_insert_hint pos elems hint v s) = fst (set_insert pos elems v s)"
  by (simp add: set_insert_hint_def split_def)

end

theorem assigning_a_list_adds:
  "set_holds (indexing_elems E cmp) s V \<Longrightarrow>
   set_holds (indexing_elems E cmp) (set_assign_list (indexing_at E cmp) (indexing_elems E cmp) vs s) (V \<union> (set vs \<inter> set (enum_values E)))"
  using comparator_index.set_insert_list_holds[of E cmp s V vs] comparator_bits.elems_values[of E cmp]
  by (simp add: set_assign_list_eq)

section \<open>Binary operators and arrays\<close>

lemma binary_operators:
  assumes "holds elems a V" "holds elems b W"
  shows "holds elems (bitset_and_copy (length elems) a b) (V \<inter> W)"
    "holds elems (bitset_or_copy (length elems) a b) (V \<union> W)"
    "holds elems (bitset_xor_copy (length elems) a b) ((V - W) \<union> (W - V))"
  using holds_bitwise[OF assms] by (simp_all add: bitset_and_copy_def bitset_or_copy_def bitset_xor_copy_def)

lemma array_from_list: "to_array E a = make_array E a" "make_array E a = Some b \<Longrightarrow> b = a \<and> length b = enum_count E"
  by (auto simp: to_array_def make_array_def map_nth split: if_splits)

lemma get_of_made:
  assumes "make_array E a = Some b" "e \<in> set (enum_values E)"
  shows "\<exists>i. enum_index E e = Some i \<and> array_get E i b = Some (a ! i) \<and> array_get_enum E (enum_index E) e b = Some (a ! i)"
proof -
  obtain i where i: "enum_index E e = Some i" using default_index.pos_elem[OF assms(2)] by blast
  have "enum_values E \<noteq> []" using assms(2) by auto
  then have "i < enum_count E" using default_index.pos_Some[of E e i] i by (simp add: enum_count_def)
  then show ?thesis using i assms array_from_list(2)[OF assms(1)] by (auto simp: array_get_def array_get_enum_def array_subscript_def)
qed

end
