(* ===== verification/Name_Keys.thy ===== *)
theory Name_Keys
  imports Container_Rest
begin

text \<open>
  \<open>magic_enum_containers.hpp\<close>: sets ordered by the names of their enumerators, and searched with a
  string (\<open>name_less_case_insensitive\<close>, \<open>name_greater_case_insensitive\<close>). The order of names is one
  that \<open>Set_Lookup\<close> asks for, so an enumerator of that name is found; but the run that is searched can
  hold others too.
\<close>

section \<open>The code\<close>

text \<open>\<open>name_sort_impl<void, Cmp>\<close>: an enumerator against a string, and a string against an enumerator.\<close>

definition name_key_less :: "enum_type \<Rightarrow> (char \<Rightarrow> char \<Rightarrow> bool) \<Rightarrow> int \<Rightarrow> string \<Rightarrow> bool" where
  "name_key_less E cmp e1 e2 = lexicographical_compare cmp (enum_name E e1) e2"

definition name_key_greater :: "enum_type \<Rightarrow> (char \<Rightarrow> char \<Rightarrow> bool) \<Rightarrow> string \<Rightarrow> int \<Rightarrow> bool" where
  "name_key_greater E cmp e1 e2 = lexicographical_compare cmp e1 (enum_name E e2)"

section \<open>The order of names\<close>

definition weak_order :: "('a \<Rightarrow> 'a \<Rightarrow> bool) \<Rightarrow> bool" where
  "weak_order lt \<longleftrightarrow> (\<forall>a b. lt a b \<longrightarrow> \<not> lt b a) \<and> (\<forall>a b c. lt a c \<longrightarrow> lt a b \<or> lt b c)"

lemma weak_order_asym: "weak_order lt \<Longrightarrow> lt a b \<Longrightarrow> \<not> lt b a"
  unfolding weak_order_def by blast

lemma weak_order_between: "weak_order lt \<Longrightarrow> lt a c \<Longrightarrow> lt a b \<or> lt b c"
  unfolding weak_order_def by blast

lemma weak_order_compare:
  assumes "weak_order lt"
  shows "weak_order (lexicographical_compare lt)"
proof -
  have asym: "lexicographical_compare lt xs ys \<Longrightarrow> \<not> lexicographical_compare lt ys xs" for xs ys
  proof (induction xs arbitrary: ys)
    case (Cons x xs)
    then show ?case by (cases ys) (auto dest: weak_order_asym[OF assms] split: if_splits)
  qed (cases ys; simp)
  have between: "lexicographical_compare lt xs zs \<Longrightarrow> lexicographical_compare lt xs ys \<or> lexicographical_compare lt ys zs" for xs ys zs
  proof (induction xs arbitrary: ys zs)
    case Nil
    then show ?case by (cases ys; cases zs) auto
  next
    case (Cons x xs)
    then obtain z zs' where z: "zs = z # zs'" by (cases zs) auto
    show ?case
    proof (cases ys)
      case Nil
      then show ?thesis using z by simp
    next
      case y: (Cons y ys')
      have "lt x z \<or> \<not> lt z x \<and> lexicographical_compare lt xs zs'"
        using Cons.prems z by (simp split: if_splits)
      moreover have "lexicographical_compare lt xs zs' \<Longrightarrow>
          lexicographical_compare lt xs ys' \<or> lexicographical_compare lt ys' zs'"
        by (rule Cons.IH)
      moreover have "lt x z \<Longrightarrow> lt x y \<or> lt y z" "lt y x \<Longrightarrow> lt y z \<or> lt z x" "lt z y \<Longrightarrow> lt z x \<or> lt x y"
        using weak_order_between[OF assms] by blast+
      ultimately have "(lt x y \<or> \<not> lt y x \<and> lexicographical_compare lt xs ys') \<or>
          (lt y z \<or> \<not> lt z y \<and> lexicographical_compare lt ys' zs')"
        by blast
      then show ?thesis by (auto simp: z y)
    qed
  qed
  show ?thesis unfolding weak_order_def using asym between by blast
qed

lemma weak_order_on: "weak_order lt \<Longrightarrow> weak_order (\<lambda>a b. lt (f a) (f b))"
  unfolding weak_order_def by blast

lemma weak_order_linorder: "weak_order ((<) :: 'a :: linorder \<Rightarrow> 'a \<Rightarrow> bool)" "weak_order ((>) :: 'a \<Rightarrow> 'a \<Rightarrow> bool)"
  by (auto simp: weak_order_def)

lemma weak_order_names:
  assumes "weak_order cmp"
  shows "transp (name_sort E cmp)" "asymp (name_sort E cmp)"
    "\<not> name_sort E cmp b a \<Longrightarrow> name_key_less E cmp b x \<Longrightarrow> name_key_less E cmp a x"
    "\<not> name_sort E cmp b a \<Longrightarrow> name_key_greater E cmp x a \<Longrightarrow> name_key_greater E cmp x b"
proof -
  note w = weak_order_compare[OF assms]
  show "transp (name_sort E cmp)"
    by (rule transpI) (use weak_order_asym[OF w] weak_order_between[OF w] in \<open>unfold name_sort_def, blast\<close>)
  show "asymp (name_sort E cmp)"
    by (rule asympI) (use weak_order_asym[OF w] in \<open>unfold name_sort_def, blast\<close>)
  show "name_key_less E cmp a x" if "\<not> name_sort E cmp b a" "name_key_less E cmp b x"
    using that weak_order_between[OF w, of "enum_name E b" x "enum_name E a"] by (auto simp: name_sort_def name_key_less_def)
  show "name_key_greater E cmp x b" if "\<not> name_sort E cmp b a" "name_key_greater E cmp x a"
    using that weak_order_between[OF w, of x "enum_name E a" "enum_name E b"] by (auto simp: name_sort_def name_key_greater_def)
qed

text \<open>Ignoring case, what is neither before nor behind the string is what has that name.\<close>

lemma same_name:
  "\<not> name_key_less E (case_insensitive (<)) e x \<and> \<not> name_key_greater E (case_insensitive (<)) x e \<longleftrightarrow>
   map to_lower (enum_name E e) = map to_lower x"
proof -
  have "\<not> lexicographical_compare (case_insensitive (<)) s t \<and> \<not> lexicographical_compare (case_insensitive (<)) t s \<longleftrightarrow>
      map to_lower s = map to_lower t" for s t
    by (induction s arbitrary: t; case_tac t) (auto simp: case_insensitive_def)
  then show ?thesis by (simp add: name_key_less_def name_key_greater_def)
qed

section \<open>Finding an enumerator by its name\<close>

text \<open>The operations with a string work on one run of the enumerators sorted by name, and every enumerator
  of that name, whatever the case, is in it.\<close>

theorem find_by_name:
  fixes E x
  defines "cmp \<equiv> case_insensitive (<)"
  defines "xs \<equiv> indexing_elems E (name_sort E cmp)" and "pos \<equiv> indexing_at E (name_sort E cmp)"
  assumes "set_holds xs s V"
  shows "\<exists>f l. {e \<in> set (enum_values E). map to_lower (enum_name E e) = map to_lower x} \<subseteq> (!) xs ` {f..<l} \<and>
    (let R = (!) xs ` {f..<l} in
      set_count_by (name_key_less E cmp) (name_key_greater E cmp) pos xs x s = Some (card (V \<inter> R)) \<and>
      set_contains_by (name_key_less E cmp) (name_key_greater E cmp) pos xs x s = Some (V \<inter> R \<noteq> {}) \<and>
      (\<exists>s'. set_erase_by (name_key_less E cmp) (name_key_greater E cmp) pos xs x s = Some (s', card (V \<inter> R)) \<and> set_holds xs s' (V - R)))"
proof -
  have w: "weak_order cmp"
    unfolding cmp_def case_insensitive_def[abs_def] by (rule weak_order_on[OF weak_order_linorder(1)])
  have sw: "sorted_wrt (\<lambda>a b. \<not> name_sort E cmp b a) xs"
    unfolding xs_def using weak_order_names(1,2)[OF w] by (rule comparator_index.elems_sorted)
  have order: "key_order (name_key_less E cmp) (name_key_greater E cmp) xs x"
    unfolding key_order_def
  proof (intro allI impI)
    fix i j assume "i < j" "j < length xs"
    then have "\<not> name_sort E cmp (xs ! j) (xs ! i)" using sw by (simp add: sorted_wrt_iff_nth_less)
    then show "(name_key_less E cmp (xs ! j) x \<longrightarrow> name_key_less E cmp (xs ! i) x) \<and>
        (name_key_greater E cmp x (xs ! i) \<longrightarrow> name_key_greater E cmp x (xs ! j))"
      using weak_order_names(3,4)[OF w] by blast
  qed
  obtain f l where fl: "equal_range (name_key_less E cmp) (name_key_greater E cmp) xs x = Some (f, l)"
    and ops: "let R = (!) xs ` {f..<l} in
      set_count_by (name_key_less E cmp) (name_key_greater E cmp) pos xs x s = Some (card (V \<inter> R)) \<and>
      set_contains_by (name_key_less E cmp) (name_key_greater E cmp) pos xs x s = Some (V \<inter> R \<noteq> {}) \<and>
      (\<exists>s'. set_erase_by (name_key_less E cmp) (name_key_greater E cmp) pos xs x s = Some (s', card (V \<inter> R)) \<and> set_holds xs s' (V - R))"
    using comparator_index.operations_by_key[OF assms(4)[unfolded xs_def], of "name_key_less E cmp" "name_key_greater E cmp" x]
    unfolding xs_def pos_def Let_def by blast
  have "{e \<in> set (enum_values E). map to_lower (enum_name E e) = map to_lower x} \<subseteq> (!) xs ` {f..<l}"
  proof
    fix e assume e: "e \<in> {e \<in> set (enum_values E). map to_lower (enum_name E e) = map to_lower x}"
    then have "e \<in> set xs" using comparator_bits.elems_values[of E "name_sort E cmp"] by (simp add: xs_def)
    then obtain i where i: "i < length xs" "xs ! i = e" by (auto simp: in_set_conv_nth)
    have "\<not> name_key_less E cmp (xs ! i) x" "\<not> name_key_greater E cmp x (xs ! i)"
      using e i(2) same_name[of E e x] by (simp_all add: cmp_def)
    from equal_range_covers[OF order fl i(1) this] i(2) show "e \<in> (!) xs ` {f..<l}" by (auto intro: image_eqI[of _ _ i])
  qed
  then show ?thesis using ops by blast
qed

text \<open>Seven enumerators named a to g. A set that holds only a says that it contains C.\<close>

definition letters :: enum_type where
  "letters = \<lparr>u_min = - 128, u_max = 127, u_digits = 7, range_min = 1, range_max = 7, is_flags = False,
     castable = (\<lambda>_. True), custom_name = (\<lambda>v. Custom_tag [''abcdefg'' ! nat (v - 1)]), signature = (\<lambda>_. [])\<rparr>"

lemma letters_values: "enum_values letters = [1, 2, 3, 4, 5, 6, 7]"
  by code_simp

lemma letters_names: "map (enum_name letters) [1, 2, 3, 4, 5, 6, 7] = [''a'', ''b'', ''c'', ''d'', ''e'', ''f'', ''g'']"
  by code_simp

lemma letters_name: "enum_name letters 1 = ''a''" "enum_name letters 2 = ''b''" "enum_name letters 3 = ''c''"
  "enum_name letters 4 = ''d''" "enum_name letters 5 = ''e''" "enum_name letters 6 = ''f''" "enum_name letters 7 = ''g''"
  using letters_names by simp_all

lemma letters_order:
  "\<forall>(a, s)\<in>set (zip [1..7] [''a'', ''b'', ''c'', ''d'', ''e'', ''f'', ''g'']). \<forall>(b, t)\<in>set (zip [1..7] [''a'', ''b'', ''c'', ''d'', ''e'', ''f'', ''g'']).
     lexicographical_compare (case_insensitive (<)) s t \<longleftrightarrow> a < (b :: int)"
  by code_simp

lemma letters_sorted: "indexing_elems letters (name_sort letters (case_insensitive (<))) = [1, 2, 3, 4, 5, 6, 7]"
proof -
  let ?cmp = "name_sort letters (case_insensitive (<))" and ?xs = "indexing_elems letters (name_sort letters (case_insensitive (<)))"
  have m: "mset ?xs = mset [1, 2, 3, 4, 5, 6, 7]" using mset_indexing_elems[of letters ?cmp] by (simp add: letters_values)
  have w: "weak_order (case_insensitive (<))"
    unfolding case_insensitive_def[abs_def] by (rule weak_order_on[OF weak_order_linorder(1)])
  have names: "(a, enum_name letters a) \<in> set (zip [1..7] [''a'', ''b'', ''c'', ''d'', ''e'', ''f'', ''g''])" if "a \<in> set ?xs" for a
    using that mset_eq_setD[OF m] by (auto simp: upto_rec1 letters_name)
  have "?cmp a b \<longleftrightarrow> a < b" if "a \<in> set ?xs" "b \<in> set ?xs" for a b
    using letters_order names[OF that(1)] names[OF that(2)] unfolding name_sort_def by blast
  moreover have "sorted_wrt (\<lambda>a b. \<not> ?cmp b a) ?xs"
    using weak_order_names(1,2)[OF w] by (rule comparator_index.elems_sorted)
  ultimately have "sorted ?xs" by (auto elim!: sorted_wrt_mono_rel[rotated])
  from properties_for_sort[OF m this] show ?thesis by simp
qed

lemma letters_run:
  "equal_range (name_key_less letters (case_insensitive (<))) (name_key_greater letters (case_insensitive (<))) [1, 2, 3, 4, 5, 6, 7] ''C'' = Some (0, 3)"
  by code_simp

lemma contains_wrong_name:
  fixes s
  defines "xs \<equiv> indexing_elems letters (name_sort letters (case_insensitive (<)))"
    and "pos \<equiv> indexing_at letters (name_sort letters (case_insensitive (<)))"
  assumes "set_holds xs s {1}"
  shows "enum_name letters 1 = ''a'' \<and> enum_name letters 3 = ''c'' \<and> \<not> set_contains pos xs 3 s \<and>
    set_contains_by (name_key_less letters (case_insensitive (<))) (name_key_greater letters (case_insensitive (<))) pos xs ''C'' s = Some True"
proof -
  have "(!) [1, 2, 3, 4, 5, 6, 7 :: int] ` {0..<3} = {1, 2, 3}" by (auto simp: numeral_3_eq_3 atLeast0_lessThan_Suc)
  then have "set_contains_by (name_key_less letters (case_insensitive (<))) (name_key_greater letters (case_insensitive (<))) pos xs ''C'' s = Some True"
    using comparator_index.operations_by_key[OF assms(3)[unfolded xs_def], of "name_key_less letters (case_insensitive (<))"
        "name_key_greater letters (case_insensitive (<))" "''C''"]
    by (auto simp: xs_def pos_def letters_sorted letters_run Let_def)
  moreover have "\<not> set_contains pos xs 3 s"
    using comparator_index.set_count_holds[OF assms(3)[unfolded xs_def], of 3] by (simp add: set_contains_def xs_def pos_def)
  ultimately show ?thesis by (simp add: letters_name)
qed

end
