(* ===== verification/Name_Hash.thy ===== *)
theory Name_Hash
  imports Prelude "HOL-Library.Char_ord"
begin

text \<open>
  \<open>magic_enum.hpp\<close>: the hash of an enumerator's name that selects a case of the compile-time switch,
  and the secondary hash used when two names collide. The primary hash is proved to be CRC-32, the
  polynomial division of the bytes, and the table to be that of its remainders; the secondary hash,
  which is computed in 64 bits and masked, to be FNV-1a in 32-bit arithmetic with every byte sign
  extended. Both equal the standard hashes on ASCII names.
\<close>

section \<open>The code\<close>

text \<open>A \<open>char\<close> is signed on the targets; converting it to an unsigned type extends the sign.\<close>

definition char_to_uint32 :: "char \<Rightarrow> 32 word" where
  "char_to_uint32 c = scast (of_char c :: 8 word)"

definition char_to_uint64 :: "char \<Rightarrow> 64 word" where
  "char_to_uint64 c = scast (of_char c :: 8 word)"

definition crc_table :: "32 word list" where
  "crc_table =
   [0x00000000, 0x77073096, 0xee0e612c, 0x990951ba, 0x076dc419, 0x706af48f, 0xe963a535, 0x9e6495a3,
    0x0edb8832, 0x79dcb8a4, 0xe0d5e91e, 0x97d2d988, 0x09b64c2b, 0x7eb17cbd, 0xe7b82d07, 0x90bf1d91,
    0x1db71064, 0x6ab020f2, 0xf3b97148, 0x84be41de, 0x1adad47d, 0x6ddde4eb, 0xf4d4b551, 0x83d385c7,
    0x136c9856, 0x646ba8c0, 0xfd62f97a, 0x8a65c9ec, 0x14015c4f, 0x63066cd9, 0xfa0f3d63, 0x8d080df5,
    0x3b6e20c8, 0x4c69105e, 0xd56041e4, 0xa2677172, 0x3c03e4d1, 0x4b04d447, 0xd20d85fd, 0xa50ab56b,
    0x35b5a8fa, 0x42b2986c, 0xdbbbc9d6, 0xacbcf940, 0x32d86ce3, 0x45df5c75, 0xdcd60dcf, 0xabd13d59,
    0x26d930ac, 0x51de003a, 0xc8d75180, 0xbfd06116, 0x21b4f4b5, 0x56b3c423, 0xcfba9599, 0xb8bda50f,
    0x2802b89e, 0x5f058808, 0xc60cd9b2, 0xb10be924, 0x2f6f7c87, 0x58684c11, 0xc1611dab, 0xb6662d3d,
    0x76dc4190, 0x01db7106, 0x98d220bc, 0xefd5102a, 0x71b18589, 0x06b6b51f, 0x9fbfe4a5, 0xe8b8d433,
    0x7807c9a2, 0x0f00f934, 0x9609a88e, 0xe10e9818, 0x7f6a0dbb, 0x086d3d2d, 0x91646c97, 0xe6635c01,
    0x6b6b51f4, 0x1c6c6162, 0x856530d8, 0xf262004e, 0x6c0695ed, 0x1b01a57b, 0x8208f4c1, 0xf50fc457,
    0x65b0d9c6, 0x12b7e950, 0x8bbeb8ea, 0xfcb9887c, 0x62dd1ddf, 0x15da2d49, 0x8cd37cf3, 0xfbd44c65,
    0x4db26158, 0x3ab551ce, 0xa3bc0074, 0xd4bb30e2, 0x4adfa541, 0x3dd895d7, 0xa4d1c46d, 0xd3d6f4fb,
    0x4369e96a, 0x346ed9fc, 0xad678846, 0xda60b8d0, 0x44042d73, 0x33031de5, 0xaa0a4c5f, 0xdd0d7cc9,
    0x5005713c, 0x270241aa, 0xbe0b1010, 0xc90c2086, 0x5768b525, 0x206f85b3, 0xb966d409, 0xce61e49f,
    0x5edef90e, 0x29d9c998, 0xb0d09822, 0xc7d7a8b4, 0x59b33d17, 0x2eb40d81, 0xb7bd5c3b, 0xc0ba6cad,
    0xedb88320, 0x9abfb3b6, 0x03b6e20c, 0x74b1d29a, 0xead54739, 0x9dd277af, 0x04db2615, 0x73dc1683,
    0xe3630b12, 0x94643b84, 0x0d6d6a3e, 0x7a6a5aa8, 0xe40ecf0b, 0x9309ff9d, 0x0a00ae27, 0x7d079eb1,
    0xf00f9344, 0x8708a3d2, 0x1e01f268, 0x6906c2fe, 0xf762575d, 0x806567cb, 0x196c3671, 0x6e6b06e7,
    0xfed41b76, 0x89d32be0, 0x10da7a5a, 0x67dd4acc, 0xf9b9df6f, 0x8ebeeff9, 0x17b7be43, 0x60b08ed5,
    0xd6d6a3e8, 0xa1d1937e, 0x38d8c2c4, 0x4fdff252, 0xd1bb67f1, 0xa6bc5767, 0x3fb506dd, 0x48b2364b,
    0xd80d2bda, 0xaf0a1b4c, 0x36034af6, 0x41047a60, 0xdf60efc3, 0xa867df55, 0x316e8eef, 0x4669be79,
    0xcb61b38c, 0xbc66831a, 0x256fd2a0, 0x5268e236, 0xcc0c7795, 0xbb0b4703, 0x220216b9, 0x5505262f,
    0xc5ba3bbe, 0xb2bd0b28, 0x2bb45a92, 0x5cb36a04, 0xc2d7ffa7, 0xb5d0cf31, 0x2cd99e8b, 0x5bdeae1d,
    0x9b64c2b0, 0xec63f226, 0x756aa39c, 0x026d930a, 0x9c0906a9, 0xeb0e363f, 0x72076785, 0x05005713,
    0x95bf4a82, 0xe2b87a14, 0x7bb12bae, 0x0cb61b38, 0x92d28e9b, 0xe5d5be0d, 0x7cdcefb7, 0x0bdbdf21,
    0x86d3d2d4, 0xf1d4e242, 0x68ddb3f8, 0x1fda836e, 0x81be16cd, 0xf6b9265b, 0x6fb077e1, 0x18b74777,
    0x88085ae6, 0xff0f6a70, 0x66063bca, 0x11010b5c, 0x8f659eff, 0xf862ae69, 0x616bffd3, 0x166ccf45,
    0xa00ae278, 0xd70dd2ee, 0x4e048354, 0x3903b3c2, 0xa7672661, 0xd06016f7, 0x4969474d, 0x3e6e77db,
    0xaed16a4a, 0xd9d65adc, 0x40df0b66, 0x37d83bf0, 0xa9bcae53, 0xdebb9ec5, 0x47b2cf7f, 0x30b5ffe9,
    0xbdbdf21c, 0xcabac28a, 0x53b39330, 0x24b4a3a6, 0xbad03605, 0xcdd70693, 0x54de5729, 0x23d967bf,
    0xb3667a2e, 0xc4614ab8, 0x5d681b02, 0x2a6f2b94, 0xb40bbe37, 0xc30c8ea1, 0x5a05df1b, 0x2d02ef8d]"

definition crc_step :: "32 word \<Rightarrow> char \<Rightarrow> 32 word" where
  "crc_step crc c = drop_bit 8 crc XOR crc_table ! unat ((crc XOR char_to_uint32 c) AND 0xff)"

definition crc_hash :: "string \<Rightarrow> 32 word" where
  "crc_hash name = foldl crc_step 0xffffffff name XOR 0xffffffff"

definition fnv_step :: "64 word \<Rightarrow> char \<Rightarrow> 64 word" where
  "fnv_step acc c = ((acc XOR char_to_uint64 c) * 16777619) AND 0xffffffff"

definition secondary_hash :: "string \<Rightarrow> 32 word" where
  "secondary_hash name = ucast (foldl fnv_step 2166136261 name)"

section \<open>CRC-32\<close>

text \<open>One step of the division by the polynomial, least significant bit first; eight of them take in
  a byte.\<close>

definition divide_bit :: "32 word \<Rightarrow> 32 word" where
  "divide_bit r = (if bit r 0 then drop_bit 1 r XOR 0xedb88320 else drop_bit 1 r)"

definition divide_byte :: "32 word \<Rightarrow> 32 word" where
  "divide_byte r = (divide_bit ^^ 8) r"

definition crc32 :: "string \<Rightarrow> 32 word" where
  "crc32 name = foldl (\<lambda>r c. divide_byte (r XOR of_char c)) (NOT 0) name XOR NOT 0"

text \<open>Division is linear, and shifts out a byte that is zero.\<close>

lemma divide_bit_xor: "divide_bit (x XOR y) = divide_bit x XOR divide_bit y"
  by (rule bit_word_eqI) (auto simp: divide_bit_def bit_xor_iff bit_drop_bit_eq)

lemma divide_byte_xor: "divide_byte (x XOR y) = divide_byte x XOR divide_byte y"
proof -
  have "(divide_bit ^^ k) (x XOR y) = (divide_bit ^^ k) x XOR (divide_bit ^^ k) y" for k
    by (induction k) (simp_all add: divide_bit_xor)
  then show ?thesis by (simp add: divide_byte_def)
qed

lemma divide_byte_high:
  assumes "\<And>n. n < 8 \<Longrightarrow> \<not> bit x n"
  shows "divide_byte x = drop_bit 8 x"
proof -
  have "(divide_bit ^^ k) x = drop_bit k x" if "k \<le> 8" for k
    using that
  proof (induction k)
    case (Suc k)
    then have "\<not> bit (drop_bit k x) 0" using assms[of k] by (simp add: bit_drop_bit_eq)
    then show ?case using Suc by (simp add: divide_bit_def drop_bit_drop_bit)
  qed simp
  then show ?thesis by (simp add: divide_byte_def)
qed

text \<open>The same division on integers, to compute the table's entries.\<close>

definition int_divide_bit :: "int \<Rightarrow> int" where
  "int_divide_bit k = (if odd k then (k div 2) XOR 0xedb88320 else k div 2)"

lemma int_divide_bit_numeral [simp]:
  "int_divide_bit 0 = 0"
  "int_divide_bit 1 = 0xedb88320"
  "int_divide_bit (numeral (num.Bit0 n)) = numeral n"
  "int_divide_bit (numeral (num.Bit1 n)) = numeral n XOR 0xedb88320"
  by (simp_all add: int_divide_bit_def)

lemma uint_divide_bit: "uint (divide_bit w) = int_divide_bit (uint w)"
proof -
  have half: "uint (drop_bit 1 w) = uint w div 2"
    by (simp only: drop_bit_eq_div uint_div power_one_right) simp
  have "bit w 0 \<longleftrightarrow> odd (uint w)" by (metis bit_0 bit_uint_iff len_gt_0)
  moreover have "uint (0xedb88320 :: 32 word) = 0xedb88320" by simp
  ultimately show ?thesis
    unfolding divide_bit_def int_divide_bit_def if_distrib[of uint] unsigned_xor_eq half by (simp only:)
qed

definition int_divide_byte :: "int \<Rightarrow> int" where
  "int_divide_byte k =
    int_divide_bit (int_divide_bit (int_divide_bit (int_divide_bit (int_divide_bit (int_divide_bit (int_divide_bit (int_divide_bit (k))))))))"

lemma uint_divide_byte: "uint (divide_byte w) = int_divide_byte (uint w)"
  by (simp add: divide_byte_def int_divide_byte_def eval_nat_numeral uint_divide_bit)

lemma int_table: "map (\<lambda>k. int_divide_byte (int k)) [0..<256] = map uint crc_table"
  by (simp add: crc_table_def int_divide_byte_def upt_conv_Cons)

lemma length_crc_table: "length crc_table = 256"
  using arg_cong[OF int_table, of length] by (simp only: length_map length_upt diff_zero)

lemma crc_table_nth:
  assumes "i < 256"
  shows "crc_table ! i = divide_byte (of_nat i)"
proof -
  have "uint (crc_table ! i) = map uint crc_table ! i" using assms by (simp add: length_crc_table)
  also have "\<dots> = int_divide_byte (int i)"
    using assms unfolding int_table[symmetric] by (subst nth_map_upt) simp_all
  also have "int i = uint (of_nat i :: 32 word)" using assms by (simp add: unsigned_of_nat take_bit_nat_eq_self)
  finally show ?thesis by (simp only: uint_divide_byte word_uint_eq_iff)
qed

lemma and_low_byte: "x AND 0xff = take_bit 8 (x :: 'a :: len word)"
  by (simp add: take_bit_eq_mask mask_eq_exp_minus_1)

lemma bit_of_char [simp]: "bit (of_char c :: 'a :: len word) n \<longleftrightarrow> n < LENGTH('a) \<and> bit (of_char c :: int) n"
proof -
  have "(of_char c :: 'a word) = word_of_int (of_char c)" by (simp add: of_int_of_char)
  then show ?thesis by (simp only: bit_word_of_int_iff)
qed

lemma bit_char_less: "bit (of_char c :: int) n \<Longrightarrow> n < 8"
proof -
  assume b: "bit (of_char c :: int) n"
  have "take_bit 8 (of_char c :: int) = of_char c"
    by (simp add: take_bit_eq_mod)
  then show "n < 8" using b by (metis bit_take_bit_iff)
qed

lemma crc_step_divides: "crc_step r c = divide_byte (r XOR of_char c)"
proof -
  let ?x = "r XOR of_char c :: 32 word"
  have min: "min 7 n = n" if "n < 8" for n :: nat using that by simp
  have low: "(r XOR char_to_uint32 c) AND 0xff = take_bit 8 ?x"
    unfolding and_low_byte by (rule bit_word_eqI) (auto simp: char_to_uint32_def bit_simps min dest: bit_char_less)
  have small: "unat (take_bit 8 ?x) < 256"
    using take_bit_nat_less_exp[of 8 "unat ?x"] by (simp only: unsigned_take_bit_eq) simp
  have "bit (of_char c :: 32 word) n \<Longrightarrow> n < 8" for n by (auto dest: bit_char_less)
  then have high: "drop_bit 8 (?x XOR take_bit 8 ?x) = drop_bit 8 r" "\<And>n. n < 8 \<Longrightarrow> \<not> bit (?x XOR take_bit 8 ?x) n"
    by (auto intro!: bit_word_eqI simp: bit_simps dest: bit_char_less)
  define b where "b = take_bit 8 ?x"
  have "?x = (?x XOR b) XOR b" by (simp add: xor.assoc)
  then have "divide_byte ?x = divide_byte (?x XOR b) XOR divide_byte b"
    by (metis divide_byte_xor)
  also have "divide_byte (?x XOR b) = drop_bit 8 r" using divide_byte_high[OF high(2)] high(1) by (simp only: b_def)
  also have "divide_byte b = crc_table ! unat b" using crc_table_nth[OF small] by (simp add: b_def)
  finally show ?thesis by (simp only: crc_step_def low b_def)
qed

lemma crc_hash_crc32: "crc_hash name = crc32 name"
proof -
  have "0xffffffff = (NOT 0 :: 32 word)" by simp
  then show ?thesis unfolding crc_hash_def crc32_def crc_step_divides by (simp only:)
qed

text \<open>The same on integers, to compute examples.\<close>

lemma uint_crc_hash:
  "uint (crc_hash name) = foldl (\<lambda>k c. int_divide_byte (k XOR of_char c)) 0xffffffff name XOR 0xffffffff"
proof -
  have "uint (of_char c :: 32 word) = of_char c" for c
    by (rule bit_eqI) (auto simp: bit_uint_iff dest: bit_char_less)
  then have "uint (foldl (\<lambda>r c. divide_byte (r XOR of_char c)) r name) = foldl (\<lambda>k c. int_divide_byte (k XOR of_char c)) (uint r) name" for r
    by (induction name arbitrary: r) (simp_all add: uint_divide_byte unsigned_xor_eq)
  moreover have "uint (NOT 0 :: 32 word) = 0xffffffff" by (simp add: unsigned_minus_1_eq_mask mask_eq_exp_minus_1)
  ultimately show ?thesis by (simp only: crc_hash_crc32 crc32_def unsigned_xor_eq)
qed

section \<open>The secondary hash\<close>

definition fnv1a :: "(char \<Rightarrow> 32 word) \<Rightarrow> string \<Rightarrow> 32 word" where
  "fnv1a byte name = foldl (\<lambda>r c. (r XOR byte c) * 16777619) 2166136261 name"

lemma ucast_mult: "(ucast (x * y :: 64 word) :: 32 word) = ucast x * ucast y"
proof -
  have "take_bit 32 (take_bit 64 (a * b)) = take_bit 32 (take_bit 64 a * take_bit 64 b)" for a b :: int
  proof -
    have "take_bit 32 (take_bit 64 a * take_bit 64 b) = take_bit 32 (take_bit 32 (take_bit 64 a) * take_bit 32 (take_bit 64 b))"
      by (rule take_bit_mult[symmetric])
    then show ?thesis by (simp add: take_bit_mult)
  qed
  then show ?thesis by transfer simp
qed

lemma ucast_low: "(ucast (x AND 0xffffffff :: 64 word) :: 32 word) = ucast x"
proof -
  have "x AND 0xffffffff = take_bit 32 x" by (simp add: take_bit_eq_mask mask_eq_exp_minus_1)
  then show ?thesis by (auto intro: bit_word_eqI simp: bit_simps)
qed

lemma ucast_char: "ucast (char_to_uint64 c) = char_to_uint32 c"
  by (rule bit_word_eqI) (auto simp: char_to_uint32_def char_to_uint64_def bit_simps)

lemma ucast_xor_64: "(ucast (x XOR y :: 64 word) :: 32 word) = ucast x XOR ucast y"
  by (rule bit_word_eqI) (auto simp: bit_simps)

lemma ucast_fnv_step: "(ucast (fnv_step a c) :: 32 word) = (ucast a XOR char_to_uint32 c) * 16777619"
proof -
  have "(ucast (16777619 :: 64 word) :: 32 word) = 16777619" by simp
  then show ?thesis unfolding fnv_step_def ucast_low ucast_mult ucast_xor_64 ucast_char by (simp only:)
qed

lemma secondary_hash_fnv1a: "secondary_hash name = fnv1a char_to_uint32 name"
proof -
  have "(ucast (foldl fnv_step a name) :: 32 word) = foldl (\<lambda>r c. (r XOR char_to_uint32 c) * 16777619) (ucast a) name" for a
    by (induction name arbitrary: a) (simp_all only: foldl_Cons foldl_Nil ucast_fnv_step)
  moreover have "(ucast (2166136261 :: 64 word) :: 32 word) = 2166136261" by simp
  ultimately show ?thesis unfolding secondary_hash_def fnv1a_def by (simp only:)
qed

lemma ascii_char:
  assumes "\<not> bit (of_char c :: int) 7"
  shows "char_to_uint32 c = of_char c"
proof -
  have low: "n < 7" if "bit (of_char c :: int) n" for n
    using bit_char_less[OF that] assms that by (cases "n = 7") auto
  show ?thesis
    using assms by (intro bit_word_eqI) (auto simp: char_to_uint32_def bit_simps min_def dest: low)
qed

section \<open>What the hashes are\<close>

text \<open>C38: the table-driven primary hash of every name is CRC-32 as polynomial division bit by bit,
  and the secondary hash, computed in 64 bits and masked in each step, is FNV-1a over 32-bit words in
  which each byte is sign extended; on ASCII names it is FNV-1a proper. The table has exactly the 256
  entries the index can reach.\<close>

theorem name_hashes:
  "crc_hash name = crc32 name \<and> secondary_hash name = fnv1a char_to_uint32 name \<and>
   ((\<forall>c\<in>set name. \<not> bit (of_char c :: int) 7) \<longrightarrow> secondary_hash name = fnv1a of_char name) \<and>
   (length crc_table = 256 \<and> (\<forall>c r. unat ((r XOR char_to_uint32 c) AND 0xff) < length crc_table))"
proof -
  have "secondary_hash name = fnv1a of_char name" if "\<forall>c\<in>set name. \<not> bit (of_char c :: int) 7"
    unfolding secondary_hash_fnv1a fnv1a_def by (rule foldl_cong) (use that ascii_char in auto)
  moreover have "unat ((r XOR char_to_uint32 c) AND 0xff) < 256" for r c
    using take_bit_nat_less_exp[of 8 "unat (r XOR char_to_uint32 c)"]
    unfolding and_low_byte unsigned_take_bit_eq by simp
  ultimately show ?thesis by (simp add: crc_hash_crc32 length_crc_table secondary_hash_fnv1a)
qed

text \<open>The published values for the name of one letter.\<close>

lemma name_hashes_witness:
  "crc_hash ''a'' = 0xe8b7be43 \<and> secondary_hash ''a'' = 0xe40c292c"
proof -
  have "\<forall>c\<in>set ''a''. \<not> bit (of_char c :: int) 7" by simp
  moreover have "divide_byte (- 98) = 0x174841bc" by (simp add: word_uint_eq_iff uint_divide_byte int_divide_byte_def)
  then have "crc32 ''a'' = 0xe8b7be43" by (simp add: crc32_def)
  moreover have "fnv1a of_char ''a'' = 0xe40c292c" by (simp add: fnv1a_def)
  ultimately show ?thesis using name_hashes[of "''a''"] by metis
qed

end
