(* ===== verification/Enum_Utility.thy ===== *)
theory Enum_Utility
  imports Enum_Flags
begin

text \<open>
  The functions built on the reflection: \<open>enum_for_each\<close> (\<open>magic_enum_utility.hpp\<close>), \<open>enum_switch\<close>
  (\<open>magic_enum_switch.hpp\<close>), \<open>enum_fuse\<close> (\<open>magic_enum_fuse.hpp\<close>), stream output and input
  (\<open>magic_enum_iostream.hpp\<close>) and \<open>format_as\<close> (\<open>magic_enum_format.hpp\<close>).
\<close>

section \<open>Visiting and switching\<close>

definition enum_for_each :: "enum_type \<Rightarrow> (int \<Rightarrow> 'r) \<Rightarrow> 'r list" where
  "enum_for_each E f = map f (enum_values E)"

text \<open>The visitor is \<open>None\<close> at an enumerator it cannot be called with.\<close>

fun constexpr_switch_impl :: "enum_type \<Rightarrow> nat list \<Rightarrow> (int \<Rightarrow> 'r option) \<Rightarrow> int \<Rightarrow> 'r \<Rightarrow> 'r" where
  "constexpr_switch_impl E [] f value d = d"
| "constexpr_switch_impl E (i # is) f value d =
     (if value = enum_value E i then (case f (enum_value E i) of Some r \<Rightarrow> r | None \<Rightarrow> d)
      else constexpr_switch_impl E is f value d)"

definition enum_switch :: "enum_type \<Rightarrow> (int \<Rightarrow> 'r option) \<Rightarrow> int \<Rightarrow> 'r \<Rightarrow> 'r" where
  "enum_switch E f value d =
     (if enum_count E = 0 then d else constexpr_switch_impl E [0..<enum_count E] f value d)"

lemma constexpr_switch_impl_eq:
  "set is \<subseteq> {..<enum_count E} \<Longrightarrow> constexpr_switch_impl E is f value d =
    (if value \<in> (!) (enum_values E) ` set is then (case f value of Some r \<Rightarrow> r | None \<Rightarrow> d) else d)"
  by (induction "is") (auto simp: enum_value_nth)

lemma enum_switch_eq:
  "enum_switch E f value d = (if value \<in> set (enum_values E) then (case f value of Some r \<Rightarrow> r | None \<Rightarrow> d) else d)"
proof -
  have "(!) (enum_values E) ` set [0..<enum_count E] = set (enum_values E)"
    by (metis map_nth_values set_map)
  then show ?thesis by (auto simp: enum_switch_def constexpr_switch_impl_eq enum_count_def atLeast0LessThan)
qed

section \<open>Fusing several enumeration values\<close>

text \<open>The number of bits a value of the enumeration takes.\<close>

definition fuse_bits :: "enum_type \<Rightarrow> nat" where
  "fuse_bits E = nat (log2 (2 * int (enum_count E) - 1))"

definition fuse_one_enum :: "int option \<Rightarrow> enum_type \<times> int \<Rightarrow> int option" where
  "fuse_one_enum hash x =
     (case hash of
        Some h \<Rightarrow> (case enum_index (fst x) (snd x) of
                     Some i \<Rightarrow> Some (take_bit 64 (push_bit (fuse_bits (fst x)) h) OR int i)
                   | None \<Rightarrow> None)
      | None \<Rightarrow> None)"

text \<open>The last value is fused with 0; the list is never empty in the code.\<close>

fun fuse_enum :: "(enum_type \<times> int) list \<Rightarrow> int option" where
  "fuse_enum [] = Some 0"
| "fuse_enum (x # xs) = fuse_one_enum (fuse_enum xs) x"

lemma log2_loop_bounds:
  "1 \<le> v \<Longrightarrow> r \<le> log2_loop v r \<and> 2 ^ nat (log2_loop v r - r) \<le> v \<and> v < 2 ^ Suc (nat (log2_loop v r - r))"
proof (induction v r rule: log2_loop.induct)
  case (1 v r)
  show ?case
  proof (cases "v > 1")
    case False
    then have "v = 1" using 1(2) by simp
    then show ?thesis by (simp add: log2_loop.simps)
  next
    case True
    let ?l = "log2_loop (drop_bit 1 v) (r + 1)"
    have l: "log2_loop v r = ?l" using True by (subst log2_loop.simps) simp
    have h: "drop_bit 1 v = v div 2" by (simp add: drop_bit_eq_div)
    have IH: "r + 1 \<le> ?l" "2 ^ nat (?l - (r + 1)) \<le> v div 2" "v div 2 < 2 ^ Suc (nat (?l - (r + 1)))"
      using 1(1)[OF True] True unfolding h by auto
    have e: "nat (?l - r) = Suc (nat (?l - (r + 1)))" using IH(1) by linarith
    define p where "p = (2 :: int) ^ nat (?l - (r + 1))"
    have "p \<le> v div 2" "v div 2 < 2 * p" using IH(2,3) by (simp_all add: p_def)
    then have "2 * p \<le> v" "v < 2 * (2 * p)" by linarith+
    then show ?thesis unfolding l e using IH(1) by (simp add: p_def)
  qed
qed

lemma fuse_bits_enough:
  assumes "enum_count E > 0"
  shows "int (enum_count E) \<le> 2 ^ fuse_bits E"
proof -
  have "1 \<le> 2 * int (enum_count E) - 1" using assms by simp
  from log2_loop_bounds[OF this, of 0]
  have "2 * int (enum_count E) - 1 < 2 * 2 ^ fuse_bits E" by (simp add: fuse_bits_def log2_def)
  then show ?thesis by linarith
qed

lemma fuse_join:
  fixes h i :: int
  assumes "0 \<le> h" "0 \<le> i" "i < 2 ^ b"
  shows "push_bit b h OR i = h * 2 ^ b + i" "(push_bit b h OR i) mod 2 ^ b = i" "(push_bit b h OR i) div 2 ^ b = h"
proof -
  have "\<forall>n. bit i n \<longrightarrow> n < b" using assms(2,3) bits_below_iff[of i b] by blast
  then have "push_bit b h AND i = 0" by (auto simp: bit_eq_iff bit_and_iff bit_push_bit_iff)
  then have "push_bit b h OR i = push_bit b h + i" using plus_and_or[of "push_bit b h" i] by simp
  then show e: "push_bit b h OR i = h * 2 ^ b + i" by (simp add: push_bit_eq_mult)
  show "(push_bit b h OR i) mod 2 ^ b = i" "(push_bit b h OR i) div 2 ^ b = h" unfolding e using assms by simp_all
qed

lemma fuse_enum_bound:
  "sum_list (map (\<lambda>x. fuse_bits (fst x)) xs) \<le> 64 \<Longrightarrow> \<forall>x\<in>set xs. enum_count (fst x) > 0 \<Longrightarrow> fuse_enum xs = Some h \<Longrightarrow>
   0 \<le> h \<and> h < 2 ^ sum_list (map (\<lambda>x. fuse_bits (fst x)) xs)"
proof (induction xs arbitrary: h)
  case (Cons x xs)
  obtain h' i where h': "fuse_enum xs = Some h'" "enum_index (fst x) (snd x) = Some i"
    "h = take_bit 64 (push_bit (fuse_bits (fst x)) h') OR int i"
    using Cons.prems(3) by (auto simp: fuse_one_enum_def split: option.splits)
  let ?b = "fuse_bits (fst x)" let ?s = "sum_list (map (\<lambda>x. fuse_bits (fst x)) xs)"
  have b: "0 \<le> h'" "h' < 2 ^ ?s" using Cons.IH[of h'] Cons.prems h'(1) by auto
  have "i < enum_count (fst x)" using enum_index_Some h'(2) Cons.prems(2) by auto
  then have i: "int i < 2 ^ ?b" using fuse_bits_enough[of "fst x"] Cons.prems(2) by auto
  have "h' * 2 ^ ?b + int i < (h' + 1) * 2 ^ ?b" using i by (simp add: algebra_simps)
  also have "\<dots> \<le> 2 ^ ?s * 2 ^ ?b" using b(2) by (intro mult_right_mono) auto
  finally have le: "h' * 2 ^ ?b + int i < 2 ^ (?b + ?s)" by (simp add: power_add mult.commute)
  then have "h' * 2 ^ ?b < 2 ^ (?b + ?s)" by linarith
  also have "(2 :: int) ^ (?b + ?s) \<le> 2 ^ 64" using Cons.prems(1) by (intro power_increasing) auto
  finally have "take_bit 64 (push_bit ?b h') = push_bit ?b h'"
    using b(1) by (simp add: take_bit_int_eq_self_iff push_bit_eq_mult)
  then have "h = h' * 2 ^ ?b + int i" using h'(3) fuse_join(1)[OF b(1) _ i] by simp
  then show ?case using le b(1) by simp
qed simp

text \<open>One step, without loss.\<close>

lemma fuse_step:
  assumes "fuse_bits E + s \<le> 64" "enum_count E > 0" "0 \<le> h'" "h' < 2 ^ s" "fuse_one_enum (Some h') (E, v) = Some h"
  shows "\<exists>i. enum_index E v = Some i \<and> h mod 2 ^ fuse_bits E = int i \<and> h div 2 ^ fuse_bits E = h'"
proof -
  obtain i where i: "enum_index E v = Some i" "h = take_bit 64 (push_bit (fuse_bits E) h') OR int i"
    using assms(5) by (auto simp: fuse_one_enum_def split: option.splits)
  have "i < enum_count E" using enum_index_Some[OF assms(2)] i(1) by auto
  then have lt: "int i < 2 ^ fuse_bits E" using fuse_bits_enough[OF assms(2)] by auto
  have "h' * 2 ^ fuse_bits E < 2 ^ s * 2 ^ fuse_bits E" using assms(4) by simp
  also have "\<dots> = 2 ^ (fuse_bits E + s)" by (simp add: power_add mult.commute)
  also have "(2 :: int) ^ (fuse_bits E + s) \<le> 2 ^ 64" using assms(1) by (intro power_increasing) auto
  finally have "take_bit 64 (push_bit (fuse_bits E) h') = push_bit (fuse_bits E) h'"
    using assms(3) by (simp add: take_bit_int_eq_self_iff push_bit_eq_mult)
  then show ?thesis using i fuse_join(2,3)[OF assms(3) _ lt] by auto
qed

lemma fuse_enum_inj:
  "sum_list (map fuse_bits Es) \<le> 64 \<Longrightarrow> \<forall>E\<in>set Es. enum_count E > 0 \<Longrightarrow> length vs = length Es \<Longrightarrow> length ws = length Es \<Longrightarrow>
   fuse_enum (zip Es vs) = Some h \<Longrightarrow> fuse_enum (zip Es ws) = Some h \<Longrightarrow> vs = ws"
proof (induction Es arbitrary: vs ws h)
  case (Cons E Es)
  obtain v vs' w ws' where vw: "vs = v # vs'" "ws = w # ws'" "length vs' = length Es" "length ws' = length Es"
    using Cons.prems(3,4) by (auto simp: length_Suc_conv)
  have some: "\<exists>h'. fuse_enum (zip Es us) = Some h' \<and> fuse_one_enum (Some h') (E, u) = Some h"
    if "fuse_enum (zip (E # Es) (u # us)) = Some h" for u us
    using that by (auto simp: fuse_one_enum_def split: option.splits)
  have m: "map (\<lambda>x. fuse_bits (fst x)) (zip Es us) = map fuse_bits Es" if "length us = length Es" for us :: "int list"
    using that map_map[of fuse_bits fst "zip Es us"] by (simp add: comp_def)
  have bound: "0 \<le> h' \<and> h' < 2 ^ sum_list (map fuse_bits Es)" if "fuse_enum (zip Es us) = Some h'" "length us = length Es" for us h'
  proof -
    have "\<forall>x\<in>set (zip Es us). enum_count (fst x) > 0" using Cons.prems(2) by (auto dest: set_zip_leftD)
    then show ?thesis using fuse_enum_bound[of "zip Es us" h'] that Cons.prems(1) m[OF that(2)] by simp
  qed
  obtain h1 where h1: "fuse_enum (zip Es vs') = Some h1" "fuse_one_enum (Some h1) (E, v) = Some h"
    using some[of v vs'] Cons.prems(5) vw by auto
  obtain h2 where h2: "fuse_enum (zip Es ws') = Some h2" "fuse_one_enum (Some h2) (E, w) = Some h"
    using some[of w ws'] Cons.prems(6) vw by auto
  have s: "fuse_bits E + sum_list (map fuse_bits Es) \<le> 64" and pos: "enum_count E > 0" using Cons.prems(1,2) by auto
  obtain i where i: "enum_index E v = Some i" "h mod 2 ^ fuse_bits E = int i" "h div 2 ^ fuse_bits E = h1"
    using fuse_step[OF s pos _ _ h1(2)] bound[OF h1(1) vw(3)] by blast
  obtain j where j: "enum_index E w = Some j" "h mod 2 ^ fuse_bits E = int j" "h div 2 ^ fuse_bits E = h2"
    using fuse_step[OF s pos _ _ h2(2)] bound[OF h2(1) vw(4)] by blast
  have "v = w" using i j enum_index_Some[OF pos] by auto
  moreover have "vs' = ws'"
    using Cons.IH[OF _ _ vw(3,4) h1(1)] h2(1) i(3) j(3) Cons.prems(1,2) by auto
  ultimately show ?case using vw by simp
qed simp

lemma fuse_enum_total:
  "length vs = length Es \<Longrightarrow> \<forall>E\<in>set Es. enum_count E > 0 \<Longrightarrow>
   fuse_enum (zip Es vs) \<noteq> None \<longleftrightarrow> (\<forall>(E, v)\<in>set (zip Es vs). v \<in> set (enum_values E))"
proof (induction Es arbitrary: vs)
  case (Cons E Es)
  then obtain v vs' where v: "vs = v # vs'" "length vs' = length Es" by (auto simp: length_Suc_conv)
  have "fuse_one_enum hash (E, v) \<noteq> None \<longleftrightarrow> hash \<noteq> None \<and> v \<in> set (enum_values E)" for hash
    using enum_index_None[of E v] Cons.prems(2) by (auto simp: fuse_one_enum_def split: option.splits)
  then show ?case using Cons.IH[OF v(2)] Cons.prems(2) v(1) by auto
qed simp

section \<open>Streams and formatting\<close>

text \<open>What is written for a value; \<open>show_int\<close> is how the stream, or \<open>std::to_string\<close>, writes the
  underlying integer.\<close>

definition text_of :: "(int \<Rightarrow> string) \<Rightarrow> enum_type \<Rightarrow> int \<Rightarrow> string" where
  "text_of show_int E value =
     (if is_flags E then
        (let name = enum_flags_name E value CHR ''|'' in if name \<noteq> [] then name else show_int value)
      else
        (let name = enum_name E value in if name \<noteq> [] then name else show_int value))"

text \<open>Reading a word: the new value and whether the fail bit is set.\<close>

definition stream_get :: "enum_type \<Rightarrow> string \<Rightarrow> int \<Rightarrow> int \<times> bool" where
  "stream_get E s value =
     (if is_flags E then
        (case enum_flags_cast_name E None CHR ''|'' s of Some v \<Rightarrow> (v, False) | None \<Rightarrow> (value, True))
      else
        (case enum_cast_name E None s of Some v \<Rightarrow> (v, False) | None \<Rightarrow> (value, True)))"

text \<open>What is written with a name is read back.\<close>

lemma stream_round_trip:
  assumes "distinct (enum_names E)"
    "if is_flags E then v \<noteq> 0 \<and> ors (members E v) = v \<and> (\<forall>f\<in>set (enum_values E). CHR ''|'' \<notin> set (printed E f))
     else v \<in> set (enum_values E)"
  shows "stream_get E (text_of show_int E v) w = (v, False)"
proof (cases "is_flags E")
  case True
  then have "v \<noteq> 0" "ors (members E v) = v" "\<forall>f\<in>set (enum_values E). CHR ''|'' \<notin> set (printed E f)" using assms(2) by auto
  then show ?thesis
    using True enum_flags_name_nonempty[of v E] enum_flags_name_round_trip[OF True assms(1)]
    by (simp add: stream_get_def text_of_def Let_def)
next
  case False
  then have v: "v \<in> set (enum_values E)" using assms(2) by simp
  then have "enum_count E > 0" by (auto simp: enum_count_def)
  then have "enum_name E v \<noteq> []" using v printed_nonempty by (simp add: enum_name_printed)
  then show ?thesis using False enum_cast_name_round_trip[OF assms(1) v] by (simp add: stream_get_def text_of_def)
qed

section \<open>What fusing promises\<close>

text \<open>C36: \<open>enum_fuse\<close> has a result exactly when every value is an enumerator of its enumeration, and
  different tuples of enumerators have different results, as long as the bits the indices need, the
  logarithm of twice the count less one for each enumeration, do not add up to more than 64.\<close>

theorem fuse_injective:
  assumes "sum_list (map fuse_bits Es) \<le> 64" "\<forall>E\<in>set Es. enum_count E > 0" "length vs = length Es" "length ws = length Es"
  shows "(fuse_enum (zip Es vs) \<noteq> None \<longleftrightarrow> (\<forall>(E, v)\<in>set (zip Es vs). v \<in> set (enum_values E))) \<and>
    (fuse_enum (zip Es vs) \<noteq> None \<longrightarrow> fuse_enum (zip Es vs) = fuse_enum (zip Es ws) \<longrightarrow> vs = ws)"
  using fuse_enum_total[OF assms(3,2)] fuse_enum_inj[OF assms] by (metis option.exhaust)

lemma fuse_injective_witness:
  "fuse_enum (zip [colours, access] [5, 8]) \<noteq> None \<and>
    fuse_enum (zip [colours, access] [5, 8]) \<noteq> fuse_enum (zip [colours, access] [1, 8])"
  using fuse_injective[of "[colours, access]" "[5, 8]" "[1, 8]"]
  by (simp add: fuse_bits_def colours_table access_table log2_def log2_loop.simps drop_bit_eq_div)

text \<open>The static assertion of \<open>enum_fuse\<close> counts the logarithm of the count plus one, one bit too few
  for five enumerators. With 22 such values it passes (44 bits), 66 bits are needed, and the first and
  the last enumerator in the last place give the same result.\<close>

definition five :: enum_type where
  "five = \<lparr>u_min = 0, u_max = 255, u_digits = 8, range_min = 0, range_max = 4, is_flags = False, castable = (\<lambda>_. True),
     custom_name = (\<lambda>v. Custom_tag ''E''), signature = (\<lambda>_. [])\<rparr>"

lemma five_table: "enum_count five = 5" "enum_values five = [0, 1, 2, 3, 4]"
  by code_simp+

lemma fuse_one_five: "0 \<le> v \<Longrightarrow> v \<le> 4 \<Longrightarrow> fuse_one_enum (Some h) (five, v) = Some (take_bit 64 (h * 8) OR v)"
proof -
  assume v: "0 \<le> v" "v \<le> 4"
  then have "enum_index five v = Some (nat v)"
    using enum_index_Some[of five v "nat v"] by (auto simp: five_table nth_Cons' split: if_splits)
  moreover have "fuse_bits five = 3" by (simp add: fuse_bits_def five_table log2_def log2_loop.simps drop_bit_eq_div)
  ultimately show ?thesis using v by (simp add: fuse_one_enum_def push_bit_eq_mult)
qed

lemma fuse_fives: "fuse_enum xs = Some h \<Longrightarrow> fuse_enum (replicate (Suc m) (five, 0) @ xs) = Some (take_bit 64 (h * 8 ^ Suc m))"
proof (induction m)
  case (Suc m)
  let ?x = "h * 8 ^ Suc m"
  have "fuse_enum (replicate (Suc (Suc m)) (five, 0) @ xs) = Some (take_bit 64 (take_bit 64 ?x * 8))"
    using Suc fuse_one_five[of 0 "take_bit 64 ?x"] by simp
  also have "take_bit 64 (take_bit 64 ?x * 8) = take_bit 64 (?x * 8)" unfolding take_bit_eq_mod by (rule mod_mult_left_eq)
  also have "?x * 8 = h * 8 ^ Suc (Suc m)" by simp
  finally show ?case .
qed (simp add: fuse_one_five)

lemma fuse_collision:
  "22 * log2 (int (enum_count five) + 1) \<le> 64 \<and>
   fuse_enum (replicate 21 (five, 0) @ [(five, 0)]) = fuse_enum (replicate 21 (five, 0) @ [(five, 4)])"
proof
  show "22 * log2 (int (enum_count five) + 1) \<le> 64" by (simp add: five_table log2_def log2_loop.simps drop_bit_eq_div)
  have "fuse_enum [(five, 0)] = Some 0" "fuse_enum [(five, 4)] = Some 4" by (simp_all add: fuse_one_five)
  moreover have "take_bit 64 (4 * 8 ^ Suc 20 :: int) = 0" by (simp add: take_bit_eq_mod)
  moreover have "replicate 21 (five, 0 :: int) = replicate (Suc 20) (five, 0)" by (simp only: eval_nat_numeral)
  ultimately show "fuse_enum (replicate 21 (five, 0) @ [(five, 0)]) = fuse_enum (replicate 21 (five, 0) @ [(five, 4)])"
    using fuse_fives[of "[(five, 0)]" 0 20] fuse_fives[of "[(five, 4)]" 4 20] by simp
qed

end
