(* ===== verification/Hash_Switch.thy ===== *)
theory Hash_Switch
  imports Name_Hash Enum_Utility
begin

text \<open>
  \<open>magic_enum.hpp\<close> with \<open>MAGIC_ENUM_ENABLE_HASH\<close>: \<open>constexpr_switch\<close>, a \<open>switch\<close> statement over hashes
  built at compile time, which replaces the searching loops of \<open>enum_switch\<close>, \<open>enum_index\<close> and
  \<open>enum_cast\<close>. A page of the switch has 256 case labels: the hashes of up to 256 table entries and, on
  the last page, other values of the hash type that fill the rest. A \<open>switch\<close> with equal labels does
  not compile; that is the result \<open>None\<close> here. The lambda is \<open>None\<close> at an index it cannot be called with.
\<close>

section \<open>Distinct hashes\<close>

text \<open>\<open>has_duplicate\<close> returns true when there is no duplicate: the hashes are sorted by insertion into
  an array, and two equal ones meet on the way.\<close>

fun sift_hash :: "int list \<Rightarrow> nat \<Rightarrow> int list option" where
  "sift_hash hs 0 = Some hs"
| "sift_hash hs (Suc i) =
     (if hs ! Suc i < hs ! i then sift_hash (hs[Suc i := hs ! i, i := hs ! Suc i]) i
      else if hs ! Suc i = hs ! i then None
      else Some hs)"

fun has_duplicate_loop :: "('v \<Rightarrow> int) \<Rightarrow> 'v list \<Rightarrow> nat \<Rightarrow> int list \<Rightarrow> bool" where
  "has_duplicate_loop hash [] n hs = True"
| "has_duplicate_loop hash (x # xs) n hs =
     (case sift_hash (hs[n := hash x]) n of
        None \<Rightarrow> False
      | Some hs' \<Rightarrow> has_duplicate_loop hash xs (n + 1) hs')"

definition has_duplicate :: "('v \<Rightarrow> int) \<Rightarrow> 'v list \<Rightarrow> bool" where
  "has_duplicate hash xs = has_duplicate_loop hash xs 0 (replicate (length xs) 0)"

section \<open>Case labels\<close>

text \<open>The labels of a page start as an array of 256 zeros. The hash type ranges from \<open>lo\<close> to \<open>hi\<close>. First
  the values behind the last hash fill the array, up to the largest value of the type.\<close>

function fill_up :: "int \<Rightarrow> int \<Rightarrow> nat \<Rightarrow> int list \<Rightarrow> nat \<times> int list" where
  "fill_up hi prev i res =
     (if i < length res \<and> prev \<noteq> hi then fill_up hi (prev + 1) (i + 1) (res[i := prev + 1]) else (i, res))"
  by auto
termination by (relation "measure (\<lambda>(hi, prev, i, res). length res - i)") auto

text \<open>Then the values from the smallest on fill it, passing over those met in the array from its front;
  reading behind the array is \<open>None\<close>.\<close>

function skip_taken :: "int list \<Rightarrow> int \<Rightarrow> nat \<Rightarrow> (int \<times> nat) option" where
  "skip_taken res v it =
     (if it < length res then (if v = res ! it then skip_taken res (v + 1) (it + 1) else Some (v, it)) else None)"
  by auto
termination by (relation "measure (\<lambda>(res, v, it). length res - it)") auto

function fill_low :: "int \<Rightarrow> nat \<Rightarrow> nat \<Rightarrow> int list \<Rightarrow> int list option" where
  "fill_low v it i res =
     (if i < length res then
        (case skip_taken res v it of
           None \<Rightarrow> None
         | Some (v', it') \<Rightarrow> fill_low (v' + 1) it' (i + 1) (res[i := v']))
      else Some res)"
  by auto
termination by (relation "measure (\<lambda>(v, it, i, res). length res - i)") auto

declare fill_up.simps [simp del] skip_taken.simps [simp del] fill_low.simps [simp del]

definition calculate_cases :: "int \<Rightarrow> int \<Rightarrow> ('v \<Rightarrow> int) \<Rightarrow> 'v list \<Rightarrow> nat \<Rightarrow> int list option" where
  "calculate_cases lo hi hash xs page =
     (let n = min 256 (length xs - page);
          res = map hash (take n (drop page xs)) @ replicate (256 - n) 0;
          (i, res) = fill_up hi (res ! (n - 1)) n res
      in fill_low lo 0 i res)"

section \<open>The switch\<close>

text \<open>An entry's case compares the entry with the searched value and leaves the \<open>switch\<close> if they differ;
  a filling case falls through to \<open>default\<close>, which goes to the next page, with the default
  predicate, if there is one.\<close>

function switch_page ::
  "int \<Rightarrow> int \<Rightarrow> ('v \<Rightarrow> int) \<Rightarrow> 'v list \<Rightarrow> nat \<Rightarrow> (nat \<Rightarrow> 'r option) \<Rightarrow> 'v \<Rightarrow> 'r \<Rightarrow> ('v \<Rightarrow> 'v \<Rightarrow> bool) \<Rightarrow> 'r option" where
  "switch_page lo hi hash xs page f searched d pred =
     (let default_case =
        (if length xs > 256 + page then switch_page lo hi hash xs (page + 256) f searched d (=) else Some d)
      in case calculate_cases lo hi hash xs page of
        None \<Rightarrow> None
      | Some labels \<Rightarrow>
          if \<not> distinct labels then None
          else (case first_index (\<lambda>v. labels ! v = hash searched) [0..<256] of
              None \<Rightarrow> default_case
            | Some v \<Rightarrow>
                if v + page < length xs then
                  Some (if \<not> pred (xs ! (v + page)) searched then d
                        else case f (v + page) of Some r \<Rightarrow> r | None \<Rightarrow> d)
                else default_case))"
  by auto
termination
  by (relation "measure (\<lambda>(lo, hi, hash, xs, page, f, searched, d, pred). length xs - page)") auto

declare switch_page.simps [simp del]

text \<open>The first hash without duplicates is used; the code does not compile if both have some.\<close>

definition hash_switch ::
  "int \<Rightarrow> int \<Rightarrow> ('v \<Rightarrow> int) \<Rightarrow> ('v \<Rightarrow> int) \<Rightarrow> 'v list \<Rightarrow> (nat \<Rightarrow> 'r option) \<Rightarrow> 'v \<Rightarrow> 'r \<Rightarrow> ('v \<Rightarrow> 'v \<Rightarrow> bool) \<Rightarrow> 'r option" where
  "hash_switch lo hi hash1 hash2 xs f searched d pred =
     (let hash = (if has_duplicate hash1 xs then hash1 else hash2)
      in if has_duplicate hash xs then switch_page lo hi hash xs 0 f searched d pred else None)"

text \<open>An enumerator hashes to its underlying value, of type \<open>size_t\<close> if that is a \<open>bool\<close>.\<close>

definition hash_min :: "enum_type \<Rightarrow> int" where
  "hash_min E = u_min E"

definition hash_max :: "enum_type \<Rightarrow> int" where
  "hash_max E = (if u_min E = 0 \<and> u_max E = 1 then 2 ^ 64 - 1 else u_max E)"

definition value_switch :: "enum_type \<Rightarrow> (nat \<Rightarrow> 'r option) \<Rightarrow> int \<Rightarrow> 'r \<Rightarrow> 'r option" where
  "value_switch E f v d = hash_switch (hash_min E) (hash_max E) (\<lambda>x. x) (\<lambda>x. x) (enum_values E) f v d (=)"

definition enum_switch_hash :: "enum_type \<Rightarrow> (int \<Rightarrow> 'r option) \<Rightarrow> int \<Rightarrow> 'r \<Rightarrow> 'r option" where
  "enum_switch_hash E f v d = value_switch E (\<lambda>i. f (enum_values E ! i)) v d"

definition enum_index_hash :: "enum_type \<Rightarrow> int \<Rightarrow> nat option option" where
  "enum_index_hash E v =
     (if is_sparse E \<or> is_flags E then value_switch E (\<lambda>i. Some (Some i)) v None
      else Some (if min_v E \<le> v \<and> v \<le> max_v E then Some (nat (v - min_v E)) else None))"

definition enum_cast_hash :: "enum_type \<Rightarrow> int \<Rightarrow> int option option" where
  "enum_cast_hash E v =
     (if is_sparse E \<or> is_flags E then value_switch E (\<lambda>i. Some (Some (enum_values E ! i))) v None
      else Some (if min_v E \<le> v \<and> v \<le> max_v E then Some v else None))"

definition enum_cast_name_hash :: "enum_type \<Rightarrow> string \<Rightarrow> int option option" where
  "enum_cast_name_hash E s =
     hash_switch 0 (2 ^ 32 - 1) (\<lambda>t. uint (crc_hash t)) (\<lambda>t. uint (secondary_hash t)) (enum_names E)
       (\<lambda>i. Some (Some (enum_values E ! i))) s None (cmp_equal None)"

section \<open>Checking for equal hashes\<close>

lemma insort_last: "x < y \<Longrightarrow> insort x (ys @ [y]) = insort x ys @ [y]"
  for x :: int
  by (induction ys) auto

lemma sift_hash_insort:
  "sorted_wrt (<) ys \<Longrightarrow>
    sift_hash (ys @ x # zs) (length ys) = (if x \<in> set ys then None else Some (insort x ys @ zs))"
proof (induction ys arbitrary: zs rule: rev_induct)
  case (snoc y ys)
  have s: "sorted_wrt (<) ys" "\<forall>u\<in>set ys. u < y" using snoc.prems by (auto simp: sorted_wrt_append)
  have nth: "(ys @ y # x # zs) ! Suc (length ys) = x" "(ys @ y # x # zs) ! length ys = y"
    and swap: "(ys @ y # x # zs)[Suc (length ys) := y, length ys := x] = ys @ x # y # zs"
    by (simp_all add: nth_append list_update_append)
  consider "x < y" | "x = y" | "y < x" by linarith
  then show ?case
  proof cases
    case 1
    then show ?thesis using snoc.IH[OF s(1), of "y # zs"] by (auto simp: nth swap insort_last)
  next
    case 3
    have "sorted (ys @ [y])" using snoc.prems strict_sorted_iff by blast
    then have "insort x (ys @ [y]) = ys @ [y, x]"
      using sorted_insort_is_snoc[of "ys @ [y]" x] 3 s(2) by fastforce
    then show ?thesis using 3 s(2) by (auto simp: nth)
  next
    case 2
    then show ?thesis using nth by simp
  qed
qed simp

lemma has_duplicate_loop_distinct:
  "sorted_wrt (<) ys \<Longrightarrow> length zs = length xs \<Longrightarrow>
    has_duplicate_loop hash xs (length ys) (ys @ zs) \<longleftrightarrow> distinct (map hash xs) \<and> set (map hash xs) \<inter> set ys = {}"
proof (induction xs arbitrary: ys zs)
  case (Cons x xs)
  then obtain z zs' where zs: "zs = z # zs'" "length zs' = length xs" by (cases zs) auto
  have sift: "sift_hash ((ys @ zs)[length ys := hash x]) (length ys) =
      (if hash x \<in> set ys then None else Some (insort (hash x) ys @ zs'))"
    using sift_hash_insort[OF Cons.prems(1), of "hash x" zs'] by (simp add: zs)
  show ?case
  proof (cases "hash x \<in> set ys")
    case False
    then have "sorted_wrt (<) (insort (hash x) ys)"
      using Cons.prems(1) by (auto simp: strict_sorted_iff sorted_insort distinct_insort)
    from Cons.IH[OF this zs(2)] show ?thesis using sift False by (auto simp: set_insort_key)
  qed (use sift in auto)
qed simp

lemma has_duplicate_distinct: "has_duplicate hash xs \<longleftrightarrow> distinct (map hash xs)"
  using has_duplicate_loop_distinct[of "[]" "replicate (length xs) 0" xs hash] by (simp add: has_duplicate_def)

section \<open>The labels are different\<close>

lemma fill_up_eq:
  "prev \<le> hi \<Longrightarrow> fill_up hi prev (length ys) (ys @ zs) =
    (let k = min (length zs) (nat (hi - prev))
     in (length ys + k, ys @ map (\<lambda>j. prev + 1 + int j) [0..<k] @ drop k zs))"
proof (induction zs arbitrary: ys prev)
  case Nil
  then show ?case by (simp add: fill_up.simps)
next
  case (Cons z zs)
  show ?case
  proof (cases "prev = hi")
    case True
    then show ?thesis by (simp add: fill_up.simps[of _ _ "length ys"])
  next
    case False
    define k where "k = min (length zs) (nat (hi - (prev + 1)))"
    have "min (length (z # zs)) (nat (hi - prev)) = Suc k" using False Cons.prems by (auto simp: k_def)
    moreover have "map (\<lambda>j. prev + 1 + int j) [0..<Suc k] = (prev + 1) # map (\<lambda>j. (prev + 1) + 1 + int j) [0..<k]"
      by (simp add: map_upt_Suc add.assoc del: upt_Suc)
    ultimately show ?thesis
      using Cons.IH[of "prev + 1" "ys @ [prev + 1]"] Cons.prems False
      by (simp add: fill_up.simps[of _ _ "length ys"] k_def[symmetric] Let_def)
  qed
qed

lemma skip_taken_eq:
  assumes "sorted_wrt (<) Q" "\<forall>x\<in>set Q. v \<le> x \<and> x \<le> hi" "hi \<in> set Q \<or> hi < v" "\<not> {v..hi} \<subseteq> set Q"
  shows "\<exists>P R v'. Q = P @ R \<and> skip_taken (ys @ Q @ zs) v (length ys) = Some (v', length (ys @ P)) \<and>
    set P = {v..<v'} \<and> v \<le> v' \<and> v' < hi \<and> (\<forall>x\<in>set R. v' < x)"
  using assms
proof (induction Q arbitrary: ys v)
  case (Cons q Q)
  show ?case
  proof (cases "v = q")
    case True
    have "{v..hi} = insert v {v + 1..hi}" using Cons.prems(2) True by auto
    then have c: "\<not> {v + 1..hi} \<subseteq> set Q" using Cons.prems(4) True by auto
    have h: "hi \<in> set Q \<or> hi < v + 1" using Cons.prems(3) True by auto
    have g: "\<forall>x\<in>set Q. v + 1 \<le> x \<and> x \<le> hi" using Cons.prems(1,2) True by force
    have "sorted_wrt (<) Q" using Cons.prems(1) by simp
    from Cons.IH[OF this g h c, of "ys @ [q]"]
    obtain P R v' where "Q = P @ R" "skip_taken ((ys @ [q]) @ Q @ zs) (v + 1) (length (ys @ [q])) = Some (v', length ((ys @ [q]) @ P))"
      "set P = {v + 1..<v'}" "v + 1 \<le> v'" "v' < hi" "\<forall>x\<in>set R. v' < x"
      by blast
    moreover have "insert v {v + 1..<v'} = {v..<v'}" using \<open>v + 1 \<le> v'\<close> by auto
    ultimately show ?thesis
      using True by (intro exI[of _ "q # P"] exI[of _ R] exI[of _ v']) (simp add: skip_taken.simps[of _ q])
  next
    case False
    then have "v < q" using Cons.prems(2) by force
    then show ?thesis
      using Cons.prems(1,2) False
      by (intro exI[of _ "[]"] exI[of _ "q # Q"] exI[of _ v]) (auto simp: skip_taken.simps[of _ v])
  qed
qed auto

lemma fill_low_eq:
  assumes "sorted_wrt (<) (Q1 @ Q2)" "set (Q1 @ Q2) \<subseteq> {lo..hi}" "hi \<in> set (Q1 @ Q2)"
    "set Q1 \<union> set L = {lo..<v}" "lo \<le> v" "\<forall>x\<in>set Q2. v \<le> x"
    "distinct L" "set (Q1 @ Q2) \<inter> set L = {}" "int (length (Q1 @ Q2 @ L @ zs)) \<le> hi - lo + 1"
  shows "\<exists>L'. fill_low v (length Q1) (length (Q1 @ Q2 @ L)) (Q1 @ Q2 @ L @ zs) = Some (Q1 @ Q2 @ L @ L') \<and>
    length L' = length zs \<and> distinct (Q1 @ Q2 @ L @ L')"
  using assms
proof (induction zs arbitrary: Q1 Q2 L v)
  case Nil
  have "distinct (Q1 @ Q2)" using Nil.prems(1) strict_sorted_iff by blast
  then show ?case using Nil.prems(7,8) by (auto simp: fill_low.simps)
next
  case (Cons z zs)
  have sorted: "sorted_wrt (<) Q2" and ord: "\<forall>x\<in>set Q1. \<forall>y\<in>set Q2. x < y"
    using Cons.prems(1) by (auto simp: sorted_wrt_append)
  have gap: "\<not> {v..hi} \<subseteq> set Q2"
  proof
    assume "{v..hi} \<subseteq> set Q2"
    then have "{lo..hi} \<subseteq> set (Q1 @ Q2 @ L)" using Cons.prems(4,5) by force
    then have "card {lo..hi} \<le> length (Q1 @ Q2 @ L)"
      by (meson List.finite_set card_length card_mono le_trans)
    then show False using Cons.prems(9) by simp
  qed
  have hi: "hi \<in> set Q2 \<or> hi < v" using Cons.prems(3,4) by auto
  have range: "\<forall>x\<in>set Q2. v \<le> x \<and> x \<le> hi" using Cons.prems(2,6) by auto
  from skip_taken_eq[OF sorted range hi gap, of Q1 "L @ z # zs"]
  obtain P R v' where PR: "Q2 = P @ R" and
    skip: "skip_taken (Q1 @ Q2 @ L @ z # zs) v (length Q1) = Some (v', length (Q1 @ P))" and
    P: "set P = {v..<v'}" and v': "v \<le> v'" "v' < hi" "\<forall>x\<in>set R. v' < x"
    by blast
  have taken: "set (Q1 @ P) \<union> set (L @ [v']) = {lo..<v' + 1}"
  proof -
    have "{lo..<v' + 1} = {lo..<v} \<union> {v..<v'} \<union> {v'}" using Cons.prems(5) v'(1) by auto
    then show ?thesis using Cons.prems(4) P by auto
  qed
  have "set Q1 \<subseteq> {lo..<v}" "set L \<subseteq> {lo..<v}" using Cons.prems(4) by auto
  then have new: "v' \<notin> set (Q1 @ P @ R)" "v' \<notin> set L" using P v' by auto
  have "\<exists>L'. fill_low (v' + 1) (length (Q1 @ P)) (length ((Q1 @ P) @ R @ L @ [v'])) ((Q1 @ P) @ R @ (L @ [v']) @ zs) =
      Some ((Q1 @ P) @ R @ (L @ [v']) @ L') \<and> length L' = length zs \<and> distinct ((Q1 @ P) @ R @ (L @ [v']) @ L')"
    by (rule Cons.IH) (use Cons.prems PR new taken v' in \<open>auto\<close>)
  then obtain L' where "fill_low (v' + 1) (length (Q1 @ P)) (length ((Q1 @ P) @ R @ L @ [v'])) ((Q1 @ P) @ R @ (L @ [v']) @ zs) =
      Some ((Q1 @ P) @ R @ (L @ [v']) @ L')" "length L' = length zs" "distinct ((Q1 @ P) @ R @ (L @ [v']) @ L')"
    by blast
  moreover have "(Q1 @ Q2 @ L @ z # zs)[length (Q1 @ Q2 @ L) := v'] = (Q1 @ P) @ R @ (L @ [v']) @ zs"
    using PR by (simp add: list_update_append)
  ultimately show ?case
    using skip by (intro exI[of _ "v' # L'"]) (simp add: fill_low.simps[of v] PR)
qed

text \<open>The labels of a page whose hashes ascend, in a type of at least 256 values.\<close>

lemma calculate_cases_sorted:
  assumes "sorted_wrt (<) (map hash xs)" "set (map hash xs) \<subseteq> {lo..hi}" "255 \<le> hi - lo" "page < length xs"
  shows "\<exists>labels. calculate_cases lo hi hash xs page = Some labels \<and> distinct labels"
proof -
  define n where "n = min 256 (length xs - page)"
  define P where "P = map hash (take n (drop page xs))"
  define k where "k = min (256 - n) (nat (hi - P ! (n - 1)))"
  define F where "F = map (\<lambda>j. P ! (n - 1) + 1 + int j) [0..<k]"
  have n: "0 < n" "n \<le> 256" "length P = n" using assms(4) by (auto simp: n_def P_def)
  have sub: "set P \<subseteq> set (map hash xs)" using set_take_subset set_drop_subset by (fastforce simp: P_def)
  have "sorted_wrt (<) (take n (drop page (map hash xs)))" using assms(1) sorted_wrt_take sorted_wrt_drop by blast
  then have sP: "sorted_wrt (<) P" by (simp add: P_def take_map drop_map)
  have top: "P ! (n - 1) \<in> set P" using n by simp
  have le: "\<forall>x\<in>set P. x \<le> P ! (n - 1)"
  proof
    fix x assume "x \<in> set P"
    then obtain j where "j < n" "x = P ! j" using n(3) by (auto simp: in_set_conv_nth)
    moreover have "j = n - 1 \<or> P ! j < P ! (n - 1)" using sP n \<open>j < n\<close> by (cases "j = n - 1") (auto simp: sorted_wrt_nth_less)
    ultimately show "x \<le> P ! (n - 1)" by auto
  qed
  have "P ! (n - 1) \<in> {lo..hi}" using top sub assms(2) by blast
  then have prev: "P ! (n - 1) \<le> hi" by simp
  have up: "fill_up hi (P ! (n - 1)) n (P @ replicate (256 - n) 0) = (n + k, P @ F @ replicate (256 - n - k) 0)"
    using fill_up_eq[OF prev, of P "replicate (256 - n) 0"] n(3) by (simp add: k_def F_def Let_def)
  have "sorted_wrt (<) F" by (auto simp: F_def sorted_wrt_map intro: sorted_wrt_mono_rel[OF _ sorted_wrt_upt])
  then have sQ: "sorted_wrt (<) (P @ F)" using sP le by (fastforce simp: sorted_wrt_append F_def)
  have calc: "calculate_cases lo hi hash xs page = fill_low lo 0 (n + k) (P @ F @ replicate (256 - n - k) 0)"
  proof -
    have "(P @ replicate (256 - n) 0) ! (n - 1) = P ! (n - 1)" using n by (simp add: nth_append)
    then show ?thesis using up unfolding calculate_cases_def Let_def n_def[symmetric] P_def[symmetric] by simp
  qed
  show ?thesis
  proof (cases "n + k = 256")
    case True
    then show ?thesis using sQ n(3) calc by (auto simp: fill_low.simps F_def strict_sorted_iff)
  next
    case False
    then have "k = nat (hi - P ! (n - 1))" using n(2) by (auto simp: k_def min_def)
    then have hi: "hi \<in> set (P @ F)"
    proof (cases "P ! (n - 1) = hi")
      case False
      then have "0 < k" "hi = P ! (n - 1) + 1 + int (k - 1)" using \<open>k = nat _\<close> prev by simp_all
      then have "hi \<in> set F" by (auto simp: F_def intro!: image_eqI[of _ _ "k - 1"])
      then show ?thesis by simp
    qed (use top in simp)
    have "set (P @ F) \<subseteq> {lo..hi}"
      using sub assms(2) prev top by (force simp: F_def k_def)
    moreover have F: "length F = k" "n + k < 256" using False n(2) by (auto simp: F_def k_def)
    ultimately have "\<exists>L'. fill_low lo (length ([] :: int list)) (length ([] @ (P @ F) @ [])) ([] @ (P @ F) @ [] @ replicate (256 - n - k) 0) =
        Some ([] @ (P @ F) @ [] @ L') \<and> length L' = length (replicate (256 - n - k) (0 :: int)) \<and> distinct ([] @ (P @ F) @ [] @ L')"
      using hi sQ assms(3) n by (intro fill_low_eq) auto
    then show ?thesis using calc F(1) n(3) by auto
  qed
qed

text \<open>Filling does not touch the labels of the entries.\<close>

lemma fill_up_keeps:
  "fill_up hi prev i res = (i', res') \<Longrightarrow> length res' = length res \<and> i \<le> i' \<and> (\<forall>k\<le>i. take k res' = take k res)"
proof (induction hi prev i res rule: fill_up.induct)
  case (1 hi prev i res)
  then show ?case by (subst (asm) (2) fill_up.simps) (fastforce split: if_splits)
qed

lemma fill_low_keeps:
  "fill_low v it i res = Some res' \<Longrightarrow> length res' = length res \<and> (\<forall>k\<le>i. take k res' = take k res)"
proof (induction v it i res rule: fill_low.induct)
  case (1 v it i res)
  then show ?case by (subst (asm) (2) fill_low.simps) (fastforce split: if_splits option.splits)
qed

lemma calculate_cases_labels:
  assumes "calculate_cases lo hi hash xs page = Some labels" "page \<le> length xs"
  shows "length labels = 256" "\<And>v. v < 256 \<Longrightarrow> v + page < length xs \<Longrightarrow> labels ! v = hash (xs ! (v + page))"
proof -
  define n where "n = min 256 (length xs - page)"
  define P where "P = map hash (take n (drop page xs))"
  have n: "n \<le> 256" "length P = n" by (auto simp: n_def P_def)
  obtain i res where up: "fill_up hi ((P @ replicate (256 - n) 0) ! (n - 1)) n (P @ replicate (256 - n) 0) = (i, res)"
    by fastforce
  have low: "fill_low lo 0 i res = Some labels"
    using assms(1) up by (simp add: calculate_cases_def Let_def n_def[symmetric] P_def[symmetric])
  show "length labels = 256" using fill_up_keeps[OF up] fill_low_keeps[OF low] n by simp
  have "take n labels = P" using fill_up_keeps[OF up] fill_low_keeps[OF low] n by simp
  then show "labels ! v = hash (xs ! (v + page))" if "v < 256" "v + page < length xs" for v
    using that nth_take[of v n labels] assms(2) by (auto simp: P_def n_def add.commute)
qed

section \<open>The switch is a search\<close>

text \<open>What the searching loops compute.\<close>

definition look_up :: "'v list \<Rightarrow> (nat \<Rightarrow> 'r option) \<Rightarrow> 'v \<Rightarrow> 'r \<Rightarrow> 'r" where
  "look_up xs f x d =
     (case first_index (\<lambda>i. xs ! i = x) [0..<length xs] of
        Some i \<Rightarrow> (case f i of Some r \<Rightarrow> r | None \<Rightarrow> d)
      | None \<Rightarrow> d)"

lemma look_up_nth: "distinct xs \<Longrightarrow> i < length xs \<Longrightarrow> look_up xs f (xs ! i) d = (case f i of Some r \<Rightarrow> r | None \<Rightarrow> d)"
  using first_index_nth[of xs i "\<lambda>j. xs ! j = xs ! i"] by (simp add: look_up_def)

lemma look_up_none: "x \<notin> set xs \<Longrightarrow> look_up xs f x d = d"
  using first_index_None[of "\<lambda>i. xs ! i = x" "[0..<length xs]"] by (auto simp: look_up_def split: option.split)

lemma switch_page_sound:
  assumes "distinct (map hash xs)" "\<forall>i<length xs. pred (xs ! i) x \<longleftrightarrow> xs ! i = x" "page \<le> length xs"
    "\<forall>j<page. j < length xs \<longrightarrow> xs ! j \<noteq> x" "switch_page lo hi hash xs page f x d pred = Some r"
  shows "r = look_up xs f x d"
  using assms
proof (induction lo hi hash xs page f x d pred rule: switch_page.induct)
  case (1 lo hi hash xs page f x d pred)
  note sw = "1.prems"(5)[unfolded switch_page.simps[of lo hi hash xs page] Let_def]
  obtain labels where labels: "calculate_cases lo hi hash xs page = Some labels" "distinct labels"
    using sw by (auto split: option.splits if_splits)
  note lab = calculate_cases_labels[OF labels(1) "1.prems"(3)]
  have dx: "distinct xs" using "1.prems"(1) distinct_map by blast
  have inj: "i = j" if "i < length xs" "j < length xs" "hash (xs ! i) = hash (xs ! j)" for i j
    using "1.prems"(1) that nth_eq_iff_index_eq[of "map hash xs" i j] by simp
  show ?case
  proof (cases "first_index (\<lambda>v. labels ! v = hash x) [0..<256]")
    case None
    then have absent: "\<forall>j<page + 256. j < length xs \<longrightarrow> xs ! j \<noteq> x"
    proof (intro allI impI)
      fix j assume j: "j < page + 256" "j < length xs"
      show "xs ! j \<noteq> x"
      proof (cases "j < page")
        case False
        then have "labels ! (j - page) = hash (xs ! j)" using lab(2)[of "j - page"] j by simp
        moreover have "labels ! (j - page) \<noteq> hash x" using None False j by (simp add: first_index_None)
        ultimately show ?thesis by auto
      qed (use "1.prems"(4) j in auto)
    qed
    show ?thesis
    proof (cases "length xs > 256 + page")
      case True
      then show ?thesis
        using "1.IH" sw labels None absent "1.prems"(1) by (simp add: add.commute)
    next
      case False
      then have "x \<notin> set xs" using absent by (auto simp: in_set_conv_nth)
      then show ?thesis using sw labels None False by (simp add: look_up_none)
    qed
  next
    case (Some v)
    then have v: "v < 256" "labels ! v = hash x" using first_index_Some[OF Some] by auto
    show ?thesis
    proof (cases "v + page < length xs")
      case True
      then have "hash (xs ! (v + page)) = hash x" using lab(2)[OF v(1) True] v(2) by simp
      then have "x \<in> set xs \<Longrightarrow> xs ! (v + page) = x" using inj True by (auto simp: in_set_conv_nth)
      then show ?thesis
        using sw labels Some True "1.prems"(2) look_up_nth[OF dx True, of f d] look_up_none[of x xs f d]
        by (cases "x \<in> set xs") auto
    next
      case False
      have "x \<notin> set xs"
      proof
        assume "x \<in> set xs"
        then obtain j where j: "j < length xs" "xs ! j = x" by (auto simp: in_set_conv_nth)
        then have "page \<le> j" using "1.prems"(4) by (metis linorder_not_less)
        then have w: "j - page < 256" "j - page + page = j" "j - page < v" using j(1) False v(1) by auto
        then have "labels ! (j - page) = hash x" using lab(2)[of "j - page"] j by simp
        then show False
          using labels(2) lab(1) v w nth_eq_iff_index_eq[of labels v "j - page"] by simp
      qed
      then show ?thesis using sw labels Some False v(1) by (simp add: look_up_none)
    qed
  qed
qed

lemma switch_page_compiles:
  assumes "sorted_wrt (<) (map hash xs)" "set (map hash xs) \<subseteq> {lo..hi}" "255 \<le> hi - lo" "page < length xs"
  shows "switch_page lo hi hash xs page f x d pred \<noteq> None"
  using assms
proof (induction lo hi hash xs page f x d pred rule: switch_page.induct)
  case (1 lo hi hash xs page f x d pred)
  obtain labels where "calculate_cases lo hi hash xs page = Some labels" "distinct labels"
    using calculate_cases_sorted[OF "1.prems"] by blast
  then show ?case
    using "1.IH" "1.prems" by (subst switch_page.simps) (auto simp: add.commute Let_def split: option.splits)
qed

lemma hash_switch_sound:
  assumes "hash_switch lo hi hash1 hash2 xs f x d pred = Some r" "\<forall>i<length xs. pred (xs ! i) x \<longleftrightarrow> xs ! i = x"
  shows "r = look_up xs f x d"
  using assms switch_page_sound[of _ xs pred x 0 lo hi f d r]
  by (auto simp: hash_switch_def Let_def has_duplicate_distinct split: if_splits)

lemma value_switch_eq:
  assumes "enum_count E > 0" "set (enum_values E) \<subseteq> {u_min E..u_max E}" "255 \<le> u_max E - u_min E \<or> u_min E = 0 \<and> u_max E = 1"
  shows "value_switch E f v d = Some (look_up (enum_values E) f v d)"
proof -
  have "set (enum_values E) \<subseteq> {hash_min E..hash_max E}" "255 \<le> hash_max E - hash_min E"
    using assms(2,3) by (auto simp: hash_min_def hash_max_def)
  then have "value_switch E f v d \<noteq> None"
    using assms(1) switch_page_compiles[of "\<lambda>x. x" "enum_values E" "hash_min E" "hash_max E" 0] sorted_enum_values[of E]
    by (simp add: value_switch_def hash_switch_def has_duplicate_distinct enum_count_def)
  then show ?thesis using hash_switch_sound unfolding value_switch_def by fastforce
qed

lemma look_up_values:
  "look_up (enum_values E) f v d =
    (if v \<in> set (enum_values E) then (case f (the (enum_index E v)) of Some r \<Rightarrow> r | None \<Rightarrow> d) else d)"
  by (auto simp: in_set_conv_nth look_up_nth look_up_none enum_index_nth enum_count_def)

lemma look_up_names:
  "look_up (enum_names E) (\<lambda>i. Some (Some (enum_values E ! i))) s None = enum_cast_name E None s"
proof -
  have "(\<lambda>i. enum_names E ! i = s) = (\<lambda>i. s = enum_names E ! i)" by auto
  then show ?thesis
    by (auto simp: look_up_def enum_cast_name_def enum_value_nth split: option.splits dest: first_index_Some)
qed

text \<open>C35: the \<open>switch\<close> over hashes always compiles for the values of an enumeration, however many pages it
  takes, and then \<open>enum_switch\<close>, \<open>enum_index\<close> and \<open>enum_cast\<close> give what the searching loops give. For
  names it may not compile; if it does, the cast from a name gives what the loop gives. The
  enumerators are values of their type, which is \<open>bool\<close> or has at least 256 values.\<close>

theorem hash_switch_searches:
  assumes "enum_count E > 0" "set (enum_values E) \<subseteq> {u_min E..u_max E}" "255 \<le> u_max E - u_min E \<or> u_min E = 0 \<and> u_max E = 1"
  shows "enum_switch_hash E f v d = Some (enum_switch E f v d) \<and>
    enum_index_hash E v = Some (enum_index E v) \<and>
    enum_cast_hash E v = Some (enum_cast E v) \<and>
    (enum_cast_name_hash E s = Some r \<longrightarrow> r = enum_cast_name E None s)"
proof (intro conjI impI)
  note sw = value_switch_eq[OF assms] look_up_values
  have nth: "enum_values E ! the (enum_index E v) = v" if "v \<in> set (enum_values E)"
    using that enum_index_nth by (auto simp: in_set_conv_nth enum_count_def)
  show "enum_switch_hash E f v d = Some (enum_switch E f v d)"
    using nth by (auto simp: enum_switch_hash_def sw enum_switch_eq)
  show "enum_index_hash E v = Some (enum_index E v)"
    using enum_index_None[OF assms(1), of v] by (auto simp: enum_index_hash_def sw) (auto simp: enum_index_def)
  show "enum_cast_hash E v = Some (enum_cast E v)"
  proof (cases "is_sparse E \<or> is_flags E")
    case True
    have "enum_cast E v = (if v \<in> set (enum_values E) then Some v else None)"
      using enum_cast_Some[OF assms(1), of v] by (cases "enum_cast E v") auto
    then show ?thesis using True nth by (auto simp: enum_cast_hash_def sw)
  qed (simp add: enum_cast_hash_def enum_cast_def)
  show "r = enum_cast_name E None s" if "enum_cast_name_hash E s = Some r"
    using hash_switch_sound[OF that[unfolded enum_cast_name_hash_def]] by (simp add: look_up_names)
qed

lemma hash_switch_searches_witness:
  "enum_switch_hash colours (\<lambda>v. Some (v + 1)) 5 0 = Some 6 \<and> enum_index_hash colours 5 = Some (Some 2) \<and>
    enum_cast_hash colours 3 = Some None"
proof -
  have "set (enum_values colours) \<subseteq> {u_min colours..u_max colours}" "255 \<le> u_max colours - u_min colours"
    "enum_switch colours (\<lambda>v. Some (v + 1)) 5 (0 :: int) = 6" "enum_cast colours 3 = None"
    unfolding colours_table(2) by code_simp+
  then show ?thesis
    using hash_switch_searches[of colours "\<lambda>v. Some (v + 1)" 5 0] hash_switch_searches[of colours "\<lambda>_. None :: int option" 3 0]
    by (simp add: colours_table colours_index)
qed

text \<open>The hashes of the two names of this enumeration differ by 193. The labels that fill the array count
  up from the last hash and meet the first, and the \<open>switch\<close> does not compile.\<close>

definition scopes :: enum_type where
  "scopes = \<lparr>u_min = - 128, u_max = 127, u_digits = 7, range_min = 0, range_max = 1, is_flags = False,
     castable = (\<lambda>_. True), custom_name = (\<lambda>v. Custom_tag (if v = 0 then ''Infra'' else ''Manage'')), signature = (\<lambda>_. [])\<rparr>"

lemma scopes_names: "enum_names scopes = [''Infra'', ''Manage'']"
  by code_simp

lemma scopes_hashes: "uint (crc_hash ''Manage'') = 601796476" "uint (crc_hash ''Infra'') = 601796669"
  by (simp_all add: uint_crc_hash int_divide_byte_def)

lemma names_may_not_compile: "enum_cast_name_hash scopes s = None"
proof -
  let ?h = "\<lambda>t. uint (crc_hash t)" and ?ns = "[''Infra'', ''Manage'']"
  have "fill_up (2 ^ 32 - 1) (?h ''Manage'') 2 ([?h ''Infra'', ?h ''Manage''] @ replicate 254 0) =
      (256, [?h ''Infra'', ?h ''Manage''] @ map (\<lambda>j. ?h ''Manage'' + 1 + int j) [0..<254])"
    using fill_up_eq[of "?h ''Manage''" "2 ^ 32 - 1" "[?h ''Infra'', ?h ''Manage'']" "replicate 254 0"]
    by (simp add: scopes_hashes Let_def numeral_2_eq_2 del: upt_Suc upt_rec_numeral)
  then have "calculate_cases 0 (2 ^ 32 - 1) ?h ?ns 0 = Some ([?h ''Infra'', ?h ''Manage''] @ map (\<lambda>j. ?h ''Manage'' + 1 + int j) [0..<254])"
    by (simp add: calculate_cases_def fill_low.simps numeral_2_eq_2 del: upt_Suc upt_rec_numeral)
  moreover have "?h ''Infra'' \<in> set (map (\<lambda>j. ?h ''Manage'' + 1 + int j) [0..<254])"
    by (auto simp: scopes_hashes simp del: upt_Suc upt_rec_numeral intro!: image_eqI[of _ _ 192])
  ultimately have "switch_page 0 (2 ^ 32 - 1) ?h ?ns 0 f t d pred = None" for f t and d :: "int option" and pred
    by (subst switch_page.simps) (simp del: upt_Suc upt_rec_numeral)
  moreover have "has_duplicate ?h ?ns" unfolding has_duplicate_distinct by (simp add: scopes_hashes)
  ultimately show ?thesis by (simp add: enum_cast_name_hash_def hash_switch_def scopes_names Let_def)
qed

end
