(* ===== verification/Compiler_Names.thy ===== *)
theory Compiler_Names
  imports Enum_Reflection
begin

text \<open>
  \<open>magic_enum.hpp\<close>: how the names of enumerators and of enumeration types are cut out of the text each
  compiler has for the current function. \<open>Enum_Reflection\<close> has the branch for GCC, on which the table is
  built; here are the branches for Clang, for MSVC and for MSVC before 2019, and the names of types
  with their customisation. A text is \<open>__PRETTY_FUNCTION__\<close> or \<open>__FUNCSIG__\<close> without its final zero.
\<close>

section \<open>The code\<close>

definition no_name_start :: "char \<Rightarrow> bool" where
  "no_name_start c \<longleftrightarrow> c = CHR ''('' \<or> c = CHR ''-'' \<or> c \<in> set ''0123456789''"

definition n_value_clang :: "string \<Rightarrow> string" where
  "n_value_clang sig =
     (let (n, txt) = (length sig - 35, drop 34 sig);
          (n, txt) =
            (if n > 22 \<and> txt ! 0 = CHR ''('' \<and> txt ! 1 = CHR ''a'' \<and> txt ! 10 = CHR '' '' \<and> txt ! 22 = CHR '':''
             then (n - 23, drop 23 txt) else (n, txt))
      in if no_name_start (txt ! 0) then [] else strip_qualifiers {CHR '':''} n txt)"

definition n_value_msvc :: "string \<Rightarrow> string" where
  "n_value_msvc sig =
     (if sig ! 5 = CHR ''_'' \<and> sig ! 35 \<noteq> CHR ''('' \<or> sig ! 5 = CHR ''c'' \<and> sig ! 41 \<noteq> CHR ''(''
      then strip_qualifiers {CHR '':''} (length sig - 51) (drop 35 sig) else [])"

definition n_value_vs2017 :: "string \<Rightarrow> string" where
  "n_value_vs2017 sig =
     (let n = length sig - 16;
          p = colon_scan {CHR '','', CHR '':''} sig n
      in if no_name_start (drop p sig ! 0) then [] else take (n - p) (drop p sig))"

datatype compiler = Gcc | Clang | Msvc

definition n_type :: "compiler \<Rightarrow> string \<Rightarrow> string" where
  "n_type compiler sig =
     (let (n, txt) =
        (case compiler of
           Clang \<Rightarrow> (length sig - 35, drop 34 sig)
         | Gcc \<Rightarrow> (if sig ! (length sig - 1) = CHR '']'' then (length sig - 50, drop 49 sig)
                  else (length sig - 40, drop 37 sig))
         | Msvc \<Rightarrow> (length sig - 56, drop 40 sig))
      in strip_qualifiers {CHR '':''} n txt)"

text \<open>The customisation of a type's name; a custom name must not be empty to compile.\<close>

definition type_name :: "customize_t \<Rightarrow> compiler \<Rightarrow> string \<Rightarrow> string option" where
  "type_name custom compiler sig =
     (case custom of
        Custom_tag name \<Rightarrow> if name \<noteq> [] then Some name else None
      | Invalid_tag \<Rightarrow> Some []
      | Default_tag \<Rightarrow> Some (n_type compiler sig))"

definition enum_type_name :: "customize_t \<Rightarrow> compiler \<Rightarrow> string \<Rightarrow> string option" where
  "enum_type_name custom compiler sig =
     (case type_name custom compiler sig of
        None \<Rightarrow> None
      | Some name \<Rightarrow> if name \<noteq> [] then Some name else None)"

section \<open>What each branch reads\<close>

text \<open>A fixed part, the qualified name, and a fixed part that starts with no stop character.\<close>

lemma strip_fixed_parts:
  assumes "qualifiers stops qual" "set name \<inter> stops = {}" "post \<noteq> []" "hd post \<notin> stops"
  shows "strip_qualifiers stops (length (pre @ qual @ name @ post) - (length pre + length post))
      (drop (length pre) (pre @ qual @ name @ post)) = name"
  using strip_qualifiers_exact[OF assms(1,2), of "hd post" "tl post"] assms(3,4) by simp

lemma no_name_start_nth:
  assumes "name \<noteq> []"
  shows "(qual @ name @ post) ! 0 = hd (qual @ name)"
  using assms by (cases qual; cases name) auto

lemma n_value_clang_exact:
  assumes "length pre = 34" "qualifiers {CHR '':''} qual" "CHR '':'' \<notin> set name" "name \<noteq> []"
    "\<not> no_name_start (hd (qual @ name))"
  shows "n_value_clang (pre @ qual @ name @ '']'') = name"
    and "n_value_clang (pre @ ''(anonymous namespace)::'' @ qual @ name @ '']'') = name"
proof -
  have first: "\<not> no_name_start ((qual @ name @ '']'') ! 0)" using assms(5) no_name_start_nth[OF assms(4)] by metis
  then have paren: "(qual @ name @ '']'') ! 0 \<noteq> CHR ''(''" by (auto simp: no_name_start_def)
  note strip = strip_fixed_parts[OF assms(2), of name "'']''" pre] assms(1,3)
  show "n_value_clang (pre @ qual @ name @ '']'') = name"
    using strip first paren by (simp add: n_value_clang_def)
  show "n_value_clang (pre @ ''(anonymous namespace)::'' @ qual @ name @ '']'') = name"
    using strip first by (simp add: n_value_clang_def)
qed

lemma n_value_msvc_exact:
  assumes "length pre = 35" "pre ! 5 = CHR ''_''" "qualifiers {CHR '':''} qual" "CHR '':'' \<notin> set name" "name \<noteq> []"
    "hd (qual @ name) \<noteq> CHR ''(''" "length post = 16" "hd post \<noteq> CHR '':''"
  shows "n_value_msvc (pre @ qual @ name @ post) = name"
proof -
  have "post \<noteq> []" using assms(7) by auto
  moreover have "(pre @ qual @ name @ post) ! 5 = CHR ''_''" "(pre @ qual @ name @ post) ! 35 = hd (qual @ name)"
    using assms(1,2) no_name_start_nth[OF assms(5)] by (simp_all add: nth_append)
  ultimately show ?thesis
    using strip_fixed_parts[OF assms(3), of name post pre] assms(1,4,6,7,8) by (simp add: n_value_msvc_def)
qed

lemma n_value_vs2017_exact:
  assumes "qualifiers {CHR '','', CHR '':''} qual" "set name \<inter> {CHR '','', CHR '':''} = {}" "name \<noteq> []"
    "\<not> no_name_start (hd name)" "length post = 16" "hd post \<notin> {CHR '','', CHR '':''}"
  shows "n_value_vs2017 (qual @ name @ post) = name"
proof -
  obtain c rest where post: "post = c # rest" using assms(5) by (cases post) auto
  have "colon_scan {CHR '','', CHR '':''} (qual @ name @ post) (length qual + length name) = length qual"
    using colon_scan_exact[OF assms(1,2)] assms(6) unfolding post by simp
  moreover have "(name @ post) ! 0 = hd name" using assms(3) by (cases name) auto
  ultimately show ?thesis using assms(4,5) by (simp add: n_value_vs2017_def Let_def)
qed

lemma n_type_exact:
  assumes "qualifiers {CHR '':''} qual" "CHR '':'' \<notin> set name"
    "length pre = (case compiler of Gcc \<Rightarrow> 49 | Clang \<Rightarrow> 34 | Msvc \<Rightarrow> 40)"
    "post = (case compiler of Msvc \<Rightarrow> ''>(void) noexcept'' | _ \<Rightarrow> '']'')"
  shows "n_type compiler (pre @ qual @ name @ post) = name"
  using strip_fixed_parts[OF assms(1), of name post pre] assms(2-4)
  by (cases compiler) (simp_all add: n_type_def nth_append)

section \<open>All compilers give the same names\<close>



lemma type_names:
  assumes "qualifiers {CHR '':''} qual" "CHR '':'' \<notin> set name" "name \<noteq> []"
    "length pre = (case compiler of Gcc \<Rightarrow> 49 | Clang \<Rightarrow> 34 | Msvc \<Rightarrow> 40)"
    "post = (case compiler of Msvc \<Rightarrow> ''>(void) noexcept'' | _ \<Rightarrow> '']'')"
  shows "enum_type_name Default_tag compiler (pre @ qual @ name @ post) = Some name"
    "enum_type_name (Custom_tag name) compiler sig = Some name"
  using n_type_exact[OF assms(1,2,4,5)] assms(3) by (simp_all add: enum_type_name_def type_name_def)

end
