(* ===== verification/Enum_Operators.thy ===== *)
theory Enum_Operators
  imports Enum_Utility
begin

text \<open>
  The comparison of integers of any two types that the reflected range rests on, and the operators of
  \<open>bitwise_operators\<close> (\<open>magic_enum.hpp\<close>); the text of a value for \<open>std::format\<close> (\<open>magic_enum_format.hpp\<close>).
\<close>

section \<open>Comparing integers of different types\<close>

text \<open>An integral type, and the conversion of a value to it.\<close>

record int_type =
  width :: nat
  is_signed :: bool
  is_bool :: bool

definition wrap_to :: "int_type \<Rightarrow> int \<Rightarrow> int" where
  "wrap_to T v =
     (if is_bool T then of_bool (v \<noteq> 0)
      else if is_signed T then signed_take_bit (width T - 1) v else take_bit (width T) v)"

definition in_type :: "int_type \<Rightarrow> int \<Rightarrow> bool" where
  "in_type T v \<longleftrightarrow>
     (if is_bool T then v = 0 \<or> v = 1
      else if is_signed T then - (2 ^ (width T - 1)) \<le> v \<and> v < 2 ^ (width T - 1) else 0 \<le> v \<and> v < 2 ^ width T)"

text \<open>The operator \<open><\<close> converts both sides to a common type: types smaller than \<open>int\<close> are promoted to it,
  then the wider one is taken, the unsigned one of two equally wide.\<close>

definition promoted :: "int_type \<Rightarrow> int_type" where
  "promoted T = (if is_bool T \<or> width T < 32 then \<lparr>width = 32, is_signed = True, is_bool = False\<rparr> else T)"

definition common_type :: "int_type \<Rightarrow> int_type \<Rightarrow> int_type" where
  "common_type L R =
     (let L = promoted L; R = promoted R in
      if width L > width R \<or> width L = width R \<and> \<not> is_signed L then L else R)"

definition builtin_less :: "int_type \<Rightarrow> int_type \<Rightarrow> int \<Rightarrow> int \<Rightarrow> bool" where
  "builtin_less L R lhs rhs \<longleftrightarrow> wrap_to (common_type L R) lhs < wrap_to (common_type L R) rhs"

definition cmp_less :: "int_type \<Rightarrow> int_type \<Rightarrow> int \<Rightarrow> int \<Rightarrow> bool" where
  "cmp_less L R lhs rhs \<longleftrightarrow>
     (if is_signed L = is_signed R then builtin_less L R lhs rhs
      else if is_bool L then builtin_less R R (wrap_to R lhs) rhs
      else if is_bool R then builtin_less L L lhs (wrap_to L rhs)
      else if is_signed R then
        (let U = R\<lparr>is_signed := False\<rparr> in rhs > 0 \<and> builtin_less L U lhs (wrap_to U rhs))
      else
        (let U = L\<lparr>is_signed := False\<rparr> in lhs < 0 \<or> builtin_less U R (wrap_to U lhs) rhs))"

definition int_type_ok :: "int_type \<Rightarrow> bool" where
  "int_type_ok T \<longleftrightarrow> width T \<in> {8, 16, 32, 64} \<and> (is_bool T \<longrightarrow> \<not> is_signed T)"

lemma wrap_to_same:
  assumes "in_type T v" "0 < width T"
  shows "wrap_to T v = v"
  using assms
  by (cases "width T") (auto simp: in_type_def wrap_to_def take_bit_int_eq_self_iff signed_take_bit_int_eq_self_iff split: if_splits)

lemma builtin_less_exact:
  assumes "in_type (common_type L R) lhs" "in_type (common_type L R) rhs" "0 < width (common_type L R)"
  shows "builtin_less L R lhs rhs \<longleftrightarrow> lhs < rhs"
  using assms by (simp add: builtin_less_def wrap_to_same)

text \<open>The common type of two types of the same signedness holds their values.\<close>

lemma int_type_ok_cases:
  assumes "int_type_ok T"
  obtains w where "w \<in> {8, 16, 32, 64}"
    "T = \<lparr>width = w, is_signed = True, is_bool = False\<rparr> \<or> T = \<lparr>width = w, is_signed = False, is_bool = False\<rparr> \<or>
     T = \<lparr>width = w, is_signed = False, is_bool = True\<rparr>"
  using assms by (cases T) (auto simp: int_type_ok_def)

lemma common_type_holds:
  assumes "int_type_ok L" "int_type_ok R" "is_signed L = is_signed R"
  shows "0 < width (common_type L R) \<and> (in_type L v \<or> in_type R v \<longrightarrow> in_type (common_type L R) v)"
proof -
  obtain w where w: "w \<in> {8, 16, 32, 64}"
    "L = \<lparr>width = w, is_signed = True, is_bool = False\<rparr> \<or> L = \<lparr>width = w, is_signed = False, is_bool = False\<rparr> \<or>
     L = \<lparr>width = w, is_signed = False, is_bool = True\<rparr>" using int_type_ok_cases[OF assms(1)] by blast
  obtain w' where w': "w' \<in> {8, 16, 32, 64}"
    "R = \<lparr>width = w', is_signed = True, is_bool = False\<rparr> \<or> R = \<lparr>width = w', is_signed = False, is_bool = False\<rparr> \<or>
     R = \<lparr>width = w', is_signed = False, is_bool = True\<rparr>" using int_type_ok_cases[OF assms(2)] by blast
  show ?thesis
    using w w' assms(3)
    by (elim disjE insertE emptyE; simp add: in_type_def common_type_def promoted_def Let_def; linarith?)
qed

lemma builtin_less_same:
  assumes "int_type_ok L" "int_type_ok R" "is_signed L = is_signed R" "in_type L lhs" "in_type R rhs"
  shows "builtin_less L R lhs rhs \<longleftrightarrow> lhs < rhs"
  using assms common_type_holds by (intro builtin_less_exact) blast+

lemma bool_in_type: "int_type_ok T \<Longrightarrow> v = 0 \<or> v = 1 \<Longrightarrow> in_type T v"
  by (auto simp: int_type_ok_def in_type_def)

lemma in_unsigned:
  assumes "int_type_ok T" "in_type T v" "0 \<le> v"
  shows "in_type (T\<lparr>is_signed := False\<rparr>) v"
  using assms by (auto simp: int_type_ok_def in_type_def split: if_splits)

lemma cmp_less_exact:
  assumes "int_type_ok L" "int_type_ok R" "in_type L lhs" "in_type R rhs"
  shows "cmp_less L R lhs rhs \<longleftrightarrow> lhs < rhs"
proof -
  let ?u = "\<lambda>T. T\<lparr>is_signed := False\<rparr>"
  have pos: "0 < width L" "0 < width R" and ok: "int_type_ok (?u L)" "int_type_ok (?u R)"
    using assms(1,2) by (auto simp: int_type_ok_def)
  have bool: "in_type R lhs" if "is_bool L" using bool_in_type[OF assms(2), of lhs] that assms(3) by (simp add: in_type_def[of L])
  have bool': "in_type L rhs" if "is_bool R" using bool_in_type[OF assms(1), of rhs] that assms(4) by (simp add: in_type_def[of R])
  have nonneg: "0 \<le> v" if "in_type T v" "\<not> is_signed T" for T v using that by (auto simp: in_type_def split: if_splits)
  show ?thesis
  proof (cases "is_signed L = is_signed R")
    case True
    then show ?thesis using builtin_less_same assms by (simp add: cmp_less_def)
  next
    case False
    show ?thesis
    proof (cases "is_bool L \<or> is_bool R")
      case True
      then show ?thesis
        using False bool bool' pos assms builtin_less_same[OF assms(2,2)] builtin_less_same[OF assms(1,1)]
        by (auto simp: cmp_less_def wrap_to_same)
    next
      case nb: False
      show ?thesis
      proof (cases "is_signed R")
        case True
        then have l: "\<not> is_signed L" using False by simp
        show ?thesis
        proof (cases "rhs > 0")
          case pos_rhs: True
          then have "in_type (?u R) rhs" using in_unsigned[OF assms(2,4)] by simp
          then show ?thesis
            using pos_rhs nb l True pos ok assms builtin_less_same[OF assms(1) ok(2)] by (simp add: cmp_less_def wrap_to_same Let_def)
        next
          case False
          then show ?thesis using nb l True nonneg[OF assms(3) l] by (simp add: cmp_less_def Let_def)
        qed
      next
        case r: False
        then have l: "is_signed L" using False by simp
        show ?thesis
        proof (cases "lhs < 0")
          case True
          then show ?thesis using nb l r nonneg[OF assms(4) r] by (simp add: cmp_less_def Let_def)
        next
          case False
          then have "in_type (?u L) lhs" using in_unsigned[OF assms(1,3)] by simp
          then show ?thesis
            using False nb l r pos ok assms builtin_less_same[OF ok(1) assms(2)] by (simp add: cmp_less_def wrap_to_same Let_def)
        qed
      qed
    qed
  qed
qed

section \<open>Operators\<close>

text \<open>The complement is taken in \<open>int\<close> or wider and cast back, to \<open>true\<close> in every case for a \<open>bool\<close>.\<close>

definition enum_not :: "enum_type \<Rightarrow> int \<Rightarrow> int" where
  "enum_not E rhs =
     (if u_min E = 0 \<and> u_max E = 1 then 1
      else if u_min E < 0 then NOT rhs else take_bit (u_digits E) (NOT rhs))"

definition enum_or :: "int \<Rightarrow> int \<Rightarrow> int" where
  "enum_or lhs rhs = lhs OR rhs"

definition enum_and :: "int \<Rightarrow> int \<Rightarrow> int" where
  "enum_and lhs rhs = lhs AND rhs"

definition enum_xor :: "int \<Rightarrow> int \<Rightarrow> int" where
  "enum_xor lhs rhs = lhs XOR rhs"

lemma test_flag_bit:
  assumes "is_flags E" "2 ^ k \<in> set (enum_values E)"
  shows "enum_flags_test v (2 ^ k) \<longleftrightarrow> bit v k"
proof -
  have "v AND 2 ^ k = 2 ^ k \<longleftrightarrow> bit v k" by (subst bit_eq_iff) (auto simp: bit_and_iff bit_power_iff)
  then show ?thesis by (simp add: enum_flags_test_def)
qed

lemma enum_flags_contains_bits:
  assumes "is_flags E" "enum_count E > 0" "is_sparse E \<or> 1 \<in> set (enum_values E)"
  shows "enum_flags_contains E v \<longleftrightarrow> v \<noteq> 0 \<and> (\<forall>n. bit v n \<longrightarrow> n \<in> flag_bits E)"
  using enum_flags_cast_iff[OF assms, of v] ors_members_iff[OF assms(1), of v]
  by (cases "enum_flags_cast E v") (auto simp: enum_flags_contains_def)

text \<open>The operators on values of a flags enumeration are the set operations on its flags: for every
  enumerator, union, intersection, symmetric difference and complement contain it as they should;
  and they stay inside the enumeration: from unions of flags they make unions of flags, or nothing.
  The complement itself has bits that are no flags; intersected with a union of flags it has none.\<close>

theorem flag_operators:
  assumes "is_flags E" "enum_count E > 0" "is_sparse E \<or> 1 \<in> set (enum_values E)" "u_max E \<noteq> 1"
    "h \<in> set (enum_values E)" "enum_flags_contains E v" "enum_flags_contains E w"
  shows "(enum_flags_test (enum_or v w) h \<longleftrightarrow> enum_flags_test v h \<or> enum_flags_test w h) \<and>
    (enum_flags_test (enum_and v w) h \<longleftrightarrow> enum_flags_test v h \<and> enum_flags_test w h) \<and>
    (enum_flags_test (enum_xor v w) h \<longleftrightarrow> enum_flags_test v h \<noteq> enum_flags_test w h) \<and>
    (enum_flags_test (enum_not E v) h \<longleftrightarrow> \<not> enum_flags_test v h) \<and>
    (\<forall>u\<in>{enum_or v w, enum_and v w, enum_xor v w, enum_and v (enum_not E w)}. u = 0 \<or> enum_flags_contains E u) \<and>
    enum_flags_contains E (enum_or v w)"
proof -
  obtain k where h: "h = 2 ^ k" using flag_power[OF assms(1,5)] by blast
  note t = test_flag_bit[OF assms(1) assms(5)[unfolded h], folded h]
  note c = enum_flags_contains_bits[OF assms(1-3)]
  have bits: "n \<in> flag_bits E" if "bit v n \<or> bit w n" for n using that assms(6,7) unfolding c by blast
  have "k < u_digits E"
    using assms(1,5) unfolding h by (auto simp: set_enum_values reflectable_def)
  then have "bit (enum_not E v) k \<longleftrightarrow> \<not> bit v k"
    using assms(4) by (simp add: enum_not_def bit_not_iff bit_take_bit_iff)
  moreover have "enum_or v w \<noteq> 0" using assms(6) unfolding c by (auto simp: enum_or_def or_eq_0_iff)
  moreover have "u = 0 \<or> enum_flags_contains E u"
    if "u \<in> {enum_or v w, enum_and v w, enum_xor v w, enum_and v (enum_not E w)}" for u
    using that bits unfolding c
    by (auto simp: enum_or_def enum_and_def enum_xor_def bit_or_iff bit_and_iff bit_xor_iff)
  ultimately show ?thesis
    unfolding t by (auto simp: enum_or_def enum_and_def enum_xor_def bit_or_iff bit_and_iff bit_xor_iff)
qed

lemma flag_operators_witness:
  "enum_flags_test (enum_not access 3) 8 \<and> enum_flags_contains access (enum_or 3 9)"
proof -
  have "enum_flags_contains access 3" "enum_flags_contains access 9" unfolding enum_flags_contains_def by code_simp+
  moreover have "u_max access \<noteq> 1" "\<not> enum_flags_test 3 8" by (simp_all add: access_def enum_flags_test_def)
  ultimately show ?thesis
    using flag_operators[of access 8 3 9] by (simp add: access_table)
qed

section \<open>Formatting\<close>

definition format_as :: "(int \<Rightarrow> string) \<Rightarrow> enum_type \<Rightarrow> int \<Rightarrow> string" where
  "format_as to_str E e =
     (if is_flags E then
        (let name = enum_flags_name E e CHR ''|'' in if name \<noteq> [] then name else to_str e)
      else
        (let name = enum_name E e in if name \<noteq> [] then name else to_str e))"

text \<open>Formatting and streams agree.\<close>

lemma format_as_text_of: "format_as to_str E e = text_of to_str E e"
  by (simp add: format_as_def text_of_def)

end
