(* ===== verification/Comm_Macros.thy ===== *)
theory Comm_Macros
  imports Prelude
begin

text \<open>
  The macros of \<open>comm\<close> with behaviour of their own: \<open>DEFER\<close> with its \<open>ScopeGuard\<close> (\<open>defer.hpp\<close>), the checks
  of \<open>error_check.hpp\<close> and \<open>assert.hpp\<close>, and the bit flags of \<open>performance.hpp\<close>. A function body is a list
  of statements; the ones that are not macros are arbitrary changes of the state, returns, exceptions
  and inner scopes. \<open>DEFER\<close> is proved to be \<open>try ... finally\<close> around the rest of its scope.
\<close>

section \<open>Function bodies\<close>

text \<open>How a body is left: at its end, by \<open>return\<close>, by an exception, by \<open>std::abort\<close> with the text it
  prints, or by \<open>std::terminate\<close>.\<close>

datatype 'r exit_kind = Fell_through | Returned 'r | Threw | Aborted string | Terminated

text \<open>A condition may change the state. A deferred action that throws is \<open>None\<close>.\<close>

datatype ('s, 'r) stm =
    Step "'s \<Rightarrow> 's"
  | Return "'s \<Rightarrow> 'r"
  | Throw
  | Scope "('s, 'r) stm list"
  | Defer "'s \<Rightarrow> 's option"
  | Check "'s \<Rightarrow> 's \<times> bool" string
  | Assert "'s \<Rightarrow> 's \<times> bool" string
  | Try_or_return "'s \<Rightarrow> 's \<times> bool" "'s \<Rightarrow> 'r"

text \<open>The destructors of the guards of a scope run in the reverse order of their declaration. Each calls
  its function; a destructor must not throw. Aborting runs no destructor.\<close>

fun run_guards :: "('s \<Rightarrow> 's option) list \<Rightarrow> 's \<Rightarrow> 'r exit_kind \<Rightarrow> 's \<times> 'r exit_kind" where
  "run_guards [] s e = (s, e)"
| "run_guards (fn # guards) s e = (case fn s of Some s' \<Rightarrow> run_guards guards s' e | None \<Rightarrow> (s, Terminated))"

fun halted :: "'r exit_kind \<Rightarrow> bool" where
  "halted (Aborted _) = True"
| "halted Terminated = True"
| "halted _ = False"

text \<open>What a checking macro does: the state behind its condition, and the exit it takes if any.
  \<open>CHECK\<close> prints its text also in a release build; \<open>ASSERT\<close> is then empty.\<close>

definition CHECK :: "('s \<Rightarrow> 's \<times> bool) \<Rightarrow> string \<Rightarrow> 's \<Rightarrow> 's \<times> 'r exit_kind option" where
  "CHECK c expr s =
     (case c s of (s', b) \<Rightarrow> (s', if \<not> b then Some (Aborted (''Check failed: '' @ expr)) else None))"

definition ASSERT_MSG :: "bool \<Rightarrow> ('s \<Rightarrow> 's \<times> bool) \<Rightarrow> string \<Rightarrow> 's \<Rightarrow> 's \<times> 'r exit_kind option" where
  "ASSERT_MSG ndebug c msg s =
     (if ndebug then (s, None)
      else (case c s of (s', b) \<Rightarrow> (s', if \<not> b then Some (Aborted msg) else None)))"

definition TRY_OR_RETURN :: "('s \<Rightarrow> 's \<times> bool) \<Rightarrow> ('s \<Rightarrow> 'r) \<Rightarrow> 's \<Rightarrow> 's \<times> 'r exit_kind option" where
  "TRY_OR_RETURN c err s =
     (case c s of (res, b) \<Rightarrow> (res, if \<not> b then Some (Returned (err res)) else None))"

definition leave_scope :: "('s \<Rightarrow> 's option) list \<Rightarrow> 's \<Rightarrow> 'r exit_kind \<Rightarrow> 's \<times> 'r exit_kind" where
  "leave_scope guards s e = (if halted e then (s, e) else run_guards guards s e)"

fun run_scope :: "bool \<Rightarrow> ('s, 'r) stm list \<Rightarrow> ('s \<Rightarrow> 's option) list \<Rightarrow> 's \<Rightarrow> 's \<times> 'r exit_kind" where
  "run_scope ndebug [] guards s = run_guards guards s Fell_through"
| "run_scope ndebug (Step f # rest) guards s = run_scope ndebug rest guards (f s)"
| "run_scope ndebug (Return f # rest) guards s = run_guards guards s (Returned (f s))"
| "run_scope ndebug (Throw # rest) guards s = run_guards guards s Threw"
| "run_scope ndebug (Scope body # rest) guards s =
     (case run_scope ndebug body [] s of
        (s', Fell_through) \<Rightarrow> run_scope ndebug rest guards s'
      | (s', e) \<Rightarrow> leave_scope guards s' e)"
| "run_scope ndebug (Defer fn # rest) guards s = run_scope ndebug rest (fn # guards) s"
| "run_scope ndebug (Check c txt # rest) guards s =
     (case CHECK c txt s of (s', Some e) \<Rightarrow> leave_scope guards s' e | (s', None) \<Rightarrow> run_scope ndebug rest guards s')"
| "run_scope ndebug (Assert c txt # rest) guards s =
     (case ASSERT_MSG ndebug c txt s of
        (s', Some e) \<Rightarrow> leave_scope guards s' e
      | (s', None) \<Rightarrow> run_scope ndebug rest guards s')"
| "run_scope ndebug (Try_or_return c err # rest) guards s =
     (case TRY_OR_RETURN c err s of
        (s', Some e) \<Rightarrow> leave_scope guards s' e
      | (s', None) \<Rightarrow> run_scope ndebug rest guards s')"

definition run_function :: "bool \<Rightarrow> ('s, 'r) stm list \<Rightarrow> 's \<Rightarrow> 's \<times> 'r exit_kind" where
  "run_function ndebug body s = run_scope ndebug body [] s"

section \<open>The same with try and finally\<close>

definition try_finally :: "('s \<Rightarrow> 's option) \<Rightarrow> 's \<times> 'r exit_kind \<Rightarrow> 's \<times> 'r exit_kind" where
  "try_finally fn r =
     (case r of (s, e) \<Rightarrow>
        if halted e then (s, e) else (case fn s of Some s' \<Rightarrow> (s', e) | None \<Rightarrow> (s, Terminated)))"

definition and_then :: "'s \<times> 'r exit_kind \<Rightarrow> ('s \<Rightarrow> 's \<times> 'r exit_kind) \<Rightarrow> 's \<times> 'r exit_kind" where
  "and_then r f = (case r of (s, Fell_through) \<Rightarrow> f s | (s, e) \<Rightarrow> (s, e))"

fun nested :: "bool \<Rightarrow> ('s, 'r) stm list \<Rightarrow> 's \<Rightarrow> 's \<times> 'r exit_kind" where
  "nested ndebug [] s = (s, Fell_through)"
| "nested ndebug (Step f # rest) s = nested ndebug rest (f s)"
| "nested ndebug (Return f # rest) s = (s, Returned (f s))"
| "nested ndebug (Throw # rest) s = (s, Threw)"
| "nested ndebug (Scope body # rest) s = and_then (nested ndebug body s) (nested ndebug rest)"
| "nested ndebug (Defer fn # rest) s = try_finally fn (nested ndebug rest s)"
| "nested ndebug (Check c txt # rest) s =
     (let (s', b) = c s in if b then nested ndebug rest s' else (s', Aborted (''Check failed: '' @ txt)))"
| "nested ndebug (Assert c txt # rest) s =
     (if ndebug then nested ndebug rest s
      else (let (s', b) = c s in if b then nested ndebug rest s' else (s', Aborted txt)))"
| "nested ndebug (Try_or_return c err # rest) s =
     (let (s', b) = c s in if b then nested ndebug rest s' else (s', Returned (err s')))"

lemma run_scope_nested:
  "run_scope ndebug body guards s =
    (case nested ndebug body s of (s', e) \<Rightarrow> leave_scope guards s' e)"
proof (induction ndebug body guards s rule: run_scope.induct)
  case (5 ndebug body rest guards s)
  obtain s' e where n: "nested ndebug body s = (s', e)" by fastforce
  then have r: "run_scope ndebug body [] s = (s', e)" using "5.IH"(1) by (simp add: leave_scope_def split: if_splits)
  then show ?case using n "5.IH"(2) by (cases e) (auto simp: and_then_def leave_scope_def)
next
  case (6 ndebug fn rest guards s)
  then show ?case by (auto simp: try_finally_def leave_scope_def split: prod.split option.split)
qed (auto simp: CHECK_def ASSERT_MSG_def TRY_OR_RETURN_def leave_scope_def split: prod.split)

text \<open>Assertions are removed from a release build, with their conditions; this makes no difference where
  the conditions hold and change nothing.\<close>

fun harmless_asserts :: "('s, 'r) stm list \<Rightarrow> bool" where
  "harmless_asserts [] = True"
| "harmless_asserts (Assert c _ # rest) = ((\<forall>s. c s = (s, True)) \<and> harmless_asserts rest)"
| "harmless_asserts (Scope body # rest) = (harmless_asserts body \<and> harmless_asserts rest)"
| "harmless_asserts (_ # rest) = harmless_asserts rest"

lemma nested_builds: "harmless_asserts body \<Longrightarrow> nested True body s = nested False body s"
proof (induction body arbitrary: s rule: harmless_asserts.induct)
  case (3 body rest)
  then have "nested True rest = nested False rest" by auto
  then show ?case using 3 by simp
qed (auto split: prod.split)

text \<open>C37: a function body with \<open>DEFER\<close> runs as if every \<open>DEFER\<close> were a \<open>finally\<close> around the statements behind
  it in its scope: on every way out, by the end, a \<open>return\<close>, a failed \<open>TRY_OR_RETURN\<close> or an exception, the
  actions declared so far run once each, the last one first, behind the statements before the exit and
  before anything outside the scope; a failed check aborts without them, and one that throws ends the
  program. Debug and release builds agree if assertions hold and have no effect.\<close>

theorem defer_is_finally:
  "run_function ndebug body s = nested ndebug body s \<and>
   (harmless_asserts body \<longrightarrow> run_function True body s = run_function False body s)"
proof -
  have run: "run_function b body s = nested b body s" for b
    by (simp add: run_function_def run_scope_nested leave_scope_def split: prod.split)
  then show ?thesis using nested_builds[of body s] by simp
qed

definition example_body :: "(nat list, nat) stm list" where
  "example_body =
     [Step (\<lambda>l. l @ [1]), Defer (\<lambda>l. Some (l @ [2])), Assert (\<lambda>l. (l, True)) ''ok'',
      Scope [Defer (\<lambda>l. Some (l @ [3])), Step (\<lambda>l. l @ [4])], Defer (\<lambda>l. Some (l @ [5])),
      Try_or_return (\<lambda>l. (l @ [6], False)) length, Step (\<lambda>l. l @ [7])]"

lemma defer_is_finally_witness:
  "run_function True example_body [] = ([1, 4, 3, 6, 5, 2], Returned 4) \<and>
   run_function True example_body [] = run_function False example_body []"
proof -
  have "nested True example_body [] = ([1, 4, 3, 6, 5, 2], Returned 4)" "harmless_asserts example_body"
    by (simp_all add: example_body_def and_then_def try_finally_def)
  then show ?thesis using defer_is_finally[of True example_body "[]"] by metis
qed

section \<open>Bit flags\<close>

text \<open>A shift by the width or more is undefined. The macros do not put parentheses around every
  parameter: \<open>HAS_BIT\<close> expands to \<open>((flags & (bit)) != 0)\<close>.\<close>

definition BIT :: "nat \<Rightarrow> 64 word option" where
  "BIT x = (if x < 64 then Some (push_bit x 1) else None)"

definition HAS_BIT :: "64 word \<Rightarrow> 64 word \<Rightarrow> bool" where
  "HAS_BIT flags b \<longleftrightarrow> flags AND b \<noteq> 0"

definition SET_BIT :: "64 word \<Rightarrow> 64 word \<Rightarrow> 64 word" where
  "SET_BIT flags b = flags OR b"

definition CLEAR_BIT :: "64 word \<Rightarrow> 64 word \<Rightarrow> 64 word" where
  "CLEAR_BIT flags b = flags AND NOT b"

text \<open>The expansion of \<open>HAS_BIT(f | g, bit)\<close>, where \<open>&\<close> binds tighter.\<close>

definition HAS_BIT_of_or :: "64 word \<Rightarrow> 64 word \<Rightarrow> 64 word \<Rightarrow> bool" where
  "HAS_BIT_of_or f g b \<longleftrightarrow> f OR (g AND b) \<noteq> 0"

lemma HAS_BIT_iff: "BIT n = Some b \<Longrightarrow> HAS_BIT f b \<longleftrightarrow> bit f n"
  by (auto simp: HAS_BIT_def BIT_def bit_iff_and_push_bit_not_eq_0 split: if_splits)

text \<open>Setting and clearing change one flag and leave the others.\<close>

lemma flag_updates:
  assumes "BIT n = Some a" "BIT m = Some b"
  shows "HAS_BIT (SET_BIT f a) b \<longleftrightarrow> n = m \<or> HAS_BIT f b" "HAS_BIT (CLEAR_BIT f a) b \<longleftrightarrow> n \<noteq> m \<and> HAS_BIT f b"
    "HAS_BIT_of_or 4 0 1" "\<not> HAS_BIT (4 OR 0) 1"
  using assms unfolding HAS_BIT_iff[OF assms(2)]
  by (auto simp: SET_BIT_def CLEAR_BIT_def BIT_def HAS_BIT_of_or_def HAS_BIT_def bit_simps split: if_splits)

end
