(* ===== verification/Spec2Isabelle.thy ===== *)
theory Spec2Isabelle
  imports Lock_Free_Queue_Concurrent Bus_Types Async_Wait Bus_Threads Backpressure Broker Logging Snapshot_Users Name_Keys
    Hash_Switch Compiler_Names Enum_Operators Comm_Macros
begin

text \<open>
  LivioArk: the in-process message bus, the logging layer and the enumeration library, as models
  of the C++20 sources under \<open>src/include/livioark\<close> and \<open>src/src\<close>, with the properties that make them
  correct.

  \<^bold>\<open>The program.\<close> A client publishes typed messages on topics and subscribes handlers to topics or
  wildcard patterns. \<open>publish\<close> takes a message object from a pool, stamps it with the topic's
  identifier and puts a counted pointer into a bounded lock-free queue; when the queue is full one of
  five policies applies. One dispatcher thread, or a router with worker threads, takes the pointers
  out, and \<open>dispatchMessage\<close> calls the subscribers of the topic's slot and of every wildcard entry
  whose pattern matches. Beside the bus stand a logging layer over spdlog and \<open>magic_enum\<close>, the
  reflection of enumerations with its containers.

  \<^bold>\<open>The bus.\<close>
  \<^item> \<open>Prelude\<close> names the machine types and holds facts shared by all theories.
  \<^item> \<open>Bounded_Fifo\<close> is the contract between a bounded queue and its users, a locale; \<open>Lock_Free_Queue\<close>
    (\<open>msgbus/lock_free_queue.h\<close>) models the queue access by access and interprets the contract for
    one thread; \<open>Lock_Free_Queue_Concurrent\<close> runs any number of threads on one queue: tickets, values
    in ticket order, exclusive cells, lone progress, the meaning of the full and empty reports.
  \<^item> \<open>Topic_Matcher\<close> (\<open>topic_matcher.h\<close>): wildcard matching and topic validation against a semantics on
    levels. \<open>Topic_Registry\<close> (\<open>topic_registry.h\<close>): identifiers of topics, under concurrent calls.
  \<^item> \<open>Subscription_Index\<close> is the contract of a holder of subscriptions, a locale, interpreted by
    \<open>Topic_Slot\<close> (\<open>topic_slot.h\<close>, \<open>subscriber.h\<close>) and \<open>Wildcard_Trie\<close> (\<open>wildcard_trie.h\<close>); the trie finds
    exactly what a linear scan with the matcher finds.
  \<^item> \<open>Object_Pool\<close> (\<open>object_pool.h\<close>) and \<open>Message\<close> (\<open>message.h\<close>, the pools of \<open>message_bus.h\<close>): messages on
    an explicit heap, reference counts, recycling; programs over message pointers are memory-safe.
  \<^item> \<open>Bus_Publish\<close>, \<open>Bus_Subscribe\<close> (\<open>message_bus.h\<close>): construction, publishing with all policies,
    subscription and dispatch as a refinement of a list of live subscriptions. \<open>Bus_Types\<close>: no handler
    is called with a message of another type, also when handlers call the bus. \<open>Snapshot_Cell\<close>: the
    copy-on-write protocol of the trie, the slots and the slot map between any number of threads, with the
    locale \<open>snapshot_cell\<close> for what an update promises; \<open>Snapshot_Users\<close> interprets it for all three: a match
    or dispatch works on one consistent state, and a topic never gets two slots. \<open>Async_Wait\<close>: the
    coroutine interface. \<open>Bus_Threads\<close>: start, stop, dispatcher, router and workers as a step relation;
    order and completeness of delivery, draining, and the end of \<open>stop\<close>. \<open>Backpressure\<close>: publishers
    asleep on \<open>cv_not_full_\<close>, who wakes them, and the notification that can be lost.
  \<^item> \<open>Broker\<close> puts the bus together: every run of clients and one dispatcher, with handlers that publish
    themselves, refines an abstract broker of subscriptions and pending publications, whose queue has
    the capacity rounded up to a power of two; and the loop after \<open>stop\<close> delivers all that is left.

  \<^bold>\<open>Logging.\<close> \<open>Logging\<close> (\<open>log/log.hpp\<close>, \<open>src/log/log.cpp\<close>, and the parts of spdlog's \<open>logger\<close> they use)
  refines an abstract log of thresholds and written messages; the lock-free filter, failing
  initialisation and the once-only macro have theorems of their own.

  \<^bold>\<open>Enumerations\<close> (\<open>comm/magic_enum\<close>). \<open>Enum_Reflection\<close>: names from the compiler's text, the table of
  values, indices, casts, stepping; \<open>Compiler_Names\<close>: the other compilers' texts and the names of types.
  \<open>Enum_Flags\<close>: sets of flags and their names. \<open>Enum_Utility\<close>: switch, fuse, streams; \<open>Enum_Operators\<close>:
  bitwise operators, comparison across integral types, formatting. \<open>Name_Hash\<close> and \<open>Hash_Switch\<close>: the
  optional \<open>switch\<close> over hashes built at compile time, against the searching loops it replaces. \<open>Enum_Indexing\<close>: the index types, with their contracts as the locales \<open>index_type\<close> and
  \<open>sorted_index\<close>, interpreted for the enumeration's own table and for any comparator. \<open>Enum_Array\<close>,
  \<open>Enum_Bitset\<close>, \<open>Enum_Set\<close>: the containers, proved inside these contracts; the set keeps the contract
  \<open>set_contract\<close>, under which every sequence of operations agrees with an abstract set. \<open>Set_Lookup\<close>: the
  set's operations for keys of another type. \<open>Container_Rest\<close>: the members made of others, with what a
  bitset written to a stream is read back as. \<open>Name_Keys\<close>: sets ordered by names and searched with a string.

  \<^bold>\<open>Small headers.\<close> \<open>Comm_Macros\<close> (\<open>comm/defer.hpp\<close>, \<open>error_check.hpp\<close>, \<open>assert.hpp\<close>, \<open>performance.hpp\<close>): scope
  guards, checks and bit flags in function bodies.

  \<^bold>\<open>How the code is represented.\<close> Positions of the queue are 64-bit words, topic identifiers 32-bit
  words, enumeration values and bitset words integers kept in the range of their type. Shared objects
  (slots, messages, loggers) live in stores addressed by numbers. Errors and exceptions are values of
  sum or option types; \<open>None\<close> is undefined behaviour or a call that does not return, and each theory says
  which. Interleaved code is a step relation whose steps are single accesses to shared memory or
  critical sections; handlers, clocks, the compiler's text and file sinks are parameters.

  \<^bold>\<open>Bounds.\<close> The concurrent queue is proved for fewer than \<open>2 ^ 63\<close> enqueues less the capacity, after
  which a stale position could equal a current one; reference counts are unbounded integers; memory
  accesses are sequentially consistent. Retry loops of the queue are \<open>partial_function\<close>s without fuel,
  and their return is proved; all other loops are total functions with a measure.

  \<^bold>\<open>Where the code does not do what it means to\<close>, a lemma shows it beside the theorem it limits, for
  example \<open>notification_does_not_wake\<close>, \<open>early_handler_leaks\<close>, \<open>off_always_logged\<close>, \<open>foreign_bits_accepted\<close>,
  \<open>lower_bound_misses\<close>, \<open>all_wrong_for_eight\<close>, \<open>string_constructor_keeps_memory\<close>, \<open>bounds_skip_a_member\<close>,
  \<open>erase_empty_range_undefined\<close>, \<open>erase_by_key_erases_others\<close>, \<open>names_may_not_compile\<close>,
  \<open>lost_wakeup\<close> and \<open>fuse_collision\<close>.

  \<^bold>\<open>Not modelled.\<close> Weak memory orders; the template machinery that only selects types at compile time
  (\<open>enable_if\<close>, common result types of \<open>enum_switch\<close>) and the \<open>prefix_length\<close> customisation, taken as 0;
  reverse iterators, which are the standard adaptor; text layout of log lines; attributes, platform
  detection, prefetching and deleted members in \<open>comm\<close>, and the function-local static of \<open>Singleton\<close>;
  examples, tests and build files.
\<close>

end
